(* ===== verification/Swig_Prelude.thy ===== *)
theory Swig_Prelude
  imports Main "HOL-Library.Char_ord" "HOL-Library.Word"
begin

text \<open>
  Shared vocabulary of the development: the outcomes of C code that can stop the process
  (\<open>fatal\<close>, \<open>res\<close>), C strings with a pointer into them represented by the text that is
  left to read, the part of \<^verbatim>\<open>string.h\<close> and \<^verbatim>\<open>ctype.h\<close> the sources call
  (in the "C" locale), and the lemma collections the component theories extend.
\<close>

section \<open>Lemma collections\<close>

named_theorems swig_str \<open>rewriting of the C string functions on concatenated text\<close>
named_theorems swig_wf \<open>preservation of the data structure invariants\<close>
named_theorems swig_abs \<open>effect of an operation on the abstract value\<close>

section \<open>Outcomes\<close>

text \<open>
  The ways a C function of the sources ends without returning: a failed \<^verbatim>\<open>assert\<close>, a call
  of \<^verbatim>\<open>abort()\<close> or \<^verbatim>\<open>exit()\<close>, an access through a null pointer, an access outside an
  array, a use of an object that was destroyed, a loop that does not stop, and an operation whose
  behaviour the language leaves undefined (a signed overflow, a shift by the word length).
\<close>

datatype fatal = AssertFailed | Aborted | Exited int | NullDeref | OutOfBounds | UseAfterFree | Diverges | Undefined

type_synonym 'a res = "fatal + 'a"

definition res_bind :: "'a res \<Rightarrow> ('a \<Rightarrow> 'b res) \<Rightarrow> 'b res" where
  "res_bind r f = (case r of Inl e \<Rightarrow> Inl e | Inr x \<Rightarrow> f x)"

lemma res_bind_simps [simp]:
  "res_bind (Inl e) f = Inl e"
  "res_bind (Inr x) f = f x"
  by (simp_all add: res_bind_def)

lemma res_bind_eq_Inr: "res_bind r f = Inr y \<longleftrightarrow> (\<exists>x. r = Inr x \<and> f x = Inr y)"
  by (cases r) auto

lemma res_bind_eq_Inl: "res_bind r f = Inl e \<longleftrightarrow> r = Inl e \<or> (\<exists>x. r = Inr x \<and> f x = Inl e)"
  by (cases r) auto

section \<open>Characters (ctype.h)\<close>

definition cc :: "char \<Rightarrow> nat" where
  "cc c = of_char c"

definition isdigit :: "char \<Rightarrow> bool" where
  "isdigit c \<longleftrightarrow> 48 \<le> cc c \<and> cc c \<le> 57"

definition isupper :: "char \<Rightarrow> bool" where
  "isupper c \<longleftrightarrow> 65 \<le> cc c \<and> cc c \<le> 90"

definition islower :: "char \<Rightarrow> bool" where
  "islower c \<longleftrightarrow> 97 \<le> cc c \<and> cc c \<le> 122"

definition isalpha :: "char \<Rightarrow> bool" where
  "isalpha c \<longleftrightarrow> isupper c \<or> islower c"

definition isalnum :: "char \<Rightarrow> bool" where
  "isalnum c \<longleftrightarrow> isalpha c \<or> isdigit c"

definition isspace :: "char \<Rightarrow> bool" where
  "isspace c \<longleftrightarrow> cc c = 32 \<or> (9 \<le> cc c \<and> cc c \<le> 13)"

definition toupper :: "char \<Rightarrow> char" where
  "toupper c = (if islower c then char_of (cc c - 32) else c)"

definition tolower :: "char \<Rightarrow> char" where
  "tolower c = (if isupper c then char_of (cc c + 32) else c)"

lemmas ctype_defs = cc_def isdigit_def isupper_def islower_def isalpha_def isalnum_def isspace_def
  toupper_def tolower_def

lemma cc_inject: "cc a = cc b \<longleftrightarrow> a = b"
  by (simp add: cc_def)

lemma cc_bound: "cc c < 256"
  unfolding cc_def by (cases c) (simp add: of_char_def)

lemma cc_char_of: "n < 256 \<Longrightarrow> cc (char_of n) = n"
  by (simp add: cc_def)

lemma toupper_idem: "toupper (toupper c) = toupper c"
  using cc_bound[of c] by (auto simp: toupper_def islower_def cc_char_of)

lemma tolower_idem: "tolower (tolower c) = tolower c"
  using cc_bound[of c] by (auto simp: tolower_def isupper_def cc_char_of)

lemma tolower_toupper: "tolower (toupper c) = tolower c"
proof -
  have "char_of (cc c) = c" by (simp add: cc_def)
  then show ?thesis
    using cc_bound[of c] by (auto simp: tolower_def toupper_def isupper_def islower_def cc_char_of)
qed

section \<open>C strings (string.h)\<close>

text \<open>
  A \<^verbatim>\<open>char *\<close> into a null-terminated text is the list of characters from there to the
  terminator: \<^verbatim>\<open>*c == 0\<close> is \<open>c = []\<close>, \<^verbatim>\<open>c + 1\<close> is the tail, and the distance of two
  pointers into the same text is the difference of the lengths.
\<close>

type_synonym cstr = string

definition starts_with :: "string \<Rightarrow> string \<Rightarrow> bool" where
  \<comment> \<open>\<^verbatim>\<open>strncmp(c, lit, strlen(lit)) == 0\<close>\<close>
  "starts_with p c \<longleftrightarrow> take (length p) c = p"

lemma starts_with_simps [simp]:
  "starts_with [] c"
  "\<not> starts_with (x # xs) []"
  "starts_with (x # xs) (y # ys) \<longleftrightarrow> x = y \<and> starts_with xs ys"
  by (auto simp: starts_with_def)

lemma starts_with_append [simp]: "starts_with p (p @ r)"
  by (simp add: starts_with_def)

lemma starts_with_iff: "starts_with p c \<longleftrightarrow> (\<exists>r. c = p @ r)"
  by (metis append_eq_conv_conj append_take_drop_id starts_with_def)

fun strchr :: "string \<Rightarrow> char \<Rightarrow> string option" where
  "strchr [] ch = None"
| "strchr (x # xs) ch = (if x = ch then Some (x # xs) else strchr xs ch)"

fun strstr :: "string \<Rightarrow> string \<Rightarrow> string option" where
  "strstr [] tok = (if tok = [] then Some [] else None)"
| "strstr (x # xs) tok = (if starts_with tok (x # xs) then Some (x # xs) else strstr xs tok)"

fun strpbrk :: "string \<Rightarrow> string \<Rightarrow> string option" where
  "strpbrk [] accept = None"
| "strpbrk (x # xs) accept = (if x \<in> set accept then Some (x # xs) else strpbrk xs accept)"

definition ptr_diff :: "string \<Rightarrow> string \<Rightarrow> nat" where
  \<comment> \<open>\<^verbatim>\<open>c - s\<close> for a pointer \<open>c\<close> at or after \<open>s\<close> in the same text\<close>
  "ptr_diff c s = length s - length c"

lemma strchr_append [swig_str]: "ch \<notin> set xs \<Longrightarrow> strchr (xs @ ch # ys) ch = Some (ch # ys)"
  by (induction xs) auto

lemma strchr_None_iff [swig_str]: "strchr xs ch = None \<longleftrightarrow> ch \<notin> set xs"
  by (induction xs) auto

lemma strchr_SomeD: "strchr xs ch = Some r \<Longrightarrow> \<exists>p. xs = p @ r \<and> ch \<notin> set p \<and> r \<noteq> [] \<and> hd r = ch"
proof (induction xs)
  case (Cons x xs)
  show ?case
  proof (cases "x = ch")
    case True
    with Cons.prems show ?thesis by auto
  next
    case False
    with Cons obtain p where "xs = p @ r" "ch \<notin> set p" "r \<noteq> []" "hd r = ch" by auto
    with False show ?thesis by (intro exI[of _ "x # p"]) auto
  qed
qed simp

lemma strstr_SomeD: "strstr xs tok = Some r \<Longrightarrow> \<exists>p. xs = p @ r \<and> starts_with tok r"
proof (induction xs)
  case (Cons x xs)
  show ?case
  proof (cases "starts_with tok (x # xs)")
    case True
    with Cons.prems show ?thesis by auto
  next
    case False
    with Cons obtain p where "xs = p @ r" "starts_with tok r" by auto
    then show ?thesis by (intro exI[of _ "x # p"]) auto
  qed
qed (auto split: if_splits)

lemma strstr_None: "strstr xs tok = None \<longleftrightarrow> (\<forall>p r. xs = p @ r \<longrightarrow> \<not> starts_with tok r)"
proof (induction xs)
  case Nil
  then show ?case by (cases tok) auto
next
  case (Cons x xs)
  show ?case
  proof
    assume n: "strstr (x # xs) tok = None"
    show "\<forall>p r. x # xs = p @ r \<longrightarrow> \<not> starts_with tok r"
      using n Cons by (auto split: if_splits simp: Cons_eq_append_conv)
  next
    assume "\<forall>p r. x # xs = p @ r \<longrightarrow> \<not> starts_with tok r"
    then have "\<not> starts_with tok (x # xs)" and "\<forall>p r. xs = p @ r \<longrightarrow> \<not> starts_with tok r"
      by (metis append_Nil, metis append_Cons)
    with Cons show "strstr (x # xs) tok = None" by simp
  qed
qed

section \<open>Nesting of parentheses\<close>

text \<open>
  \<open>topfree d n s\<close>: from nesting depth \<open>n\<close> the parentheses of \<open>s\<close> close exactly and the
  separator \<open>d\<close> does not occur outside them. It is the well-formedness of one element of a
  separated text whose elements may nest.
\<close>

fun topfree :: "char \<Rightarrow> nat \<Rightarrow> string \<Rightarrow> bool" where
  "topfree d n [] \<longleftrightarrow> n = 0"
| "topfree d n (x # xs) \<longleftrightarrow>
     (if x = CHR ''('' then topfree d (Suc n) xs
      else if x = CHR '')'' then 0 < n \<and> topfree d (n - 1) xs
      else (n = 0 \<longrightarrow> x \<noteq> d) \<and> topfree d n xs)"

fun balanced :: "nat \<Rightarrow> string \<Rightarrow> bool" where
  "balanced n [] \<longleftrightarrow> n = 0"
| "balanced n (x # xs) \<longleftrightarrow>
     (if x = CHR ''('' then balanced (Suc n) xs
      else if x = CHR '')'' then 0 < n \<and> balanced (n - 1) xs
      else balanced n xs)"

lemma topfree_balanced: "topfree d n s \<Longrightarrow> balanced n s"
  by (induction d n s rule: topfree.induct) (auto split: if_splits)

lemma balanced_append: "balanced n s \<Longrightarrow> balanced m t \<Longrightarrow> balanced (n + m) (s @ t)"
  by (induction n s arbitrary: m rule: balanced.induct) (auto split: if_splits)

lemma topfree_append: "topfree d n s \<Longrightarrow> topfree d 0 t \<Longrightarrow> topfree d n (s @ t)"
  by (induction d n s rule: topfree.induct) (auto split: if_splits)

lemma topfree_paren: "balanced n s \<Longrightarrow> topfree d 0 t \<Longrightarrow> topfree d (Suc n) (s @ CHR '')'' # t)"
  by (induction n s rule: balanced.induct) (auto split: if_splits)

lemma topfree_atom: "set s \<inter> {d, CHR ''('', CHR '')''} = {} \<Longrightarrow> topfree d 0 s"
  by (induction s) auto

section \<open>Lists\<close>

lemma drop_length_append [simp]: "drop (length xs + n) (xs @ ys) = drop n ys"
  by simp

lemma list_update_append_length: "(xs @ y # ys)[length xs := z] = xs @ z # ys"
  by simp

end
