(* ===== verification/Doh_String.thy ===== *)
theory Doh_String
  imports Swig_Prelude
begin

text \<open>
  The String object of \<^verbatim>\<open>Source/DOH/string.c\<close>: a growable character buffer that is at the
  same time a sequence (insert, delete, slice) and a file (position, line counter). The
  record keeps every field of \<^verbatim>\<open>struct String\<close>; \<open>str_buf\<close> is the whole allocated block, so
  its length is the number of bytes the allocator gave and an access outside it is the
  outcome \<open>OutOfBounds\<close>. Bytes that a \<^verbatim>\<open>malloc\<close> or \<^verbatim>\<open>realloc\<close> leaves uninitialised are
  zero in the model; no operation reads them before writing them unless it is wrong.
  The second half proves, under the invariant \<open>wf_string\<close>, that every operation stays
  inside the buffer, keeps the invariant, and computes the list operation its name says.
\<close>

section \<open>Memory blocks\<close>

abbreviation NUL :: char where "NUL \<equiv> CHR 0x00"
abbreviation NL :: char where "NL \<equiv> CHR 0x0A"

definition memcpy_to :: "char list \<Rightarrow> int \<Rightarrow> char list \<Rightarrow> char list res" where
  "memcpy_to buf dst data =
     (if 0 \<le> dst \<and> nat dst + length data \<le> length buf
      then Inr (take (nat dst) buf @ data @ drop (nat dst + length data) buf)
      else Inl OutOfBounds)"

definition read_range :: "char list \<Rightarrow> int \<Rightarrow> int \<Rightarrow> char list res" where
  "read_range buf src n =
     (if 0 \<le> src \<and> 0 \<le> n \<and> nat src + nat n \<le> length buf
      then Inr (take (nat n) (drop (nat src) buf))
      else Inl OutOfBounds)"

definition memmove :: "char list \<Rightarrow> int \<Rightarrow> int \<Rightarrow> int \<Rightarrow> char list res" where
  "memmove buf dst src n = res_bind (read_range buf src n) (memcpy_to buf dst)"

definition peek :: "char list \<Rightarrow> int \<Rightarrow> char res" where
  "peek buf i = (if 0 \<le> i \<and> nat i < length buf then Inr (buf ! nat i) else Inl OutOfBounds)"

definition poke :: "char list \<Rightarrow> int \<Rightarrow> char \<Rightarrow> char list res" where
  "poke buf i c = memcpy_to buf i [c]"

definition alloc :: "int \<Rightarrow> char list" where
  "alloc n = replicate (nat n) NUL"

definition resize_block :: "char list \<Rightarrow> int \<Rightarrow> char list" where
  "resize_block buf n = take (nat n) buf @ replicate (nat n - length buf) NUL"

text \<open>
  \<^verbatim>\<open>s->str = DohRealloc(s->str, n); assert(s->str);\<close> where \<^verbatim>\<open>realloc\<close> of zero bytes gives
  the null pointer.
\<close>

definition realloc :: "char list \<Rightarrow> int \<Rightarrow> char list res" where
  "realloc buf n = (if n \<le> 0 then Inl AssertFailed else Inr (resize_block buf n))"

definition count_nl :: "char list \<Rightarrow> int" where
  "count_nl cs = int (length (filter (\<lambda>c. c = NL) cs))"

definition schar :: "char \<Rightarrow> int" where
  \<comment> \<open>the value of a plain (signed, 8 bit) \<^verbatim>\<open>char\<close>\<close>
  "schar c = (if cc c < 128 then int (cc c) else int (cc c) - 256)"

section \<open>The object\<close>

record String =
  str_file :: "nat option"
  str_line :: int
  str_maxsize :: int
  str_len :: int
  str_hashkey :: int
  str_sp :: int
  str_buf :: "char list"

text \<open>A \<^verbatim>\<open>DOHString_or_char *\<close> argument: a String object or a C string.\<close>

datatype doh_or_char = DStr String | CStr string

abbreviation (input) DOH_BEGIN :: int where "DOH_BEGIN \<equiv> -1"
abbreviation (input) DOH_END :: int where "DOH_END \<equiv> -2"
abbreviation (input) SEEK_SET :: int where "SEEK_SET \<equiv> 0"
abbreviation (input) SEEK_CUR :: int where "SEEK_CUR \<equiv> 1"
abbreviation (input) SEEK_END :: int where "SEEK_END \<equiv> 2"
abbreviation (input) INIT_MAXSIZE :: int where "INIT_MAXSIZE \<equiv> 16"

definition contents :: "String \<Rightarrow> char list" where
  "contents s = take (nat (str_len s)) (str_buf s)"

definition String_data :: "String \<Rightarrow> String res" where
  "String_data s = res_bind (poke (str_buf s) (str_len s) NUL) (\<lambda>b. Inr (s\<lparr>str_buf := b\<rparr>))"

text \<open>The bytes an argument supplies: \<^verbatim>\<open>newstr\<close> and \<^verbatim>\<open>l\<close> of the callers.\<close>

fun arg_bytes :: "doh_or_char \<Rightarrow> char list res" where
  "arg_bytes (DStr ss) = res_bind (String_data ss) (\<lambda>ss'. read_range (str_buf ss') 0 (str_len ss'))"
| "arg_bytes (CStr d) = Inr d"

definition CopyString :: "String \<Rightarrow> String res" where
  "CopyString s =
     res_bind (read_range (str_buf s) 0 (str_len s)) (\<lambda>d.
     res_bind (memcpy_to (alloc (str_len s + 1)) 0 d) (\<lambda>b.
     res_bind (poke b (str_len s) NUL) (\<lambda>b'.
     Inr \<lparr>str_file = str_file s, str_line = str_line s, str_maxsize = str_len s, str_len = str_len s,
          str_hashkey = str_hashkey s, str_sp = str_sp s, str_buf = b'\<rparr>)))"

definition String_len :: "String \<Rightarrow> int" where
  "String_len s = str_len s"

subsection \<open>Comparison and hashing\<close>

text \<open>The loop of \<^verbatim>\<open>String_cmp\<close>: the first differing pair among \<open>i\<close> characters.\<close>

fun String_cmp_loop :: "nat \<Rightarrow> char list \<Rightarrow> char list \<Rightarrow> (char \<times> char) option" where
  "String_cmp_loop 0 c1 c2 = None"
| "String_cmp_loop (Suc i) (x # xs) (y # ys) = (if x \<noteq> y then Some (x, y) else String_cmp_loop i xs ys)"
| "String_cmp_loop (Suc i) c1 c2 = None"

definition String_cmp :: "String \<Rightarrow> String \<Rightarrow> int" where
  "String_cmp s1 s2 =
     (let maxlen = (if str_len s2 < str_len s1 then str_len s2 else str_len s1)
      in case String_cmp_loop (nat maxlen) (str_buf s1) (str_buf s2) of
           Some (x, y) \<Rightarrow> if schar x < schar y then -1 else 1
         | None \<Rightarrow> if str_len s1 = str_len s2 then 0 else if str_len s1 > str_len s2 then 1 else -1)"

definition String_equal :: "String \<Rightarrow> String \<Rightarrow> bool" where
  "String_equal s1 s2 =
     (if str_len s1 \<noteq> str_len s2 then False
      else take (nat (str_len s1)) (str_buf s1) = take (nat (str_len s1)) (str_buf s2))"

definition hash_step :: "32 word \<Rightarrow> char \<Rightarrow> 32 word" where
  \<comment> \<open>\<^verbatim>\<open>h = (h << 5) + *(c++)\<close>\<close>
  "hash_step h c = push_bit 5 h + word_of_int (schar c)"

fun hash_loop4 :: "nat \<Rightarrow> 32 word \<Rightarrow> char list \<Rightarrow> 32 word \<times> char list" where
  "hash_loop4 (Suc i) h (a # b # c # d # r) =
     hash_loop4 i (hash_step (hash_step (hash_step (hash_step h a) b) c) d) r"
| "hash_loop4 i h r = (h, r)"

fun hash_loop1 :: "nat \<Rightarrow> 32 word \<Rightarrow> char list \<Rightarrow> 32 word" where
  "hash_loop1 (Suc i) h (a # r) = hash_loop1 i (hash_step h a) r"
| "hash_loop1 i h r = h"

definition compute_hash :: "int \<Rightarrow> char list \<Rightarrow> int" where
  "compute_hash n buf =
     (let len = (if n > 50 then 50 else nat n);
          mlen = len div 4;
          (h, c) = hash_loop4 mlen 0 buf;
          h' = hash_loop1 (len - 4 * mlen) h c
      in uint (and h' 0x7fffffff))"

definition String_hash :: "String \<Rightarrow> int \<times> String" where
  "String_hash s =
     (if str_hashkey s \<ge> 0 then (str_hashkey s, s)
      else let h = compute_hash (str_len s) (str_buf s) in (h, s\<lparr>str_hashkey := h\<rparr>))"

subsection \<open>Editing\<close>

text \<open>The reallocation inside \<^verbatim>\<open>DohString_append\<close>: the block and \<^verbatim>\<open>maxsize\<close> after it.\<close>

definition append_room :: "String \<Rightarrow> int \<Rightarrow> (char list \<times> int) res" where
  "append_room s newlen =
     (if newlen \<ge> str_maxsize s - 1 then
        (let m = 2 * str_maxsize s; newmaxsize = (if newlen \<ge> m - 1 then newlen + 1 else m)
         in res_bind (realloc (str_buf s) newmaxsize) (\<lambda>b. Inr (b, newmaxsize)))
      else Inr (str_buf s, str_maxsize s))"

definition DohString_append :: "String \<Rightarrow> doh_or_char \<Rightarrow> String res" where
  "DohString_append s arg =
     res_bind (arg_bytes arg) (\<lambda>d.
     (let l = int (length d); oldlen = str_len s; newlen = oldlen + l + 1 in
      res_bind (append_room s newlen) (\<lambda>(b, newmax).
      res_bind (memcpy_to b oldlen (d @ [NUL])) (\<lambda>tc.
      if str_sp s \<ge> oldlen then
        res_bind (read_range tc (str_sp s) (oldlen + l - str_sp s)) (\<lambda>seen.
          Inr (s\<lparr>str_hashkey := -1, str_buf := tc, str_maxsize := newmax,
                 str_line := str_line s + count_nl seen, str_sp := oldlen + l, str_len := oldlen + l\<rparr>))
      else Inr (s\<lparr>str_hashkey := -1, str_buf := tc, str_maxsize := newmax, str_len := oldlen + l\<rparr>)))))"

definition String_clear :: "String \<Rightarrow> String res" where
  "String_clear s = res_bind (poke (str_buf s) 0 NUL) (\<lambda>b.
     Inr (s\<lparr>str_hashkey := -1, str_len := 0, str_buf := b, str_sp := 0, str_line := 1\<rparr>))"

text \<open>The doubling loop of \<^verbatim>\<open>String_insert\<close>.\<close>

function grow_loop :: "char list \<Rightarrow> int \<Rightarrow> int \<Rightarrow> (char list \<times> int) res" where
  "grow_loop buf maxsize need =
     (if maxsize \<le> need then
        (let newsize = 2 * maxsize
         in if newsize \<le> 0 then Inl AssertFailed
            else grow_loop (resize_block buf newsize) newsize need)
      else Inr (buf, maxsize))"
  by pat_completeness auto
termination
  by (relation "measure (\<lambda>(buf, maxsize, need). nat (need + 1 - maxsize))") auto

declare grow_loop.simps [simp del]

definition String_insert :: "String \<Rightarrow> int \<Rightarrow> doh_or_char \<Rightarrow> String res" where
  "String_insert s pos arg =
     (if pos = DOH_END then DohString_append s arg
      else res_bind (arg_bytes arg) (\<lambda>data.
        (let l = int (length data);
             pos' = (if pos < 0 then 0 else if pos > str_len s then str_len s else pos) in
         res_bind (grow_loop (str_buf s) (str_maxsize s) (str_len s + l)) (\<lambda>(b, maxsize).
         res_bind (memmove b (pos' + l) pos' (str_len s - pos')) (\<lambda>b1.
         res_bind (memcpy_to b1 pos' data) (\<lambda>b2.
         res_bind (poke b2 (str_len s + l) NUL) (\<lambda>b3.
         Inr (s\<lparr>str_hashkey := -1, str_maxsize := maxsize, str_buf := b3, str_len := str_len s + l,
                str_line := (if str_sp s \<ge> pos' then str_line s + count_nl data else str_line s),
                str_sp := (if str_sp s \<ge> pos' then str_sp s + l else str_sp s)\<rparr>))))))))"

definition String_delitem :: "String \<Rightarrow> int \<Rightarrow> String res" where
  "String_delitem s pos =
     (let pos1 = (if pos = DOH_END then str_len s - 1 else pos);
          pos2 = (if pos1 = DOH_BEGIN then 0 else pos1) in
      if str_len s = 0 then Inr (s\<lparr>str_hashkey := -1\<rparr>)
      else
        res_bind
          (if str_sp s > pos2 then
             (if str_sp s - 1 < 0 then Inl AssertFailed
              else res_bind (peek (str_buf s) pos2) (\<lambda>c.
                Inr (str_sp s - 1, if c = NL then str_line s - 1 else str_line s)))
           else Inr (str_sp s, str_line s)) (\<lambda>(sp, line).
        res_bind (memmove (str_buf s) pos2 (pos2 + 1) (str_len s - 1 - pos2)) (\<lambda>b.
        res_bind (poke b (str_len s - 1) NUL) (\<lambda>b'.
        Inr (s\<lparr>str_hashkey := -1, str_sp := sp, str_line := line, str_buf := b', str_len := str_len s - 1\<rparr>)))))"

text \<open>The adjustment of the file position and the line count inside \<^verbatim>\<open>String_delslice\<close>.\<close>

definition delslice_pos :: "String \<Rightarrow> int \<Rightarrow> int \<Rightarrow> (int \<times> int) res" where
  "delslice_pos s i e =
     (if str_sp s > i then
        (let end' = (if str_sp s > e then e else str_sp s);
             sp' = (if str_sp s > e then str_sp s - (e - i) else i) in
         res_bind (if i < end' then read_range (str_buf s) i (end' - i) else Inr []) (\<lambda>seen.
         if sp' < 0 then Inl AssertFailed else Inr (sp', str_line s - count_nl seen)))
      else Inr (str_sp s, str_line s))"

definition String_delslice :: "String \<Rightarrow> int \<Rightarrow> int \<Rightarrow> String res" where
  "String_delslice s sindex eindex =
     (if str_len s = 0 then Inr s
      else
        (let e = (if eindex = DOH_END then str_len s else eindex);
             i = (if sindex = DOH_BEGIN then 0 else sindex);
             size = e - i in
         res_bind (delslice_pos s i e) (\<lambda>(sp, line).
         res_bind (memmove (str_buf s) i e (str_len s - e)) (\<lambda>b.
         res_bind (poke b (str_len s - size) NUL) (\<lambda>b'.
         Inr (s\<lparr>str_hashkey := -1, str_sp := sp, str_line := line, str_buf := b', str_len := str_len s - size\<rparr>))))))"

subsection \<open>File operations\<close>

definition String_read :: "String \<Rightarrow> int \<Rightarrow> (int \<times> char list \<times> String) res" where
  "String_read s n =
     (let reallen = (if str_sp s + n > str_len s then str_len s - str_sp s else n) in
      if reallen > 0 then
        res_bind (read_range (str_buf s) (str_sp s) reallen) (\<lambda>d.
          Inr (reallen, d, s\<lparr>str_sp := str_sp s + reallen\<rparr>))
      else Inr (reallen, [], s))"

definition String_write :: "String \<Rightarrow> char list \<Rightarrow> (int \<times> String) res" where
  "String_write s buffer =
     (let n = int (length buffer);
          sp = (if str_sp s > str_len s then str_len s else str_sp s);
          newlen = sp + n + 1 in
      res_bind
        (if newlen > str_maxsize s
         then res_bind (realloc (str_buf s) newlen) (\<lambda>b. Inr (b, newlen, sp + n))
         else Inr (str_buf s, str_maxsize s, str_len s)) (\<lambda>(b, maxsize, len1).
      (let len2 = (if sp + n > len1 then sp + n else len1) in
      res_bind (memcpy_to b sp buffer) (\<lambda>b1.
      res_bind (poke b1 len2 NUL) (\<lambda>b2.
      Inr (n, s\<lparr>str_hashkey := -1, str_buf := b2, str_maxsize := maxsize, str_len := len2,
                str_sp := sp + n\<rparr>))))))"

text \<open>
  \<^verbatim>\<open>String_seek\<close> moves the position one character at a time and counts line ends on the
  way: forward it looks at the character it arrives at (\<^verbatim>\<open>tc[++sp]\<close>), backward at the one
  it steps over (\<^verbatim>\<open>tc[--sp]\<close>).
\<close>

definition seek_nsp :: "String \<Rightarrow> int \<Rightarrow> int \<Rightarrow> int" where
  "seek_nsp s offset whence =
     (let (pos, off) = (if whence = SEEK_SET then (0, offset)
                        else if whence = SEEK_CUR then (str_sp s, offset)
                        else if whence = SEEK_END then (str_len s, - offset)
                        else (str_sp s, offset));
          n0 = (if pos + off < 0 then 0 else pos + off)
      in if str_len s > 0 \<and> n0 > str_len s then str_len s else n0)"

definition String_seek :: "String \<Rightarrow> int \<Rightarrow> int \<Rightarrow> String res" where
  "String_seek s offset whence =
     (let nsp = seek_nsp s offset whence in
      if nsp > str_sp s then
        res_bind (read_range (str_buf s) (str_sp s + 1) (nsp - str_sp s)) (\<lambda>seen.
          Inr (s\<lparr>str_sp := nsp, str_line := str_line s + count_nl seen\<rparr>))
      else
        res_bind (read_range (str_buf s) nsp (str_sp s - nsp)) (\<lambda>seen.
          Inr (s\<lparr>str_sp := nsp, str_line := str_line s - count_nl seen\<rparr>)))"

definition String_tell :: "String \<Rightarrow> int" where
  "String_tell s = str_sp s"

definition String_putc :: "String \<Rightarrow> char \<Rightarrow> String res" where
  "String_putc s ch =
     (let line = (if ch = NL then str_line s + 1 else str_line s) in
      if str_sp s \<ge> str_len s then
        res_bind
          (if str_len s > str_maxsize s - 2
           then res_bind (realloc (str_buf s) (2 * str_maxsize s)) (\<lambda>b. Inr (b, 2 * str_maxsize s))
           else Inr (str_buf s, str_maxsize s)) (\<lambda>(tc, maxsize).
        res_bind (poke tc (str_sp s) ch) (\<lambda>b1.
        res_bind (poke b1 (str_sp s + 1) NUL) (\<lambda>b2.
        Inr (s\<lparr>str_hashkey := -1, str_maxsize := maxsize, str_buf := b2,
               str_len := str_sp s + 1, str_sp := str_sp s + 1, str_line := line\<rparr>))))
      else
        res_bind (poke (str_buf s) (str_sp s) ch) (\<lambda>b.
        Inr (s\<lparr>str_hashkey := -1, str_buf := b, str_sp := str_sp s + 1, str_line := line\<rparr>)))"

text \<open>\<^verbatim>\<open>EOF\<close> is \<open>None\<close>.\<close>

definition String_getc :: "String \<Rightarrow> (char option \<times> String) res" where
  "String_getc s =
     (if str_sp s \<ge> str_len s then Inr (None, s)
      else res_bind (peek (str_buf s) (str_sp s)) (\<lambda>c.
        Inr (Some c, s\<lparr>str_sp := str_sp s + 1,
                       str_line := (if c = NL then str_line s + 1 else str_line s)\<rparr>)))"

definition String_ungetc :: "String \<Rightarrow> char option \<Rightarrow> char option \<times> String" where
  "String_ungetc s ch =
     (case ch of None \<Rightarrow> (None, s)
      | Some c \<Rightarrow>
          if str_sp s \<le> 0 then (None, s)
          else (Some c, s\<lparr>str_sp := str_sp s - 1,
                          str_line := (if c = NL then str_line s - 1 else str_line s)\<rparr>))"

text \<open>The loop of \<^verbatim>\<open>String_chop\<close>: \<open>len\<close> is the length left, \<open>sp\<close> and \<open>line\<close> follow it.\<close>

fun chop_loop :: "char list \<Rightarrow> nat \<Rightarrow> int \<Rightarrow> int \<Rightarrow> (nat \<times> int \<times> int) res" where
  "chop_loop buf 0 sp line = Inr (0, sp, line)"
| "chop_loop buf (Suc n) sp line =
     (if Suc n \<le> length buf then
        (let c = buf ! n in
         if isspace c then
           (if sp \<ge> int (Suc n) then chop_loop buf n (sp - 1) (if c = NL then line - 1 else line)
            else chop_loop buf n sp line)
         else Inr (Suc n, sp, line))
      else Inl OutOfBounds)"

definition String_chop :: "String \<Rightarrow> String res" where
  "String_chop s =
     res_bind (chop_loop (str_buf s) (nat (str_len s)) (str_sp s) (str_line s)) (\<lambda>(n, sp, line).
     res_bind (poke (str_buf s) (int n) NUL) (\<lambda>b.
     if sp < 0 then Inl AssertFailed
     else Inr (s\<lparr>str_buf := b, str_len := int n, str_sp := sp, str_line := line, str_hashkey := -1\<rparr>)))"

definition String_setline :: "String \<Rightarrow> int \<Rightarrow> String" where
  "String_setline s line = s\<lparr>str_line := line\<rparr>"

definition String_getline :: "String \<Rightarrow> int" where
  "String_getline s = str_line s"

definition String_getfile :: "String \<Rightarrow> nat option" where
  "String_getfile s = str_file s"

subsection \<open>Creation\<close>

definition until_nul :: "char list \<Rightarrow> char list" where
  "until_nul d = takeWhile (\<lambda>c. c \<noteq> NUL) d"

definition DohNewString :: "doh_or_char option \<Rightarrow> String res" where
  "DohNewString so =
     (case so of
        None \<Rightarrow> Inr \<lparr>str_file = None, str_line = 1, str_maxsize = INIT_MAXSIZE, str_len = 0,
                      str_hashkey = -1, str_sp = 0, str_buf = alloc INIT_MAXSIZE\<rparr>
      | Some arg \<Rightarrow>
          res_bind (arg_bytes arg) (\<lambda>d.
          (let l = int (length d);
               hashkey = (case arg of DStr ss \<Rightarrow> str_hashkey ss | CStr _ \<Rightarrow> -1);
               max' = (if l + 1 > INIT_MAXSIZE then l + 1 else INIT_MAXSIZE) in
           res_bind (memcpy_to (alloc max') 0 (until_nul d @ [NUL])) (\<lambda>b.
           Inr \<lparr>str_file = None, str_line = 1, str_maxsize = max', str_len = l,
                str_hashkey = hashkey, str_sp = l, str_buf = b\<rparr>))))"

definition DohNewStringEmpty :: String where
  "DohNewStringEmpty =
     \<lparr>str_file = None, str_line = 1, str_maxsize = INIT_MAXSIZE, str_len = 0,
      str_hashkey = 0, str_sp = 0, str_buf = alloc INIT_MAXSIZE\<rparr>"

text \<open>\<^verbatim>\<open>strncpy(str, s, len)\<close> stops at the terminator of \<open>s\<close> and pads with zeros.\<close>

definition strncpy_bytes :: "char list \<Rightarrow> int \<Rightarrow> char list" where
  "strncpy_bytes d n = take (nat n) (until_nul d @ replicate (nat n) NUL)"

definition DohNewStringWithSize :: "doh_or_char option \<Rightarrow> int \<Rightarrow> String res" where
  "DohNewStringWithSize so n =
     (case so of
        None \<Rightarrow> Inr \<lparr>str_file = None, str_line = 1, str_maxsize = INIT_MAXSIZE, str_len = 0,
                      str_hashkey = -1, str_sp = 0, str_buf = alloc INIT_MAXSIZE\<rparr>
      | Some arg \<Rightarrow>
          res_bind (arg_bytes arg) (\<lambda>d.
          (let max' = (if n + 1 > INIT_MAXSIZE then n + 1 else INIT_MAXSIZE) in
           res_bind (memcpy_to (alloc max') 0 (strncpy_bytes d n)) (\<lambda>b.
           res_bind (poke b n NUL) (\<lambda>b'.
           Inr \<lparr>str_file = None, str_line = 1, str_maxsize = max', str_len = n,
                str_hashkey = -1, str_sp = n, str_buf = b'\<rparr>)))))"

section \<open>Blocks taken apart\<close>

lemma memcpy_to_split [swig_str]:
  "dst = int (length a) \<Longrightarrow> length x = length d \<Longrightarrow> memcpy_to (a @ x @ r) dst d = Inr (a @ d @ r)"
  by (simp add: memcpy_to_def)

lemma read_range_split [swig_str]:
  "src = int (length a) \<Longrightarrow> n = int (length x) \<Longrightarrow> read_range (a @ x @ r) src n = Inr x"
  by (simp add: read_range_def)

lemma poke_split [swig_str]: "i = int (length a) \<Longrightarrow> poke (a @ x # r) i c = Inr (a @ c # r)"
  by (simp add: poke_def memcpy_to_def)

lemma peek_split [swig_str]: "i = int (length a) \<Longrightarrow> peek (a @ x # r) i = Inr x"
  by (simp add: peek_def)

lemma count_nl_append [simp]: "count_nl (a @ b) = count_nl a + count_nl b"
  by (simp add: count_nl_def)

lemma count_nl_simps [simp]:
  "count_nl [] = 0"
  "count_nl (x # xs) = (if x = NL then 1 else 0) + count_nl xs"
  by (simp_all add: count_nl_def)

lemma resize_block_grow:
  "int (length b) \<le> n \<Longrightarrow> resize_block b n = b @ replicate (nat n - length b) NUL"
  by (simp add: resize_block_def)

lemma length_resize_block [simp]: "length (resize_block b n) = nat n"
  by (simp add: resize_block_def)

lemma take_resize_block: "k \<le> length b \<Longrightarrow> k \<le> nat n \<Longrightarrow> take k (resize_block b n) = take k b"
  by (simp add: resize_block_def min_def)

section \<open>Hash values\<close>

definition hash_of :: "char list \<Rightarrow> int" where
  "hash_of cs = uint (and (foldl hash_step 0 (take 50 cs)) 0x7fffffff)"

lemma hash_loop4_eq:
  "4 * i \<le> length cs \<Longrightarrow> hash_loop4 i h cs = (foldl hash_step h (take (4 * i) cs), drop (4 * i) cs)"
proof (induction i arbitrary: h cs)
  case 0
  then show ?case by simp
next
  case (Suc i)
  from Suc.prems have "Suc (Suc (Suc (Suc (4 * i)))) \<le> length cs" by simp
  then obtain a b c d r where "cs = a # b # c # d # r" "4 * i \<le> length r"
    by (auto simp only: Suc_le_length_iff)
  moreover have "4 * Suc i = Suc (Suc (Suc (Suc (4 * i))))" by simp
  ultimately show ?case using Suc.IH by (simp only: hash_loop4.simps) simp
qed

lemma hash_loop1_eq: "i \<le> length cs \<Longrightarrow> hash_loop1 i h cs = foldl hash_step h (take i cs)"
  by (induction i h cs rule: hash_loop1.induct) auto

lemma compute_hash_eq:
  assumes "0 \<le> n" "nat n \<le> length buf"
  shows "compute_hash n buf = hash_of (take (nat n) buf)"
proof -
  define k where "k = (if n > 50 then 50 else nat n)"
  have k: "k \<le> length buf" and kmin: "k = min (nat n) 50"
    using assms by (auto simp: k_def)
  have m: "4 * (k div 4) \<le> length buf" using k by simp
  have d: "k - 4 * (k div 4) \<le> length (drop (4 * (k div 4)) buf)" using k by simp
  have split: "take (4 * (k div 4)) buf @ take (k - 4 * (k div 4)) (drop (4 * (k div 4)) buf) = take k buf"
    by (metis add_diff_inverse_nat div_times_less_eq_dividend linorder_not_less mult.commute take_add)
  have "compute_hash n buf = uint (and (foldl hash_step 0 (take k buf)) 0x7fffffff)"
    unfolding compute_hash_def Let_def k_def[symmetric]
    by (simp add: hash_loop4_eq[OF m] hash_loop1_eq[OF d] flip: foldl_append split)
  then show ?thesis by (simp add: hash_of_def kmin min.commute)
qed

lemma hash_of_nonneg: "0 \<le> hash_of cs"
  by (simp add: hash_of_def)

lemma hash_of_bound: "hash_of cs < 2 ^ 31"
proof -
  have "and (uint w) (2 ^ 31 - 1) < 2 ^ 31" for w :: "32 word"
    by (metis mask_eq_exp_minus_1 take_bit_eq_mask take_bit_int_less_exp)
  then show ?thesis unfolding hash_of_def uint_and by simp
qed

section \<open>The invariant\<close>

text \<open>
  \<open>wf_string\<close>: the position lies in the text, the text and its terminator lie in the block,
  the block is at least \<^verbatim>\<open>maxsize\<close> bytes long and there is room to grow by doubling, and a
  cached hash value is the hash of the text.
\<close>

definition wf_string :: "String \<Rightarrow> bool" where
  "wf_string s \<longleftrightarrow>
     0 \<le> str_sp s \<and> str_sp s \<le> str_len s \<and> str_len s < int (length (str_buf s)) \<and>
     str_maxsize s \<le> int (length (str_buf s)) \<and>
     (str_len s < str_maxsize s \<or> (str_len s = str_maxsize s \<and> 2 \<le> str_maxsize s)) \<and>
     (str_hashkey s = -1 \<or> str_hashkey s = hash_of (contents s))"

text \<open>
  The line counter is kept relative to the position: \<open>drift\<close> is the line number minus the
  line ends before the position, and an operation that counts correctly leaves it alone.
\<close>

definition drift :: "String \<Rightarrow> int" where
  "drift s = str_line s - count_nl (take (nat (str_sp s)) (contents s))"

definition arg_text :: "doh_or_char \<Rightarrow> char list" where
  "arg_text arg = (case arg of DStr ss \<Rightarrow> contents ss | CStr d \<Rightarrow> d)"

definition wf_arg :: "doh_or_char \<Rightarrow> bool" where
  "wf_arg arg = (case arg of DStr ss \<Rightarrow> wf_string ss | CStr d \<Rightarrow> NUL \<notin> set d)"

lemma wf_buf:
  assumes "wf_string s"
  obtains x r where "str_buf s = contents s @ x # r" "int (length (contents s)) = str_len s"
proof -
  have lt: "nat (str_len s) < length (str_buf s)" "0 \<le> str_len s"
    using assms by (auto simp: wf_string_def)
  then obtain x r where "drop (nat (str_len s)) (str_buf s) = x # r"
    by (metis Cons_nth_drop_Suc)
  then have "str_buf s = contents s @ x # r"
    by (metis append_take_drop_id contents_def)
  moreover have "int (length (contents s)) = str_len s"
    using lt by (simp add: contents_def)
  ultimately show ?thesis by (rule that)
qed

lemma length_contents: "wf_string s \<Longrightarrow> int (length (contents s)) = str_len s"
  by (metis wf_buf)

lemma contentsI: "str_buf s = c @ r \<Longrightarrow> str_len s = int (length c) \<Longrightarrow> contents s = c"
  by (simp add: contents_def)

lemma wf_stringD:
  assumes "wf_string s"
  shows "0 \<le> str_sp s" "str_sp s \<le> str_len s" "str_len s < int (length (str_buf s))"
    "str_maxsize s \<le> int (length (str_buf s))" "0 \<le> str_len s" "1 \<le> str_maxsize s" "str_len s \<le> str_maxsize s"
  using assms by (auto simp: wf_string_def)

lemma arg_bytes_ok: "wf_arg arg \<Longrightarrow> arg_bytes arg = Inr (arg_text arg)"
proof (cases arg)
  case (DStr ss)
  assume "wf_arg arg"
  then have "wf_string ss" using DStr by (simp add: wf_arg_def)
  then obtain x r where b: "str_buf ss = contents ss @ x # r" and l: "int (length (contents ss)) = str_len ss"
    by (rule wf_buf)
  have "String_data ss = Inr (ss\<lparr>str_buf := contents ss @ NUL # r\<rparr>)"
    unfolding String_data_def b by (simp add: poke_split l)
  moreover have "read_range (contents ss @ NUL # r) 0 (str_len ss) = Inr (contents ss)"
    using read_range_split[of 0 "[]" "str_len ss" "contents ss" "NUL # r"] l by simp
  ultimately show ?thesis using DStr by (simp add: arg_text_def)
qed (simp add: arg_text_def)

section \<open>The sequence operations on the text\<close>

text \<open>
  What the macros \<^verbatim>\<open>Insert\<close>, \<^verbatim>\<open>Append\<close>, \<^verbatim>\<open>Delitem\<close> and \<^verbatim>\<open>Delslice\<close> mean for the text of a
  String: the operations the rest of the program is written in.
\<close>

definition Insert :: "string \<Rightarrow> int \<Rightarrow> string \<Rightarrow> string" where
  "Insert c pos d =
     (if pos = DOH_END then c @ d
      else let p = (if pos < 0 then 0 else if pos > int (length c) then length c else nat pos)
           in take p c @ d @ drop p c)"

definition Append :: "string \<Rightarrow> string \<Rightarrow> string" where
  "Append c d = Insert c DOH_END d"

definition Delitem :: "string \<Rightarrow> int \<Rightarrow> string" where
  "Delitem c pos =
     (if c = [] then []
      else let p = (if pos = DOH_END then length c - 1 else if pos = DOH_BEGIN then 0 else nat pos)
           in take p c @ drop (Suc p) c)"

definition Delslice :: "string \<Rightarrow> int \<Rightarrow> int \<Rightarrow> string" where
  "Delslice c sindex eindex =
     (let i = (if sindex = DOH_BEGIN then 0 else nat sindex);
          e = (if eindex = DOH_END then length c else nat eindex)
      in take i c @ drop e c)"

lemma Insert_0 [simp]: "Insert c 0 d = d @ c"
  by (simp add: Insert_def)

lemma Append_simp [simp]: "Append c d = c @ d"
  by (simp add: Append_def Insert_def)

lemma Delslice_0 [simp]: "0 \<le> n \<Longrightarrow> Delslice c 0 n = drop (nat n) c"
  by (simp add: Delslice_def)

lemma Delitem_0 [simp]: "Delitem c 0 = drop 1 c"
  by (cases c) (simp_all add: Delitem_def)

section \<open>Every operation is safe and does what its name says\<close>

lemma grow_loop_ok:
  "1 \<le> m0 \<Longrightarrow> m0 \<le> int (length buf) \<Longrightarrow>
   \<exists>b m. grow_loop buf m0 need = Inr (b, m) \<and> need < m \<and> m0 \<le> m \<and> m \<le> int (length b) \<and>
         take (nat m0) b = take (nat m0) buf"
proof (induction buf m0 need rule: grow_loop.induct)
  case (1 buf m0 need)
  show ?case
  proof (cases "m0 \<le> need")
    case False
    then show ?thesis using 1 by (subst grow_loop.simps) auto
  next
    case True
    let ?b = "resize_block buf (2 * m0)"
    have pos: "\<not> 2 * m0 \<le> 0" using 1 by simp
    have len: "2 * m0 \<le> int (length ?b)" by simp
    from 1(1)[OF True refl pos] len "1.prems" obtain b m where
      g: "grow_loop ?b (2 * m0) need = Inr (b, m)" "need < m" "2 * m0 \<le> m" "m \<le> int (length b)"
        "take (nat (2 * m0)) b = take (nat (2 * m0)) ?b"
      by auto
    have "take (nat m0) b = take (nat m0) (take (nat (2 * m0)) b)"
      using 1 by (simp add: min_def)
    also have "\<dots> = take (nat m0) ?b" using g 1 by (simp add: min_def)
    also have "\<dots> = take (nat m0) buf" using 1 by (intro take_resize_block) auto
    finally show ?thesis using g True pos 1 by (subst grow_loop.simps) (auto simp: Let_def)
  qed
qed

lemma memmove_split:
  assumes "length y + length z = length x + length w" "length w = length y"
  shows "memmove (a @ y @ x @ r) (int (length a + length x)) (int (length a)) (int (length y))
         = Inr (a @ take (length x) (y @ x) @ y @ r)"
proof -
  have r: "read_range (a @ y @ x @ r) (int (length a)) (int (length y)) = Inr y"
    by (rule read_range_split) simp_all
  have e: "a @ y @ x @ r = (a @ take (length x) (y @ x)) @ drop (length x) (y @ x) @ r"
    by (metis append.assoc append_take_drop_id)
  show ?thesis
    unfolding memmove_def r res_bind_simps
    by (subst e, subst memcpy_to_split) (simp_all del: take_append drop_append)
qed

text \<open>The common shape of a result: the block starts with the new text and a terminator.\<close>

lemma wf_stringI:
  assumes "str_buf s = c @ x # r" "str_len s = int (length c)" "0 \<le> str_sp s" "str_sp s \<le> str_len s"
    "str_maxsize s \<le> int (length (str_buf s))"
    "str_len s < str_maxsize s \<or> (str_len s = str_maxsize s \<and> 2 \<le> str_maxsize s)"
    "str_hashkey s = -1 \<or> str_hashkey s = hash_of c"
  shows "wf_string s \<and> contents s = c"
proof
  show c: "contents s = c" using assms(1,2) by (rule contentsI)
  show "wf_string s" unfolding wf_string_def c using assms by simp
qed

lemma DohString_append_spec:
  assumes wf: "wf_string s" and arg: "wf_arg arg"
  shows "\<exists>s'. DohString_append s arg = Inr s' \<and> wf_string s' \<and>
              contents s' = contents s @ arg_text arg \<and> drift s' = drift s"
proof -
  define d where "d = arg_text arg"
  define l where "l = int (length d)"
  define c where "c = contents s"
  note w = wf_stringD[OF wf]
  have lc: "int (length c) = str_len s" using length_contents[OF wf] by (simp add: c_def)
  define big where "big \<longleftrightarrow> str_len s + l + 1 \<ge> str_maxsize s - 1"
  define m where "m = (if str_len s + l + 1 \<ge> 2 * str_maxsize s - 1 then str_len s + l + 2 else 2 * str_maxsize s)"
  define b where "b = (if big then resize_block (str_buf s) m else str_buf s)"
  define mx where "mx = (if big then m else str_maxsize s)"
  have mx: "mx \<le> int (length b)" "str_len s + l + 1 < mx"
    using w by (auto simp: mx_def b_def m_def big_def l_def)
  have grow: "append_room s (str_len s + l + 1) = Inr (b, mx)"
    using w by (auto simp: append_room_def big_def b_def mx_def m_def realloc_def Let_def l_def algebra_simps)
  have "take (nat (str_len s)) b = c"
  proof (cases big)
    case True
    have "nat (str_len s) \<le> nat m" using w by (auto simp: m_def l_def)
    then show ?thesis using w True by (simp add: b_def c_def contents_def take_resize_block)
  next
    case False
    then show ?thesis by (simp add: b_def c_def contents_def)
  qed
  then have "b = c @ drop (length c) b"
    using lc by (metis append_take_drop_id nat_int)
  moreover have "length d + 1 \<le> length (drop (length c) b)"
    using mx lc l_def by simp
  ultimately obtain x r where b: "b = c @ x @ r" and x: "length x = length (d @ [NUL])"
    by (metis append_take_drop_id length_append_singleton length_take min_absorb2 Suc_eq_plus1)
  have cp: "memcpy_to b (str_len s) (d @ [NUL]) = Inr (c @ (d @ [NUL]) @ r)"
    unfolding b using x lc by (intro memcpy_to_split) simp_all
  define tc where "tc = c @ (d @ [NUL]) @ r"
  define at_end where "at_end \<longleftrightarrow> str_sp s \<ge> str_len s"
  define s' where "s' = s\<lparr>str_hashkey := -1, str_buf := tc, str_maxsize := mx,
      str_line := (if at_end then str_line s + count_nl d else str_line s),
      str_sp := (if at_end then str_len s + l else str_sp s), str_len := str_len s + l\<rparr>"
  have rd: "at_end \<Longrightarrow> read_range tc (str_sp s) (str_len s + l - str_sp s) = Inr d"
    unfolding tc_def using w lc by (subst append_assoc, intro read_range_split) (auto simp: at_end_def l_def)
  have "DohString_append s arg = Inr s'"
    unfolding DohString_append_def arg_bytes_ok[OF arg] res_bind_simps Let_def
    using grow rd[unfolded tc_def] cp
    by (simp add: d_def[symmetric] l_def[symmetric] at_end_def[symmetric] Let_def s'_def tc_def)
  moreover have wc: "wf_string s' \<and> contents s' = c @ d"
    by (rule wf_stringI[where x = NUL and r = r])
      (use w lc mx b x in \<open>auto simp: s'_def tc_def l_def at_end_def\<close>)
  moreover have "drift s' = drift s"
  proof (cases at_end)
    case True
    then have "nat (str_sp s) = length c" using w lc by (simp add: at_end_def)
    moreover have "nat (str_len s + l) = length c + length d" using lc by (simp add: l_def nat_add_distrib flip: lc)
    ultimately show ?thesis using True
      unfolding drift_def wc[THEN conjunct2] c_def[symmetric] by (simp add: s'_def)
  next
    case False
    then have "nat (str_sp s) \<le> length c" using w lc by (simp add: at_end_def)
    then show ?thesis using False
      unfolding drift_def wc[THEN conjunct2] c_def[symmetric] by (simp add: s'_def)
  qed
  ultimately show ?thesis by (auto simp: c_def d_def)
qed

lemma String_insert_spec:
  assumes wf: "wf_string s" and arg: "wf_arg arg"
  shows "\<exists>s'. String_insert s pos arg = Inr s' \<and> wf_string s' \<and>
              contents s' = Insert (contents s) pos (arg_text arg) \<and> drift s' = drift s"
proof (cases "pos = DOH_END")
  case True
  then show ?thesis using DohString_append_spec[OF assms] by (simp add: String_insert_def Insert_def)
next
  case False
  define d where "d = arg_text arg"
  define l where "l = int (length d)"
  define c where "c = contents s"
  note w = wf_stringD[OF wf]
  have lc: "int (length c) = str_len s" using length_contents[OF wf] by (simp add: c_def)
  define p where "p = (if pos < 0 then 0 else if pos > str_len s then str_len s else pos)"
  define c1 where "c1 = take (nat p) c"
  define c2 where "c2 = drop (nat p) c"
  have p: "0 \<le> p" "p \<le> str_len s" using w by (auto simp: p_def)
  have cs: "c = c1 @ c2" "length c1 = nat p" "int (length c2) = str_len s - p"
    using p lc by (auto simp: c1_def c2_def)
  obtain b m where g: "grow_loop (str_buf s) (str_maxsize s) (str_len s + l) = Inr (b, m)"
    "str_len s + l < m" "str_maxsize s \<le> m" "m \<le> int (length b)"
    "take (nat (str_maxsize s)) b = take (nat (str_maxsize s)) (str_buf s)"
    using grow_loop_ok[OF w(6,4)] by blast
  have "take (nat (str_len s)) b = c"
    using g(5) w(7) unfolding c_def contents_def by (metis min_absorb1 nat_mono take_take)
  then have "b = c @ drop (length c) b"
    using lc by (metis append_take_drop_id nat_int)
  moreover have "length d < length (drop (length c) b)"
    using g lc by (simp add: l_def)
  ultimately obtain x y r where b: "b = c @ x @ y # r" and x: "length x = length d"
    by (metis append_take_drop_id Cons_nth_drop_Suc length_take less_or_eq_imp_le min_absorb2)
  have mv: "memmove b (p + l) p (str_len s - p) = Inr (c1 @ take (length x) (c2 @ x) @ c2 @ y # r)"
    using memmove_split[of c2 x x c2 c1 "y # r"] p cs x by (simp add: b l_def)
  have cp: "memcpy_to (c1 @ take (length x) (c2 @ x) @ c2 @ y # r) p d = Inr (c1 @ d @ c2 @ y # r)"
    using p cs x by (intro memcpy_to_split) simp_all
  have pk: "poke (c1 @ d @ c2 @ y # r) (str_len s + l) NUL = Inr (c1 @ d @ c2 @ NUL # r)"
    using poke_split[of "str_len s + l" "c1 @ d @ c2" y r NUL] p cs lc by (simp add: l_def)
  define before where "before \<longleftrightarrow> str_sp s \<ge> p"
  define s' where "s' = s\<lparr>str_hashkey := -1, str_maxsize := m, str_buf := c1 @ d @ c2 @ NUL # r,
      str_len := str_len s + l, str_line := (if before then str_line s + count_nl d else str_line s),
      str_sp := (if before then str_sp s + l else str_sp s)\<rparr>"
  have "String_insert s pos arg = Inr s'"
    unfolding String_insert_def arg_bytes_ok[OF arg] res_bind_simps Let_def
      d_def[symmetric] l_def[symmetric] p_def[symmetric] g(1)
    using False by (simp add: mv cp pk before_def s'_def del: take_append)
  moreover have wc: "wf_string s' \<and> contents s' = c1 @ d @ c2"
    by (rule wf_stringI[where x = NUL and r = r])
      (use w lc g(2-4) cs p b x in \<open>auto simp: s'_def l_def before_def\<close>)
  note ct = wc[THEN conjunct2]
  moreover have "contents s' = Insert (contents s) pos d"
    unfolding ct using False lc by (auto simp: Insert_def c_def[symmetric] c1_def c2_def p_def Let_def)
  moreover have "drift s' = drift s"
  proof (cases before)
    case True
    then obtain k where k: "nat (str_sp s) = length c1 + k"
      using cs p by (metis before_def le_iff_add nat_mono)
    then have "nat (str_sp s + l) = length c1 + length d + k"
      using w by (simp add: l_def)
    then show ?thesis using True k cs(1)
      unfolding drift_def ct c_def[symmetric] by (simp add: s'_def)
  next
    case F: False
    then have "nat (str_sp s) \<le> length c1" using w cs by (simp add: before_def)
    then show ?thesis using F cs(1)
      unfolding drift_def ct c_def[symmetric] by (simp add: s'_def)
  qed
  ultimately show ?thesis using wc by (auto simp: d_def)
qed


text \<open>Closing the gap left by \<open>c2\<close>: \<open>c3\<close> moves down and the terminator follows it.\<close>

lemma close_gap:
  assumes b: "buf = c1 @ c2 @ c3 @ x # r"
    and dst: "dst = int (length c1)" and src: "src = int (length c1 + length c2)"
    and n: "n = int (length c3)" and k: "k = int (length c1 + length c3)"
  shows "\<exists>q. length q = length c2 + length r \<and>
    res_bind (memmove buf dst src n) (\<lambda>b. poke b k NUL) = Inr (c1 @ c3 @ NUL # q)"
proof -
  let ?n = "length c3"
  have r1: "read_range buf (int (length c1 + length c2)) (int ?n) = Inr c3"
    unfolding b using read_range_split[of _ "c1 @ c2" _ c3 "x # r"] by simp
  have e: "buf = c1 @ take ?n (c2 @ c3) @ drop ?n (c2 @ c3) @ x # r"
    by (metis append.assoc append_take_drop_id b)
  have mv: "memmove buf (int (length c1)) (int (length c1 + length c2)) (int ?n)
        = Inr (c1 @ c3 @ drop ?n (c2 @ c3) @ x # r)"
    unfolding memmove_def r1 res_bind_simps
    by (subst e, rule memcpy_to_split) simp_all
  obtain y q where yq: "drop ?n (c2 @ c3) @ x # r = y # q" "length q = length c2 + length r"
    by (cases "drop ?n (c2 @ c3) @ x # r") (auto dest: arg_cong[of _ _ length])
  have "poke (c1 @ c3 @ y # q) (int (length c1 + ?n)) NUL = Inr (c1 @ c3 @ NUL # q)"
    using poke_split[of _ "c1 @ c3" y q NUL] by simp
  then show ?thesis unfolding dst src n k mv res_bind_simps yq(1) using yq(2) by blast
qed

lemma delslice_pos_ok:
  assumes b: "str_buf s = c1 @ c2 @ t" and i: "i = int (length c1)" and e: "e = int (length c1 + length c2)"
    and sp: "0 \<le> str_sp s"
  shows "delslice_pos s i e =
    Inr (if str_sp s > e then str_sp s - (e - i) else if str_sp s > i then i else str_sp s,
         str_line s - count_nl (take (nat (str_sp s) - length c1) c2))"
proof (cases "str_sp s > i")
  case True
  define k where "k = (if str_sp s > e then e else str_sp s) - i"
  have k: "0 \<le> k" "nat k \<le> length c2" "take (nat (str_sp s) - length c1) c2 = take (nat k) c2"
    using True i e by (auto simp: k_def nat_diff_distrib)
  have "read_range (str_buf s) i k = Inr (take (nat k) c2)"
    unfolding b using read_range_split[of i c1 k "take (nat k) c2" "drop (nat k) c2 @ t"] i k
    by (metis append.assoc append_take_drop_id length_take min.absorb2 nat_0_le)
  then show ?thesis
    using True i e sp k by (auto simp: delslice_pos_def Let_def k_def split: if_splits)
qed (use sp i e in \<open>auto simp: delslice_pos_def\<close>)

lemma count_nl_take_gap:
  "count_nl (take (if k > length c1 + length c2 then k - length c2 else if k > length c1 then length c1 else k) (c1 @ c3))
   = count_nl (take k (c1 @ c2 @ c3)) - count_nl (take (k - length c1) c2)"
  by (auto simp: add.commute)

lemma String_delslice_spec:
  assumes wf: "wf_string s" and i: "i = DOH_BEGIN \<or> 0 \<le> i" and e: "e = DOH_END \<or> 0 \<le> e"
    and ord: "(if i = DOH_BEGIN then 0 else i) \<le> (if e = DOH_END then str_len s else e)"
      "(if e = DOH_END then str_len s else e) \<le> str_len s"
  shows "\<exists>s'. String_delslice s i e = Inr s' \<and> wf_string s' \<and>
              contents s' = Delslice (contents s) i e \<and> drift s' = drift s"
proof (cases "str_len s = 0")
  case True
  then have "contents s = []" by (simp add: contents_def)
  with True wf show ?thesis by (simp add: String_delslice_def Delslice_def Let_def)
next
  case False
  define a where "a = (if i = DOH_BEGIN then 0 else i)"
  define z where "z = (if e = DOH_END then str_len s else e)"
  define c where "c = contents s"
  note w = wf_stringD[OF wf]
  obtain x r where b: "str_buf s = c @ x # r" and lc: "int (length c) = str_len s"
    using wf_buf[OF wf] c_def by metis
  have az: "0 \<le> a" "a \<le> z" "z \<le> str_len s"
    using ord i unfolding a_def z_def by auto
  define c1 where "c1 = take (nat a) c"
  define c2 where "c2 = take (nat z - nat a) (drop (nat a) c)"
  define c3 where "c3 = drop (nat z) c"
  have cs: "c = c1 @ c2 @ c3"
    using az by (simp add: c1_def c2_def c3_def) (metis append_take_drop_id drop_drop le_add_diff_inverse2 nat_mono)
  have ln: "a = int (length c1)" "z = int (length c1 + length c2)" "str_len s - z = int (length c3)"
    "str_len s - (z - a) = int (length c1 + length c3)"
    using az lc by (auto simp: c1_def c2_def c3_def)
  obtain q where q: "length q = length c2 + length r"
    "res_bind (memmove (str_buf s) a z (str_len s - z)) (\<lambda>b. poke b (str_len s - (z - a)) NUL) = Inr (c1 @ c3 @ NUL # q)"
    using close_gap[OF _ ln(1,2,3,4)] b cs by (metis append.assoc)
  define sp where "sp = (if str_sp s > z then str_sp s - (z - a) else if str_sp s > a then a else str_sp s)"
  define ln' where "ln' = str_line s - count_nl (take (nat (str_sp s) - length c1) c2)"
  have pos: "delslice_pos s a z = Inr (sp, ln')"
    unfolding sp_def ln'_def using b cs ln w by (intro delslice_pos_ok) auto
  define s' where "s' = s\<lparr>str_hashkey := -1, str_sp := sp, str_line := ln',
      str_buf := c1 @ c3 @ NUL # q, str_len := str_len s - (z - a)\<rparr>"
  have "String_delslice s i e = Inr s'"
    unfolding String_delslice_def a_def[symmetric] z_def[symmetric] Let_def pos
    using False q(2) by (auto simp: s'_def res_bind_eq_Inr)
  moreover have wc: "wf_string s' \<and> contents s' = c1 @ c3"
    by (rule wf_stringI[where x = NUL and r = q])
      (use w az ln q(1) b cs wf[unfolded wf_string_def] in \<open>auto simp: s'_def sp_def\<close>)
  moreover have "c1 @ c3 = Delslice (contents s) i e"
    using i e lc by (auto simp: Delslice_def c_def[symmetric] c1_def c3_def a_def z_def simp flip: lc)
  moreover have "nat sp = (if nat (str_sp s) > length c1 + length c2 then nat (str_sp s) - length c2
      else if nat (str_sp s) > length c1 then length c1 else nat (str_sp s))"
    using w ln by (auto simp: sp_def)
  then have "drift s' = drift s"
    unfolding drift_def wc[THEN conjunct2] c_def[symmetric] cs
    using count_nl_take_gap[of c1 c2 "nat (str_sp s)" c3] by (simp add: s'_def ln'_def)
  ultimately show ?thesis by auto
qed

lemma String_delitem_spec:
  assumes wf: "wf_string s" and i: "i = DOH_BEGIN \<or> i = DOH_END \<or> (0 \<le> i \<and> i < str_len s)"
  shows "\<exists>s'. String_delitem s i = Inr s' \<and> wf_string s' \<and>
              contents s' = Delitem (contents s) i \<and> drift s' = drift s"
proof (cases "str_len s = 0")
  case True
  then have "contents s = []" by (simp add: contents_def)
  with True wf show ?thesis
    by (auto simp: String_delitem_def Delitem_def Let_def wf_string_def drift_def contents_def)
next
  case False
  define a where "a = (if i = DOH_END then str_len s - 1 else if i = DOH_BEGIN then 0 else i)"
  define c where "c = contents s"
  note w = wf_stringD[OF wf]
  obtain x r where b: "str_buf s = c @ x # r" and lc: "int (length c) = str_len s"
    using wf_buf[OF wf] c_def by metis
  have a: "0 \<le> a" "a < str_len s" using i False w by (auto simp: a_def)
  define c1 where "c1 = take (nat a) c"
  define y where "y = c ! nat a"
  define c3 where "c3 = drop (Suc (nat a)) c"
  have cs: "c = c1 @ [y] @ c3"
    using a lc by (simp add: c1_def y_def c3_def) (metis id_take_nth_drop nat_less_iff)
  have ln: "a = int (length c1)" "str_len s - 1 - a = int (length c3)"
    "str_len s - 1 = int (length c1 + length c3)" "a + 1 = int (length c1 + length [y])"
    using a lc by (auto simp: c1_def c3_def)
  obtain q where q: "length q = length [y] + length r"
    "res_bind (memmove (str_buf s) a (a + 1) (str_len s - 1 - a)) (\<lambda>b. poke b (str_len s - 1) NUL) = Inr (c1 @ c3 @ NUL # q)"
    using close_gap[OF _ ln(1,4,2,3)] b cs by (metis append.assoc)
  have pk: "peek (str_buf s) a = Inr y"
    unfolding b cs using peek_split[of a c1 y "c3 @ x # r"] ln by simp
  define sp where "sp = (if str_sp s > a then str_sp s - 1 else str_sp s)"
  define ln' where "ln' = (if str_sp s > a \<and> y = NL then str_line s - 1 else str_line s)"
  define s' where "s' = s\<lparr>str_hashkey := -1, str_sp := sp, str_line := ln',
      str_buf := c1 @ c3 @ NUL # q, str_len := str_len s - 1\<rparr>"
  have p: "(let pos1 = (if i = DOH_END then str_len s - 1 else i) in if pos1 = DOH_BEGIN then 0 else pos1) = a"
    using False w by (auto simp: a_def)
  have pos: "(if str_sp s > a then
             (if str_sp s - 1 < 0 then Inl AssertFailed
              else res_bind (peek (str_buf s) a) (\<lambda>c.
                Inr (str_sp s - 1, if c = NL then str_line s - 1 else str_line s)))
           else Inr (str_sp s, str_line s)) = Inr (sp, ln')"
    using a pk by (simp add: sp_def ln'_def)
  have "String_delitem s i = Inr s'"
    unfolding String_delitem_def Let_def p[unfolded Let_def] pos
    using False q(2) by (auto simp: s'_def res_bind_eq_Inr)
  moreover have wc: "wf_string s' \<and> contents s' = c1 @ c3"
    by (rule wf_stringI[where x = NUL and r = q])
      (use w a ln q(1) b cs wf[unfolded wf_string_def] in \<open>auto simp: s'_def sp_def\<close>)
  moreover have "c \<noteq> []" using False lc by auto
  then have "c1 @ c3 = Delitem (contents s) i"
    unfolding Delitem_def Let_def c_def[symmetric] c1_def c3_def a_def lc[symmetric]
    by (auto intro!: arg_cong2[where f = take])
  moreover have "count_nl (take (nat sp) (c1 @ c3)) = count_nl (take (nat (str_sp s)) (c1 @ [y] @ c3))
      - (if str_sp s > a \<and> y = NL then 1 else 0)"
  proof -
    have "count_nl (take (nat (str_sp s) - length c1) [y]) = (if str_sp s > a \<and> y = NL then 1 else 0)"
      using w ln by (cases "nat (str_sp s) - length c1") auto
    moreover have "nat sp = (if nat (str_sp s) > length c1 + length [y] then nat (str_sp s) - length [y]
        else if nat (str_sp s) > length c1 then length c1 else nat (str_sp s))"
      using w ln by (auto simp: sp_def)
    ultimately show ?thesis using count_nl_take_gap[of c1 "[y]" "nat (str_sp s)" c3] by simp
  qed
  then have "drift s' = drift s"
    unfolding drift_def wc[THEN conjunct2] c_def[symmetric] cs by (simp add: s'_def ln'_def)
  ultimately show ?thesis by auto
qed


lemma String_putc_append:
  assumes wf: "wf_string s" and sp: "str_sp s = str_len s"
  shows "\<exists>s'. String_putc s ch = Inr s' \<and> wf_string s' \<and> str_sp s' = str_len s' \<and>
              contents s' = contents s @ [ch] \<and> drift s' = drift s"
proof -
  define c where "c = contents s"
  note w = wf_stringD[OF wf]
  have lc: "int (length c) = str_len s" using length_contents[OF wf] by (simp add: c_def)
  define big where "big \<longleftrightarrow> str_len s > str_maxsize s - 2"
  define b where "b = (if big then resize_block (str_buf s) (2 * str_maxsize s) else str_buf s)"
  define mx where "mx = (if big then 2 * str_maxsize s else str_maxsize s)"
  have mx: "mx \<le> int (length b)" "str_len s + 1 < mx"
    using w wf by (auto simp: mx_def b_def big_def wf_string_def)
  have tb: "take (length c) b = c"
  proof -
    have "length c \<le> nat (2 * str_maxsize s)" "length c \<le> length (str_buf s)" using w lc by linarith+
    then show ?thesis using lc by (auto simp: b_def take_resize_block) (simp_all add: c_def contents_def)
  qed
  have l2: "length c + 2 \<le> length b" using mx lc by linarith
  obtain x y r where b: "b = c @ x # y # r"
  proof -
    have "Suc (Suc 0) \<le> length (drop (length c) b)" using l2 by simp
    then obtain x y r where "drop (length c) b = x # y # r"
      by (auto simp only: Suc_le_length_iff)
    then show ?thesis using that tb by (metis append_take_drop_id)
  qed
  have p1: "poke b (str_sp s) ch = Inr (c @ ch # y # r)" unfolding b by (rule poke_split) (simp add: sp lc)
  have p2: "poke (c @ ch # y # r) (str_sp s + 1) NUL = Inr (c @ ch # NUL # r)"
    using poke_split[of "str_sp s + 1" "c @ [ch]" y r NUL] by (simp add: sp lc)
  define s' where "s' = s\<lparr>str_hashkey := -1, str_maxsize := mx, str_buf := c @ ch # NUL # r,
      str_len := str_sp s + 1, str_sp := str_sp s + 1,
      str_line := (if ch = NL then str_line s + 1 else str_line s)\<rparr>"
  have grow: "(if str_len s > str_maxsize s - 2
           then res_bind (realloc (str_buf s) (2 * str_maxsize s)) (\<lambda>b. Inr (b, 2 * str_maxsize s))
           else Inr (str_buf s, str_maxsize s)) = Inr (b, mx)"
    using w by (simp add: big_def b_def mx_def realloc_def)
  have "String_putc s ch = Inr s'"
    unfolding String_putc_def grow using sp p1 p2 by (simp add: s'_def Let_def)
  moreover have wc: "wf_string s' \<and> contents s' = c @ [ch]"
    by (rule wf_stringI[where x = NUL and r = r]) (use w mx lc sp b in \<open>auto simp: s'_def\<close>)
  moreover have "drift s' = drift s"
    unfolding drift_def wc[THEN conjunct2] c_def[symmetric] sp lc[symmetric]
    by (simp add: s'_def sp nat_add_distrib flip: lc)
  moreover have "str_sp s' = str_len s'" by (simp add: s'_def)
  ultimately show ?thesis by (auto simp: c_def)
qed

lemma String_putc_overwrite:
  assumes wf: "wf_string s" and sp: "str_sp s < str_len s"
  shows "\<exists>s'. String_putc s ch = Inr s' \<and> wf_string s' \<and>
              contents s' = (contents s)[nat (str_sp s) := ch] \<and> drift s' = drift s"
proof -
  define c where "c = contents s"
  note w = wf_stringD[OF wf]
  obtain x r where b: "str_buf s = c @ x # r" and lc: "int (length c) = str_len s"
    using wf_buf[OF wf] c_def by metis
  define c1 where "c1 = take (nat (str_sp s)) c"
  define y where "y = c ! nat (str_sp s)"
  define c3 where "c3 = drop (Suc (nat (str_sp s))) c"
  have lt: "nat (str_sp s) < length c" using w sp lc by linarith
  have cs: "c = c1 @ y # c3" using lt unfolding c1_def y_def c3_def by (rule id_take_nth_drop)
  have l1: "str_sp s = int (length c1)" using w lt by (simp add: c1_def)
  define s' where "s' = s\<lparr>str_hashkey := -1, str_buf := c1 @ ch # c3 @ x # r, str_sp := str_sp s + 1,
      str_line := (if ch = NL then str_line s + 1 else str_line s)\<rparr>"
  have "poke (str_buf s) (str_sp s) ch = Inr (c1 @ ch # c3 @ x # r)"
    unfolding b cs using poke_split[OF l1] by simp
  then have "String_putc s ch = Inr s'"
    using sp by (simp add: String_putc_def s'_def Let_def)
  moreover have wc: "wf_string s' \<and> contents s' = c1 @ ch # c3"
    by (rule wf_stringI[where x = x and r = r])
      (use w b cs lc sp wf[unfolded wf_string_def] in \<open>auto simp: s'_def\<close>)
  moreover have "c1 @ ch # c3 = (contents s)[nat (str_sp s) := ch]"
    unfolding c_def[symmetric] cs using l1 by simp
  moreover have "drift s' = drift s"
    unfolding drift_def wc[THEN conjunct2] c_def[symmetric] cs using l1
    by (simp add: s'_def nat_add_distrib)
  ultimately show ?thesis by auto
qed

text \<open>\<open>at_pos s\<close> is the text from the position on: what the next reads will return.\<close>

definition at_pos :: "String \<Rightarrow> char list" where
  "at_pos s = drop (nat (str_sp s)) (contents s)"

lemma str_sp_update_wf:
  "wf_string s \<Longrightarrow> 0 \<le> n \<Longrightarrow> n \<le> str_len s \<Longrightarrow> wf_string (s\<lparr>str_sp := n, str_line := l\<rparr>)"
  by (simp add: wf_string_def contents_def)

lemma String_getc_spec:
  assumes wf: "wf_string s"
  shows "case at_pos s of
           [] \<Rightarrow> String_getc s = Inr (None, s)
         | c # rest \<Rightarrow> \<exists>s'. String_getc s = Inr (Some c, s') \<and> wf_string s' \<and> at_pos s' = rest \<and>
             contents s' = contents s \<and> str_sp s' = str_sp s + 1 \<and> drift s' = drift s"
proof (cases "at_pos s")
  case Nil
  then have "str_sp s \<ge> str_len s" using length_contents[OF wf] wf_stringD(1)[OF wf] by (simp add: at_pos_def)
  then show ?thesis using Nil by (simp add: String_getc_def)
next
  case (Cons x rest)
  note w = wf_stringD[OF wf]
  have lt: "nat (str_sp s) < length (contents s)" using Cons unfolding at_pos_def
    by (metis drop_all list.distinct(1) not_le_imp_less)
  then have sp: "str_sp s < str_len s" using length_contents[OF wf] w by linarith
  have x: "contents s ! nat (str_sp s) = x" and r: "drop (Suc (nat (str_sp s))) (contents s) = rest"
    using Cons lt unfolding at_pos_def by (metis Cons_nth_drop_Suc list.inject)+
  have "peek (str_buf s) (str_sp s) = Inr x"
    using w lt x by (simp add: peek_def contents_def nat_less_iff)
  then have g: "String_getc s = Inr (Some x, s\<lparr>str_sp := str_sp s + 1,
      str_line := (if x = NL then str_line s + 1 else str_line s)\<rparr>)" (is "_ = Inr (_, ?s')")
    using sp by (simp add: String_getc_def)
  moreover have "wf_string ?s'" using wf w sp by (intro str_sp_update_wf) simp_all
  moreover have ct: "contents ?s' = contents s" by (simp add: contents_def)
  moreover have "at_pos ?s' = rest" unfolding at_pos_def ct using r w by (simp add: nat_add_distrib)
  moreover have "take (Suc (nat (str_sp s))) (contents s) = take (nat (str_sp s)) (contents s) @ [x]"
    using lt x by (simp add: take_Suc_conv_app_nth)
  then have "drift ?s' = drift s" unfolding drift_def ct using w by (simp add: nat_add_distrib)
  ultimately show ?thesis using Cons by auto
qed

text \<open>Pushing back the character just read restores the object.\<close>

lemma String_ungetc_getc:
  assumes wf: "wf_string s" and g: "String_getc s = Inr (Some c, s')"
  shows "String_ungetc s' (Some c) = (Some c, s)"
  using g wf_stringD[OF wf]
  by (auto simp: String_getc_def String_ungetc_def res_bind_eq_Inr split: if_splits)


lemma String_clear_spec:
  assumes wf: "wf_string s"
  shows "\<exists>s'. String_clear s = Inr s' \<and> wf_string s' \<and> contents s' = [] \<and> drift s' = 1"
proof -
  note w = wf_stringD[OF wf]
  obtain x r where b: "str_buf s = x # r" using w by (cases "str_buf s") auto
  define s' where "s' = s\<lparr>str_hashkey := -1, str_len := 0, str_buf := NUL # r, str_sp := 0, str_line := 1\<rparr>"
  have "String_clear s = Inr s'"
    unfolding String_clear_def b using poke_split[of 0 "[]" x r NUL] by (simp add: s'_def)
  moreover have "wf_string s' \<and> contents s' = []"
    by (rule wf_stringI[where x = NUL and r = r]) (use w b in \<open>auto simp: s'_def\<close>)
  moreover have "drift s' = 1" by (simp add: drift_def s'_def)
  ultimately show ?thesis by blast
qed

lemma String_read_spec:
  assumes wf: "wf_string s" and n: "0 \<le> n"
  shows "\<exists>s'. String_read s n = Inr (int (length (take (nat n) (at_pos s))), take (nat n) (at_pos s), s') \<and>
              wf_string s' \<and> contents s' = contents s \<and> at_pos s' = drop (nat n) (at_pos s) \<and>
              str_line s' = str_line s"
proof -
  note w = wf_stringD[OF wf]
  define c where "c = contents s"
  obtain x r where b: "str_buf s = c @ x # r" and lc: "int (length c) = str_len s"
    using wf_buf[OF wf] c_def by metis
  define d where "d = take (nat n) (at_pos s)"
  define k where "k = (if str_sp s + n > str_len s then str_len s - str_sp s else n)"
  have la: "int (length (at_pos s)) = str_len s - str_sp s"
    using w lc by (simp add: at_pos_def c_def[symmetric])
  have ld: "k = int (length d)" "drop (length d) (at_pos s) = drop (nat n) (at_pos s)"
    using la n w by (auto simp: d_def k_def min_def)
  define c1 where "c1 = take (nat (str_sp s)) c"
  have l1: "str_sp s = int (length c1)" using w lc by (simp add: c1_def)
  have cs: "c = c1 @ d @ drop (nat n) (at_pos s)"
    unfolding d_def c1_def at_pos_def c_def by (metis append_take_drop_id)
  have rd: "read_range (str_buf s) (str_sp s) k = Inr d"
    unfolding b cs using read_range_split[OF l1 ld(1)] by simp
  define s' where "s' = s\<lparr>str_sp := str_sp s + k\<rparr>"
  have "String_read s n = Inr (k, d, s')"
  proof (cases "k > 0")
    case True
    then show ?thesis using rd by (simp add: String_read_def k_def[symmetric] s'_def)
  next
    case False
    then have "k = 0" "d = []" using ld by auto
    then show ?thesis by (simp add: String_read_def k_def[symmetric] s'_def)
  qed
  moreover have "wf_string s'" unfolding s'_def
    using str_sp_update_wf[OF wf, of "str_sp s + k" "str_line s"] w ld la by (simp add: d_def)
  moreover have ct: "contents s' = contents s" by (simp add: s'_def contents_def)
  moreover have "at_pos s' = drop (nat n) (at_pos s)"
  proof -
    have "at_pos s' = drop (length d) (at_pos s)"
      unfolding at_pos_def ct using w ld(1) by (simp add: s'_def nat_add_distrib add.commute)
    then show ?thesis using ld(2) by simp
  qed
  ultimately show ?thesis using ld(1) by (auto simp: d_def s'_def)
qed

lemma String_write_spec:
  assumes wf: "wf_string s"
  shows "\<exists>s'. String_write s d = Inr (int (length d), s') \<and> wf_string s' \<and>
              contents s' = take (nat (str_sp s)) (contents s) @ d @ drop (nat (str_sp s) + length d) (contents s) \<and>
              str_sp s' = str_sp s + int (length d) \<and> str_line s' = str_line s"
proof -
  note w = wf_stringD[OF wf]
  define c where "c = contents s"
  have lc: "int (length c) = str_len s" using length_contents[OF wf] by (simp add: c_def)
  define n where "n = int (length d)"
  define big where "big \<longleftrightarrow> str_sp s + n + 1 > str_maxsize s"
  define b where "b = (if big then resize_block (str_buf s) (str_sp s + n + 1) else str_buf s)"
  define mx where "mx = (if big then str_sp s + n + 1 else str_maxsize s)"
  define len2 where "len2 = (if str_sp s + n > str_len s then str_sp s + n else str_len s)"
  have bg: "big \<Longrightarrow> str_len s \<le> str_sp s + n" using w by (auto simp: big_def)
  have tb: "take (length c) b = c"
  proof -
    have "length c \<le> length (str_buf s)" "big \<Longrightarrow> length c \<le> nat (str_sp s + n + 1)" using w lc bg by linarith+
    then show ?thesis using lc by (auto simp: b_def take_resize_block) (simp_all add: c_def contents_def)
  qed
  define c1 where "c1 = take (nat (str_sp s)) c"
  have l1: "str_sp s = int (length c1)" using w lc by (simp add: c1_def)
  have room: "str_sp s + n < int (length b)" "str_len s < int (length b)"
    using w bg wf[unfolded wf_string_def] by (auto simp: b_def big_def n_def)
  have "length c1 \<le> length c" "nat (str_sp s) = length c1" using l1 by (simp_all add: c1_def)
  then have "take (length c1) b = c1" using tb c1_def by (metis min_absorb1 take_take)
  then have cs: "b = c1 @ drop (length c1) b" by (metis append_take_drop_id)
  define x where "x = take (length d) (drop (length c1) b)"
  define t where "t = drop (length c1 + length d) b"
  have x: "b = c1 @ x @ t" "length x = length d"
    using cs room l1 by (auto simp: x_def t_def n_def) (metis append_take_drop_id drop_drop add.commute)
  have cp: "memcpy_to b (str_sp s) d = Inr (c1 @ d @ t)"
    unfolding x(1) by (rule memcpy_to_split) (simp_all add: l1 x)
  define c3 where "c3 = drop (nat (str_sp s) + length d) c"
  have l3: "len2 = int (length (c1 @ d @ c3))" using w lc l1 by (auto simp: len2_def c3_def n_def)
  have "c3 = drop (nat (str_sp s) + length d) (take (length c) b)" unfolding c3_def tb ..
  then have "c3 = take (length c - (length c1 + length d)) t" using l1 by (simp add: t_def drop_take)
  then have t: "take (length c3) t = c3" by (auto simp: min_def)
  have "len2 < int (length b)" using room by (simp add: len2_def)
  then have "length c3 < length t" unfolding l3 t_def by simp
  then obtain y r where yr: "t = c3 @ y # r" by (metis t append_take_drop_id Cons_nth_drop_Suc)
  have pk: "poke (c1 @ d @ t) len2 NUL = Inr (c1 @ d @ c3 @ NUL # r)"
    using poke_split[OF l3, of y r NUL] by (simp add: yr)
  define s' where "s' = s\<lparr>str_hashkey := -1, str_buf := c1 @ d @ c3 @ NUL # r, str_maxsize := mx,
      str_len := len2, str_sp := str_sp s + n\<rparr>"
  have "String_write s d = Inr (n, s')"
  proof (cases big)
    case True
    then have "len2 = str_sp s + n" using bg by (auto simp: len2_def)
    then show ?thesis unfolding String_write_def Let_def n_def[symmetric]
      using True w cp pk by (simp add: realloc_def b_def big_def s'_def mx_def)
  next
    case False
    then show ?thesis unfolding String_write_def Let_def n_def[symmetric]
      using w cp pk by (auto simp: b_def big_def s'_def mx_def len2_def split: if_splits)
  qed
  moreover have "big \<Longrightarrow> c3 = []" using l3 l1 bg by (simp add: len2_def n_def split: if_splits)
  then have "wf_string s' \<and> contents s' = c1 @ d @ c3"
    by - (rule wf_stringI[where x = NUL and r = r],
      use w l1 l3 x yr bg wf[unfolded wf_string_def] in \<open>auto simp: s'_def mx_def n_def b_def len2_def big_def split: if_splits\<close>)
  ultimately show ?thesis by (auto simp: s'_def n_def c1_def c3_def c_def)
qed


text \<open>The position \<^verbatim>\<open>String_seek\<close> goes to when the text is not empty.\<close>

definition seek_target :: "String \<Rightarrow> int \<Rightarrow> int \<Rightarrow> int" where
  "seek_target s offset whence =
     min (str_len s) (max 0 (if whence = SEEK_SET then offset else if whence = SEEK_END then str_len s - offset
                             else str_sp s + offset))"

lemma seek_backward_line:
  assumes wf: "wf_string s" and n: "0 \<le> n" "n \<le> str_sp s"
  shows "read_range (str_buf s) n (str_sp s - n) = Inr (take (nat (str_sp s) - nat n) (drop (nat n) (contents s)))"
    and "drift (s\<lparr>str_sp := n, str_line := str_line s - count_nl (take (nat (str_sp s) - nat n) (drop (nat n) (contents s)))\<rparr>) = drift s"
proof -
  note w = wf_stringD[OF wf]
  define c where "c = contents s"
  obtain x r where b: "str_buf s = c @ x # r" and lc: "int (length c) = str_len s"
    using wf_buf[OF wf] c_def by metis
  define d where "d = take (nat (str_sp s) - nat n) (drop (nat n) c)"
  have cs: "c = take (nat n) c @ d @ drop (nat (str_sp s)) c"
    unfolding d_def using n by (metis append.assoc append_take_drop_id take_add le_add_diff_inverse nat_mono)
  have ld: "str_sp s - n = int (length d)" "n = int (length (take (nat n) c))" using n w lc by (auto simp: d_def)
  show "read_range (str_buf s) n (str_sp s - n) = Inr (take (nat (str_sp s) - nat n) (drop (nat n) (contents s)))"
    unfolding c_def[symmetric] d_def[symmetric] b
    by (subst cs) (use read_range_split[OF ld(2,1)] in simp)
  have "take (nat (str_sp s)) c = take (nat n) c @ d"
    unfolding d_def using n by (metis take_add le_add_diff_inverse nat_mono)
  then show "drift (s\<lparr>str_sp := n, str_line := str_line s - count_nl (take (nat (str_sp s) - nat n) (drop (nat n) (contents s)))\<rparr>) = drift s"
    unfolding drift_def c_def[symmetric] d_def[symmetric]
    by (simp add: contents_def) (simp add: c_def contents_def)
qed

lemma String_seek_backward:
  assumes wf: "wf_string s" and ne: "str_len s > 0" and bk: "seek_target s offset whence \<le> str_sp s"
  shows "\<exists>s'. String_seek s offset whence = Inr s' \<and> wf_string s' \<and> contents s' = contents s \<and>
              str_sp s' = seek_target s offset whence \<and> drift s' = drift s"
proof -
  note w = wf_stringD[OF wf]
  define n where "n = seek_target s offset whence"
  have n: "0 \<le> n" "n \<le> str_sp s" using w bk by (auto simp: n_def seek_target_def)
  define s' where "s' = s\<lparr>str_sp := n, str_line := str_line s - count_nl (take (nat (str_sp s) - nat n) (drop (nat n) (contents s)))\<rparr>"
  have "seek_nsp s offset whence = n"
    using ne by (auto simp: seek_nsp_def n_def seek_target_def Let_def)
  then have "String_seek s offset whence = Inr s'"
    using n seek_backward_line(1)[OF wf n] by (simp add: String_seek_def s'_def)
  moreover have "wf_string s'" unfolding s'_def using wf w n by (intro str_sp_update_wf) auto
  moreover have "contents s' = contents s" "str_sp s' = n" by (simp_all add: s'_def contents_def)
  moreover have "drift s' = drift s" unfolding s'_def by (rule seek_backward_line(2)[OF wf n])
  ultimately show ?thesis by (auto simp: n_def)
qed

text \<open>The reference for \<^verbatim>\<open>Chop\<close>: the text without its trailing white space.\<close>

definition rstrip :: "char list \<Rightarrow> char list" where
  "rstrip c = rev (dropWhile isspace (rev c))"

lemma rstrip_snoc [simp]: "rstrip (c @ [x]) = (if isspace x then rstrip c else c @ [x])"
  by (simp add: rstrip_def)

lemma rstrip_Nil [simp]: "rstrip [] = []"
  by (simp add: rstrip_def)

lemma chop_loop_ok:
  "n \<le> length buf \<Longrightarrow> 0 \<le> sp \<Longrightarrow> sp \<le> int n \<Longrightarrow>
   \<exists>k sp' line'. chop_loop buf n sp line = Inr (k, sp', line') \<and> k \<le> n \<and> take k buf = rstrip (take n buf) \<and>
     sp' = min sp (int k) \<and> line' - count_nl (take (nat sp') (take k buf)) = line - count_nl (take (nat sp) (take n buf))"
proof (induction buf n sp line rule: chop_loop.induct)
  case (1 buf sp line)
  then show ?case by auto
next
  case (2 buf n sp line)
  have tk: "take (Suc n) buf = take n buf @ [buf ! n]" using 2 by (simp add: take_Suc_conv_app_nth)
  show ?case
  proof (cases "isspace (buf ! n)")
    case False
    then have "rstrip (take (Suc n) buf) = take (Suc n) buf" by (simp add: tk)
    then show ?thesis using 2 False by auto
  next
    case True
    show ?thesis
    proof (cases "sp \<ge> int (Suc n)")
      case T: True
      then have sp: "sp = int (Suc n)" using 2 by simp
      from 2(1)[OF _ refl True T] 2 sp show ?thesis
        using True tk by (auto simp: nat_add_distrib)
    next
      case F: False
      from 2(2)[OF _ refl True F] 2(3-) F show ?thesis
        using True tk by (auto simp: nat_add_distrib)
    qed
  qed
qed

lemma String_chop_spec:
  assumes wf: "wf_string s"
  shows "\<exists>s'. String_chop s = Inr s' \<and> wf_string s' \<and> contents s' = rstrip (contents s) \<and> drift s' = drift s"
proof -
  note w = wf_stringD[OF wf]
  obtain x r where b: "str_buf s = contents s @ x # r" and lc: "int (length (contents s)) = str_len s"
    using wf_buf[OF wf] by metis
  have n: "nat (str_len s) \<le> length (str_buf s)" "str_sp s \<le> int (nat (str_len s))" using w by auto
  obtain k sp line where k: "chop_loop (str_buf s) (nat (str_len s)) (str_sp s) (str_line s) = Inr (k, sp, line)"
    "k \<le> nat (str_len s)" "take k (str_buf s) = rstrip (contents s)" "sp = min (str_sp s) (int k)"
    "line - count_nl (take (nat sp) (take k (str_buf s))) = drift s"
    using chop_loop_ok[OF n(1) w(1) n(2), of "str_line s"] unfolding drift_def contents_def[symmetric] by blast
  have "k < length (str_buf s)" using k(2) w by linarith
  then obtain y t where yt: "str_buf s = take k (str_buf s) @ y # t" by (metis id_take_nth_drop)
  then have pk: "poke (str_buf s) (int k) NUL = Inr (take k (str_buf s) @ NUL # t)"
    using poke_split[of "int k" "take k (str_buf s)" y t NUL] \<open>k < length (str_buf s)\<close> by simp
  define s' where "s' = s\<lparr>str_buf := take k (str_buf s) @ NUL # t, str_len := int k, str_sp := sp,
      str_line := line, str_hashkey := -1\<rparr>"
  have "String_chop s = Inr s'" unfolding String_chop_def k(1) using pk k(4) w by (simp add: s'_def)
  moreover have lb: "length (str_buf s) = Suc (k + length t)"
    using yt \<open>k < length (str_buf s)\<close> by (metis length_append length_Cons length_take min.absorb4 add_Suc_right)
  have "0 \<le> sp" "sp \<le> int k" "int k \<le> str_len s" using k(2,4) w by auto
  then have wc: "wf_string s' \<and> contents s' = take k (str_buf s)"
    by - (rule wf_stringI[where x = NUL and r = t],
      use w lb wf[unfolded wf_string_def] in \<open>auto simp: s'_def\<close>)
  moreover have "drift s' = drift s" 
    using k(5) unfolding drift_def[of s'] wc[THEN conjunct2] by (simp add: s'_def)
  ultimately show ?thesis using k(3) by auto
qed


section \<open>Creation and copies\<close>

lemma until_nul_id: "NUL \<notin> set d \<Longrightarrow> until_nul d = d"
  by (auto simp: until_nul_def takeWhile_eq_all_conv)

lemma hash_of_Nil: "hash_of [] = 0"
  by (simp add: hash_of_def)

lemma DohNewStringEmpty_wf: "wf_string DohNewStringEmpty \<and> contents DohNewStringEmpty = []"
  by (rule wf_stringI[where x = NUL and r = "replicate 15 NUL"])
    (simp_all add: DohNewStringEmpty_def alloc_def hash_of_Nil flip: replicate_Suc)

lemma alloc_split: "0 \<le> n \<Longrightarrow> n < m \<Longrightarrow> alloc m = replicate (nat n) NUL @ NUL # replicate (nat m - Suc (nat n)) NUL"
  unfolding alloc_def by (simp flip: replicate_Suc replicate_add)

lemma DohNewString_spec:
  assumes arg: "wf_arg arg" and nn: "NUL \<notin> set (arg_text arg)"
  shows "\<exists>s. DohNewString (Some arg) = Inr s \<and> wf_string s \<and> contents s = arg_text arg \<and>
             str_sp s = str_len s \<and> str_line s = 1"
proof -
  define d where "d = arg_text arg"
  define l where "l = int (length d)"
  define m where "m = (if l + 1 > INIT_MAXSIZE then l + 1 else INIT_MAXSIZE)"
  define h where "h = (case arg of DStr ss \<Rightarrow> str_hashkey ss | CStr _ \<Rightarrow> -1)"
  have m: "0 \<le> l" "l < m" by (auto simp: m_def l_def)
  let ?r = "replicate (nat m - Suc (nat l)) NUL"
  have "alloc m = [] @ (replicate (nat l) NUL @ [NUL]) @ ?r" using alloc_split[OF m] by simp
  then have cp: "memcpy_to (alloc m) 0 (until_nul d @ [NUL]) = Inr (d @ NUL # ?r)"
    using memcpy_to_split[of 0 "[]" "replicate (nat l) NUL @ [NUL]" "d @ [NUL]" ?r] nn
    by (simp add: until_nul_id d_def[symmetric] l_def)
  define s where "s = \<lparr>str_file = None, str_line = 1, str_maxsize = m, str_len = l,
                str_hashkey = h, str_sp = l, str_buf = d @ NUL # ?r\<rparr>"
  have "DohNewString (Some arg) = Inr s"
    unfolding DohNewString_def option.case arg_bytes_ok[OF arg] res_bind_simps Let_def
      d_def[symmetric] l_def[symmetric] m_def[symmetric] h_def[symmetric] cp
    by (simp add: s_def)
  moreover have "h = -1 \<or> h = hash_of d"
    using arg by (cases arg) (auto simp: h_def d_def arg_text_def wf_arg_def wf_string_def)
  then have "wf_string s \<and> contents s = d"
    by - (rule wf_stringI[where x = NUL and r = ?r], use m in \<open>auto simp: s_def l_def\<close>)
  ultimately show ?thesis by (auto simp: d_def s_def)
qed

lemma CopyString_spec:
  assumes wf: "wf_string s"
  shows "\<exists>s'. CopyString s = Inr s' \<and> contents s' = contents s \<and> str_sp s' = str_sp s \<and>
              str_line s' = str_line s \<and> (wf_string s' \<longleftrightarrow> 2 \<le> str_len s)"
proof -
  note w = wf_stringD[OF wf]
  define c where "c = contents s"
  obtain x r where b: "str_buf s = c @ x # r" and lc: "int (length c) = str_len s"
    using wf_buf[OF wf] c_def by metis
  have rd: "read_range (str_buf s) 0 (str_len s) = Inr c"
    unfolding b using read_range_split[of 0 "[]" "str_len s" c "x # r"] lc by simp
  have al: "alloc (str_len s + 1) = [] @ replicate (length c) NUL @ [NUL]"
    using alloc_split[of "str_len s" "str_len s + 1"] w by (simp flip: lc)
  have cp: "memcpy_to (alloc (str_len s + 1)) 0 c = Inr (c @ [NUL])"
    unfolding al using memcpy_to_split[of 0 "[]" "replicate (length c) NUL" c "[NUL]"] by simp
  have pk: "poke (c @ [NUL]) (str_len s) NUL = Inr (c @ [NUL])"
    using poke_split[of "str_len s" c NUL "[]" NUL] lc by simp
  define s' where "s' = \<lparr>str_file = str_file s, str_line = str_line s, str_maxsize = str_len s, str_len = str_len s,
          str_hashkey = str_hashkey s, str_sp = str_sp s, str_buf = c @ [NUL]\<rparr>"
  have "CopyString s = Inr s'" unfolding CopyString_def rd res_bind_simps cp pk by (simp add: s'_def)
  moreover have ct: "contents s' = c" by (rule contentsI[where r = "[NUL]"]) (simp_all add: s'_def lc)
  moreover have "wf_string s' \<longleftrightarrow> 2 \<le> str_len s"
    unfolding wf_string_def ct using w lc wf[unfolded wf_string_def] by (auto simp: s'_def c_def)
  ultimately show ?thesis by (auto simp: s'_def c_def)
qed

section \<open>Comparison\<close>

lemma schar_inject: "schar a = schar b \<longleftrightarrow> a = b"
  using cc_bound[of a] cc_bound[of b] by (auto simp: schar_def cc_inject split: if_splits)

text \<open>The order of texts: lexicographic in the value of the signed characters.\<close>

fun text_cmp :: "char list \<Rightarrow> char list \<Rightarrow> int" where
  "text_cmp [] [] = 0"
| "text_cmp [] (y # ys) = -1"
| "text_cmp (x # xs) [] = 1"
| "text_cmp (x # xs) (y # ys) = (if x = y then text_cmp xs ys else if schar x < schar y then -1 else 1)"

lemma String_cmp_loop_text:
  "(case String_cmp_loop (min (length a) (length b)) (a @ r) (b @ t) of
      Some (x, y) \<Rightarrow> if schar x < schar y then -1 else 1
    | None \<Rightarrow> if length a = length b then 0 else if length a > length b then 1 else -1) = text_cmp a b"
proof (induction a b rule: text_cmp.induct)
  case (4 x xs y ys)
  show ?case
  proof (cases "x = y")
    case True
    then show ?thesis using 4
      by (simp only: append_Cons length_Cons min_Suc_Suc String_cmp_loop.simps text_cmp.simps
          nat.inject Suc_less_eq simp_thms if_True if_False)
  qed simp
qed auto

lemma String_cmp_text:
  assumes "wf_string s" "wf_string t"
  shows "String_cmp s t = text_cmp (contents s) (contents t)"
proof -
  obtain x r where s: "str_buf s = contents s @ x # r" "int (length (contents s)) = str_len s"
    using wf_buf[OF assms(1)] by metis
  obtain y q where t: "str_buf t = contents t @ y # q" "int (length (contents t)) = str_len t"
    using wf_buf[OF assms(2)] by metis
  have m: "nat (if str_len t < str_len s then str_len t else str_len s)
      = min (length (contents s)) (length (contents t))"
    by (auto simp flip: s(2) t(2))
  show ?thesis
    using String_cmp_loop_text[of "contents s" "contents t" "x # r" "y # q"]
    unfolding String_cmp_def Let_def m s(1)[symmetric] t(1)[symmetric] s(2)[symmetric] t(2)[symmetric]
    by (auto simp: min_def split: if_splits)
qed

lemma text_cmp_eq_0: "text_cmp a b = 0 \<longleftrightarrow> a = b"
  by (induction a b rule: text_cmp.induct) auto

lemma text_cmp_anti: "text_cmp b a = - text_cmp a b"
  by (induction a b rule: text_cmp.induct) (auto simp: schar_inject linorder_not_less le_less)

lemma text_cmp_trans: "text_cmp a b \<le> 0 \<Longrightarrow> text_cmp b c \<le> 0 \<Longrightarrow> text_cmp a c \<le> 0"
proof (induction a b arbitrary: c rule: text_cmp.induct)
  case (2 y ys)
  then show ?case by (cases c) auto
next
  case (4 x xs y ys)
  then show ?case
    by (cases c) (auto split: if_splits simp: schar_inject)
qed (auto split: if_splits)

lemma String_equal_text:
  assumes "wf_string s" "wf_string t"
  shows "String_equal s t \<longleftrightarrow> contents s = contents t"
proof -
  have "int (length (contents s)) = str_len s" "int (length (contents t)) = str_len t"
    using assms length_contents by blast+
  then have "contents s = contents t \<Longrightarrow> str_len s = str_len t" by metis
  then show ?thesis by (auto simp: String_equal_def contents_def)
qed

lemma String_hash_spec:
  assumes wf: "wf_string s"
  shows "\<exists>s'. String_hash s = (hash_of (contents s), s') \<and> wf_string s' \<and> contents s' = contents s"
proof (cases "str_hashkey s \<ge> 0")
  case True
  then show ?thesis using wf by (auto simp: String_hash_def wf_string_def)
next
  case False
  have "compute_hash (str_len s) (str_buf s) = hash_of (contents s)"
    using wf_stringD[OF wf] by (simp add: compute_hash_eq contents_def)
  moreover have "contents (s\<lparr>str_hashkey := h\<rparr>) = contents s" for h by (simp add: contents_def)
  ultimately show ?thesis using False wf by (auto simp: String_hash_def wf_string_def Let_def)
qed


section \<open>The contract of a text object\<close>

text \<open>
  A sequence of edits, as the callers of \<^verbatim>\<open>Insert\<close>, \<^verbatim>\<open>Delslice\<close> and \<^verbatim>\<open>Delitem\<close> make them on one
  object, and what it means for the text.
\<close>

datatype edit = EInsert int string | EDelslice int int | EDelitem int

fun edit1 :: "string \<Rightarrow> edit \<Rightarrow> string" where
  "edit1 c (EInsert pos d) = Insert c pos d"
| "edit1 c (EDelslice i e) = Delslice c i e"
| "edit1 c (EDelitem i) = Delitem c i"

fun edit_ok :: "string \<Rightarrow> edit \<Rightarrow> bool" where
  "edit_ok c (EInsert pos d) \<longleftrightarrow> NUL \<notin> set d"
| "edit_ok c (EDelslice i e) \<longleftrightarrow> 0 \<le> i \<and> i \<le> e \<and> e \<le> int (length c)"
| "edit_ok c (EDelitem i) \<longleftrightarrow> 0 \<le> i \<and> i < int (length c)"

fun edits_ok :: "string \<Rightarrow> edit list \<Rightarrow> bool" where
  "edits_ok c [] \<longleftrightarrow> True"
| "edits_ok c (e # es) \<longleftrightarrow> edit_ok c e \<and> edits_ok (edit1 c e) es"

fun String_edit :: "String \<Rightarrow> edit \<Rightarrow> String res" where
  "String_edit s (EInsert pos d) = String_insert s pos (CStr d)"
| "String_edit s (EDelslice i e) = String_delslice s i e"
| "String_edit s (EDelitem i) = String_delitem s i"

fun run_edits :: "('s \<Rightarrow> edit \<Rightarrow> 's res) \<Rightarrow> 's \<Rightarrow> edit list \<Rightarrow> 's res" where
  "run_edits step s [] = Inr s"
| "run_edits step s (e # es) = res_bind (step s e) (\<lambda>s'. run_edits step s' es)"

locale text_object =
  fixes inv :: "'s \<Rightarrow> bool"
    and textof :: "'s \<Rightarrow> string"
    and offset :: "'s \<Rightarrow> int"
    and step :: "'s \<Rightarrow> edit \<Rightarrow> 's res"
  assumes step_ok: "inv s \<Longrightarrow> edit_ok (textof s) e \<Longrightarrow>
    \<exists>s'. step s e = Inr s' \<and> inv s' \<and> textof s' = edit1 (textof s) e \<and> offset s' = offset s"
begin

lemma run_edits_refines:
  "inv s \<Longrightarrow> edits_ok (textof s) es \<Longrightarrow>
   \<exists>s'. run_edits step s es = Inr s' \<and> inv s' \<and> textof s' = foldl edit1 (textof s) es \<and> offset s' = offset s"
proof (induction es arbitrary: s)
  case (Cons e es)
  from step_ok[of s e] Cons.prems obtain s1 where
    s1: "step s e = Inr s1" "inv s1" "textof s1 = edit1 (textof s) e" "offset s1 = offset s" by auto
  from Cons.IH[OF s1(2)] Cons.prems s1 show ?case by simp
qed simp

end

interpretation string_text: text_object wf_string contents drift String_edit
proof
  fix s e
  assume wf: "wf_string s" and ok: "edit_ok (contents s) e"
  show "\<exists>s'. String_edit s e = Inr s' \<and> wf_string s' \<and> contents s' = edit1 (contents s) e \<and> drift s' = drift s"
  proof (cases e)
    case (EInsert pos d)
    then show ?thesis using String_insert_spec[OF wf, of "CStr d" pos] ok by (auto simp: wf_arg_def arg_text_def)
  next
    case (EDelslice i z)
    then show ?thesis using String_delslice_spec[OF wf, of i z] ok length_contents[OF wf] by auto
  next
    case (EDelitem i)
    then show ?thesis using String_delitem_spec[OF wf, of i] ok length_contents[OF wf] by auto
  qed
qed

section \<open>Reading to the end\<close>

text \<open>
  The loop \<^verbatim>\<open>while ((c = Getc(s)) != EOF)\<close> of the callers, with a bound on its turns; the
  bound is enough when it exceeds the characters left.
\<close>

fun getc_all :: "nat \<Rightarrow> String \<Rightarrow> (char list \<times> String) res" where
  "getc_all 0 s = Inl Diverges"
| "getc_all (Suc n) s =
     res_bind (String_getc s) (\<lambda>(c, s1).
       case c of None \<Rightarrow> Inr ([], s1)
       | Some x \<Rightarrow> res_bind (getc_all n s1) (\<lambda>(cs, s2). Inr (x # cs, s2)))"

lemma getc_all_spec:
  "wf_string s \<Longrightarrow> length (at_pos s) < n \<Longrightarrow>
   \<exists>s'. getc_all n s = Inr (at_pos s, s') \<and> wf_string s' \<and> contents s' = contents s \<and> drift s' = drift s \<and>
        at_pos s' = []"
proof (induction n arbitrary: s)
  case (Suc n)
  show ?case
  proof (cases "at_pos s")
    case Nil
    then show ?thesis using String_getc_spec[OF Suc.prems(1)] Suc.prems(1) by simp
  next
    case (Cons x rest)
    with String_getc_spec[OF Suc.prems(1)] obtain s1 where
      s1: "String_getc s = Inr (Some x, s1)" "wf_string s1" "at_pos s1 = rest"
        "contents s1 = contents s" "drift s1 = drift s" by auto
    from Suc.IH[OF s1(2)] Suc.prems(2) Cons s1 show ?thesis by auto
  qed
qed simp


section \<open>Properties\<close>

text \<open>A text whose first character is a line end, with the position at its start.\<close>

definition two_lines :: String where
  "two_lines = \<lparr>str_file = None, str_line = 1, str_maxsize = 16, str_len = 3, str_hashkey = -1, str_sp = 0,
     str_buf = NL # ''ab'' @ replicate 13 NUL\<rparr>"





text \<open>Reading a well-formed String with \<^verbatim>\<open>Getc\<close> until \<^verbatim>\<open>EOF\<close> stops after as many calls as
  characters are left plus one, yields exactly the text from the position on, and leaves the
  line counter consistent.\<close>

theorem string_getc_reads_all:
  "wf_string s \<Longrightarrow> length (at_pos s) < n \<Longrightarrow>
   \<exists>s'. getc_all n s = Inr (at_pos s, s') \<and> wf_string s' \<and> contents s' = contents s \<and> drift s' = drift s"
  using getc_all_spec by blast

theorem string_getc_reads_all_witness:
  "\<exists>s'. getc_all 1 DohNewStringEmpty = Inr ([], s')"
proof -
  have "at_pos DohNewStringEmpty = []" using DohNewStringEmpty_wf by (simp add: at_pos_def)
  then show ?thesis using string_getc_reads_all[OF DohNewStringEmpty_wf[THEN conjunct1], of 1] by auto
qed

text \<open>C3: the unrolled, cached hash function returns, whatever the history of the object, the value
  of the plain fold over the first fifty characters of its text, a number that fits in 31 bits;
  so equal texts have equal hash values.\<close>

theorem string_hash_is_reference:
  "wf_string s \<Longrightarrow>
   fst (String_hash s) = uint (and (foldl hash_step 0 (take 50 (contents s))) 0x7fffffff) \<and>
   0 \<le> fst (String_hash s) \<and> fst (String_hash s) < 2 ^ 31"
  using String_hash_spec[of s] hash_of_nonneg hash_of_bound by (auto simp: hash_of_def)

theorem string_hash_is_reference_witness: "fst (String_hash DohNewStringEmpty) = 0"
  using string_hash_is_reference[OF DohNewStringEmpty_wf[THEN conjunct1]] DohNewStringEmpty_wf by simp

text \<open>C4: \<^verbatim>\<open>Cmp\<close> on Strings is a total order on their texts: it is zero exactly for equal texts
  (and then \<^verbatim>\<open>Equal\<close> holds), changes sign when the arguments are exchanged, and is transitive.\<close>

theorem string_cmp_total_order:
  assumes "wf_string s" "wf_string t" "wf_string u"
  shows "(String_cmp s t = 0 \<longleftrightarrow> contents s = contents t) \<and> (String_equal s t \<longleftrightarrow> contents s = contents t) \<and>
    String_cmp t s = - String_cmp s t \<and>
    (String_cmp s t \<le> 0 \<longrightarrow> String_cmp t u \<le> 0 \<longrightarrow> String_cmp s u \<le> 0)"
  using assms text_cmp_trans
  by (auto simp: String_cmp_text String_equal_text text_cmp_eq_0 text_cmp_anti[of "contents t" "contents s"])

theorem string_cmp_total_order_witness: "String_cmp DohNewStringEmpty DohNewStringEmpty = 0"
  using string_cmp_total_order[of DohNewStringEmpty DohNewStringEmpty DohNewStringEmpty] DohNewStringEmpty_wf by simp

text \<open>\<^verbatim>\<open>Chop\<close> removes exactly the trailing white space of a well-formed String and moves
  position and line counter along.\<close>

theorem string_chop_strips:
  "wf_string s \<Longrightarrow>
   \<exists>s'. String_chop s = Inr s' \<and> wf_string s' \<and> contents s' = rev (dropWhile isspace (rev (contents s))) \<and>
        drift s' = drift s"
  using String_chop_spec unfolding rstrip_def by blast

theorem string_chop_strips_witness: "\<exists>s'. String_chop DohNewStringEmpty = Inr s' \<and> contents s' = []"
  using string_chop_strips[OF DohNewStringEmpty_wf[THEN conjunct1]] DohNewStringEmpty_wf by auto

text \<open>A copy of a well-formed String has the same text, but its \<^verbatim>\<open>maxsize\<close> is one less than its
  block: appending a character with \<^verbatim>\<open>Putc\<close> to the copy of a one-character String writes
  outside the block, and to the copy of an empty String fails the assertion.\<close>

theorem string_copy_putc_overflow:
  assumes wf: "wf_string s" and sp: "str_sp s = str_len s" and len: "str_len s = 0 \<or> str_len s = 1"
  shows "\<exists>t. CopyString s = Inr t \<and> contents t = contents s \<and>
             String_putc t ch = Inl (if str_len s = 1 then OutOfBounds else AssertFailed)"
proof -
  note w = wf_stringD[OF wf]
  obtain t where t: "CopyString s = Inr t" "contents t = contents s" using CopyString_spec[OF wf] by blast
  then have f: "str_maxsize t = str_len s" "str_len t = str_len s" "str_sp t = str_len s"
    using sp by (auto simp: CopyString_def res_bind_eq_Inr)
  have "String_putc t ch = Inl (if str_len s = 1 then OutOfBounds else AssertFailed)"
    using len f by (auto simp: String_putc_def Let_def realloc_def poke_def memcpy_to_def)
  with t show ?thesis by blast
qed

theorem string_copy_putc_overflow_witness:
  "\<exists>t. CopyString DohNewStringEmpty = Inr t \<and> String_putc t CHR ''x'' = Inl AssertFailed"
  using string_copy_putc_overflow[OF DohNewStringEmpty_wf[THEN conjunct1], of "CHR ''x''"]
  by (auto simp: DohNewStringEmpty_def)

text \<open>Seeking is not safe on an empty String: the target is clamped to the length only when the
  text is not empty, so a seek of sixteen or more characters reads outside the block of a fresh
  empty String, and a shorter one leaves the position after the end of the text.\<close>

theorem string_seek_empty_overrun:
  "0 < n \<Longrightarrow>
   (if 16 \<le> n then String_seek DohNewStringEmpty n SEEK_SET = Inl OutOfBounds
    else \<exists>s'. String_seek DohNewStringEmpty n SEEK_SET = Inr s' \<and> str_len s' < str_sp s')"
  by (auto simp: String_seek_def seek_nsp_def DohNewStringEmpty_def alloc_def read_range_def Let_def)

theorem string_seek_empty_overrun_witness: "String_seek DohNewStringEmpty 20 SEEK_SET = Inl OutOfBounds"
  using string_seek_empty_overrun[of 20] by simp

text \<open>seeking does not keep the line counter consistent: forward it counts the line end at the
  character it arrives at, backward the one it steps over, so going forward and back over a
  line end changes the line number although text and position are the same.\<close>

theorem string_seek_line_drift:
  "wf_string two_lines \<and>
   (\<exists>s1 s2. String_seek two_lines 1 SEEK_SET = Inr s1 \<and> String_seek s1 0 SEEK_SET = Inr s2 \<and>
      contents s2 = contents two_lines \<and> str_sp s2 = str_sp two_lines \<and> str_line s2 = str_line two_lines - 1)"
  by (auto simp: wf_string_def two_lines_def contents_def String_seek_def seek_nsp_def read_range_def Let_def
      eval_nat_numeral)

end
