(* ===== verification/Doh_Replace.thy ===== *)
theory Doh_Replace
  imports Doh_String
begin

text \<open>
  Replacement in a String (\<^verbatim>\<open>String_replace\<close> of \<^verbatim>\<open>Source/DOH/string.c\<close>): the five ways to match a token, the
  search for the end of a quoted part, and the replacement itself, in place when the text does not grow and into a
  new block when it does. A pointer is an offset into the block, the null pointer is \<open>None\<close>; a search reads from its
  offset to the terminator and fails with \<open>OutOfBounds\<close> where the block has none.
\<close>

section \<open>Searching\<close>

definition cstring_at :: "char list \<Rightarrow> nat \<Rightarrow> string res" where
  "cstring_at buf s = (if NUL \<in> set (drop s buf) then Inr (until_nul (drop s buf)) else Inl OutOfBounds)"

definition found_at :: "nat \<Rightarrow> string \<Rightarrow> string option \<Rightarrow> nat option" where
  "found_at s t r = (case r of None \<Rightarrow> None | Some c \<Rightarrow> Some (s + ptr_diff c t))"

definition strstr_from :: "char list \<Rightarrow> nat \<Rightarrow> string \<Rightarrow> nat option res" where
  "strstr_from buf s tok = res_bind (cstring_at buf s) (\<lambda>t. Inr (found_at s t (strstr t tok)))"

definition strpbrk_from :: "char list \<Rightarrow> nat \<Rightarrow> string \<Rightarrow> nat option res" where
  "strpbrk_from buf s accept = res_bind (cstring_at buf s) (\<lambda>t. Inr (found_at s t (strpbrk t accept)))"

definition strchr_from :: "char list \<Rightarrow> nat \<Rightarrow> char \<Rightarrow> nat option res" where
  "strchr_from buf s c = res_bind (cstring_at buf s) (\<lambda>t. Inr (found_at s t (strchr t c)))"

abbreviation QUOTES :: string where "QUOTES \<equiv> [CHR 0x22, CHR 0x27]"
abbreviation BSLASH :: char where "BSLASH \<equiv> CHR 0x5C"

text \<open>The searches find a position between their start and the terminator.\<close>

lemma takeWhile_exit: "x \<in> set xs \<Longrightarrow> \<not> P x \<Longrightarrow> length (takeWhile P xs) < length xs"
  by (induction xs) auto

lemma cstring_at_length: "cstring_at buf s = Inr t \<Longrightarrow> s + length t < length buf"
  using takeWhile_exit[of NUL "drop s buf" "\<lambda>c. c \<noteq> NUL"]
  by (auto simp: cstring_at_def until_nul_def split: if_splits)

lemma found_at_Some: "found_at s t r = Some p \<longleftrightarrow> (\<exists>c. r = Some c \<and> p = s + ptr_diff c t)"
  by (auto simp: found_at_def split: option.splits)

lemma strstr_fits: "strstr t tok = Some c \<Longrightarrow> length c \<le> length t \<and> length tok \<le> length c"
  by (induction t) (auto simp: starts_with_iff split: if_splits dest: arg_cong[of _ _ length])

lemma strpbrk_fits: "strpbrk t a = Some c \<Longrightarrow> length c \<le> length t \<and> 0 < length c"
  by (induction t) (auto split: if_splits)

lemma strchr_fits: "strchr t a = Some c \<Longrightarrow> length c \<le> length t \<and> 0 < length c"
  by (induction t) (auto split: if_splits)

lemma strstr_from_bound: "strstr_from buf s tok = Inr (Some p) \<Longrightarrow> s \<le> p \<and> p + length tok < length buf"
  by (fastforce simp: strstr_from_def res_bind_eq_Inr found_at_Some ptr_diff_def
      dest: cstring_at_length strstr_fits)

lemma strpbrk_from_bound: "strpbrk_from buf s a = Inr (Some p) \<Longrightarrow> s \<le> p \<and> p < length buf"
  by (fastforce simp: strpbrk_from_def res_bind_eq_Inr found_at_Some ptr_diff_def
      dest: cstring_at_length strpbrk_fits)

lemma strchr_from_bound: "strchr_from buf s a = Inr (Some p) \<Longrightarrow> s \<le> p \<and> p < length buf"
  by (fastforce simp: strchr_from_def res_bind_eq_Inr found_at_Some ptr_diff_def
      dest: cstring_at_length strchr_fits)

lemma res_bind_cong [fundef_cong]:
  "r = r' \<Longrightarrow> (\<And>x. r' = Inr x \<Longrightarrow> f x = g x) \<Longrightarrow> res_bind r f = res_bind r' g"
  by (cases r') auto

text \<open>\<^verbatim>\<open>end_quote\<close>: a line end that no backslash precedes stops the search at the opening quote.\<close>

function end_quote_loop :: "char list \<Rightarrow> nat \<Rightarrow> char \<Rightarrow> nat \<Rightarrow> nat option res" where
  "end_quote_loop buf qs qc s =
     res_bind (strpbrk_from buf (s + 1) QUOTES) (\<lambda>q.
     res_bind (strchr_from buf (s + 1) NL) (\<lambda>nl.
     case (nl, q) of
       (None, None) \<Rightarrow> Inr None
     | (Some _, None) \<Rightarrow> Inr (Some qs)
     | (_, Some q) \<Rightarrow>
         if nl \<noteq> None \<and> the nl < q then
           res_bind (peek buf (int (the nl) - 1)) (\<lambda>c.
             if c = BSLASH then end_quote_loop buf qs qc (the nl + 1) else Inr (Some qs))
         else
           res_bind (peek buf (int q)) (\<lambda>c. res_bind (peek buf (int q - 1)) (\<lambda>d.
             if c = qc \<and> d \<noteq> BSLASH then Inr (Some q) else end_quote_loop buf qs qc q))))"
  by pat_completeness auto

termination
  by (relation "measure (\<lambda>(buf, qs, qc, s). Suc (length buf) - s)")
    (auto dest!: strpbrk_from_bound strchr_from_bound)

definition end_quote :: "char list \<Rightarrow> nat \<Rightarrow> nat option res" where
  "end_quote buf s = res_bind (peek buf (int s)) (\<lambda>qc. end_quote_loop buf s qc s)"

section \<open>Matching a token\<close>

definition word_char :: "char \<Rightarrow> bool" where
  "word_char c \<longleftrightarrow> isalnum c \<or> c = CHR ''_''"

definition word_before :: "char list \<Rightarrow> nat \<Rightarrow> bool res" where
  "word_before buf p = (if 0 < p then res_bind (peek buf (int p - 1)) (\<lambda>c. Inr (word_char c)) else Inr False)"

definition word_after :: "char list \<Rightarrow> nat \<Rightarrow> nat \<Rightarrow> bool res" where
  "word_after buf p tokenlen = res_bind (peek buf (int (p + tokenlen))) (\<lambda>c. Inr (word_char c))"

definition digit_after :: "char list \<Rightarrow> nat \<Rightarrow> nat \<Rightarrow> bool res" where
  "digit_after buf p tokenlen = res_bind (peek buf (int (p + tokenlen))) (\<lambda>c. Inr (isdigit c))"

text \<open>The loop that the last four functions share: an occurrence that is refused is skipped as a whole. The caller
  never passes an empty token, with which a refused occurrence would be found again and again.\<close>

function match_loop :: "(char list \<Rightarrow> nat \<Rightarrow> nat \<Rightarrow> bool res) \<Rightarrow> char list \<Rightarrow> string \<Rightarrow> nat \<Rightarrow> nat option res" where
  "match_loop refuse buf token s =
     res_bind (strstr_from buf s token) (\<lambda>r.
     case r of None \<Rightarrow> Inr None
     | Some p \<Rightarrow>
         res_bind (refuse buf p (length token)) (\<lambda>b.
         if \<not> b then Inr (Some p)
         else if token = [] then Inl Diverges
         else match_loop refuse buf token (p + length token)))"
  by pat_completeness auto
termination
  by (relation "measure (\<lambda>(refuse, buf, token, s). length buf - s)") (auto dest!: strstr_from_bound simp: neq_Nil_conv)

declare match_loop.simps [simp del] end_quote_loop.simps [simp del]

definition match_simple :: "char list \<Rightarrow> string \<Rightarrow> nat \<Rightarrow> nat option res" where
  "match_simple buf token s = strstr_from buf s token"

definition match_identifier :: "char list \<Rightarrow> string \<Rightarrow> nat \<Rightarrow> nat option res" where
  "match_identifier =
     match_loop (\<lambda>buf p n. res_bind (word_before buf p) (\<lambda>b. if b then Inr True else word_after buf p n))"

definition match_identifier_begin :: "char list \<Rightarrow> string \<Rightarrow> nat \<Rightarrow> nat option res" where
  "match_identifier_begin = match_loop (\<lambda>buf p n. word_before buf p)"

definition match_identifier_end :: "char list \<Rightarrow> string \<Rightarrow> nat \<Rightarrow> nat option res" where
  "match_identifier_end = match_loop word_after"

definition match_number_end :: "char list \<Rightarrow> string \<Rightarrow> nat \<Rightarrow> nat option res" where
  "match_number_end = match_loop digit_after"

text \<open>The function pointer that \<^verbatim>\<open>String_replace\<close> passes to \<^verbatim>\<open>replace_simple\<close>.\<close>

datatype match_fun = Simple | Identifier | Identifier_begin | Identifier_end | Number_end

fun match_with :: "match_fun \<Rightarrow> char list \<Rightarrow> string \<Rightarrow> nat \<Rightarrow> nat option res" where
  "match_with Simple = match_simple"
| "match_with Identifier = match_identifier"
| "match_with Identifier_begin = match_identifier_begin"
| "match_with Identifier_end = match_identifier_end"
| "match_with Number_end = match_number_end"

text \<open>What the loops need to end.\<close>

lemma match_loop_bound: "match_loop refuse buf token s = Inr (Some p) \<Longrightarrow> s \<le> p \<and> p + length token < length buf"
proof (induction refuse buf token s rule: match_loop.induct)
  case (1 refuse buf token s)
  note e = "1.prems"[unfolded match_loop.simps[of refuse buf token s]]
  from e obtain qo where qo: "strstr_from buf s token = Inr qo" by (auto simp: res_bind_eq_Inr)
  with e obtain q where q: "strstr_from buf s token = Inr (Some q)" by (cases qo) auto
  with e obtain b where b: "refuse buf q (length token) = Inr b" by (auto simp: res_bind_eq_Inr)
  have r: "(\<not> b \<and> p = q) \<or> (b \<and> token \<noteq> [] \<and> match_loop refuse buf token (q + length token) = Inr (Some p))"
    using e q b by (auto split: if_split_asm)
  from r show ?case
  proof
    assume "\<not> b \<and> p = q"
    with strstr_from_bound[OF q] show ?thesis by simp
  next
    assume "b \<and> token \<noteq> [] \<and> match_loop refuse buf token (q + length token) = Inr (Some p)"
    with "1.IH"[OF q refl b] strstr_from_bound[OF q] show ?thesis by simp
  qed
qed

lemma match_with_bound: "match_with m buf token s = Inr (Some p) \<Longrightarrow> s \<le> p \<and> p + length token < length buf"
  by (cases m) (auto simp: match_simple_def match_identifier_def match_identifier_begin_def match_identifier_end_def
      match_number_end_def dest: strstr_from_bound match_loop_bound)

text \<open>One turn of \<^verbatim>\<open>end_quote\<close> returns nothing, the opening quote or the quote found, or goes on behind \<open>s\<close>.\<close>

lemma end_quote_loop_turn:
  assumes "end_quote_loop buf qs qc s = Inr (Some q)"
  shows "q = qs \<or> s < q \<or> (\<exists>s'. s < s' \<and> s' \<le> length buf \<and> end_quote_loop buf qs qc s' = Inr (Some q))"
proof -
  from assms obtain r nl where r: "strpbrk_from buf (s + 1) QUOTES = Inr r" "strchr_from buf (s + 1) NL = Inr nl"
    by (subst (asm) end_quote_loop.simps) (auto simp: res_bind_eq_Inr)
  have b: "\<And>p. r = Some p \<Longrightarrow> s < p \<and> p < length buf" "\<And>p. nl = Some p \<Longrightarrow> s < p \<and> p < length buf"
    using r by (auto dest: strpbrk_from_bound strchr_from_bound)
  show ?thesis
  proof (cases r)
    case None
    with assms r show ?thesis by (subst (asm) end_quote_loop.simps) (auto split: option.splits)
  next
    case (Some p)
    show ?thesis
    proof (cases "nl \<noteq> None \<and> the nl < p")
      case True
      with assms r Some b(2)[of "the nl"] show ?thesis
        by (subst (asm) end_quote_loop.simps)
          (fastforce simp: res_bind_eq_Inr split: option.splits if_splits)
    next
      case False
      with assms r Some b(1)[of p] show ?thesis
        by (subst (asm) end_quote_loop.simps)
          (fastforce simp: res_bind_eq_Inr split: option.splits if_splits)
    qed
  qed
qed

lemma end_quote_loop_bound: "qs \<le> s \<Longrightarrow> end_quote_loop buf qs qc s = Inr (Some q) \<Longrightarrow> qs \<le> q"
proof (induction "Suc (length buf) - s" arbitrary: s rule: less_induct)
  case less
  from end_quote_loop_turn[OF less.prems(2)] show ?case
  proof (elim disjE exE conjE)
    fix s' assume "s < s'" "s' \<le> length buf" "end_quote_loop buf qs qc s' = Inr (Some q)"
    with less.hyps[of s'] less.prems(1) show ?thesis by simp
  qed (use less.prems(1) in auto)
qed

lemma end_quote_bound: "end_quote buf s = Inr (Some q) \<Longrightarrow> s \<le> q"
  by (auto simp: end_quote_def res_bind_eq_Inr dest: end_quote_loop_bound[OF order_refl])

section \<open>The next match outside quotes\<close>

text \<open>The loop over the quotes, which the code has four times: \<open>q\<close> is a quote before or after the match \<open>c\<close>. A null
  result of \<^verbatim>\<open>end_quote\<close> or of the matcher ends it; without a further quote \<^verbatim>\<open>noquote\<close> is reset.\<close>

function skip_quotes :: "match_fun \<Rightarrow> char list \<Rightarrow> string \<Rightarrow> nat \<Rightarrow> nat \<Rightarrow> bool \<Rightarrow> (nat option \<times> bool) res" where
  "skip_quotes m buf token q c noquote =
     (if q < c then
        res_bind (end_quote buf q) (\<lambda>q2o.
        case q2o of None \<Rightarrow> Inr (None, noquote)
        | Some q2 \<Rightarrow>
            res_bind (if q2 > c then match_with m buf token (q2 + 1) else Inr (Some c)) (\<lambda>co.
            case co of None \<Rightarrow> Inr (None, noquote)
            | Some c' \<Rightarrow>
                res_bind (strpbrk_from buf (q2 + 1) QUOTES) (\<lambda>qo.
                case qo of None \<Rightarrow> Inr (Some c', False)
                | Some q' \<Rightarrow> skip_quotes m buf token q' c' noquote)))
      else Inr (Some c, noquote))"
  by pat_completeness auto
termination
  by (relation "measure (\<lambda>(m, buf, token, q, c, noquote). length buf - q)")
    (auto dest!: end_quote_bound strpbrk_from_bound)

declare skip_quotes.simps [simp del]

definition next_match :: "match_fun \<Rightarrow> char list \<Rightarrow> string \<Rightarrow> bool \<Rightarrow> nat \<Rightarrow> (nat option \<times> bool) res" where
  "next_match m buf token noquote s =
     res_bind (match_with m buf token s) (\<lambda>c.
     if noquote then
       res_bind (strpbrk_from buf s QUOTES) (\<lambda>qo.
       case (qo, c) of
         (None, _) \<Rightarrow> Inr (c, False)
       | (Some q, None) \<Rightarrow> Inr (None, noquote)
       | (Some q, Some c) \<Rightarrow> skip_quotes m buf token q c noquote)
     else Inr (c, noquote))"

lemma skip_quotes_bound:
  "skip_quotes m buf token q c nq = Inr (Some p, nq') \<Longrightarrow> c + length token < length buf \<Longrightarrow>
   c \<le> p \<and> p + length token < length buf"
proof (induction m buf token q c nq rule: skip_quotes.induct)
  case (1 m buf token q c nq)
  show ?case
  proof (cases "q < c")
    case True
    with "1.prems"(1) obtain q2 c' qo where
      q2: "end_quote buf q = Inr (Some q2)"
      and c': "(if q2 > c then match_with m buf token (q2 + 1) else Inr (Some c)) = Inr (Some c')"
      and qo: "strpbrk_from buf (q2 + 1) QUOTES = Inr qo"
      and r: "case qo of None \<Rightarrow> p = c' | Some q' \<Rightarrow> skip_quotes m buf token q' c' nq = Inr (Some p, nq')"
      by (subst (asm) skip_quotes.simps) (auto simp: res_bind_eq_Inr split: option.splits)
    have b: "c \<le> c' \<and> c' + length token < length buf"
      using c' "1.prems"(2) by (auto split: if_splits dest: match_with_bound)
    show ?thesis
    proof (cases qo)
      case None
      with r b show ?thesis by simp
    next
      case (Some q')
      from "1.IH"[OF True q2 refl c' refl qo] Some r b show ?thesis by force
    qed
  next
    case False
    with "1.prems" show ?thesis by (subst (asm) skip_quotes.simps) simp
  qed
qed

lemma next_match_bound:
  "next_match m buf token nq s = Inr (Some p, nq') \<Longrightarrow> s \<le> p \<and> p + length token < length buf"
  by (fastforce simp: next_match_def res_bind_eq_Inr split: if_splits option.splits
      dest: match_with_bound skip_quotes_bound)

section \<open>Replacing\<close>

lemma memcpy_to_length: "memcpy_to b t d = Inr b' \<Longrightarrow> length b' = length b"
  by (auto simp: memcpy_to_def split: if_splits)

lemma memmove_length: "memmove b t s n = Inr b' \<Longrightarrow> length b' = length b"
  by (auto simp: memmove_def res_bind_eq_Inr dest: memcpy_to_length)

text \<open>The text does not grow: \<open>t\<close> is the target of the copies, \<open>s\<close> the match, \<open>ic\<close> the number of replacements
  that are left, negative for all. The result is the block, the target, \<open>s\<close> and the number of replacements.\<close>

function replace_in_place ::
  "match_fun \<Rightarrow> string \<Rightarrow> string \<Rightarrow> int \<Rightarrow> char list \<Rightarrow> nat \<Rightarrow> nat \<Rightarrow> int \<Rightarrow> bool \<Rightarrow> nat \<Rightarrow>
   (char list \<times> nat \<times> nat option \<times> nat) res" where
  "replace_in_place m token rep len buf t s ic noquote rcount =
     (if ic = 0 then Inr (buf, t, Some s, rcount)
      else if token = [] then Inl Diverges
      else
        res_bind (if rep \<noteq> [] then memcpy_to buf (int t) rep else Inr buf) (\<lambda>b1.
        (let delta = int (length rep) - int (length token); t1 = t + length rep; s1 = s + length token in
         if ic = 1 then Inr (b1, t1, Some s1, rcount + 1)
         else
           res_bind (next_match m b1 token noquote s1) (\<lambda>(c, noquote').
           case c of
             Some c \<Rightarrow>
               res_bind (if delta \<noteq> 0 then memmove b1 (int t1) (int s1) (int c - int s1) else Inr b1) (\<lambda>b2.
               replace_in_place m token rep len b2 (t1 + (c - s1)) c (ic - 1) noquote' (rcount + 1))
           | None \<Rightarrow>
               res_bind (if delta \<noteq> 0 then memmove b1 (int t1) (int s1) (len - int s1 + 1) else Inr b1) (\<lambda>b2.
               Inr (b2, t1, None, rcount + 1))))))"
  by pat_completeness auto
termination
  apply (relation "measure (\<lambda>(m, token, rep, len, buf, t, s, ic, noquote, rcount). length buf - s)")
  by (auto dest!: next_match_bound memcpy_to_length memmove_length simp: neq_Nil_conv split: if_splits)

declare replace_in_place.simps [simp del]

text \<open>The text grows: first the matches are counted. Without a further quote this loop stops, where the others go on.\<close>

function count_matches :: "match_fun \<Rightarrow> string \<Rightarrow> char list \<Rightarrow> int \<Rightarrow> bool \<Rightarrow> nat \<Rightarrow> nat \<Rightarrow> nat res" where
  "count_matches m token buf ic noquote s rcount =
     (if ic = 0 then Inr rcount
      else if token = [] then Inl Diverges
      else
        res_bind (match_with m buf token s) (\<lambda>co.
        case co of None \<Rightarrow> Inr rcount
        | Some c \<Rightarrow>
            res_bind
              (if noquote then
                 res_bind (strpbrk_from buf s QUOTES) (\<lambda>qo.
                 case qo of None \<Rightarrow> Inr (None, noquote) | Some q \<Rightarrow> skip_quotes m buf token q c noquote)
               else Inr (Some c, noquote)) (\<lambda>(c', noquote').
            case c' of None \<Rightarrow> Inr rcount
            | Some c' \<Rightarrow> count_matches m token buf (ic - 1) noquote' (c' + length token) (rcount + 1))))"
  by pat_completeness auto
termination
  apply (relation "measure (\<lambda>(m, token, buf, ic, noquote, s, rcount). length buf - s)")
   apply simp
  by (fastforce dest!: match_with_bound dest: skip_quotes_bound simp: neq_Nil_conv res_bind_eq_Inr
      split: if_split_asm option.split_asm)

declare count_matches.simps [simp del]

text \<open>Then the replacements and the text between them are copied to the new block, \<open>k\<close> of them.\<close>

fun copy_replaced ::
  "match_fun \<Rightarrow> string \<Rightarrow> string \<Rightarrow> int \<Rightarrow> char list \<Rightarrow> nat \<Rightarrow> bool \<Rightarrow> nat \<Rightarrow> char list \<Rightarrow> nat \<Rightarrow> char list res" where
  "copy_replaced m token rep len buf 0 noquote s ns t = Inr ns"
| "copy_replaced m token rep len buf (Suc k) noquote s ns t =
     res_bind (memcpy_to ns (int t) rep) (\<lambda>ns1.
     (let t1 = t + length rep; s1 = s + length token in
      res_bind (next_match m buf token noquote s1) (\<lambda>(c, noquote').
      if 0 < k then
        (case c of
           None \<Rightarrow> Inl OutOfBounds
         | Some c \<Rightarrow>
             res_bind (read_range buf (int s1) (int c - int s1)) (\<lambda>d.
             res_bind (memcpy_to ns1 (int t1) d) (\<lambda>ns2.
             copy_replaced m token rep len buf k noquote' c ns2 (t1 + (c - s1)))))
      else
        res_bind (read_range buf (int s1) (len - int s1 + 1)) (\<lambda>d. memcpy_to ns1 (int t1) d))))"

text \<open>\<^verbatim>\<open>while ((str->len + expand) >= newsize) newsize *= 2;\<close>\<close>

function double_size :: "int \<Rightarrow> int \<Rightarrow> int res" where
  "double_size need newsize =
     (if need \<ge> newsize then (if newsize \<le> 0 then Inl Diverges else double_size need (newsize * 2))
      else Inr newsize)"
  by pat_completeness auto
termination
  by (relation "measure (\<lambda>(need, newsize). nat (need + 1 - newsize))") auto

declare double_size.simps [simp del]

definition replace_shrinking :: "match_fun \<Rightarrow> string \<Rightarrow> string \<Rightarrow> int \<Rightarrow> bool \<Rightarrow> nat \<Rightarrow> String \<Rightarrow> (nat \<times> String) res" where
  "replace_shrinking m token rep count noquote first str =
     (let delta = int (length rep) - int (length token) in
      res_bind (replace_in_place m token rep (str_len str) (str_buf str) first first count noquote 0)
        (\<lambda>(b1, t, s, rcount).
      res_bind
        (case s of
           Some s \<Rightarrow> if delta \<noteq> 0 then memmove b1 (int t) (int s) (str_len str - int s + 1) else Inr b1
         | None \<Rightarrow> Inr b1) (\<lambda>b2.
      (let expand = delta * int rcount; len' = str_len str + expand in
       res_bind (poke b2 len' NUL) (\<lambda>b3.
       Inr (rcount, str\<lparr>str_len := len', str_buf := b3,
                       str_sp := (if str_sp str \<ge> len' then str_sp str + expand else str_sp str)\<rparr>))))))"

definition replace_expanding :: "match_fun \<Rightarrow> string \<Rightarrow> string \<Rightarrow> int \<Rightarrow> bool \<Rightarrow> nat \<Rightarrow> String \<Rightarrow> (nat \<times> String) res" where
  "replace_expanding m token rep count noquote first str =
     (let delta = int (length rep) - int (length token) in
      res_bind (count_matches m token (str_buf str) (count - 1) noquote (first + length token) 1) (\<lambda>rcount.
      (let expand = delta * int rcount in
       res_bind (double_size (str_len str + expand) (str_maxsize str)) (\<lambda>newsize.
       res_bind (if 0 < first then res_bind (read_range (str_buf str) 0 (int first)) (memcpy_to (alloc newsize) 0)
                 else Inr (alloc newsize)) (\<lambda>ns.
       res_bind (copy_replaced m token rep (str_len str) (str_buf str) rcount noquote first ns first) (\<lambda>ns1.
       res_bind (poke ns1 (str_len str + expand) NUL) (\<lambda>ns2.
       Inr (rcount, str\<lparr>str_buf := ns2, str_maxsize := newsize, str_len := str_len str + expand,
                       str_sp := (if str_sp str \<ge> str_len str then str_sp str + expand else str_sp str)\<rparr>))))))))"

definition flag_set :: "int \<Rightarrow> int \<Rightarrow> bool" where
  "flag_set flags f \<longleftrightarrow> Bit_Operations.and flags f \<noteq> 0"

abbreviation (input) DOH_REPLACE_ANY :: int where "DOH_REPLACE_ANY \<equiv> 0x01"
abbreviation (input) DOH_REPLACE_NOQUOTE :: int where "DOH_REPLACE_NOQUOTE \<equiv> 0x02"
abbreviation (input) DOH_REPLACE_ID :: int where "DOH_REPLACE_ID \<equiv> 0x04"
abbreviation (input) DOH_REPLACE_FIRST :: int where "DOH_REPLACE_FIRST \<equiv> 0x08"
abbreviation (input) DOH_REPLACE_ID_BEGIN :: int where "DOH_REPLACE_ID_BEGIN \<equiv> 0x10"
abbreviation (input) DOH_REPLACE_ID_END :: int where "DOH_REPLACE_ID_END \<equiv> 0x20"
abbreviation (input) DOH_REPLACE_NUMBER_END :: int where "DOH_REPLACE_NUMBER_END \<equiv> 0x40"

definition replace_simple :: "String \<Rightarrow> string \<Rightarrow> string \<Rightarrow> int \<Rightarrow> int \<Rightarrow> match_fun \<Rightarrow> (nat \<times> String) res" where
  "replace_simple str token rep flags count m =
     (if token = [] then Inr (0, str)
      else
        res_bind (match_with m (str_buf str) token 0) (\<lambda>s0.
        if s0 = None then Inr (0, str)
        else
          (let str1 = str\<lparr>str_hashkey := -1\<rparr> in
           res_bind (next_match m (str_buf str) token (flag_set flags DOH_REPLACE_NOQUOTE) 0) (\<lambda>(s, noquote).
           case s of
             None \<Rightarrow> Inr (0, str1)
           | Some first \<Rightarrow>
               if length rep \<le> length token then replace_shrinking m token rep count noquote first str1
               else replace_expanding m token rep count noquote first str1))))"

text \<open>The choice of the matcher, and the operation; \<open>token\<close> and \<open>rep\<close> are other objects than the String that is
  changed.\<close>

definition replace_mode :: "int \<Rightarrow> match_fun" where
  "replace_mode flags =
     (if flag_set flags DOH_REPLACE_ID_END then Identifier_end
      else if flag_set flags DOH_REPLACE_ID_BEGIN then Identifier_begin
      else if flag_set flags DOH_REPLACE_ID then Identifier
      else if flag_set flags DOH_REPLACE_NUMBER_END then Number_end
      else Simple)"

definition String_replace :: "String \<Rightarrow> doh_or_char \<Rightarrow> doh_or_char \<Rightarrow> int \<Rightarrow> (nat \<times> String) res" where
  "String_replace str token rep flags =
     res_bind (arg_bytes token) (\<lambda>token. res_bind (arg_bytes rep) (\<lambda>rep.
       replace_simple str (until_nul token) (until_nul rep) flags
         (if flag_set flags DOH_REPLACE_FIRST then 1 else -1) (replace_mode flags)))"

end
