(* ===== verification/Doh_Replace_Laws.thy ===== *)
theory Doh_Replace_Laws
  imports Doh_Replace
begin

text \<open>
  What the replacement of \<open>Doh_Replace\<close> computes. \<open>sees\<close> relates a block that is being changed in place with the text
  it held: the searches behind a replacement see the old text. On the text, \<open>text_match\<close> is the matcher and
  \<open>occurrences\<close> the positions that are replaced, one search after the other; \<open>splice_at\<close> is the text with the
  replacements, \<open>replaceall_text\<close> the recursion that \<^verbatim>\<open>Replaceall\<close> amounts to.
\<close>

section \<open>Searches in a block that holds a text\<close>

text \<open>What the searches see of a block: the text \<open>c\<close> from \<open>s\<close> on, and whether a word ends before \<open>s\<close>.\<close>

fun looks_back :: "match_fun \<Rightarrow> bool" where
  "looks_back Identifier = True"
| "looks_back Identifier_begin = True"
| "looks_back _ = False"

definition sees :: "match_fun \<Rightarrow> char list \<Rightarrow> string \<Rightarrow> nat \<Rightarrow> bool" where
  "sees m buf c s \<longleftrightarrow>
     s \<le> length c \<and> NUL \<notin> set c \<and> (\<exists>r. drop s buf = drop s c @ NUL # r) \<and>
     (looks_back m \<and> 0 < s \<longrightarrow> word_char (buf ! (s - 1)) = word_char (c ! (s - 1)))"

lemma sees_self: "NUL \<notin> set c \<Longrightarrow> s \<le> length c \<Longrightarrow> sees m (c @ NUL # r) c s"
  by (auto simp: sees_def nth_append)

lemma sees_nth:
  assumes "sees m buf c s" "s \<le> i" "i \<le> length c"
  shows "i < length buf \<and> buf ! i = (c @ [NUL]) ! i"
proof -
  from assms(1) obtain r where r: "drop s buf = drop s c @ NUL # r" by (auto simp: sees_def)
  have "drop i buf = drop (i - s) (drop s buf)" using assms(2) by simp
  also have "\<dots> = drop i c @ NUL # r" unfolding r using assms by (simp add: sees_def)
  finally have d: "drop i buf = drop i c @ NUL # r" .
  then have l: "i < length buf" by (metis append_is_Nil_conv drop_all leI list.distinct(1))
  have "buf ! i = hd (drop i buf)" using l by (simp add: hd_drop_conv_nth)
  also have "\<dots> = (c @ [NUL]) ! i" unfolding d using assms(3)
    by (cases "i = length c") (auto simp: hd_append nth_append hd_drop_conv_nth)
  finally show ?thesis using l by simp
qed

lemma sees_later:
  assumes "sees m buf c s" "s \<le> p" "p \<le> length c"
  shows "sees m buf c p"
proof -
  from assms(1) obtain r where r: "drop s buf = drop s c @ NUL # r" by (auto simp: sees_def)
  have "drop p buf = drop (p - s) (drop s buf)" using assms(2) by simp
  also have "\<dots> = drop p c @ NUL # r" unfolding r using assms by (simp add: sees_def)
  finally have "drop p buf = drop p c @ NUL # r" .
  moreover have "word_char (buf ! (p - 1)) = word_char (c ! (p - 1))" if "looks_back m" "0 < p"
  proof (cases "p = s")
    case True
    with assms(1) that show ?thesis by (simp add: sees_def)
  next
    case False
    with assms(2) that have "s \<le> p - 1" "p - 1 \<le> length c" "p - 1 < length c" using assms(3) by auto
    with sees_nth[OF assms(1) this(1,2)] show ?thesis by (simp add: nth_append)
  qed
  ultimately show ?thesis using assms by (auto simp: sees_def)
qed

lemma sees_cstring: "sees m buf c s \<Longrightarrow> cstring_at buf s = Inr (drop s c)"
  by (auto simp: sees_def cstring_at_def until_nul_def takeWhile_append dest: in_set_dropD)

lemma sees_peek: "sees m buf c s \<Longrightarrow> s \<le> i \<Longrightarrow> i \<le> length c \<Longrightarrow> peek buf (int i) = Inr ((c @ [NUL]) ! i)"
  using sees_nth[of m buf c s i] by (simp add: peek_def)

section \<open>Matches in a text\<close>

definition text_find :: "string \<Rightarrow> string \<Rightarrow> nat \<Rightarrow> nat option" where
  "text_find c tok s = found_at s (drop s c) (strstr (drop s c) tok)"

definition token_at :: "string \<Rightarrow> string \<Rightarrow> nat \<Rightarrow> bool" where
  "token_at c tok p \<longleftrightarrow> starts_with tok (drop p c)"

lemma token_at_bound: "token_at c tok p \<Longrightarrow> tok \<noteq> [] \<Longrightarrow> p + length tok \<le> length c \<and> p < length c"
  by (auto simp: token_at_def starts_with_iff neq_Nil_conv dest!: arg_cong[of _ _ length])

lemma strstr_first:
  "strstr t tok = Some r \<Longrightarrow>
   \<exists>p. t = p @ r \<and> starts_with tok r \<and> (\<forall>q < length p. \<not> starts_with tok (drop q t))"
proof (induction t)
  case Nil
  then show ?case by (auto split: if_splits)
next
  case (Cons x t)
  show ?case
  proof (cases "starts_with tok (x # t)")
    case True
    with Cons.prems show ?thesis by auto
  next
    case False
    with Cons.prems have "strstr t tok = Some r" by simp
    from Cons.IH[OF this] obtain p where "t = p @ r" "starts_with tok r" "\<forall>q < length p. \<not> starts_with tok (drop q t)" by blast
    with False have "x # t = (x # p) @ r" "starts_with tok r" "\<forall>q < length (x # p). \<not> starts_with tok (drop q (x # t))"
      by (auto simp: less_Suc_eq_0_disj)
    then show ?thesis by blast
  qed
qed

lemma text_find_Some:
  assumes "text_find c tok s = Some p" "s \<le> length c"
  shows "s \<le> p \<and> p + length tok \<le> length c \<and> token_at c tok p \<and> (\<forall>q. s \<le> q \<longrightarrow> q < p \<longrightarrow> \<not> token_at c tok q)"
proof -
  from assms obtain r where r: "strstr (drop s c) tok = Some r" "p = s + ptr_diff r (drop s c)"
    by (auto simp: text_find_def found_at_Some)
  from strstr_first[OF r(1)] obtain a where a: "drop s c = a @ r" "starts_with tok r"
    "\<forall>q < length a. \<not> starts_with tok (drop q (drop s c))" by blast
  have p: "p = s + length a" using r(2) a(1) by (simp add: ptr_diff_def)
  have dp: "drop p c = r" using a(1) p by (metis append_eq_conv_conj drop_drop add.commute)
  have "length (drop s c) = length a + length r" using a(1) by simp
  moreover have "length tok \<le> length r" using a(2) by (auto simp: starts_with_iff)
  ultimately have "p + length tok \<le> length c" using p assms(2) by simp
  moreover have "\<not> token_at c tok q" if "s \<le> q" "q < p" for q
    using a(3)[rule_format, of "q - s"] that p by (simp add: token_at_def)
  ultimately show ?thesis using a(2) p dp by (simp add: token_at_def)
qed

lemma text_find_None: "text_find c tok s = None \<Longrightarrow> s \<le> q \<Longrightarrow> \<not> token_at c tok q"
proof -
  assume "text_find c tok s = None" and q: "s \<le> q"
  then have "strstr (drop s c) tok = None" by (auto simp: text_find_def found_at_def split: option.splits)
  moreover have "drop s c = take (q - s) (drop s c) @ drop q c"
    using q by (metis append_take_drop_id drop_drop le_add_diff_inverse2)
  ultimately show ?thesis unfolding token_at_def strstr_None by blast
qed

definition accepts :: "match_fun \<Rightarrow> string \<Rightarrow> nat \<Rightarrow> nat \<Rightarrow> bool" where
  "accepts m c n p \<longleftrightarrow>
     (let before = 0 < p \<and> word_char (c ! (p - 1)); after = p + n < length c \<and> word_char (c ! (p + n)) in
      case m of
        Simple \<Rightarrow> True
      | Identifier \<Rightarrow> \<not> before \<and> \<not> after
      | Identifier_begin \<Rightarrow> \<not> before
      | Identifier_end \<Rightarrow> \<not> after
      | Number_end \<Rightarrow> \<not> (p + n < length c \<and> isdigit (c ! (p + n))))"

function text_match :: "(nat \<Rightarrow> bool) \<Rightarrow> string \<Rightarrow> string \<Rightarrow> nat \<Rightarrow> nat option" where
  "text_match ok c tok s =
     (if length c < s \<or> tok = [] then None
      else case text_find c tok s of None \<Rightarrow> None
        | Some p \<Rightarrow> if ok p then Some p else text_match ok c tok (p + length tok))"
  by pat_completeness auto
termination
  by (relation "measure (\<lambda>(ok, c, tok, s). Suc (length c) - s)") (auto dest!: text_find_Some simp: neq_Nil_conv)

declare text_match.simps [simp del]

lemma sees_find: "sees m buf c s \<Longrightarrow> strstr_from buf s tok = Inr (text_find c tok s)"
  by (simp add: strstr_from_def sees_cstring text_find_def)

lemma match_loop_text:
  assumes "\<And>p. s0 \<le> p \<Longrightarrow> p + length tok \<le> length c \<Longrightarrow> refuse buf p (length tok) = Inr (\<not> ok p)"
    and "sees m buf c s" "tok \<noteq> []" "s0 \<le> s"
  shows "match_loop refuse buf tok s = Inr (text_match ok c tok s)"
  using assms(2,4)
proof (induction "Suc (length c) - s" arbitrary: s rule: less_induct)
  case less
  have s: "s \<le> length c" using less.prems(1) by (simp add: sees_def)
  have f: "strstr_from buf s tok = Inr (text_find c tok s)" by (rule sees_find) (rule less.prems)
  show ?case
  proof (cases "text_find c tok s")
    case None
    with s f show ?thesis by (simp add: match_loop.simps[of refuse buf tok s] text_match.simps[of ok c tok s])
  next
    case (Some p)
    note b = text_find_Some[OF Some s]
    have r: "refuse buf p (length tok) = Inr (\<not> ok p)" using assms(1) less.prems(2) b by simp
    show ?thesis
    proof (cases "ok p")
      case True
      with s f Some r assms(3) show ?thesis
        by (simp add: match_loop.simps[of refuse buf tok s] text_match.simps[of ok c tok s])
    next
      case False
      have "sees m buf c (p + length tok)" using less.prems(1) b by (auto intro: sees_later)
      moreover have "Suc (length c) - (p + length tok) < Suc (length c) - s" using b s assms(3) by (cases tok) auto
      ultimately have "match_loop refuse buf tok (p + length tok) = Inr (text_match ok c tok (p + length tok))"
        using less.hyps[of "p + length tok"] less.prems(2) b s by simp
      with s f Some r False assms(3) show ?thesis
        by (simp add: match_loop.simps[of refuse buf tok s] text_match.simps[of ok c tok s])
    qed
  qed
qed

lemma sees_word_before:
  assumes "sees m buf c s" "looks_back m" "s \<le> p" "p \<le> length c"
  shows "word_before buf p = Inr (0 < p \<and> word_char (c ! (p - 1)))"
proof (cases "p = 0")
  case False
  from sees_later[OF assms(1,3,4)] assms(2) False
  have w: "word_char (buf ! (p - 1)) = word_char (c ! (p - 1))" by (simp add: sees_def)
  have "p < length buf" using sees_nth[OF assms(1,3,4)] by simp
  then have "peek buf (int p - 1) = Inr (buf ! (p - 1))" using False by (simp add: peek_def nat_diff_distrib)
  with w False show ?thesis by (simp add: word_before_def)
qed (simp add: word_before_def)

lemma word_char_NUL [simp]: "\<not> word_char NUL"
  by (simp add: word_char_def ctype_defs)

lemma isdigit_NUL [simp]: "\<not> isdigit NUL"
  by (simp add: ctype_defs)

lemma sees_after:
  assumes "sees m buf c s" "s \<le> p" "p + n \<le> length c"
  shows "word_after buf p n = Inr (p + n < length c \<and> word_char (c ! (p + n)))"
    "digit_after buf p n = Inr (p + n < length c \<and> isdigit (c ! (p + n)))"
proof -
  have "peek buf (int (p + n)) = Inr ((c @ [NUL]) ! (p + n))" using sees_peek[of m buf c s "p + n"] assms by simp
  then show "word_after buf p n = Inr (p + n < length c \<and> word_char (c ! (p + n)))"
    "digit_after buf p n = Inr (p + n < length c \<and> isdigit (c ! (p + n)))"
    using assms(3) by (cases "p + n = length c"; simp add: word_after_def digit_after_def nth_append)+
qed

text \<open>Every matcher returns the next accepted occurrence in the text.\<close>

lemma match_with_text:
  assumes "sees m buf c s" "tok \<noteq> []"
  shows "match_with m buf tok s = Inr (text_match (accepts m c (length tok)) c tok s)"
proof (cases m)
  case Simple
  have s: "s \<le> length c" using assms(1) by (simp add: sees_def)
  show ?thesis using Simple assms sees_find[OF assms(1), of tok] s
    by (simp add: match_simple_def text_match.simps[of _ c tok s] accepts_def split: option.split)
next
  case Identifier
  have "(\<lambda>buf p n. res_bind (word_before buf p) (\<lambda>b. if b then Inr True else word_after buf p n)) buf p (length tok) = Inr (\<not> accepts m c (length tok) p)" if "s \<le> p" "p + length tok \<le> length c" for p
    using that Identifier by (cases "p + length tok = length c") (simp_all add: sees_word_before[OF assms(1)] sees_after[OF assms(1)] accepts_def)
  from match_loop_text[where refuse = "(\<lambda>buf p n. res_bind (word_before buf p) (\<lambda>b. if b then Inr True else word_after buf p n))", OF this assms order_refl] Identifier
  show ?thesis by (simp add: match_identifier_def)
next
  case Identifier_begin
  have "(\<lambda>buf p n. word_before buf p) buf p (length tok) = Inr (\<not> accepts m c (length tok) p)" if "s \<le> p" "p + length tok \<le> length c" for p
    using that Identifier_begin by (cases "p + length tok = length c") (simp_all add: sees_word_before[OF assms(1)] accepts_def)
  from match_loop_text[where refuse = "(\<lambda>buf p n. word_before buf p)", OF this assms order_refl] Identifier_begin
  show ?thesis by (simp add: match_identifier_begin_def)
next
  case Identifier_end
  have "word_after buf p (length tok) = Inr (\<not> accepts m c (length tok) p)" if "s \<le> p" "p + length tok \<le> length c" for p
    using that Identifier_end by (cases "p + length tok = length c") (simp_all add: sees_after[OF assms(1)] accepts_def)
  from match_loop_text[where refuse = "word_after", OF this assms order_refl] Identifier_end
  show ?thesis by (simp add: match_identifier_end_def)
next
  case Number_end
  have "digit_after buf p (length tok) = Inr (\<not> accepts m c (length tok) p)" if "s \<le> p" "p + length tok \<le> length c" for p
    using that Number_end by (cases "p + length tok = length c") (simp_all add: sees_after[OF assms(1)] accepts_def)
  from match_loop_text[where refuse = "digit_after", OF this assms order_refl] Number_end
  show ?thesis by (simp add: match_number_end_def)
qed

lemma text_match_Some:
  "text_match ok c tok s = Some p \<Longrightarrow>
   s \<le> p \<and> p + length tok \<le> length c \<and> token_at c tok p \<and> ok p"
proof (induction ok c tok s rule: text_match.induct)
  case (1 ok c tok s)
  note e = "1.prems"[unfolded text_match.simps[of ok c tok s]]
  have s: "\<not> (length c < s \<or> tok = [])" using e by (auto split: if_split_asm)
  with e obtain q where q: "text_find c tok s = Some q" by (cases "text_find c tok s") auto
  from text_find_Some[OF q] s have b: "s \<le> q \<and> q + length tok \<le> length c \<and> token_at c tok q" by simp
  show ?case
  proof (cases "ok q")
    case True
    with e s q b show ?thesis by simp
  next
    case False
    with "1.IH"[OF s q False] e s q b show ?thesis by simp
  qed
qed

section \<open>Quotes\<close>

lemma sees_pbrk: "sees m buf c s \<Longrightarrow> strpbrk_from buf s a = Inr (found_at s (drop s c) (strpbrk (drop s c) a))"
  by (simp add: strpbrk_from_def sees_cstring)

lemma sees_chr: "sees m buf c s \<Longrightarrow> strchr_from buf s x = Inr (found_at s (drop s c) (strchr (drop s c) x))"
  by (simp add: strchr_from_def sees_cstring)

lemma found_bound:
  "s \<le> length c \<Longrightarrow> length r \<le> length (drop s c) \<and> 0 < length r \<Longrightarrow> p = s + ptr_diff r (drop s c) \<Longrightarrow>
   s \<le> p \<and> p < length c"
  unfolding ptr_diff_def length_drop by arith

lemma text_pbrk_bound:
  "s \<le> length c \<Longrightarrow> found_at s (drop s c) (strpbrk (drop s c) a) = Some p \<Longrightarrow> s \<le> p \<and> p < length c"
  using found_bound strpbrk_fits unfolding found_at_Some by blast

lemma text_chr_bound:
  "s \<le> length c \<Longrightarrow> found_at s (drop s c) (strchr (drop s c) x) = Some p \<Longrightarrow> s \<le> p \<and> p < length c"
  using found_bound strchr_fits unfolding found_at_Some by blast

text \<open>\<^verbatim>\<open>end_quote\<close> on a text: it sees the same in every block that holds the text, and stays in it.\<close>

lemma end_quote_loop_text:
  assumes "sees m buf c q0" "sees m buf' c q0" "q0 \<le> s" "s < length c" "q0 = qs"
  shows "\<exists>r. end_quote_loop buf qs qc s = Inr r \<and> end_quote_loop buf' qs qc s = Inr r \<and>
             (\<forall>q. r = Some q \<longrightarrow> qs \<le> q \<and> q < length c)"
  using assms
proof (induction "Suc (length c) - s" arbitrary: s rule: less_induct)
  case less
  let ?t = "drop (s + 1) c"
  let ?q = "found_at (s + 1) ?t (strpbrk ?t QUOTES)"
  let ?n = "found_at (s + 1) ?t (strchr ?t NL)"
  have l: "s + 1 \<le> length c" using less.prems by simp
  have sees: "sees m buf c (s + 1)" "sees m buf' c (s + 1)" using less.prems by (auto intro: sees_later)
  note f = sees_pbrk[OF sees(1)] sees_pbrk[OF sees(2)] sees_chr[OF sees(1)] sees_chr[OF sees(2)]
  have pk: "peek buf (int i) = Inr ((c @ [NUL]) ! i)" "peek buf' (int i) = Inr ((c @ [NUL]) ! i)"
    if "s \<le> i" "i \<le> length c" for i
    using sees_peek[OF less.prems(1)] sees_peek[OF less.prems(2)] that less.prems(3) by auto
  have pk1: "peek buf (int i - 1) = Inr ((c @ [NUL]) ! (i - 1))" "peek buf' (int i - 1) = Inr ((c @ [NUL]) ! (i - 1))"
    if "s < i" "i \<le> length c" for i
    using pk[of "i - 1"] that by (auto simp: of_nat_diff)
  note unf = end_quote_loop.simps[of buf qs qc s] end_quote_loop.simps[of buf' qs qc s]
  show ?case
  proof (cases "?q")
    case None
    then show ?thesis unfolding unf f using less.prems by (simp split: option.split)
  next
    case (Some q)
    note bq = text_pbrk_bound[OF l Some]
    show ?thesis
    proof (cases "?n \<noteq> None \<and> the ?n < q")
      case True
      then obtain n where n: "?n = Some n" "n < q" by auto
      note bn = text_chr_bound[OF l n(1)]
      have "\<exists>r. end_quote_loop buf qs qc (n + 1) = Inr r \<and> end_quote_loop buf' qs qc (n + 1) = Inr r \<and>
             (\<forall>q. r = Some q \<longrightarrow> qs \<le> q \<and> q < length c)"
        using less.hyps[of "n + 1"] less.prems bn bq n(2) by simp
      then show ?thesis unfolding unf f using Some n pk1[of n] bn less.prems by simp
    next
      case False
      have "\<exists>r. end_quote_loop buf qs qc q = Inr r \<and> end_quote_loop buf' qs qc q = Inr r \<and>
             (\<forall>q. r = Some q \<longrightarrow> qs \<le> q \<and> q < length c)"
        using less.hyps[of q] less.prems bq diff_less_mono2[of s q "Suc (length c)"] by simp
      then show ?thesis unfolding unf f using Some False pk[of q] pk1[of q] bq less.prems
        by (auto split: option.split)
    qed
  qed
qed

lemma end_quote_text:
  assumes "sees m buf c s" "sees m buf' c s" "s < length c"
  shows "\<exists>r. end_quote buf s = Inr r \<and> end_quote buf' s = Inr r \<and> (\<forall>q. r = Some q \<longrightarrow> s \<le> q \<and> q < length c)"
  using end_quote_loop_text[OF assms(1,2) order_refl assms(3) refl] sees_peek[OF assms(1) order_refl] sees_peek[OF assms(2) order_refl] assms(3)
  by (simp add: end_quote_def)

definition occurrence :: "match_fun \<Rightarrow> string \<Rightarrow> string \<Rightarrow> nat \<Rightarrow> bool" where
  "occurrence m c tok p \<longleftrightarrow> p + length tok \<le> length c \<and> token_at c tok p \<and> accepts m c (length tok) p"

lemma match_with_both:
  assumes "sees m buf c s" "sees m buf' c s" "tok \<noteq> []"
  shows "\<exists>r. match_with m buf tok s = Inr r \<and> match_with m buf' tok s = Inr r \<and>
             (\<forall>p. r = Some p \<longrightarrow> s \<le> p \<and> occurrence m c tok p)"
  using match_with_text[OF assms(1,3)] match_with_text[OF assms(2,3)]
  by (auto simp: occurrence_def dest: text_match_Some)

lemma skip_quotes_text:
  assumes "sees m buf c q" "sees m buf' c q" "q < length c" "tok \<noteq> []" "occurrence m c tok p" "s \<le> p" "s \<le> q"
  shows "\<exists>r nq'. skip_quotes m buf tok q p nq = Inr (r, nq') \<and> skip_quotes m buf' tok q p nq = Inr (r, nq') \<and>
             (\<forall>p. r = Some p \<longrightarrow> s \<le> p \<and> occurrence m c tok p)"
  using assms
proof (induction "Suc (length c) - q" arbitrary: q p rule: less_induct)
  case less
  note unf = skip_quotes.simps[of m buf tok q p nq] skip_quotes.simps[of m buf' tok q p nq]
  show ?case
  proof (cases "q < p")
    case False
    then show ?thesis unfolding unf using less.prems by simp
  next
    case True
    from end_quote_text[OF less.prems(1-3)] obtain q2o where
      e: "end_quote buf q = Inr q2o" "end_quote buf' q = Inr q2o" "\<And>q2. q2o = Some q2 \<Longrightarrow> q \<le> q2 \<and> q2 < length c"
      by blast
    show ?thesis
    proof (cases q2o)
      case None
      with e True show ?thesis unfolding unf by simp
    next
      case (Some q2)
      with e(3) have q2: "q \<le> q2" "q2 < length c" by auto
      then have sees: "sees m buf c (q2 + 1)" "sees m buf' c (q2 + 1)" using less.prems by (auto intro: sees_later)
      have "\<exists>r. (if q2 > p then match_with m buf tok (q2 + 1) else Inr (Some p)) = Inr r \<and>
                (if q2 > p then match_with m buf' tok (q2 + 1) else Inr (Some p)) = Inr r \<and>
                (\<forall>p. r = Some p \<longrightarrow> s \<le> p \<and> occurrence m c tok p)"
      proof (cases "q2 > p")
        case True
        from match_with_both[OF sees less.prems(4)] obtain r where
          "match_with m buf tok (q2 + 1) = Inr r" "match_with m buf' tok (q2 + 1) = Inr r"
          "\<forall>p. r = Some p \<longrightarrow> q2 + 1 \<le> p \<and> occurrence m c tok p" by blast
        with True q2 less.prems(7) show ?thesis by (intro exI[of _ r]) force
      next
        case False
        with less.prems show ?thesis by simp
      qed
      then obtain r where r: "(if q2 > p then match_with m buf tok (q2 + 1) else Inr (Some p)) = Inr r"
        "(if q2 > p then match_with m buf' tok (q2 + 1) else Inr (Some p)) = Inr r"
        "\<And>p. r = Some p \<Longrightarrow> s \<le> p \<and> occurrence m c tok p" by blast
      note p2 = sees_pbrk[OF sees(1), simplified] sees_pbrk[OF sees(2), simplified]
      show ?thesis
      proof (cases r)
        case None
        with True e Some r(1,2) show ?thesis unfolding unf by simp
      next
        case (Some p')
        note so = Some
        let ?q = "found_at (q2 + 1) (drop (q2 + 1) c) (strpbrk (drop (q2 + 1) c) QUOTES)"
        show ?thesis
        proof (cases ?q)
          case None
          with True e \<open>q2o = Some q2\<close> r so show ?thesis unfolding unf by (simp add: p2) blast
        next
          case (Some q')
          have b: "q2 + 1 \<le> q' \<and> q' < length c" using text_pbrk_bound[OF _ Some] q2 by simp
          have "\<exists>r nq'. skip_quotes m buf tok q' p' nq = Inr (r, nq') \<and> skip_quotes m buf' tok q' p' nq = Inr (r, nq') \<and>
             (\<forall>p. r = Some p \<longrightarrow> s \<le> p \<and> occurrence m c tok p)"
            proof (rule less.hyps)
            show "Suc (length c) - q' < Suc (length c) - q" using b q2 by (intro diff_less_mono2) auto
            show "sees m buf c q'" "sees m buf' c q'" using sees b by (auto intro: sees_later)
          qed (use less.prems r(3)[OF so] b q2 in auto)
          with True e \<open>q2o = Some q2\<close> r so Some show ?thesis unfolding unf by (simp add: p2)
        qed
      qed
    qed
  qed
qed

text \<open>The next match depends on the text only, is an occurrence, and lies behind the start of the search.\<close>

lemma next_match_text:
  assumes "sees m buf c s" "sees m buf' c s" "tok \<noteq> []"
  shows "\<exists>r nq'. next_match m buf tok nq s = Inr (r, nq') \<and> next_match m buf' tok nq s = Inr (r, nq') \<and>
             (\<forall>p. r = Some p \<longrightarrow> s \<le> p \<and> occurrence m c tok p)"
proof -
  from match_with_both[OF assms] obtain r where
    r: "match_with m buf tok s = Inr r" "match_with m buf' tok s = Inr r" "\<And>p. r = Some p \<Longrightarrow> s \<le> p \<and> occurrence m c tok p"
    by blast
  note p2 = sees_pbrk[OF assms(1)] sees_pbrk[OF assms(2)]
  have s: "s \<le> length c" using assms(1) by (simp add: sees_def)
  show ?thesis
  proof (cases nq)
    case False
    with r show ?thesis by (simp add: next_match_def) blast
  next
    case True
    let ?q = "found_at s (drop s c) (strpbrk (drop s c) QUOTES)"
    show ?thesis
    proof (cases "?q = None \<or> r = None")
      case True
      with \<open>nq\<close> r show ?thesis by (auto simp: next_match_def p2 split: option.split)
    next
      case False
      then obtain q p where qp: "?q = Some q" "r = Some p" by auto
      from text_pbrk_bound[OF s qp(1)] have q: "s \<le> q" "q < length c" by auto
      then have "sees m buf c q" "sees m buf' c q" using assms by (auto intro: sees_later)
      from skip_quotes_text[OF this q(2) assms(3) _ _ q(1)] r(3)[OF qp(2)] show ?thesis
        using \<open>nq\<close> r qp by (simp add: next_match_def p2)
    qed
  qed
qed

section \<open>The text with its occurrences replaced\<close>

text \<open>The occurrences the code replaces: each search starts behind the one before, at most \<open>ic\<close> of them when \<open>ic\<close> is
  not negative.\<close>

function occurrences :: "match_fun \<Rightarrow> string \<Rightarrow> string \<Rightarrow> bool \<Rightarrow> int \<Rightarrow> nat \<Rightarrow> nat list" where
  "occurrences m c tok nq ic s =
     (if ic = 0 \<or> tok = [] then []
      else case next_match m (c @ [NUL]) tok nq s of
          Inr (Some p, nq') \<Rightarrow> p # occurrences m c tok nq' (ic - 1) (p + length tok)
        | _ \<Rightarrow> [])"
  by pat_completeness auto
termination
  by (relation "measure (\<lambda>(m, c, tok, nq, ic, s). length (c @ [NUL]) - s)")
    (auto dest!: next_match_bound simp: neq_Nil_conv)

declare occurrences.simps [simp del]

fun splice_at :: "string \<Rightarrow> nat \<Rightarrow> string \<Rightarrow> nat list \<Rightarrow> nat \<Rightarrow> string" where
  "splice_at c n rep [] s = drop s c"
| "splice_at c n rep (p # ps) s = take (p - s) (drop s c) @ rep @ splice_at c n rep ps (p + n)"

text \<open>One step of the occurrences, as the loops take it on a block.\<close>

lemma next_occurrence:
  assumes "sees m buf c s" "tok \<noteq> []" "ic \<noteq> 0"
  shows "(\<exists>nq'. next_match m buf tok nq s = Inr (None, nq') \<and> occurrences m c tok nq ic s = []) \<or>
         (\<exists>p nq'. next_match m buf tok nq s = Inr (Some p, nq') \<and> s \<le> p \<and> occurrence m c tok p \<and>
            occurrences m c tok nq ic s = p # occurrences m c tok nq' (ic - 1) (p + length tok))"
proof -
  have "sees m (c @ [NUL]) c s" using assms(1) sees_self[of c s m "[]"] by (simp add: sees_def)
  from next_match_text[OF assms(1) this assms(2)] obtain r nq' where
    "next_match m buf tok nq s = Inr (r, nq')" "next_match m (c @ [NUL]) tok nq s = Inr (r, nq')"
    "\<forall>p. r = Some p \<longrightarrow> s \<le> p \<and> occurrence m c tok p" by blast
  with assms(2,3) show ?thesis
    by (cases r) (auto simp: occurrences.simps[of m c tok nq ic s])
qed

lemma occurrences_0 [simp]: "occurrences m c tok nq 0 s = []"
  by (simp add: occurrences.simps)

text \<open>Copies inside a block that holds the old text from \<open>t\<close> on.\<close>

lemma drop_held: "length a = t \<Longrightarrow> t \<le> s \<Longrightarrow> s \<le> length c \<Longrightarrow> drop s (a @ drop t c @ x) = drop s c @ x"
  by simp

lemma nth_held: "length a = t \<Longrightarrow> t \<le> k \<Longrightarrow> k < length c \<Longrightarrow> (a @ drop t c @ x) ! k = c ! k"
  by (auto simp: nth_append)

lemma read_held:
  assumes "length a = t" "t \<le> s" "s + k \<le> length c"
  shows "read_range (a @ drop t c @ x) (int s) (int k) = Inr (take k (drop s c))"
  using assms drop_held[of a t s c x] by (simp add: read_range_def)

lemma read_held_end:
  assumes "length a = t" "t \<le> s" "s \<le> length c"
  shows "read_range (a @ drop t c @ y # x) (int s) (int (length c) - int s + 1) = Inr (drop s c @ [y])"
proof -
  have e: "nat (int (length c) - int s + 1) = Suc (length c - s)" using assms by simp
  have "take (Suc (length c - s)) (drop s c @ y # x) = drop s c @ [y]" by simp
  with e assms drop_held[of a t s c "y # x"] show ?thesis by (simp add: read_range_def)
qed

lemma write_held:
  assumes "length a = t" "t + length d \<le> length c"
  shows "memcpy_to (a @ drop t c @ x) (int t) d = Inr ((a @ d) @ drop (t + length d) c @ x)"
proof -
  have "drop t c = take (length d) (drop t c) @ drop (t + length d) c"
    by (metis append_take_drop_id drop_drop add.commute)
  then have "a @ drop t c @ x = a @ take (length d) (drop t c) @ (drop (t + length d) c @ x)" by simp
  then show ?thesis using assms by (simp add: memcpy_to_def add.commute)
qed

lemma memmove_held:
  assumes "length a = t" "t \<le> s" "s \<le> p" "p \<le> length c"
  shows "memmove (a @ drop t c @ x) (int t) (int s) (int p - int s) =
           Inr ((a @ take (p - s) (drop s c)) @ drop (t + (p - s)) c @ x)"
proof -
  have "int p - int s = int (p - s)" using assms by simp
  then have "read_range (a @ drop t c @ x) (int t + (int s - int t)) (int p - int s) = Inr (take (p - s) (drop s c))"
    using read_held[of a t s "p - s" c x] assms by simp
  moreover have "length (take (p - s) (drop s c)) = p - s" using assms by simp
  ultimately show ?thesis using write_held[of a t "take (p - s) (drop s c)" c x] assms
    by (simp add: memmove_def)
qed

lemma memmove_held_end:
  assumes "length a = t" "t \<le> s" "s \<le> length c"
  shows "\<exists>r'. memmove (a @ drop t c @ y # r) (int t) (int s) (int (length c) - int s + 1) = Inr (a @ drop s c @ y # r')"
proof -
  have "length (drop s c @ [y]) \<le> length (drop t c @ y # r)" using assms by simp
  then show ?thesis using assms read_held_end[OF assms, of y r]
    by (auto simp: memmove_def memcpy_to_def)
qed

text \<open>What the matcher sees after the token at \<open>s\<close> was overwritten.\<close>

lemma sees_replaced:
  assumes "token_at c tok s" "s + length tok \<le> length c" "tok \<noteq> []" "length rep \<le> length tok" "NUL \<notin> set c"
    and "length rep = length tok \<Longrightarrow> looks_back m \<Longrightarrow> word_char (last rep) = word_char (last tok)"
    and "length out = t" "t \<le> s" "length rep = length tok \<Longrightarrow> t = s"
  shows "sees m ((out @ rep) @ drop (t + length rep) c @ NUL # r) c (s + length tok)"
proof -
  let ?b = "(out @ rep) @ drop (t + length rep) c @ NUL # r"
  let ?s = "s + length tok"
  have "drop ?s ?b = drop ?s c @ NUL # r" using assms by (intro drop_held) auto
  moreover have "word_char (?b ! (?s - 1)) = word_char (c ! (?s - 1))" if "looks_back m"
  proof (cases "length rep = length tok")
    case True
    have tk: "take (length tok) (drop s c) = tok" using assms(1) by (simp add: token_at_def starts_with_def)
    have "last tok = take (length tok) (drop s c) ! (length tok - 1)" unfolding tk using assms(3) by (simp add: last_conv_nth)
    also have "\<dots> = c ! (s + (length tok - 1))" using assms(2,3) by simp
    finally have "c ! (?s - 1) = last tok" using assms(3) by (cases tok) simp_all
    moreover have "?b ! (?s - 1) = last rep"
    proof -
      from True assms(3) obtain xs x where rx: "rep = xs @ [x]" by (cases rep rule: rev_cases) auto
      then have "?s - 1 = length (out @ xs)" using True assms(7) assms(9)[OF True] by simp
      moreover have "?b = (out @ xs) @ x # (drop (t + length rep) c @ NUL # r)" using rx by simp
      ultimately have "?b ! (?s - 1) = x" by (metis nth_append_length)
      with rx show ?thesis by simp
    qed
    ultimately show ?thesis using assms(6)[OF True that] by simp
  next
    case False
    with assms have "t + length rep \<le> ?s - 1" "?s - 1 < length c" by (cases tok; simp)+
    then have "?b ! (?s - 1) = c ! (?s - 1)" using assms(7) by (intro nth_held) auto
    then show ?thesis by simp
  qed
  ultimately show ?thesis using assms(2,5) unfolding sees_def by blast
qed

definition finish_in_place :: "nat \<Rightarrow> nat \<Rightarrow> int \<Rightarrow> char list \<Rightarrow> nat \<Rightarrow> nat option \<Rightarrow> char list res" where
  "finish_in_place replen tokenlen len b t s' =
     (case s' of
        Some s \<Rightarrow> if int replen - int tokenlen \<noteq> 0 then memmove b (int t) (int s) (len - int s + 1) else Inr b
      | None \<Rightarrow> Inr b)"

text \<open>In place: the block holds the new text up to \<open>t\<close> and the old text from there on.\<close>

lemma replace_in_place_text:
  assumes "tok \<noteq> []" "length rep \<le> length tok" "NUL \<notin> set c"
    and "length rep = length tok \<Longrightarrow> looks_back m \<Longrightarrow> word_char (last rep) = word_char (last tok)"
    and "length out = t" "t \<le> s" "length rep = length tok \<Longrightarrow> t = s" "occurrence m c tok s" "ic \<noteq> 0"
  shows "\<exists>b t' s' r'.
    replace_in_place m tok rep (int (length c)) (out @ drop t c @ NUL # r) t s ic nq rc =
      Inr (b, t', s', rc + Suc (length (occurrences m c tok nq (ic - 1) (s + length tok)))) \<and>
    finish_in_place (length rep) (length tok) (int (length c)) b t' s' =
      Inr (out @ rep @ splice_at c (length tok) rep (occurrences m c tok nq (ic - 1) (s + length tok)) (s + length tok) @ NUL # r')"
  using assms(5-9)
proof (induction "Suc (length c) - s" arbitrary: s t out ic nq rc r rule: less_induct)
  case less
  let ?n = "length tok"
  let ?s1 = "s + ?n"
  let ?t1 = "t + length rep"
  let ?b1 = "(out @ rep) @ drop ?t1 c @ NUL # r"
  have s1: "?s1 \<le> length c" and at: "token_at c tok s" using less.prems(4) by (auto simp: occurrence_def)
  have t1: "?t1 \<le> ?s1" "?t1 \<le> length c" using less.prems(2) assms(2) s1 by auto
  have w: "(if rep \<noteq> [] then memcpy_to (out @ drop t c @ NUL # r) (int t) rep else Inr (out @ drop t c @ NUL # r)) = Inr ?b1"
    using write_held[of out t rep c "NUL # r"] less.prems(1) t1 by simp
  have sees: "sees m ?b1 c ?s1"
    by (rule sees_replaced[OF at s1 assms(1,2,3,4) less.prems(1,2,3)])
  have l1: "length (out @ rep) = ?t1" using less.prems(1) by simp
  note unf = replace_in_place.simps[of m tok rep "int (length c)" "out @ drop t c @ NUL # r" t s ic nq rc]
  have same: "?t1 = ?s1" if "length rep = ?n" using less.prems(3)[OF that] that by simp
  have fin: "\<exists>r'. finish_in_place (length rep) ?n (int (length c)) ?b1 ?t1 (Some ?s1) = Inr (out @ rep @ drop ?s1 c @ NUL # r')"
  proof (cases "length rep = ?n")
    case True
    with same show ?thesis by (simp add: finish_in_place_def)
  next
    case False
    with memmove_held_end[OF l1 t1(1) s1, of NUL r] show ?thesis by (auto simp: finish_in_place_def)
  qed
  show ?case
  proof (cases "ic = 1")
    case True
    from fin obtain r' where "finish_in_place (length rep) ?n (int (length c)) ?b1 ?t1 (Some ?s1) = Inr (out @ rep @ drop ?s1 c @ NUL # r')"
      by blast
    moreover have "replace_in_place m tok rep (int (length c)) (out @ drop t c @ NUL # r) t s ic nq rc = Inr (?b1, ?t1, Some ?s1, rc + 1)"
      unfolding unf w using True assms(1) by (simp add: Let_def)
    ultimately show ?thesis using True by auto
  next
    case ic: False
    have ic1: "ic - 1 \<noteq> 0" using ic by simp
    from next_occurrence[OF sees assms(1) ic1, of nq] show ?thesis
    proof (elim disjE exE conjE)
      fix nq' assume none: "next_match m ?b1 tok nq ?s1 = Inr (None, nq')" "occurrences m c tok nq (ic - 1) ?s1 = []"
      have "\<exists>b2 r'. (if int (length rep) - int ?n \<noteq> 0 then memmove ?b1 (int ?t1) (int ?s1) (int (length c) - int ?s1 + 1) else Inr ?b1)
              = Inr b2 \<and> b2 = out @ rep @ drop ?s1 c @ NUL # r'"
        using fin by (auto simp: finish_in_place_def)
      then obtain r' where b2: "(if int (length rep) - int ?n \<noteq> 0 then memmove ?b1 (int ?t1) (int ?s1) (int (length c) - int ?s1 + 1) else Inr ?b1)
              = Inr (out @ rep @ drop ?s1 c @ NUL # r')" by blast
      have "replace_in_place m tok rep (int (length c)) (out @ drop t c @ NUL # r) t s ic nq rc =
              Inr (out @ rep @ drop ?s1 c @ NUL # r', ?t1, None, rc + 1)"
        unfolding unf w using assms(1) ic less.prems(5) none b2
        by (cases "length rep = ?n") (simp_all add: Let_def)
      then show ?thesis using none(2) by (auto simp: finish_in_place_def)
    next
      fix p nq' assume p: "next_match m ?b1 tok nq ?s1 = Inr (Some p, nq')" "?s1 \<le> p" "occurrence m c tok p"
        "occurrences m c tok nq (ic - 1) ?s1 = p # occurrences m c tok nq' (ic - 1 - 1) (p + ?n)"
      let ?d = "take (p - ?s1) (drop ?s1 c)"
      let ?t2 = "?t1 + (p - ?s1)"
      let ?b2 = "(out @ rep @ ?d) @ drop ?t2 c @ NUL # r"
      have pc: "p \<le> length c" using p(3) by (simp add: occurrence_def)
      have mm: "(if int (length rep) - int ?n \<noteq> 0 then memmove ?b1 (int ?t1) (int ?s1) (int p - int ?s1) else Inr ?b1) = Inr ?b2"
      proof (cases "length rep = ?n")
        case True
        have "drop ?s1 c = ?d @ drop p c" using p(2) pc by (metis append_take_drop_id drop_drop le_add_diff_inverse2)
        then show ?thesis using True same[OF True] p(2) by simp
      next
        case False
        with memmove_held[OF l1 t1(1) p(2) pc, of "NUL # r"] show ?thesis by simp
      qed
      have l2: "length (out @ rep @ ?d) = ?t2" using less.prems(1) p(2) pc by simp
      have le: "?t2 \<le> p" using t1(1) p(2) by simp
      have eq: "length rep = ?n \<Longrightarrow> ?t2 = p" using same p(2) by simp
      have lt: "Suc (length c) - p < Suc (length c) - s" using p(2) pc assms(1) by (cases tok) auto
      from less.hyps[OF lt l2 le eq p(3) ic1, of r nq' "rc + 1"] obtain b t' s' r' where
        r: "replace_in_place m tok rep (int (length c)) ?b2 ?t2 p (ic - 1) nq' (rc + 1) =
          Inr (b, t', s', rc + 1 + Suc (length (occurrences m c tok nq' (ic - 1 - 1) (p + ?n))))"
        "finish_in_place (length rep) ?n (int (length c)) b t' s' =
          Inr ((out @ rep @ ?d) @ rep @ splice_at c ?n rep (occurrences m c tok nq' (ic - 1 - 1) (p + ?n)) (p + ?n) @ NUL # r')"
        by auto
      have "replace_in_place m tok rep (int (length c)) (out @ drop t c @ NUL # r) t s ic nq rc =
              replace_in_place m tok rep (int (length c)) ?b2 ?t2 p (ic - 1) nq' (rc + 1)"
        unfolding unf w using assms(1) ic less.prems(5) p(1) mm
        by (cases "length rep = ?n") (simp_all add: Let_def)
      with r p(4) show ?thesis by (intro exI[of _ b] exI[of _ t'] exI[of _ s'] exI[of _ r']) simp
    qed
  qed
qed

text \<open>Growing: while \<open>noquote\<close> is set a quote follows, so that the counting loop does not stop early, provided the
  token holds no quote.\<close>

definition quote_from :: "string \<Rightarrow> nat \<Rightarrow> bool" where
  "quote_from c s \<longleftrightarrow> (\<exists>q\<ge>s. q < length c \<and> c ! q \<in> set QUOTES)"

lemma strpbrk_hd: "strpbrk t a = Some r \<Longrightarrow> \<exists>p x u. t = p @ r \<and> r = x # u \<and> x \<in> set a"
  by (induction t) (auto split: if_splits intro: exI[of _ "_ # _"] simp: Cons_eq_append_conv)

lemma found_quote:
  assumes "s \<le> length c" "found_at s (drop s c) (strpbrk (drop s c) a) = Some q"
  shows "s \<le> q \<and> q < length c \<and> c ! q \<in> set a"
proof -
  from assms(2) obtain r where r: "strpbrk (drop s c) a = Some r" "q = s + ptr_diff r (drop s c)"
    by (auto simp: found_at_Some)
  from strpbrk_hd[OF r(1)] obtain p x u where p: "drop s c = p @ x # u" "x \<in> set a" "r = x # u" by blast
  have "q = s + length p" using r(2) p(1,3) by (simp add: ptr_diff_def)
  moreover have "drop s c ! length p = x" unfolding p(1) by simp
  ultimately show ?thesis using text_pbrk_bound[OF assms] p(2) assms(1) by simp
qed

lemma strpbrk_None: "strpbrk t a = None \<longleftrightarrow> set t \<inter> set a = {}"
  by (induction t) auto

lemma quote_from_found:
  "quote_from c s \<Longrightarrow> s \<le> length c \<Longrightarrow> \<exists>q. found_at s (drop s c) (strpbrk (drop s c) QUOTES) = Some q"
proof -
  assume a: "quote_from c s" "s \<le> length c"
  then obtain q where q: "s \<le> q" "q < length c" "c ! q \<in> set QUOTES" by (auto simp: quote_from_def)
  then have "c ! q \<in> set (drop s c)" by (metis Cons_nth_drop_Suc drop_drop in_set_dropD le_add_diff_inverse2 list.set_intros(1))
  with q(3) have "strpbrk (drop s c) QUOTES \<noteq> None" unfolding strpbrk_None by blast
  then show ?thesis by (auto simp: found_at_def)
qed

lemma skip_quotes_more:
  assumes "sees m buf c q" "q < length c" "c ! q \<in> set QUOTES" "tok \<noteq> []" "occurrence m c tok p"
    and "skip_quotes m buf tok q p nq = Inr (Some p', True)"
  shows "quote_from c p'"
  using assms
proof (induction "Suc (length c) - q" arbitrary: q p rule: less_induct)
  case less
  note unf = skip_quotes.simps[of m buf tok q p nq]
  show ?case
  proof (cases "q < p")
    case False
    with less.prems(6) have "p' = p" unfolding unf by simp
    with False less.prems(2,3) show ?thesis unfolding quote_from_def by (intro exI[of _ q]) simp
  next
    case True
    from end_quote_text[OF less.prems(1,1,2)] obtain q2o where
      e: "end_quote buf q = Inr q2o" "\<And>q2. q2o = Some q2 \<Longrightarrow> q \<le> q2 \<and> q2 < length c" by blast
    with True less.prems(6) obtain q2 where q2o: "q2o = Some q2" unfolding unf by (cases q2o) auto
    with e(2) have q2: "q \<le> q2" "q2 < length c" by auto
    then have sees: "sees m buf c (q2 + 1)" using less.prems(1) by (auto intro: sees_later)
    have rs: "skip_quotes m buf tok q p nq =
      res_bind (if q2 > p then match_with m buf tok (q2 + 1) else Inr (Some p)) (\<lambda>co.
            case co of None \<Rightarrow> Inr (None, nq)
            | Some c' \<Rightarrow>
                res_bind (strpbrk_from buf (q2 + 1) QUOTES) (\<lambda>qo.
                case qo of None \<Rightarrow> Inr (Some c', False)
                | Some q' \<Rightarrow> skip_quotes m buf tok q' c' nq))"
      unfolding unf if_P[OF True] e(1) q2o res_bind_simps option.case by (rule refl)
    with less.prems(6) obtain r where r: "(if q2 > p then match_with m buf tok (q2 + 1) else Inr (Some p)) = Inr (Some r)"
      by (auto simp: res_bind_eq_Inr split: option.split_asm)
    have or: "occurrence m c tok r" using r less.prems(5) match_with_both[OF sees sees less.prems(4)] by (auto split: if_splits)
    let ?q = "found_at (q2 + 1) (drop (q2 + 1) c) (strpbrk (drop (q2 + 1) c) QUOTES)"
    have rs2: "skip_quotes m buf tok q p nq = (case ?q of None \<Rightarrow> Inr (Some r, False) | Some q' \<Rightarrow> skip_quotes m buf tok q' r nq)"
      unfolding rs r using sees_pbrk[OF sees, of QUOTES] by simp
    with less.prems(6) obtain q' where q': "?q = Some q'" by (cases ?q) auto
    have b: "q2 + 1 \<le> q' \<and> q' < length c \<and> c ! q' \<in> set QUOTES" using found_quote[OF _ q'] q2 by simp
    show ?thesis
    proof (rule less.hyps[of q' r])
      show "Suc (length c) - q' < Suc (length c) - q" using b q2 by (intro diff_less_mono2) auto
      show "sees m buf c q'" using sees b by (auto intro: sees_later)
      show "skip_quotes m buf tok q' r nq = Inr (Some p', True)" using rs2 q' less.prems(6) by simp
    qed (use b or less.prems in auto)
  qed
qed

lemma next_match_more:
  assumes "sees m buf c s" "tok \<noteq> []" "next_match m buf tok nq s = Inr (Some p, True)"
  shows "quote_from c p"
proof -
  have s: "s \<le> length c" using assms(1) by (simp add: sees_def)
  from match_with_both[OF assms(1,1,2)] obtain r where
    r: "match_with m buf tok s = Inr r" "\<And>p. r = Some p \<Longrightarrow> s \<le> p \<and> occurrence m c tok p" by blast
  let ?q = "found_at s (drop s c) (strpbrk (drop s c) QUOTES)"
  have nq: "nq" using assms(3) r by (cases nq) (auto simp: next_match_def)
  then have e: "next_match m buf tok nq s = (case (?q, r) of
         (None, _) \<Rightarrow> Inr (r, False)
       | (Some q, None) \<Rightarrow> Inr (None, nq)
       | (Some q, Some c) \<Rightarrow> skip_quotes m buf tok q c nq)"
    using nq by (simp add: next_match_def r sees_pbrk[OF assms(1)] split: option.split)
  with assms(3) obtain q p0 where qp: "?q = Some q" "r = Some p0" "skip_quotes m buf tok q p0 nq = Inr (Some p, True)"
    by (cases ?q; cases r) auto
  from found_quote[OF s qp(1)] have q: "s \<le> q" "q < length c" "c ! q \<in> set QUOTES" by auto
  then have "sees m buf c q" using assms(1) by (auto intro: sees_later)
  from skip_quotes_more[OF this q(2,3) assms(2) _ qp(3)] r(2)[OF qp(2)] show ?thesis by simp
qed

lemma quote_after_token:
  assumes "occurrence m c tok p" "quote_from c p" "set tok \<inter> set QUOTES = {}"
  shows "quote_from c (p + length tok)"
proof -
  from assms(2) obtain q where q: "p \<le> q" "q < length c" "c ! q \<in> set QUOTES" by (auto simp: quote_from_def)
  have "\<not> q < p + length tok"
  proof
    assume l: "q < p + length tok"
    have tk: "take (length tok) (drop p c) = tok"
      using assms(1) by (simp add: occurrence_def token_at_def starts_with_def)
    have "take (length tok) (drop p c) ! (q - p) = c ! q" using l q by simp
    moreover have "take (length tok) (drop p c) ! (q - p) \<in> set (take (length tok) (drop p c))"
      using l q by (intro nth_mem) (simp, arith)
    ultimately have "c ! q \<in> set tok" unfolding tk by simp
    with q(3) assms(3) show False by blast
  qed
  with q show ?thesis unfolding quote_from_def by (intro exI[of _ q]) simp
qed

lemma next_match_noquote: "next_match m buf tok nq s = Inr (r, nq') \<Longrightarrow> nq' \<Longrightarrow> nq"
  by (auto simp: next_match_def res_bind_eq_Inr split: if_split_asm)

lemma count_matches_text:
  assumes "tok \<noteq> []" "sees m buf c s" "nq \<Longrightarrow> quote_from c s" "nq \<Longrightarrow> set tok \<inter> set QUOTES = {}"
  shows "count_matches m tok buf ic nq s rc = Inr (rc + length (occurrences m c tok nq ic s))"
  using assms(2-4)
proof (induction "Suc (length c) - s" arbitrary: s nq ic rc rule: less_induct)
  case less
  note unf = count_matches.simps[of m tok buf ic nq s rc]
  have s: "s \<le> length c" using less.prems(1) by (simp add: sees_def)
  show ?case
  proof (cases "ic = 0")
    case True
    then show ?thesis unfolding unf by simp
  next
    case ic: False
    from match_with_both[OF less.prems(1,1) assms(1)] obtain r where
      r: "match_with m buf tok s = Inr r" by blast
    have step: "count_matches m tok buf ic nq s rc =
        res_bind (next_match m buf tok nq s) (\<lambda>(c', noquote').
            case c' of None \<Rightarrow> Inr rc
            | Some c' \<Rightarrow> count_matches m tok buf (ic - 1) noquote' (c' + length tok) (rc + 1))"
    proof (cases nq)
      case False
      with ic assms(1) r show ?thesis unfolding unf by (simp add: next_match_def split: option.split)
    next
      case True
      from quote_from_found[OF less.prems(2)[OF True] s] obtain q where
        "found_at s (drop s c) (strpbrk (drop s c) QUOTES) = Some q" by blast
      with sees_pbrk[OF less.prems(1), of QUOTES] have "strpbrk_from buf s QUOTES = Inr (Some q)" by simp
      with True ic assms(1) r show ?thesis unfolding unf
        by (simp add: next_match_def split: option.split)
    qed
    from next_occurrence[OF less.prems(1) assms(1) ic, of nq] show ?thesis
    proof (elim disjE exE conjE)
      fix p nq' assume p: "next_match m buf tok nq s = Inr (Some p, nq')" "s \<le> p" "occurrence m c tok p"
        "occurrences m c tok nq ic s = p # occurrences m c tok nq' (ic - 1) (p + length tok)"
      have l: "p + length tok \<le> length c" using p(3) by (simp add: occurrence_def)
      have "count_matches m tok buf (ic - 1) nq' (p + length tok) (rc + 1) =
        Inr (rc + 1 + length (occurrences m c tok nq' (ic - 1) (p + length tok)))"
      proof (rule less.hyps)
        show "Suc (length c) - (p + length tok) < Suc (length c) - s" using p(2) l assms(1) by (cases tok) auto
        show "sees m buf c (p + length tok)" using less.prems(1) p(2) l by (auto intro: sees_later)
        show q: "set tok \<inter> set QUOTES = {}" if nq'
          using that next_match_noquote[OF p(1)] less.prems(3) by blast
        show "quote_from c (p + length tok)" if nq'
          using next_match_more[OF less.prems(1) assms(1)] p(1) that quote_after_token[OF p(3) _ q[OF that]] by simp
      qed
      then show ?thesis unfolding step p(1) p(4) by simp
    qed (simp add: step)
  qed
qed

text \<open>Copying: the new block holds the new text up to \<open>t\<close>.\<close>

fun spaced :: "nat \<Rightarrow> nat list \<Rightarrow> nat \<Rightarrow> nat \<Rightarrow> bool" where
  "spaced n [] s len \<longleftrightarrow> s \<le> len"
| "spaced n (p # ps) s len \<longleftrightarrow> s \<le> p \<and> p + n \<le> len \<and> spaced n ps (p + n) len"

lemma occurrences_spaced:
  assumes "sees m buf c s" "tok \<noteq> []"
  shows "spaced (length tok) (occurrences m c tok nq ic s) s (length c) \<and>
         (\<forall>p\<in>set (occurrences m c tok nq ic s). occurrence m c tok p)"
  using assms(1)
proof (induction "Suc (length c) - s" arbitrary: s nq ic rule: less_induct)
  case less
  have s: "s \<le> length c" using less.prems by (simp add: sees_def)
  show ?case
  proof (cases "ic = 0")
    case True
    with s show ?thesis by simp
  next
    case False
    from next_occurrence[OF less.prems assms(2) False, of nq] show ?thesis
    proof (elim disjE exE conjE)
      fix p nq' assume p: "s \<le> p" "occurrence m c tok p"
        "occurrences m c tok nq ic s = p # occurrences m c tok nq' (ic - 1) (p + length tok)"
      have l: "p + length tok \<le> length c" using p(2) by (simp add: occurrence_def)
      have "Suc (length c) - (p + length tok) < Suc (length c) - s" using p(1) l assms(2) by (cases tok) auto
      moreover have "sees m buf c (p + length tok)" using less.prems p(1) l by (auto intro: sees_later)
      ultimately show ?thesis using less.hyps[of "p + length tok" nq' "ic - 1"] p l by simp
    qed (use s in simp)
  qed
qed

lemma length_splice_at:
  "spaced n ps s (length c) \<Longrightarrow>
   int (length (splice_at c n rep ps s)) = int (length c) - int s + (int (length rep) - int n) * int (length ps)"
proof (induction ps arbitrary: s)
  case (Cons p ps)
  have "length (take (p - s) (drop s c)) = p - s" using Cons.prems by (auto simp: min_def)
  moreover from Cons.IH[of "p + n"] Cons.prems have
    "int (length (splice_at c n rep ps (p + n))) =
       int (length c) - int (p + n) + (int (length rep) - int n) * int (length ps)" by simp
  ultimately show ?case using Cons.prems by (simp add: algebra_simps of_nat_diff del: length_take)
qed (simp add: of_nat_diff)

lemma write_new:
  assumes "length a = t" "length d \<le> length x"
  shows "memcpy_to (a @ x) (int t) d = Inr ((a @ d) @ drop (length d) x)"
  using assms by (simp add: memcpy_to_def)

lemma copy_replaced_text:
  assumes "tok \<noteq> []" "NUL \<notin> set c"
  shows "length out = t \<Longrightarrow> s + length tok \<le> length c \<Longrightarrow>
    ps = occurrences m c tok nq ic (s + length tok) \<Longrightarrow>
    length (rep @ splice_at c (length tok) rep ps (s + length tok)) + 1 \<le> length x \<Longrightarrow>
    \<exists>x'. copy_replaced m tok rep (int (length c)) (c @ NUL # r) (Suc (length ps)) nq s (out @ x) t =
      Inr (out @ rep @ splice_at c (length tok) rep ps (s + length tok) @ NUL # x')"
proof (induction ps arbitrary: s t out nq ic x)
  case Nil
  let ?s1 = "s + length tok"
  have sees: "sees m (c @ NUL # r) c ?s1" using Nil.prems(2) assms(2) by (rule sees_self[rotated])
  from next_match_text[OF sees sees assms(1), of nq] obtain r' nq' where
    nm: "next_match m (c @ NUL # r) tok nq ?s1 = Inr (r', nq')" by blast
  have w1: "memcpy_to (out @ x) (int t) rep = Inr ((out @ rep) @ drop (length rep) x)"
    using Nil.prems by (intro write_new) auto
  have rd: "read_range (c @ NUL # r) (int ?s1) (int (length c) - int ?s1 + 1) = Inr (drop ?s1 c @ [NUL])"
    using read_held_end[of "[]" 0 ?s1 c NUL r] Nil.prems(2) by simp
  have w2: "memcpy_to ((out @ rep) @ drop (length rep) x) (int (t + length rep)) (drop ?s1 c @ [NUL]) =
     Inr (((out @ rep) @ drop ?s1 c @ [NUL]) @ drop (length (drop ?s1 c @ [NUL])) (drop (length rep) x))"
    using Nil.prems by (intro write_new) auto
  show ?case using nm w1 rd w2 by (simp add: Let_def)
next
  case (Cons p ps)
  let ?s1 = "s + length tok"
  let ?t1 = "t + length rep"
  let ?d = "take (p - ?s1) (drop ?s1 c)"
  have sees: "sees m (c @ NUL # r) c ?s1" using Cons.prems(2) assms(2) by (rule sees_self[rotated])
  have ic: "ic \<noteq> 0" using Cons.prems(3) by auto
  from next_occurrence[OF sees assms(1) ic, of nq] Cons.prems(3) obtain nq' where
    nm: "next_match m (c @ NUL # r) tok nq ?s1 = Inr (Some p, nq')" "?s1 \<le> p" "occurrence m c tok p"
    and ps: "ps = occurrences m c tok nq' (ic - 1) (p + length tok)" by auto
  have pc: "p + length tok \<le> length c" using nm(3) by (simp add: occurrence_def)
  have ld: "length ?d = p - ?s1" using pc by simp
  have w1: "memcpy_to (out @ x) (int t) rep = Inr ((out @ rep) @ drop (length rep) x)"
    using Cons.prems by (intro write_new) auto
  have i: "int p - int ?s1 = int (p - ?s1)" using nm(2) by simp
  have rd: "read_range (c @ NUL # r) (int ?s1) (int p - int ?s1) = Inr ?d"
    unfolding i using read_held[of "[]" 0 ?s1 "p - ?s1" c "NUL # r"] nm(2) pc by simp
  have w2: "memcpy_to ((out @ rep) @ drop (length rep) x) (int ?t1) ?d =
     Inr ((out @ rep @ ?d) @ drop (length ?d) (drop (length rep) x))"
    using write_new[of "out @ rep" ?t1 ?d "drop (length rep) x"] Cons.prems(1,4) ld by simp
  have l2: "length (out @ rep @ ?d) = ?t1 + (p - ?s1)" using Cons.prems(1) ld by simp
  have room: "length (rep @ splice_at c (length tok) rep ps (p + length tok)) + 1 \<le> length (drop (length ?d) (drop (length rep) x))"
    using Cons.prems(4) ld by (simp add: le_diff_conv2)
  from Cons.IH[OF l2 pc ps room] obtain x' where
    "copy_replaced m tok rep (int (length c)) (c @ NUL # r) (Suc (length ps)) nq' p
       ((out @ rep @ ?d) @ drop (length ?d) (drop (length rep) x)) (?t1 + (p - ?s1)) =
      Inr ((out @ rep @ ?d) @ rep @ splice_at c (length tok) rep ps (p + length tok) @ NUL # x')" by blast
  moreover have "copy_replaced m tok rep (int (length c)) (c @ NUL # r) (Suc (length (p # ps))) nq s (out @ x) t =
    copy_replaced m tok rep (int (length c)) (c @ NUL # r) (Suc (length ps)) nq' p
       ((out @ rep @ ?d) @ drop (length ?d) (drop (length rep) x)) (?t1 + (p - ?s1))"
    unfolding copy_replaced.simps(2)[of m tok rep "int (length c)" "c @ NUL # r" "length (p # ps)"]
    using nm(1) w1 rd w2 by (simp add: Let_def del: copy_replaced.simps)
  ultimately show ?case by (intro exI[of _ x']) simp
qed

lemma double_size_ok: "0 < n \<Longrightarrow> \<exists>m. double_size need n = Inr m \<and> need < m \<and> n \<le> m"
proof (induction need n rule: double_size.induct)
  case (1 need n)
  show ?case
  proof (cases "need \<ge> n")
    case True
    with "1.IH" "1.prems" obtain m where "double_size need (n * 2) = Inr m" "need < m" "n * 2 \<le> m" by auto
    with True "1.prems" show ?thesis by (auto simp: double_size.simps[of need n])
  qed (simp add: double_size.simps[of need n])
qed

lemma replace_in_place_length:
  "replace_in_place m tok rep len buf t s ic nq rc = Inr (b, t', s', rc') \<Longrightarrow> length b = length buf"
proof (induction m tok rep len buf t s ic nq rc rule: replace_in_place.induct)
  case (1 m tok rep len buf t s ic nq rc)
  note e = "1.prems"[unfolded replace_in_place.simps[of m tok rep len buf t s ic nq rc]]
  show ?case
  proof (cases "ic = 0 \<or> tok = []")
    case True
    with e show ?thesis by (auto split: if_split_asm)
  next
    case False
    with e obtain b1 where b1: "(if rep \<noteq> [] then memcpy_to buf (int t) rep else Inr buf) = Inr b1"
      by (auto simp: res_bind_eq_Inr)
    have l1: "length b1 = length buf" using b1 by (auto split: if_split_asm dest: memcpy_to_length)
    show ?thesis
    proof (cases "ic = 1")
      case True
      with e b1 False l1 show ?thesis by (auto simp: Let_def)
    next
      case ic: False
      with e b1 False obtain co nq' where nm: "next_match m b1 tok nq (s + length tok) = Inr (co, nq')"
        by (auto simp: Let_def res_bind_eq_Inr)
      show ?thesis
      proof (cases co)
        case None
        with e b1 False ic nm l1 show ?thesis
          by (auto simp: Let_def res_bind_eq_Inr split: if_split_asm dest: memmove_length)
      next
        case (Some p)
        let ?mm = "if int (length rep) - int (length tok) \<noteq> 0
          then memmove b1 (int (t + length rep)) (int (s + length tok)) (int p - int (s + length tok)) else Inr b1"
        from e b1 False ic nm Some obtain b2 where b2: "?mm = Inr b2"
          and r: "replace_in_place m tok rep len b2 (t + length rep + (p - (s + length tok))) p (ic - 1) nq' (rc + 1) = Inr (b, t', s', rc')"
          by (auto simp: Let_def res_bind_eq_Inr)
        have "length b2 = length b1" using b2 by (auto split: if_split_asm dest: memmove_length)
        moreover have "length b = length b2"
          by (rule "1.IH"[OF _ _ b1 refl refl refl ic nm refl Some b2 r]) (use False in auto)
        ultimately show ?thesis using l1 by simp
      qed
    qed
  qed
qed

lemma copy_replaced_length:
  "copy_replaced m tok rep len buf k nq s ns t = Inr ns' \<Longrightarrow> length ns' = length ns"
proof (induction k arbitrary: nq s ns t)
  case (Suc k)
  from Suc.prems obtain ns1 co nq' where
    n: "memcpy_to ns (int t) rep = Inr ns1" "next_match m buf tok nq (s + length tok) = Inr (co, nq')"
    by (auto simp: Let_def res_bind_eq_Inr)
  with Suc.prems Suc.IH show ?case
    by (cases co) (auto simp: Let_def res_bind_eq_Inr split: if_split_asm dest!: memcpy_to_length)
qed simp

section \<open>Replacement in a String\<close>

text \<open>The block ends the text with a zero byte.\<close>

definition terminated :: "String \<Rightarrow> bool" where
  "terminated s \<longleftrightarrow> peek (str_buf s) (str_len s) = Inr NUL"

lemma terminated_buf:
  assumes "wf_string s" "terminated s"
  obtains r where "str_buf s = contents s @ NUL # r" "str_len s = int (length (contents s))"
proof -
  from assms(1) obtain x r where b: "str_buf s = contents s @ x # r" "int (length (contents s)) = str_len s" by (rule wf_buf)
  then have "peek (str_buf s) (str_len s) = Inr x" by (simp add: peek_split)
  with assms(2) have "x = NUL" by (simp add: terminated_def)
  with b that show ?thesis by simp
qed

text \<open>The operations that change the text write the zero byte behind it.\<close>

lemma peek_poked: "poke b i x = Inr b' \<Longrightarrow> peek b' i = Inr x"
  by (auto simp: poke_def memcpy_to_def peek_def nth_append split: if_splits)

lemma peek_copied: "memcpy_to b i (d @ [x]) = Inr b' \<Longrightarrow> peek b' (i + int (length d)) = Inr x"
  by (auto simp: memcpy_to_def peek_def nth_append nat_add_distrib split: if_splits)

lemma append_terminated: "DohString_append s arg = Inr s' \<Longrightarrow> terminated s'"
  by (auto simp: DohString_append_def terminated_def Let_def res_bind_eq_Inr split: if_splits dest!: peek_copied)

lemma insert_terminated: "String_insert s pos arg = Inr s' \<Longrightarrow> terminated s'"
  by (auto simp: String_insert_def Let_def res_bind_eq_Inr split: if_split_asm dest!: append_terminated peek_poked)
    (simp_all add: terminated_def)

lemma delslice_terminated: "String_delslice s i e = Inr s' \<Longrightarrow> terminated s \<Longrightarrow> terminated s'"
  by (auto simp: String_delslice_def terminated_def Let_def res_bind_eq_Inr split: if_splits dest!: peek_poked)

lemma write_terminated: "String_write s d = Inr (n, s') \<Longrightarrow> terminated s'"
  by (auto simp: String_write_def terminated_def Let_def res_bind_eq_Inr split: if_splits dest!: peek_poked)

lemma chop_terminated: "String_chop s = Inr s' \<Longrightarrow> terminated s'"
  by (auto simp: String_chop_def terminated_def Let_def res_bind_eq_Inr split: if_splits dest!: peek_poked)

text \<open>Where the file position is after a replacement that leaves \<open>len\<close> characters.\<close>

definition position_kept :: "String \<Rightarrow> nat \<Rightarrow> bool" where
  "position_kept s len \<longleftrightarrow> str_sp s = str_len s \<or> str_sp s < int len \<or> str_len s < int len"

lemma replace_shrinking_text:
  assumes "wf_string s" "terminated s" "str_hashkey s = -1" "NUL \<notin> set (contents s)" "tok \<noteq> []" "length rep \<le> length tok"
    and "length rep = length tok \<Longrightarrow> looks_back m \<Longrightarrow> word_char (last rep) = word_char (last tok)"
    and "occurrence m (contents s) tok p" "ic \<noteq> 0"
    and ps: "ps = occurrences m (contents s) tok nq (ic - 1) (p + length tok)"
  shows "\<exists>s'. replace_shrinking m tok rep ic nq p s = Inr (length (p # ps), s') \<and>
    contents s' = splice_at (contents s) (length tok) rep (p # ps) 0 \<and> terminated s' \<and>
    (position_kept s (length (contents s')) \<longrightarrow> wf_string s')"
proof -
  let ?c = "contents s"
  let ?n = "length tok"
  let ?new = "splice_at ?c ?n rep (p # ps) 0"
  let ?e = "(int (length rep) - int ?n) * int (length (p # ps))"
  from assms(1,2) obtain r where b: "str_buf s = ?c @ NUL # r" "str_len s = int (length ?c)" by (rule terminated_buf)
  have pc: "p + ?n \<le> length ?c" using assms(8) by (simp add: occurrence_def)
  have buf: "str_buf s = take p ?c @ drop p ?c @ NUL # r" using b(1) by simp
  have lp: "length (take p ?c) = p" using pc by simp
  from replace_in_place_text[OF assms(5,6,4,7) lp order_refl refl assms(8,9), of r nq 0]
  obtain b1 t' s1 r' where r1: "replace_in_place m tok rep (str_len s) (str_buf s) p p ic nq 0 = Inr (b1, t', s1, length (p # ps))"
    and fin: "finish_in_place (length rep) ?n (str_len s) b1 t' s1 = Inr (take p ?c @ rep @ splice_at ?c ?n rep ps (p + ?n) @ NUL # r')"
    unfolding b(2) buf[symmetric] ps by auto
  have new: "take p ?c @ rep @ splice_at ?c ?n rep ps (p + ?n) = ?new" by simp
  have fin2: "(case s1 of
           Some s' \<Rightarrow> if int (length rep) - int ?n \<noteq> 0 then memmove b1 (int t') (int s') (str_len s - int s' + 1) else Inr b1
         | None \<Rightarrow> Inr b1) = Inr (?new @ NUL # r')"
    using fin new by (simp add: finish_in_place_def)
  have "length b1 = length (str_buf s)" by (rule replace_in_place_length[OF r1])
  moreover have "length (?new @ NUL # r') = length b1"
    using fin2 by (auto split: option.split_asm if_split_asm dest: memmove_length)
  ultimately have lb: "length (?new @ NUL # r') = length (str_buf s)" by simp
  have sp: "spaced ?n (p # ps) 0 (length ?c)"
    using occurrences_spaced[OF sees_self[OF assms(4) pc, of m "[]"] assms(5), of nq "ic - 1"] pc ps by simp
  have ln: "int (length ?new) = str_len s + ?e" using length_splice_at[OF sp] b(2) by simp
  have neg: "?e \<le> 0" using assms(6) by (intro mult_nonpos_nonneg) auto
  define s' where "s' = s\<lparr>str_len := str_len s + ?e, str_buf := ?new @ NUL # r',
                       str_sp := (if str_sp s \<ge> str_len s + ?e then str_sp s + ?e else str_sp s)\<rparr>"
  have "poke (?new @ NUL # r') (str_len s + ?e) NUL = Inr (?new @ NUL # r')"
    using poke_split[of "str_len s + ?e" ?new NUL r' NUL] ln by simp
  then have eq: "replace_shrinking m tok rep ic nq p s = Inr (length (p # ps), s')"
    unfolding replace_shrinking_def r1 res_bind_simps Let_def prod.case fin2 s'_def by simp
  have c': "contents s' = ?new"
    using ln by (intro contentsI[of _ _ "NUL # r'"]) (simp_all add: s'_def del: splice_at.simps)
  have t: "terminated s'" using ln by (simp add: terminated_def s'_def peek_split del: splice_at.simps)
  have w: "wf_string s'" if pk: "position_kept s (length ?new)"
    using wf_stringD[OF assms(1)] assms(1,3) lb ln neg pk
    by (auto simp: wf_string_def s'_def position_kept_def)
  show ?thesis using eq c' t w by auto
qed

lemma replace_expanding_text:
  assumes "wf_string s" "terminated s" "str_hashkey s = -1" "NUL \<notin> set (contents s)" "tok \<noteq> []" "length tok < length rep"
    and "nq \<Longrightarrow> set tok \<inter> set QUOTES = {}" "nq \<Longrightarrow> quote_from (contents s) p"
    and "occurrence m (contents s) tok p" "ic \<noteq> 0"
    and ps: "ps = occurrences m (contents s) tok nq (ic - 1) (p + length tok)"
  shows "\<exists>s'. replace_expanding m tok rep ic nq p s = Inr (length (p # ps), s') \<and>
    contents s' = splice_at (contents s) (length tok) rep (p # ps) 0 \<and> terminated s' \<and> wf_string s'"
proof -
  let ?c = "contents s"
  let ?n = "length tok"
  let ?new = "splice_at ?c ?n rep (p # ps) 0"
  let ?e = "(int (length rep) - int ?n) * int (length (p # ps))"
  from assms(1,2) obtain r where b: "str_buf s = ?c @ NUL # r" "str_len s = int (length ?c)" by (rule terminated_buf)
  have pc: "p + ?n \<le> length ?c" using assms(9) by (simp add: occurrence_def)
  have sees: "sees m (?c @ NUL # r) ?c (p + ?n)" by (rule sees_self[OF assms(4) pc])
  have cnt: "count_matches m tok (str_buf s) (ic - 1) nq (p + ?n) 1 = Inr (Suc (length ps))"
    using count_matches_text[OF assms(5) sees _ assms(7), where ic = "ic - 1" and rc = 1] quote_after_token[OF assms(9)] assms(7,8) ps b(1)
    by simp
  have sp: "spaced ?n (p # ps) 0 (length ?c)"
    using occurrences_spaced[OF sees assms(5), of nq "ic - 1"] pc ps by simp
  have ln: "int (length ?new) = str_len s + ?e" using length_splice_at[OF sp] b(2) by simp
  have max0: "0 < str_maxsize s" using wf_stringD[OF assms(1)] by simp
  from double_size_ok[OF max0, of "str_len s + ?e"] obtain m' where
    ds: "double_size (str_len s + ?e) (str_maxsize s) = Inr m'" "str_len s + ?e < m'" by blast
  let ?x = "drop p (alloc m')"
  have la: "length (alloc m') = nat m'" by (simp add: alloc_def)
  have pos: "0 \<le> ?e" using assms(6) by (intro mult_nonneg_nonneg) auto
  have ple: "int p \<le> m'" using ds(2) pos pc b(2) by linarith
  have first: "(if 0 < p then res_bind (read_range (str_buf s) 0 (int p)) (memcpy_to (alloc m') 0) else Inr (alloc m')) =
     Inr (take p ?c @ ?x)"
  proof (cases "p = 0")
    case False
    have "read_range (str_buf s) 0 (int p) = Inr (take p ?c)"
      using read_held[of "[]" 0 0 p ?c "NUL # r"] pc b(1) by simp
    moreover have lp: "length (take p ?c) = p" using pc by simp
    moreover have "memcpy_to (alloc m') 0 (take p ?c) = Inr (take p ?c @ ?x)"
      using write_new[of "[]" 0 "take p ?c" "alloc m'", unfolded lp] la ple by simp
    ultimately show ?thesis using False by simp
  qed simp
  have room: "length (rep @ splice_at ?c ?n rep ps (p + ?n)) + 1 \<le> length ?x"
  proof -
    have "length ?new = p + length (rep @ splice_at ?c ?n rep ps (p + ?n))" using pc by (simp add: min_def)
    moreover have "int (length ?new) + 1 \<le> m'" using ln ds(2) by linarith
    ultimately show ?thesis using la by simp
  qed
  have lp: "length (take p ?c) = p" using pc by simp
  from copy_replaced_text[OF assms(5,4) lp pc ps room, of r] obtain x' where
    cp: "copy_replaced m tok rep (str_len s) (str_buf s) (Suc (length ps)) nq p (take p ?c @ ?x) p = Inr (?new @ NUL # x')"
    unfolding b(2) b(1)[symmetric] by auto
  have ll: "length (?new @ NUL # x') = nat m'"
    using copy_replaced_length[OF cp] la ple lp by simp
  define s' where "s' = s\<lparr>str_buf := ?new @ NUL # x', str_maxsize := m', str_len := str_len s + ?e,
                       str_sp := (if str_sp s \<ge> str_len s then str_sp s + ?e else str_sp s)\<rparr>"
  have pk: "poke (?new @ NUL # x') (str_len s + ?e) NUL = Inr (?new @ NUL # x')"
    using poke_split[of "str_len s + ?e" ?new NUL x' NUL] ln by simp
  have eq: "replace_expanding m tok rep ic nq p s = Inr (length (p # ps), s')"
    unfolding replace_expanding_def Let_def cnt res_bind_simps using ds(1) first cp pk
    by (simp add: s'_def del: splice_at.simps)
  have c': "contents s' = ?new"
    using ln by (intro contentsI[of _ _ "NUL # x'"]) (simp_all add: s'_def del: splice_at.simps)
  have t: "terminated s'" using ln by (simp add: terminated_def s'_def peek_split del: splice_at.simps)
  have w: "wf_string s'" using wf_stringD[OF assms(1)] assms(1,3) ll ln pos ds(2)
    by (auto simp: wf_string_def s'_def)
  show ?thesis using eq c' t w by blast
qed

lemma splice_at_0 [simp]: "splice_at c n rep [] 0 = c"
  by simp

text \<open>The whole of \<^verbatim>\<open>replace_simple\<close>.\<close>

lemma replace_simple_text:
  assumes "wf_string s" "terminated s" "NUL \<notin> set (contents s)" "tok \<noteq> []" "count \<noteq> 0"
    and "set tok \<inter> set QUOTES = {} \<or> \<not> flag_set flags DOH_REPLACE_NOQUOTE"
    and "length rep = length tok \<Longrightarrow> looks_back m \<Longrightarrow> word_char (last rep) = word_char (last tok)"
    and ps: "ps = occurrences m (contents s) tok (flag_set flags DOH_REPLACE_NOQUOTE) count 0"
  shows "\<exists>s'. replace_simple s tok rep flags count m = Inr (length ps, s') \<and>
    contents s' = splice_at (contents s) (length tok) rep ps 0 \<and> terminated s' \<and>
    (position_kept s (length (contents s')) \<longrightarrow> wf_string s')"
proof -
  let ?c = "contents s"
  let ?nq = "flag_set flags DOH_REPLACE_NOQUOTE"
  from assms(1,2) obtain r where b: "str_buf s = ?c @ NUL # r" "str_len s = int (length ?c)" by (rule terminated_buf)
  have sees: "sees m (str_buf s) ?c 0" unfolding b(1) by (rule sees_self[OF assms(3)]) simp
  from match_with_both[OF sees sees assms(4)] obtain s0 where s0: "match_with m (str_buf s) tok 0 = Inr s0" by blast
  let ?s1 = "s\<lparr>str_hashkey := -1\<rparr>"
  have s1: "wf_string ?s1" "terminated ?s1" "contents ?s1 = ?c" "str_hashkey ?s1 = -1"
    using assms(1,2) by (auto simp: wf_string_def terminated_def contents_def)
  have e0: "replace_simple s tok rep flags count m = Inr (0, s)" if "s0 = None"
    using that s0 assms(4) by (simp add: replace_simple_def)
  have e1: "replace_simple s tok rep flags count m =
    res_bind (next_match m (str_buf s) tok ?nq 0) (\<lambda>(p, noquote).
           case p of None \<Rightarrow> Inr (0, ?s1)
           | Some first \<Rightarrow>
               if length rep \<le> length tok then replace_shrinking m tok rep count noquote first ?s1
               else replace_expanding m tok rep count noquote first ?s1)" if "s0 \<noteq> None"
    using that s0 assms(4) by (auto simp: replace_simple_def Let_def)
  have n0: "next_match m (str_buf s) tok ?nq 0 = Inr (Some p, nq') \<Longrightarrow> s0 \<noteq> None" for p nq'
    using s0 by (auto simp: next_match_def res_bind_eq_Inr split: if_split_asm option.split_asm)
  from next_occurrence[OF sees assms(4,5), of ?nq] show ?thesis
  proof (elim disjE exE conjE)
    fix nq' assume "next_match m (str_buf s) tok ?nq 0 = Inr (None, nq')" "occurrences m ?c tok ?nq count 0 = []"
    then show ?thesis using e0 e1 ps s1 assms(1,2) by (cases s0) (auto simp del: splice_at.simps)
  next
    fix p nq' assume p: "next_match m (str_buf s) tok ?nq 0 = Inr (Some p, nq')" "occurrence m ?c tok p"
      "occurrences m ?c tok ?nq count 0 = p # occurrences m ?c tok nq' (count - 1) (p + length tok)"
    note e = e1[OF n0[OF p(1)], unfolded p(1) res_bind_simps prod.case option.case]
    show ?thesis
    proof (cases "length rep \<le> length tok")
      case True
      from replace_shrinking_text[OF s1(1,2,4) _ assms(4) True assms(7) _ assms(5) refl, of m p nq'] p(2) assms(3)
      show ?thesis unfolding e if_P[OF True] ps p(3) s1(3) by (simp add: position_kept_def del: splice_at.simps)
    next
      case False
      have nq: "nq' \<Longrightarrow> ?nq"
        using p(1) by (auto simp: next_match_def res_bind_eq_Inr split: if_split_asm)
      have q: "nq' \<Longrightarrow> set tok \<inter> set QUOTES = {}" using assms(6) nq by blast
      have "nq' \<Longrightarrow> quote_from ?c p" using next_match_more[OF sees assms(4)] p(1) by simp
      then show ?thesis
        using replace_expanding_text[OF s1(1,2,4) _ assms(4) _ q _ _ assms(5) refl, where rep = rep and p = p and m = m] p(2) assms(3) False
        unfolding e if_not_P[OF False] ps p(3) s1(3) by (auto simp del: splice_at.simps)
    qed
  qed
qed

definition replace_count :: "int \<Rightarrow> int" where
  "replace_count flags = (if flag_set flags DOH_REPLACE_FIRST then 1 else -1)"

definition replaceable :: "String \<Rightarrow> string \<Rightarrow> string \<Rightarrow> bool" where
  "replaceable s tok rep \<longleftrightarrow>
     wf_string s \<and> terminated s \<and> NUL \<notin> set (contents s) \<and> NUL \<notin> set tok \<and> NUL \<notin> set rep \<and> tok \<noteq> []"

lemma String_replace_text:
  assumes "replaceable s tok rep"
    and "set tok \<inter> set QUOTES = {} \<or> \<not> flag_set flags DOH_REPLACE_NOQUOTE"
    and "length rep = length tok \<Longrightarrow> looks_back (replace_mode flags) \<Longrightarrow> word_char (last rep) = word_char (last tok)"
    and "ps = occurrences (replace_mode flags) (contents s) tok (flag_set flags DOH_REPLACE_NOQUOTE) (replace_count flags) 0"
  shows "\<exists>s'. String_replace s (CStr tok) (CStr rep) flags = Inr (length ps, s') \<and>
    contents s' = splice_at (contents s) (length tok) rep ps 0 \<and> terminated s' \<and>
    (position_kept s (length (contents s')) \<longrightarrow> wf_string s')"
proof -
  have "replace_count flags \<noteq> 0" by (simp add: replace_count_def)
  from replace_simple_text[OF _ _ _ _ this assms(2,3,4)] assms(1)
  show ?thesis by (simp add: replaceable_def String_replace_def until_nul_id replace_count_def del: splice_at.simps)
qed

text \<open>Without conditions on the token, the text is that of the obvious recursion.\<close>

function replaceall_text :: "string \<Rightarrow> string \<Rightarrow> string \<Rightarrow> string" where
  "replaceall_text tok rep [] = []"
| "replaceall_text tok rep (x # xs) =
     (if tok \<noteq> [] \<and> starts_with tok (x # xs) then rep @ replaceall_text tok rep (drop (length tok) (x # xs))
      else x # replaceall_text tok rep xs)"
  by pat_completeness auto
termination
  by (relation "measure (\<lambda>(tok, rep, t). length t)") (auto simp: neq_Nil_conv)

lemma replaceall_text_skip:
  "(\<And>q. q < k \<Longrightarrow> \<not> starts_with tok (drop q t)) \<Longrightarrow> k \<le> length t \<Longrightarrow>
   replaceall_text tok rep t = take k t @ replaceall_text tok rep (drop k t)"
proof (induction k arbitrary: t)
  case (Suc k)
  then obtain x xs where t: "t = x # xs" by (cases t) auto
  have "\<not> starts_with tok (x # xs)" using Suc.prems(1)[of 0] t by simp
  moreover have "replaceall_text tok rep xs = take k xs @ replaceall_text tok rep (drop k xs)"
    using Suc.IH[of xs] Suc.prems(1)[of "Suc _"] Suc.prems(2) t by simp
  ultimately show ?case using t by simp
qed simp

lemma simple_find: "tok \<noteq> [] \<Longrightarrow> s \<le> length c \<Longrightarrow> text_match (accepts Simple c n) c tok s = text_find c tok s"
  by (simp add: text_match.simps[of _ c tok s] accepts_def split: option.split)

lemma simple_occurrences:
  assumes "NUL \<notin> set c" "tok \<noteq> []" "s \<le> length c" "ic < 0"
  shows "splice_at c (length tok) rep (occurrences Simple c tok False ic s) s = replaceall_text tok rep (drop s c)"
  using assms(3,4)
proof (induction "Suc (length c) - s" arbitrary: s ic rule: less_induct)
  case less
  have sees: "sees Simple (c @ [NUL]) c s" using sees_self[OF assms(1) less.prems(1), of Simple "[]"] .
  have nm: "next_match Simple (c @ [NUL]) tok False s = Inr (text_find c tok s, False)"
    using match_with_text[OF sees assms(2)] simple_find[OF assms(2) less.prems(1), of "length tok"]
    by (simp add: next_match_def)
  show ?case
  proof (cases "text_find c tok s")
    case None
    have "replaceall_text tok rep (drop s c) = drop s c"
      using replaceall_text_skip[of "length (drop s c)" tok "drop s c" rep] text_find_None[OF None]
      by (simp add: token_at_def)
    with None nm less.prems(2) assms(2) show ?thesis
      by (simp add: occurrences.simps[of Simple c tok False ic s])
  next
    case (Some p)
    note f = text_find_Some[OF Some less.prems(1)]
    have "p < length c" using f assms(2) by (cases tok) auto
    then obtain x xs where x: "drop p c = x # xs" by (metis Cons_nth_drop_Suc)
    have "replaceall_text tok rep (drop s c) = take (p - s) (drop s c) @ replaceall_text tok rep (drop (p - s) (drop s c))"
      using f by (intro replaceall_text_skip) (auto simp: token_at_def)
    also have "drop (p - s) (drop s c) = drop p c" using f by simp
    also have "replaceall_text tok rep (drop p c) = rep @ replaceall_text tok rep (drop (p + length tok) c)"
      using f assms(2) x by (simp add: token_at_def flip: drop_drop) (metis add.commute drop_drop)
    also have "replaceall_text tok rep (drop (p + length tok) c) =
        splice_at c (length tok) rep (occurrences Simple c tok False (ic - 1) (p + length tok)) (p + length tok)"
    proof (rule less.hyps[symmetric])
      show "Suc (length c) - (p + length tok) < Suc (length c) - s" using f assms(2) by (cases tok) auto
    qed (use f less.prems in auto)
    finally show ?thesis using Some nm less.prems(2) assms(2)
      by (simp add: occurrences.simps[of Simple c tok False ic s])
  qed
qed

text \<open>A token of word characters is replaced exactly where it stands as a whole word.\<close>

lemma word_match_next:
  assumes "tok \<noteq> []" "\<forall>x\<in>set tok. word_char x" "s \<le> q" "occurrence Identifier c tok q"
  shows "\<exists>p. text_match (accepts Identifier c (length tok)) c tok s = Some p \<and> p \<le> q"
  using assms(3)
proof (induction "Suc (length c) - s" arbitrary: s rule: less_induct)
  case less
  have q: "q + length tok \<le> length c" "token_at c tok q" using assms(4) by (auto simp: occurrence_def)
  have s: "s \<le> length c" using less.prems q by simp
  obtain p where p: "text_find c tok s = Some p"
    using text_find_None[of c tok s q] less.prems q(2) by (cases "text_find c tok s") auto
  note f = text_find_Some[OF p s]
  have pq: "p \<le> q" using f less.prems q(2) by (metis leI)
  show ?case
  proof (cases "accepts Identifier c (length tok) p")
    case True
    with p s assms(1) pq show ?thesis by (simp add: text_match.simps[of _ c tok s])
  next
    case False
    with assms(4) have ne: "p \<noteq> q" by (auto simp: occurrence_def)
    have "p + length tok \<le> q"
    proof (rule ccontr)
      assume "\<not> p + length tok \<le> q"
      then have i: "q - 1 - p < length tok" "p \<le> q - 1" "0 < q" using ne pq by auto
      have tk: "take (length tok) (drop p c) = tok" using f by (simp add: token_at_def starts_with_def)
      have "c ! (q - 1) = take (length tok) (drop p c) ! (q - 1 - p)" using i f by simp
      then have "c ! (q - 1) \<in> set tok" unfolding tk using i(1) by simp
      with assms(2,4) i(3) show False by (auto simp: occurrence_def accepts_def)
    qed
    moreover have "Suc (length c) - (p + length tok) < Suc (length c) - s" using f assms(1) by (cases tok) auto
    ultimately show ?thesis using less.hyps[of "p + length tok"] p s assms(1) False
      by (simp add: text_match.simps[of _ c tok s])
  qed
qed

lemma upt_split: "s \<le> p \<Longrightarrow> p \<le> n \<Longrightarrow> [s..<n] = [s..<p] @ [p..<n]"
  by (metis le_add_diff_inverse upt_add_eq_append)

lemma word_occurrences:
  assumes "NUL \<notin> set c" "tok \<noteq> []" "\<forall>x\<in>set tok. word_char x" "s \<le> length c" "ic < 0"
  shows "occurrences Identifier c tok False ic s = filter (occurrence Identifier c tok) [s..<length c]"
  using assms(4,5)
proof (induction "Suc (length c) - s" arbitrary: s ic rule: less_induct)
  case less
  let ?o = "occurrence Identifier c tok"
  let ?m = "text_match (accepts Identifier c (length tok)) c tok s"
  have sees: "sees Identifier (c @ [NUL]) c s" using sees_self[OF assms(1) less.prems(1), of Identifier "[]"] .
  have nm: "next_match Identifier (c @ [NUL]) tok False s = Inr (?m, False)"
    using match_with_text[OF sees assms(2)] by (simp add: next_match_def)
  show ?case
  proof (cases ?m)
    case None
    then have "\<not> ?o q" if "s \<le> q" for q using word_match_next[OF assms(2,3) that, of c] by auto
    with None nm less.prems assms(2) show ?thesis
      by (simp add: occurrences.simps[of Identifier c tok False ic s] filter_empty_conv)
  next
    case (Some p)
    have p: "s \<le> p" "?o p" using text_match_Some[OF Some] by (auto simp: occurrence_def)
    have pn: "p + length tok \<le> length c" "token_at c tok p" using p(2) by (auto simp: occurrence_def)
    have before: "\<not> ?o q" if "s \<le> q" "q < p" for q
      using word_match_next[OF assms(2,3) that(1), of c] Some that(2) by auto
    have within: "\<not> ?o q" if "p < q" "q < p + length tok" for q
    proof
      assume o: "?o q"
      have tk: "take (length tok) (drop p c) = tok" using pn(2) by (simp add: token_at_def starts_with_def)
      have "c ! (q - 1) = take (length tok) (drop p c) ! (q - 1 - p)" using that pn by simp
      then have "c ! (q - 1) \<in> set tok" unfolding tk using that by simp
      with assms(3) o that show False by (auto simp: occurrence_def accepts_def)
    qed
    have len: "0 < length tok" using assms(2) by simp
    have "[s..<length c] = [s..<p] @ p # [Suc p..<p + length tok] @ [p + length tok..<length c]"
      using upt_split[of s p "length c"] upt_split[of p "p + length tok" "length c"]
        upt_conv_Cons[of p "p + length tok"] p(1) pn(1) len by simp
    then have "filter ?o [s..<length c] = p # filter ?o [p + length tok..<length c]"
      using before within p(2) by (auto simp: filter_empty_conv)
    moreover have "occurrences Identifier c tok False (ic - 1) (p + length tok) = filter ?o [p + length tok..<length c]"
    proof (rule less.hyps)
      show "Suc (length c) - (p + length tok) < Suc (length c) - s" using p(1) pn(1) len by arith
    qed (use pn less.prems in auto)
    ultimately show ?thesis using Some nm less.prems assms(2)
      by (simp add: occurrences.simps[of Identifier c tok False ic s])
  qed
qed

text \<open>A String that \<^verbatim>\<open>NewString\<close> makes of a short text.\<close>

definition short_string :: "string \<Rightarrow> String" where
  "short_string t =
     \<lparr>str_file = None, str_line = 1, str_maxsize = INIT_MAXSIZE, str_len = int (length t), str_hashkey = -1,
      str_sp = int (length t), str_buf = t @ replicate (16 - length t) NUL\<rparr>"

lemma short_string_new:
  assumes "NUL \<notin> set t" "length t < 16"
  shows "DohNewString (Some (CStr t)) = Inr (short_string t)"
proof -
  have "memcpy_to (alloc 16) 0 (t @ [NUL]) = Inr (t @ NUL # drop (Suc (length t)) (replicate 16 NUL))"
    using assms(2) by (simp add: memcpy_to_def alloc_def)
  also have "NUL # drop (Suc (length t)) (replicate 16 NUL) = replicate (16 - length t) NUL"
    using assms(2) by (simp flip: replicate_Suc add: Suc_diff_Suc)
  finally show ?thesis using assms by (simp add: DohNewString_def until_nul_id short_string_def Let_def)
qed

lemma short_string_wf:
  assumes "length t < 16"
  shows "wf_string (short_string t)" "contents (short_string t) = t" "terminated (short_string t)"
  using assms by (auto simp: wf_string_def contents_def terminated_def short_string_def peek_def nth_append)

text \<open>\<^verbatim>\<open>Replaceid\<close> of a token of word characters.\<close>

lemma replaceid_words:
  assumes "replaceable s tok rep" "list_all word_char tok" "length rep = length tok \<Longrightarrow> word_char (last rep)"
  shows "\<exists>s'. String_replace s (CStr tok) (CStr rep) DOH_REPLACE_ID =
      Inr (length (filter (occurrence Identifier (contents s) tok) [0..<length (contents s)]), s') \<and>
    contents s' = splice_at (contents s) (length tok) rep
      (filter (occurrence Identifier (contents s) tok) [0..<length (contents s)]) 0"
proof -
  have m: "replace_mode DOH_REPLACE_ID = Identifier" "\<not> flag_set DOH_REPLACE_ID DOH_REPLACE_NOQUOTE" "replace_count DOH_REPLACE_ID < 0"
    by (simp_all add: replace_mode_def flag_set_def replace_count_def)
  have "occurrences Identifier (contents s) tok False (replace_count DOH_REPLACE_ID) 0 =
      filter (occurrence Identifier (contents s) tok) [0..<length (contents s)]"
    using word_occurrences[of "contents s" tok 0 "replace_count DOH_REPLACE_ID"] assms(1,2) m(3)
    by (simp add: replaceable_def list_all_iff)
  moreover have "word_char (last tok)" using assms(1,2) by (simp add: replaceable_def list_all_iff)
  ultimately show ?thesis using String_replace_text[OF assms(1) _ _ refl, of DOH_REPLACE_ID] assms(3) m
    by (auto simp del: splice_at.simps)
qed

section \<open>Properties\<close>



text \<open>C6: \<^verbatim>\<open>Replaceall\<close> computes the text of the left-to-right recursion.\<close>

theorem string_replaceall_reference:
  assumes "replaceable s tok rep"
  shows "\<exists>n s'. String_replace s (CStr tok) (CStr rep) DOH_REPLACE_ANY = Inr (n, s') \<and>
    contents s' = replaceall_text tok rep (contents s)"
proof -
  have m: "replace_mode DOH_REPLACE_ANY = Simple" "\<not> flag_set DOH_REPLACE_ANY DOH_REPLACE_NOQUOTE" "replace_count DOH_REPLACE_ANY < 0"
    by (simp_all add: replace_mode_def flag_set_def replace_count_def)
  have "replaceable s tok rep \<Longrightarrow> replaceall_text tok rep (contents s) = splice_at (contents s) (length tok) rep
       (occurrences Simple (contents s) tok False (replace_count DOH_REPLACE_ANY) 0) 0"
    using simple_occurrences[of "contents s" tok 0 "replace_count DOH_REPLACE_ANY" rep] m(3) by (simp add: replaceable_def)
  with String_replace_text[OF assms _ _ refl, of DOH_REPLACE_ANY] assms m show ?thesis by auto
qed

theorem string_replaceall_reference_witness:
  "\<exists>n s'. String_replace (short_string ''std::map'') (CStr ''::'') (CStr ''.'') DOH_REPLACE_ANY = Inr (n, s') \<and>
     contents s' = ''std.map''"
proof -
  have r: "replaceable (short_string ''std::map'') ''::'' ''.''"
    by (simp add: replaceable_def short_string_wf)
  show ?thesis using string_replaceall_reference[OF r] by (simp add: short_string_wf)
qed



text \<open>When the text shrinks and the position of the String is not at its end, the position is moved by the whole
  difference of the lengths as soon as it lies behind the new end, and can become negative: the next \<^verbatim>\<open>Getc\<close> reads
  before the block.\<close>

theorem string_replace_negative_position:
  "(case DohNewString (Some (CStr ''abcabc'')) of
      Inr s \<Rightarrow>
        (case String_replace (s\<lparr>str_sp := 3\<rparr>) (CStr ''abc'') (CStr []) DOH_REPLACE_ANY of
           Inr (n, s') \<Rightarrow> n = 2 \<and> str_sp s' = -3 \<and> String_getc s' = Inl OutOfBounds
         | Inl _ \<Rightarrow> False)
    | Inl _ \<Rightarrow> False)"
  by code_simp

end
