(* ===== verification/Doh_Memory.thy ===== *)
theory Doh_Memory
  imports Swig_Prelude "HOL-Library.Multiset"
begin

text \<open>
  The allocator and the reference counts of the DOH object layer (\<^verbatim>\<open>Source/DOH/memory.c\<close>, \<^verbatim>\<open>dohint.h\<close> and
  \<^verbatim>\<open>DohDelete\<close> of \<^verbatim>\<open>base.c\<close>). An object is addressed by its index: the slots of the first pool come first, then
  those of the second, and so on. The free list, which the code chains through the \<^verbatim>\<open>data\<close> field of the free
  objects, is a list of addresses. The count is kept at its 28 bits.

  The objects whose destruction is modelled are Strings, which own no other object; the containers \<open>Doh_List\<close>
  and \<open>Doh_Hash\<close> hold such objects. The predicate \<open>counted\<close> states that every count is the number of
  references that are held, and the locale \<open>ref_store\<close> is what the containers rely on.
\<close>

section \<open>State\<close>

type_synonym addr = nat

datatype DohObjInfo = DohStringType | DohListType | DohHashType | DohVoidType

record DohBase =
  obj_type :: "DohObjInfo option"
  obj_text :: string
  flag_intern :: bool
  refcount :: nat

record Pool =
  pool_base :: nat
  pool_len :: nat
  current :: nat

record DohMemory =
  objs :: "addr \<Rightarrow> DohBase"
  Pools :: "Pool list"
  FreeList :: "addr list"
  pools_initialized :: bool

abbreviation REFMOD :: nat where "REFMOD \<equiv> 2 ^ 28"

definition PoolSize :: nat where
  "PoolSize = 16384"

definition empty_base :: DohBase where
  \<comment> \<open>\<^verbatim>\<open>memset\<close> to zero\<close>
  "empty_base = \<lparr>obj_type = None, obj_text = [], flag_intern = False, refcount = 0\<rparr>"

definition start_memory :: DohMemory where
  "start_memory = \<lparr>objs = (\<lambda>_. empty_base), Pools = [], FreeList = [], pools_initialized = False\<rparr>"

section \<open>Operations\<close>

definition CreatePool :: "DohMemory \<Rightarrow> DohMemory" where
  "CreatePool m =
     (let b = length (Pools m) * PoolSize in
      m\<lparr>objs := (\<lambda>a. if b \<le> a \<and> a < b + PoolSize then empty_base else objs m a),
        Pools := \<lparr>pool_base = b, pool_len = PoolSize, current = 0\<rparr> # Pools m\<rparr>)"

definition DohCheck :: "DohMemory \<Rightarrow> addr \<Rightarrow> bool" where
  "DohCheck m a = list_ex (\<lambda>p. pool_base p \<le> a \<and> a < pool_base p + pool_len p) (Pools m)"

definition DohIntern :: "addr \<Rightarrow> DohMemory \<Rightarrow> DohMemory" where
  "DohIntern a m = m\<lparr>objs := (objs m)(a := objs m a\<lparr>flag_intern := True\<rparr>)\<rparr>"

definition new_base :: "DohObjInfo \<Rightarrow> string \<Rightarrow> DohBase" where
  "new_base ty txt = \<lparr>obj_type = Some ty, obj_text = txt, flag_intern = False, refcount = 1\<rparr>"

definition pool_alloc :: "DohObjInfo \<Rightarrow> string \<Rightarrow> DohMemory \<Rightarrow> (addr \<times> DohMemory) res" where
  \<comment> \<open>\<^verbatim>\<open>DohObjMalloc\<close> after the initialization\<close>
  "pool_alloc ty txt m =
     (case FreeList m of
        a # r \<Rightarrow> Inr (a, m\<lparr>objs := (objs m)(a := new_base ty txt), FreeList := r\<rparr>)
      | [] \<Rightarrow>
          (case Pools m of
             [] \<Rightarrow> Inl NullDeref
           | p # _ \<Rightarrow>
               let m1 = (if current p = pool_len p then CreatePool m else m) in
               (case Pools m1 of
                  [] \<Rightarrow> Inl NullDeref
                | q # qs \<Rightarrow>
                    let a = pool_base q + current q in
                    Inr (a, m1\<lparr>objs := (objs m1)(a := new_base ty txt), Pools := q\<lparr>current := current q + 1\<rparr> # qs\<rparr>))))"

definition InitPools :: "DohMemory \<Rightarrow> DohMemory res" where
  "InitPools m =
     (if pools_initialized m then Inr m
      else map_sum id (\<lambda>(none, m1). DohIntern none m1) (pool_alloc DohVoidType [] ((CreatePool m)\<lparr>pools_initialized := True\<rparr>)))"

definition DohObjMalloc :: "DohObjInfo \<Rightarrow> string \<Rightarrow> DohMemory \<Rightarrow> (addr \<times> DohMemory) res" where
  "DohObjMalloc ty txt m = res_bind (if \<not> pools_initialized m then InitPools m else Inr m) (pool_alloc ty txt)"

definition DohObjFree :: "addr \<Rightarrow> DohMemory \<Rightarrow> DohMemory" where
  "DohObjFree a m =
     (if flag_intern (objs m a) then m
      else m\<lparr>objs := (objs m)(a := objs m a\<lparr>obj_type := None, refcount := 0\<rparr>), FreeList := a # FreeList m\<rparr>)"

text \<open>Changing the count of an object that was freed is an error of the model; the code writes into a slot that it does
  not own. \<^verbatim>\<open>DohDelete\<close> needs no such guard: the count of a freed object is zero, which its assertion refuses.\<close>

definition Incref :: "addr \<Rightarrow> DohMemory \<Rightarrow> DohMemory res" where
  "Incref a m =
     (if obj_type (objs m a) = None then Inl UseAfterFree
      else Inr (m\<lparr>objs := (objs m)(a := objs m a\<lparr>refcount := (refcount (objs m a) + 1) mod REFMOD\<rparr>)\<rparr>))"

definition Decref :: "addr \<Rightarrow> DohMemory \<Rightarrow> DohMemory res" where
  "Decref a m =
     (if obj_type (objs m a) = None then Inl UseAfterFree
      else Inr (m\<lparr>objs := (objs m)(a := objs m a\<lparr>refcount := (refcount (objs m a) + REFMOD - 1) mod REFMOD\<rparr>)\<rparr>))"

definition DohDelete :: "addr \<Rightarrow> DohMemory \<Rightarrow> DohMemory res" where
  "DohDelete a m =
     (if \<not> DohCheck m a then Inl AssertFailed
      else if flag_intern (objs m a) then Inr m
      else if refcount (objs m a) = 0 then Inl AssertFailed
      else let m1 = m\<lparr>objs := (objs m)(a := objs m a\<lparr>refcount := refcount (objs m a) - 1\<rparr>)\<rparr> in
           if refcount (objs m1 a) = 0 then Inr (DohObjFree a m1) else Inr m1)"

definition NewString :: "string \<Rightarrow> DohMemory \<Rightarrow> (addr \<times> DohMemory) res" where
  "NewString s m = DohObjMalloc DohStringType s m"

section \<open>Invariant of the allocator\<close>

definition live :: "DohMemory \<Rightarrow> addr \<Rightarrow> bool" where
  "live m a \<longleftrightarrow> obj_type (objs m a) \<noteq> None"

fun wf_pools :: "Pool list \<Rightarrow> bool" where
  "wf_pools [] = False"
| "wf_pools [p] \<longleftrightarrow> pool_base p = 0 \<and> pool_len p = PoolSize \<and> current p \<le> PoolSize"
| "wf_pools (p # q # ps) \<longleftrightarrow> pool_base p = length (q # ps) * PoolSize \<and> pool_len p = PoolSize \<and> current p \<le> PoolSize \<and>
     current q = PoolSize \<and> wf_pools (q # ps)"

definition handed :: "DohMemory \<Rightarrow> nat" where
  \<comment> \<open>the number of slots handed out so far\<close>
  "handed m = (case Pools m of [] \<Rightarrow> 0 | p # _ \<Rightarrow> pool_base p + current p)"

definition wf_memory :: "DohMemory \<Rightarrow> bool" where
  "wf_memory m \<longleftrightarrow> pools_initialized m \<and> wf_pools (Pools m) \<and> distinct (FreeList m) \<and>
     (\<forall>a. live m a \<longleftrightarrow> a < handed m \<and> a \<notin> set (FreeList m)) \<and> (\<forall>a \<in> set (FreeList m). a < handed m) \<and>
     (\<forall>a. \<not> live m a \<longrightarrow> refcount (objs m a) = 0 \<and> \<not> flag_intern (objs m a))"

lemma PoolSize_pos: "0 < PoolSize" by (simp add: PoolSize_def)

lemma wf_pools_head: "wf_pools (p # ps) \<Longrightarrow> pool_base p = length ps * PoolSize \<and> pool_len p = PoolSize \<and> current p \<le> PoolSize"
  by (cases ps) auto

lemma wf_pools_range: "wf_pools ps \<Longrightarrow> a < length ps * PoolSize \<Longrightarrow> list_ex (\<lambda>p. pool_base p \<le> a \<and> a < pool_base p + pool_len p) ps"
proof (induction ps rule: wf_pools.induct)
  case (3 p q ps)
  show ?case
  proof (cases "a < length (q # ps) * PoolSize")
    case True
    then show ?thesis using 3 by simp
  next
    case False
    then show ?thesis using 3 by (auto simp: algebra_simps)
  qed
qed simp_all

lemma live_check:
  assumes "wf_memory m" "live m a"
  shows "DohCheck m a"
proof -
  obtain p ps where p: "Pools m = p # ps" using assms by (cases "Pools m") (auto simp: wf_memory_def)
  then have "a < length (Pools m) * PoolSize"
    using assms wf_pools_head[of p ps] by (auto simp: wf_memory_def handed_def)
  then show ?thesis using assms wf_pools_range by (auto simp: DohCheck_def wf_memory_def)
qed

lemma CreatePool_wf:
  assumes "wf_memory m" "Pools m = p # ps" "current p = pool_len p"
  shows "wf_memory (CreatePool m) \<and> handed (CreatePool m) = handed m \<and> (\<forall>a. live m a \<longrightarrow> objs (CreatePool m) a = objs m a) \<and>
    (\<forall>a. live (CreatePool m) a = live m a) \<and> FreeList (CreatePool m) = FreeList m \<and>
    (\<exists>q. Pools (CreatePool m) = q # Pools m \<and> current q = 0)"
proof -
  have h: "pool_base p = length ps * PoolSize" "pool_len p = PoolSize" using assms wf_pools_head[of p ps] by (auto simp: wf_memory_def)
  then have H: "handed m = length (Pools m) * PoolSize" using assms by (simp add: handed_def)
  then have l: "live m a \<Longrightarrow> a < length (Pools m) * PoolSize" for a using assms(1) by (simp add: wf_memory_def)
  have o: "objs (CreatePool m) a = (if length (Pools m) * PoolSize \<le> a \<and> a < length (Pools m) * PoolSize + PoolSize then empty_base else objs m a)" for a
    by (simp add: CreatePool_def Let_def)
  have lv: "live (CreatePool m) a = live m a" for a using l[of a] by (cases "obj_type (objs m a)") (auto simp: live_def o empty_base_def)
  have "handed (CreatePool m) = handed m" unfolding H by (simp add: CreatePool_def Let_def handed_def)
  moreover have "wf_pools (Pools (CreatePool m))"
    using assms h by (simp add: CreatePool_def Let_def wf_memory_def)
  moreover have "FreeList (CreatePool m) = FreeList m" "pools_initialized (CreatePool m) = pools_initialized m"
    "\<exists>q. Pools (CreatePool m) = q # Pools m \<and> current q = 0" by (simp_all add: CreatePool_def Let_def)
  moreover have "\<not> live (CreatePool m) a \<Longrightarrow> refcount (objs (CreatePool m) a) = 0 \<and> \<not> flag_intern (objs (CreatePool m) a)" for a
    using assms(1) lv[of a] o[of a] by (simp add: wf_memory_def empty_base_def)
  moreover have "live m a \<Longrightarrow> objs (CreatePool m) a = objs m a" for a using l[of a] o[of a] by simp
  ultimately show ?thesis using assms(1) lv by (simp add: wf_memory_def)
qed

lemma pool_alloc_spec:
  assumes "wf_memory m"
  shows "\<exists>a m'. pool_alloc ty txt m = Inr (a, m') \<and> wf_memory m' \<and> \<not> live m a \<and> objs m' a = new_base ty txt \<and>
    (\<forall>b. b \<noteq> a \<longrightarrow> live m' b = live m b \<and> (live m b \<longrightarrow> objs m' b = objs m b))"
proof (cases "FreeList m")
  case (Cons a r)
  define m' where "m' = m\<lparr>objs := (objs m)(a := new_base ty txt), FreeList := r\<rparr>"
  have "handed m' = handed m" by (simp add: m'_def handed_def)
  then have "wf_memory m'" using assms Cons by (auto simp: wf_memory_def live_def m'_def new_base_def)
  moreover have "\<not> live m a" using assms Cons by (auto simp: wf_memory_def)
  ultimately show ?thesis using Cons by (auto simp: pool_alloc_def m'_def live_def)
next
  case Nil
  obtain p ps where p: "Pools m = p # ps" using assms by (cases "Pools m") (auto simp: wf_memory_def)
  define m1 where "m1 = (if current p = pool_len p then CreatePool m else m)"
  have m1: "wf_memory m1" "handed m1 = handed m" "\<And>a. live m a \<Longrightarrow> objs m1 a = objs m a" "\<And>a. live m1 a = live m a" "FreeList m1 = []"
    using CreatePool_wf[OF assms p] assms Nil by (auto simp: m1_def)
  have "\<exists>q qs. Pools m1 = q # qs \<and> current q < PoolSize"
    using CreatePool_wf[OF assms p] wf_pools_head[of p ps] assms p PoolSize_pos by (auto simp: m1_def wf_memory_def)
  then obtain q qs where q: "Pools m1 = q # qs" "current q < PoolSize" by blast
  define a where "a = pool_base q + current q"
  define m' where "m' = m1\<lparr>objs := (objs m1)(a := new_base ty txt), Pools := q\<lparr>current := current q + 1\<rparr> # qs\<rparr>"
  have a: "a = handed m1" by (simp add: a_def handed_def q)
  have "wf_pools (Pools m')" using m1(1) q by (cases qs) (auto simp: wf_memory_def m'_def)
  moreover have "handed m' = handed m1 + 1" by (simp add: m'_def handed_def q)
  moreover have "live m' b = (if b = a then True else live m1 b)" for b by (simp add: live_def m'_def new_base_def)
  ultimately have "wf_memory m'" using m1(1,5) a
    by (auto simp: wf_memory_def m'_def new_base_def split: if_splits)
  moreover have "\<not> live m a" using m1(1,4) a by (auto simp: wf_memory_def)
  moreover have "pool_alloc ty txt m = Inr (a, m')" using Nil p q by (simp add: pool_alloc_def m1_def[symmetric] Let_def a_def m'_def)
  ultimately show ?thesis using m1(3,4) by (intro exI[of _ a] exI[of _ m']) (auto simp: m'_def live_def)
qed

lemma DohObjMalloc_spec:
  assumes "wf_memory m"
  shows "\<exists>a m'. DohObjMalloc ty txt m = Inr (a, m') \<and> wf_memory m' \<and> \<not> live m a \<and> objs m' a = new_base ty txt \<and>
    (\<forall>b. b \<noteq> a \<longrightarrow> live m' b = live m b \<and> (live m b \<longrightarrow> objs m' b = objs m b))"
  using pool_alloc_spec[OF assms] assms by (simp add: DohObjMalloc_def wf_memory_def)

lemma wf_memory_update:
  assumes "wf_memory m" "live m a" "obj_type b = obj_type (objs m a)"
  shows "wf_memory (m\<lparr>objs := (objs m)(a := b)\<rparr>)"
proof -
  let ?m = "m\<lparr>objs := (objs m)(a := b)\<rparr>"
  have "handed ?m = handed m" by (simp add: handed_def)
  moreover have "live ?m c = live m c" for c using assms(3) by (simp add: live_def)
  moreover have "\<not> live m c \<Longrightarrow> objs ?m c = objs m c" for c using assms(2) by auto
  ultimately show ?thesis using assms(1) by (simp add: wf_memory_def)
qed

lemma DohObjFree_wf:
  assumes "wf_memory m" "live m a" "\<not> flag_intern (objs m a)"
  shows "wf_memory (DohObjFree a m)" "\<not> live (DohObjFree a m) a" "\<And>b. b \<noteq> a \<Longrightarrow> objs (DohObjFree a m) b = objs m b"
proof -
  have "handed (DohObjFree a m) = handed m" by (simp add: DohObjFree_def handed_def)
  then show "wf_memory (DohObjFree a m)" using assms by (auto simp: wf_memory_def live_def DohObjFree_def)
qed (simp_all add: DohObjFree_def live_def assms(3))

section \<open>Balanced counts\<close>

text \<open>\<open>W\<close> are the references that are held, \<open>Z\<close> new objects that are not held yet (between \<^verbatim>\<open>Decref\<close> and \<^verbatim>\<open>Incref\<close>).
  Interned objects are never freed and not counted.\<close>

definition interned :: "DohMemory \<Rightarrow> addr \<Rightarrow> bool" where
  "interned m a \<longleftrightarrow> flag_intern (objs m a)"

definition bal_at :: "addr set \<Rightarrow> DohMemory \<Rightarrow> addr multiset \<Rightarrow> addr \<Rightarrow> bool" where
  "bal_at Z m W a \<longleftrightarrow> (if interned m a then live m a
     else refcount (objs m a) = count W a \<and> (live m a \<longleftrightarrow> 0 < refcount (objs m a) \<or> a \<in> Z))"

definition counted :: "addr set \<Rightarrow> DohMemory \<Rightarrow> addr multiset \<Rightarrow> bool" where
  "counted Z m W \<longleftrightarrow> wf_memory m \<and> (\<forall>a. bal_at Z m W a)"

text \<open>Steps that create no object, steps that free none, and what both keep of the texts.\<close>

definition same_obj :: "DohMemory \<Rightarrow> DohMemory \<Rightarrow> addr \<Rightarrow> bool" where
  "same_obj m m' a \<longleftrightarrow> obj_text (objs m' a) = obj_text (objs m a) \<and> obj_type (objs m' a) = obj_type (objs m a) \<and> (interned m' a \<longleftrightarrow> interned m a)"

definition frees :: "DohMemory \<Rightarrow> DohMemory \<Rightarrow> bool" where
  "frees m m' \<longleftrightarrow> (\<forall>a. live m' a \<longrightarrow> live m a \<and> same_obj m m' a) \<and> (\<forall>a. interned m' a \<longleftrightarrow> interned m a)"

definition creates :: "DohMemory \<Rightarrow> DohMemory \<Rightarrow> bool" where
  "creates m m' \<longleftrightarrow> (\<forall>a. live m a \<longrightarrow> live m' a \<and> same_obj m m' a)"

definition keeps :: "DohMemory \<Rightarrow> DohMemory \<Rightarrow> bool" where
  "keeps m m' \<longleftrightarrow> (\<forall>a. live m a \<and> live m' a \<longrightarrow> same_obj m m' a)"

lemma frees_trans: "frees m1 m2 \<Longrightarrow> frees m2 m3 \<Longrightarrow> frees m1 m3"
  by (auto simp: frees_def same_obj_def)

lemma frees_at:
  assumes "\<And>b. b \<noteq> a \<Longrightarrow> objs m' b = objs m b" "live m a" "interned m' a \<longleftrightarrow> interned m a" "live m' a \<Longrightarrow> same_obj m m' a"
  shows "frees m m'"
proof -
  have "live m' b = live m b" "interned m' b = interned m b" "same_obj m m' b" if "b \<noteq> a" for b
    using assms(1)[OF that] by (simp_all add: live_def interned_def same_obj_def)
  then show ?thesis using assms(2-4) unfolding frees_def by metis
qed

lemma frees_refl [simp]: "frees m m"
  by (simp add: frees_def same_obj_def)

lemma creates_refl [simp]: "creates m m"
  by (simp add: creates_def same_obj_def)

lemma creates_trans: "creates m1 m2 \<Longrightarrow> creates m2 m3 \<Longrightarrow> creates m1 m3"
  by (auto simp: creates_def same_obj_def)

lemma frees_keeps: "frees m m' \<Longrightarrow> keeps m m'"
  by (auto simp: frees_def keeps_def same_obj_def)

lemma creates_frees: "creates m1 m2 \<Longrightarrow> frees m2 m3 \<Longrightarrow> keeps m1 m3"
  by (auto simp: creates_def frees_def keeps_def same_obj_def)

lemma balancedD: "counted Z m W \<Longrightarrow> wf_memory m" "counted Z m W \<Longrightarrow> bal_at Z m W a"
  by (simp_all add: counted_def)

lemma live_of: "counted Z m W \<Longrightarrow> a \<in># W \<or> a \<in> Z \<Longrightarrow> live m a"
  using balancedD(2)[of Z m W a] by (auto simp: bal_at_def split: if_splits)

text \<open>A step that changes one object: the others need no argument.\<close>

lemma balanced_step:
  assumes "counted Z m W" "wf_memory m'" "\<And>b. b \<noteq> a \<Longrightarrow> live m' b = live m b \<and> interned m' b = interned m b \<and> refcount (objs m' b) = refcount (objs m b)"
    and "\<And>b. b \<noteq> a \<Longrightarrow> count W' b = count W b" "\<And>b. b \<noteq> a \<Longrightarrow> b \<in> Z' \<longleftrightarrow> b \<in> Z" "bal_at Z' m' W' a"
  shows "counted Z' m' W'"
  unfolding counted_def
proof (intro conjI allI)
  fix b
  show "bal_at Z' m' W' b"
    using balancedD(2)[OF assms(1), of b] assms(3-5)[of b] assms(6) by (cases "b = a") (simp_all add: bal_at_def)
qed (rule assms(2))

lemma Incref_balanced:
  assumes "counted Z m W" "a \<in># W \<or> a \<in> Z" "count W a + 1 < REFMOD"
  shows "\<exists>m'. Incref a m = Inr m' \<and> counted (Z - {a}) m' (add_mset a W) \<and> frees m m'"
proof -
  have l: "live m a" using live_of[OF assms(1,2)] .
  define m' where "m' = m\<lparr>objs := (objs m)(a := objs m a\<lparr>refcount := (refcount (objs m a) + 1) mod REFMOD\<rparr>)\<rparr>"
  have w: "wf_memory m'" unfolding m'_def using balancedD(1)[OF assms(1)] l by (intro wf_memory_update) simp_all
  have lv: "live m' b = live m b" "interned m' b = interned m b" for b by (simp_all add: live_def interned_def m'_def)
  have "bal_at (Z - {a}) m' (add_mset a W) a"
    using balancedD(2)[OF assms(1), of a] assms(3) l lv[of a] by (simp add: bal_at_def m'_def split: if_splits)
  then have "counted (Z - {a}) m' (add_mset a W)"
    using lv by (intro balanced_step[OF assms(1) w, of a]) (simp_all add: m'_def)
  moreover have "frees m m'" by (rule frees_at[of a]) (use l in \<open>simp_all add: m'_def interned_def same_obj_def\<close>)
  moreover have "Incref a m = Inr m'" using l by (simp add: Incref_def m'_def live_def)
  ultimately show ?thesis by blast
qed

lemma balanced_interned:
  assumes "interned m a"
  shows "counted Z m (add_mset a W) \<longleftrightarrow> counted Z m W"
  using assms by (auto simp: counted_def bal_at_def)

lemma balanced_live: "counted Z m W \<Longrightarrow> live m a \<Longrightarrow> interned m a \<or> a \<in># W \<or> a \<in> Z"
  using balancedD(2)[of Z m W a] by (auto simp: bal_at_def)

lemma interned_live: "counted Z m W \<Longrightarrow> interned m a \<Longrightarrow> live m a"
  using balancedD(2)[of Z m W a] by (simp add: bal_at_def)

lemma Incref_live:
  assumes "counted Z m W" "live m a" "interned m a \<or> count W a + 1 < REFMOD"
  shows "\<exists>m'. Incref a m = Inr m' \<and> counted (Z - {a}) m' (add_mset a W) \<and> frees m m'"
proof (cases "interned m a")
  case False
  then show ?thesis using assms balanced_live[OF assms(1,2)] by (intro Incref_balanced) auto
next
  case True
  define m' where "m' = m\<lparr>objs := (objs m)(a := objs m a\<lparr>refcount := (refcount (objs m a) + 1) mod REFMOD\<rparr>)\<rparr>"
  have w: "wf_memory m'" unfolding m'_def using balancedD(1)[OF assms(1)] assms(2) by (intro wf_memory_update) simp_all
  have lv: "live m' b = live m b" "interned m' b = interned m b" for b by (simp_all add: live_def interned_def m'_def)
  have "bal_at (Z - {a}) m' (add_mset a W) a" using True assms(2) lv[of a] by (simp add: bal_at_def)
  then have "counted (Z - {a}) m' (add_mset a W)"
    using lv by (intro balanced_step[OF assms(1) w, of a]) (simp_all add: m'_def)
  moreover have "frees m m'" by (rule frees_at[of a]) (use assms(2) in \<open>simp_all add: m'_def interned_def same_obj_def\<close>)
  moreover have "Incref a m = Inr m'" using assms(2) by (simp add: Incref_def m'_def live_def)
  ultimately show ?thesis by blast
qed

lemma DohDelete_balanced:
  assumes "counted Z m W" "a \<in># W" "a \<notin> Z"
  shows "\<exists>m'. DohDelete a m = Inr m' \<and> counted Z m' (W - {#a#}) \<and> frees m m'"
proof -
  have l: "live m a" using live_of[OF assms(1)] assms(2) by blast
  have check: "DohCheck m a" using live_check[OF balancedD(1)[OF assms(1)] l] .
  show ?thesis
  proof (cases "interned m a")
    case True
    have "bal_at Z m (W - {#a#}) a" using True l by (simp add: bal_at_def)
    then have "counted Z m (W - {#a#})" by (intro balanced_step[OF assms(1) balancedD(1)[OF assms(1)], of a]) simp_all
    moreover have "DohDelete a m = Inr m" using True l check by (simp add: DohDelete_def interned_def live_def)
    ultimately show ?thesis by auto
  next
    case False
    have rc: "refcount (objs m a) = count W a" "0 < refcount (objs m a)"
      using balancedD(2)[OF assms(1), of a] False assms(2) by (simp_all add: bal_at_def)
    define m1 where "m1 = m\<lparr>objs := (objs m)(a := objs m a\<lparr>refcount := refcount (objs m a) - 1\<rparr>)\<rparr>"
    have w: "wf_memory m1" unfolding m1_def using balancedD(1)[OF assms(1)] l by (intro wf_memory_update) simp_all
    have l1: "live m1 b = live m b" "interned m1 b = interned m b" for b by (simp_all add: live_def interned_def m1_def)
    define m' where "m' = (if refcount (objs m1 a) = 0 then DohObjFree a m1 else m1)"
    have d: "DohDelete a m = Inr m'"
      using l False rc(2) check by (simp add: DohDelete_def m1_def m'_def Let_def interned_def live_def)
    have f: "\<not> flag_intern (objs m1 a)" using False l1 by (simp add: interned_def)
    have "live m1 a" using l l1 by simp
    note free = DohObjFree_wf[OF w this f]
    have w': "wf_memory m'" using free w by (simp add: m'_def)
    have "b \<noteq> a \<Longrightarrow> objs m1 b = objs m b" for b by (simp add: m1_def)
    then have other: "b \<noteq> a \<Longrightarrow> objs m' b = objs m b" for b using free(3)[of b] by (simp add: m'_def)
    have at: "refcount (objs m' a) = count W a - 1" "interned m' a = interned m a" "live m' a \<longleftrightarrow> 0 < refcount (objs m' a)"
      using rc l False free(2) by (auto simp: m'_def m1_def interned_def live_def DohObjFree_def)
    have "bal_at Z m' (W - {#a#}) a" using at False assms(3) by (simp add: bal_at_def)
    then have "counted Z m' (W - {#a#})" using other
      by (intro balanced_step[OF assms(1) w', of a]) (simp_all add: live_def interned_def)
    moreover have "live m' a \<Longrightarrow> same_obj m m' a" using free(2) at(2) by (auto simp: m'_def m1_def same_obj_def)
    then have "frees m m'" using frees_at[OF other l at(2)] by blast
    ultimately show ?thesis using d by blast
  qed
qed

lemma NewString_balanced:
  assumes "counted Z m W"
  shows "\<exists>a m'. NewString s m = Inr (a, m') \<and> \<not> live m a \<and> counted Z m' (add_mset a W) \<and> creates m m' \<and> obj_text (objs m' a) = s \<and>
    obj_type (objs m' a) = Some DohStringType \<and> \<not> interned m' a"
proof -
  obtain a m' where a: "DohObjMalloc DohStringType s m = Inr (a, m')" "wf_memory m'" "\<not> live m a" "objs m' a = new_base DohStringType s"
    "\<And>b. b \<noteq> a \<Longrightarrow> live m' b = live m b \<and> (live m b \<longrightarrow> objs m' b = objs m b)"
    using DohObjMalloc_spec[of m DohStringType s] balancedD(1)[OF assms] by auto
  have na: "a \<notin># W" "a \<notin> Z" using a(3) live_of[OF assms] by auto
  have dead: "\<not> live m b \<Longrightarrow> refcount (objs m b) = 0 \<and> \<not> interned m b" for b
    using balancedD(1)[OF assms] by (simp add: wf_memory_def interned_def)
  have dead': "\<not> live m' b \<Longrightarrow> refcount (objs m' b) = 0 \<and> \<not> interned m' b" for b using a(2) by (simp add: wf_memory_def interned_def)
  have other: "live m' b = live m b \<and> interned m' b = interned m b \<and> refcount (objs m' b) = refcount (objs m b)" if "b \<noteq> a" for b
    using a(5)[OF that] dead[of b] dead'[of b] by (cases "live m b") (auto simp: interned_def)
  have la: "live m' a" "\<not> interned m' a" using a(4) by (simp_all add: live_def interned_def new_base_def)
  have "bal_at Z m' (add_mset a W) a" using la na a(4) by (simp add: bal_at_def new_base_def not_in_iff)
  then have bal: "counted Z m' (add_mset a W)" using other by (intro balanced_step[OF assms a(2), of a]) simp_all
  have "live m b \<Longrightarrow> live m' b \<and> same_obj m m' b" for b using a(3) a(5)[of b] by (cases "b = a") (simp_all add: same_obj_def interned_def)
  then have "creates m m'" by (simp add: creates_def)
  then show ?thesis using bal a(1,3,4) la by (auto simp: NewString_def new_base_def)
qed

lemma Decref_new_balanced:
  assumes "counted Z m (add_mset a W)" "a \<notin># W" "\<not> interned m a"
  shows "\<exists>m'. Decref a m = Inr m' \<and> counted (insert a Z) m' W \<and> frees m m' \<and> creates m m'"
proof -
  have l: "live m a" using live_of[OF assms(1)] by simp
  define m' where "m' = m\<lparr>objs := (objs m)(a := objs m a\<lparr>refcount := (refcount (objs m a) + REFMOD - 1) mod REFMOD\<rparr>)\<rparr>"
  have "refcount (objs m a) = 1" using balancedD(2)[OF assms(1), of a] assms(2,3) by (simp add: bal_at_def not_in_iff)
  then have z: "refcount (objs m' a) = 0" by (simp add: m'_def)
  have w: "wf_memory m'" unfolding m'_def using balancedD(1)[OF assms(1)] l by (intro wf_memory_update) simp_all
  have lv: "live m' b = live m b" "interned m' b = interned m b" for b by (simp_all add: live_def interned_def m'_def)
  have "bal_at (insert a Z) m' W a" using assms(2,3) l lv[of a] z by (simp add: bal_at_def not_in_iff)
  then have "counted (insert a Z) m' W" using lv by (intro balanced_step[OF assms(1) w, of a]) (simp_all add: m'_def)
  moreover have "frees m m'" by (rule frees_at[of a]) (use l in \<open>simp_all add: m'_def interned_def same_obj_def\<close>)
  moreover have "creates m m'" using lv by (simp add: creates_def same_obj_def m'_def)
  moreover have "Decref a m = Inr m'" using l by (simp add: Decref_def m'_def live_def)
  ultimately show ?thesis by blast
qed

section \<open>The store as an interface\<close>

fun each :: "('a \<Rightarrow> 'm \<Rightarrow> 'm res) \<Rightarrow> 'a list \<Rightarrow> 'm \<Rightarrow> 'm res" where
  \<comment> \<open>a loop over an array that applies an operation to each element\<close>
  "each f [] m = Inr m"
| "each f (a # as) m = res_bind (f a m) (each f as)"

locale ref_store =
  fixes bal :: "'m \<Rightarrow> addr multiset \<Rightarrow> bool" and step :: "'m \<Rightarrow> 'm \<Rightarrow> bool" and incr del :: "addr \<Rightarrow> 'm \<Rightarrow> 'm res"
  assumes step_refl: "step m m" and step_trans: "step m1 m2 \<Longrightarrow> step m2 m3 \<Longrightarrow> step m1 m3"
    and incr_law: "bal m W \<Longrightarrow> a \<in># W \<Longrightarrow> count W a + 1 < REFMOD \<Longrightarrow> \<exists>m'. incr a m = Inr m' \<and> bal m' (add_mset a W) \<and> step m m'"
    and del_law: "bal m W \<Longrightarrow> a \<in># W \<Longrightarrow> \<exists>m'. del a m = Inr m' \<and> bal m' (W - {#a#}) \<and> step m m'"
begin

lemma each_incr:
  "bal m W \<Longrightarrow> set as \<subseteq> set_mset W \<Longrightarrow> (\<forall>a \<in> set as. count (W + mset as) a < REFMOD) \<Longrightarrow>
   \<exists>m'. each incr as m = Inr m' \<and> bal m' (W + mset as) \<and> step m m'"
proof (induction as arbitrary: m W)
  case (Cons a as)
  have "count W a + 1 < REFMOD" using Cons.prems(3) by auto
  then obtain m1 where m1: "incr a m = Inr m1" "bal m1 (add_mset a W)" "step m m1"
    using incr_law[OF Cons.prems(1), of a] Cons.prems(2) by auto
  have "\<exists>m'. each incr as m1 = Inr m' \<and> bal m' (add_mset a W + mset as) \<and> step m1 m'"
    using Cons.prems(2,3) by (intro Cons.IH[OF m1(2)]) auto
  then show ?case using m1 step_trans by auto
qed (simp add: step_refl)

lemma each_del: "bal m W \<Longrightarrow> mset as \<subseteq># W \<Longrightarrow> \<exists>m'. each del as m = Inr m' \<and> bal m' (W - mset as) \<and> step m m'"
proof (induction as arbitrary: m W)
  case (Cons a as)
  have a: "a \<in># W" "mset as \<subseteq># W - {#a#}" using Cons.prems(2) by (simp_all add: insert_subset_eq_iff)
  then obtain m1 where m1: "del a m = Inr m1" "bal m1 (W - {#a#})" "step m m1" using del_law[OF Cons.prems(1)] by blast
  then obtain m2 where "each del as m1 = Inr m2" "bal m2 (W - {#a#} - mset as)" "step m1 m2" using Cons.IH a(2) by blast
  then show ?case using m1 step_trans by (auto simp: diff_diff_add)
qed (simp add: step_refl)

end

interpretation store: ref_store "counted {}" frees Incref DohDelete
proof
  show "\<exists>m'. Incref a m = Inr m' \<and> counted {} m' (add_mset a W) \<and> frees m m'"
    if "counted {} m W" "a \<in># W" "count W a + 1 < REFMOD" for m W a
    using Incref_balanced[OF that(1), of a] that(2,3) by simp
qed (auto intro: frees_trans DohDelete_balanced)

section \<open>Start-up\<close>

lemma CreatePool_start: "CreatePool start_memory = \<lparr>objs = (\<lambda>_. empty_base), Pools = [\<lparr>pool_base = 0, pool_len = PoolSize, current = 0\<rparr>],
    FreeList = [], pools_initialized = False\<rparr>"
  by (auto simp: CreatePool_def start_memory_def Let_def)

definition none_memory :: DohMemory where
  \<comment> \<open>one pool with the object \<open>DohNone\<close>\<close>
  "none_memory = \<lparr>objs = (\<lambda>_. empty_base)(0 := new_base DohVoidType []\<lparr>flag_intern := True\<rparr>),
     Pools = [\<lparr>pool_base = 0, pool_len = PoolSize, current = 1\<rparr>], FreeList = [], pools_initialized = True\<rparr>"

lemma InitPools_start: "InitPools start_memory = Inr none_memory"
proof -
  have "pools_initialized start_memory = False" by (simp add: start_memory_def)
  then show ?thesis using PoolSize_pos unfolding InitPools_def CreatePool_start
    by (simp add: pool_alloc_def DohIntern_def none_memory_def Let_def)
qed

lemma none_memory_balanced: "counted {} none_memory {#}" using PoolSize_pos
  by (auto simp: counted_def bal_at_def wf_memory_def live_def interned_def handed_def none_memory_def empty_base_def new_base_def)

lemma DohIntern_balanced:
  assumes "counted {} m W" "a \<in># W"
  shows "counted {} (DohIntern a m) W"
proof -
  have l: "live m a" using live_of[OF assms(1)] assms(2) by blast
  have w: "wf_memory (DohIntern a m)" unfolding DohIntern_def using balancedD(1)[OF assms(1)] l by (intro wf_memory_update) simp_all
  have "bal_at {} (DohIntern a m) W a" using l by (simp add: bal_at_def live_def interned_def DohIntern_def)
  then show ?thesis by (intro balanced_step[OF assms(1) w, of a]) (simp_all add: live_def interned_def DohIntern_def)
qed

section \<open>Programs over the store\<close>

text \<open>The states a client reaches with the multiset of references it holds.\<close>

inductive held :: "DohMemory \<Rightarrow> addr multiset \<Rightarrow> bool" where
  held_start: "InitPools start_memory = Inr m \<Longrightarrow> held m {#}"
| held_new: "held m W \<Longrightarrow> NewString s m = Inr (a, m') \<Longrightarrow> held m' (add_mset a W)"
| held_intern: "held m W \<Longrightarrow> a \<in># W \<Longrightarrow> held (DohIntern a m) W"
| held_incref: "held m W \<Longrightarrow> a \<in># W \<Longrightarrow> count W a + 1 < REFMOD \<Longrightarrow> Incref a m = Inr m' \<Longrightarrow> held m' (add_mset a W)"
| held_delete: "held m W \<Longrightarrow> a \<in># W \<Longrightarrow> DohDelete a m = Inr m' \<Longrightarrow> held m' (W - {#a#})"

lemma held_balanced: "held m W \<Longrightarrow> counted {} m W"
proof (induction rule: held.induct)
  case (held_start m)
  then show ?case using InitPools_start none_memory_balanced by simp
next
  case (held_new m W s a m')
  then show ?case using NewString_balanced[of "{}" m W s] by auto
next
  case (held_incref m W a m')
  then show ?case using Incref_balanced[of "{}" m W a] by auto
next
  case (held_delete m W a m')
  then show ?case using DohDelete_balanced[of "{}" m W a] by auto
qed (rule DohIntern_balanced)

text \<open>C8: Programs that only use and give back references they hold never lose an object and never use a freed one: in every
  state such a program reaches, an object that was not interned exists exactly as long as a reference is held, its count is
  the number of references, giving back a reference succeeds, and a new string is an object that did not exist. The counts
  stay below the 28 bits of the field.\<close>

theorem store_no_leak:
  assumes "held m W"
  shows "wf_memory m \<and>
    (\<forall>a. \<not> flag_intern (objs m a) \<longrightarrow> (live m a \<longleftrightarrow> a \<in># W) \<and> refcount (objs m a) = count W a) \<and>
    (\<forall>a. a \<in># W \<longrightarrow> (\<exists>m'. DohDelete a m = Inr m' \<and> held m' (W - {#a#}))) \<and>
    (\<exists>b m'. NewString s m = Inr (b, m') \<and> \<not> live m b \<and> obj_text (objs m' b) = s \<and> held m' (add_mset b W))"
proof (intro conjI allI impI)
  note b = held_balanced[OF assms]
  show "wf_memory m" using balancedD(1)[OF b] .
  show "live m a \<longleftrightarrow> a \<in># W" "refcount (objs m a) = count W a" if "\<not> flag_intern (objs m a)" for a
    using balancedD(2)[OF b, of a] that by (auto simp: bal_at_def interned_def)
  show "\<exists>m'. DohDelete a m = Inr m' \<and> held m' (W - {#a#})" if "a \<in># W" for a
    using DohDelete_balanced[OF b that] held_delete[OF assms that] by auto
  show "\<exists>b m'. NewString s m = Inr (b, m') \<and> \<not> live m b \<and> obj_text (objs m' b) = s \<and> held m' (add_mset b W)"
    using NewString_balanced[OF b, of s] held_new[OF assms] by metis
qed

theorem store_no_leak_witness:
  "held none_memory {#} \<and> wf_memory none_memory \<and> \<not> live none_memory 1 \<and>
   (\<exists>b m'. NewString ''name'' none_memory = Inr (b, m') \<and> \<not> live none_memory b \<and> obj_text (objs m' b) = ''name'' \<and> held m' {#b#})"
proof -
  have h: "held none_memory {#}" by (rule held_start[OF InitPools_start])
  have "\<not> flag_intern (objs none_memory 1)" by (simp add: none_memory_def empty_base_def)
  then show ?thesis using store_no_leak[OF h, of "''name''"] h by auto
qed

text \<open>What the bound on the counts is for: one reference more than the field can hold leaves an object that is in use
  with the count zero, and giving back any of its references fails.\<close>

lemma Incref_wraps:
  assumes "wf_memory m" "live m a" "\<not> flag_intern (objs m a)" "refcount (objs m a) = REFMOD - 1"
  shows "\<exists>m'. Incref a m = Inr m' \<and> live m' a \<and> refcount (objs m' a) = 0 \<and> DohDelete a m' = Inl AssertFailed"
proof -
  obtain m' where m': "Incref a m = Inr m'" "m' = m\<lparr>objs := (objs m)(a := objs m a\<lparr>refcount := 0\<rparr>)\<rparr>"
    using assms(2,4) by (simp add: Incref_def live_def)
  then show ?thesis using assms by (auto simp: live_def DohDelete_def)
qed

end
