(* ===== verification/Doh_List.thy ===== *)
theory Doh_List
  imports Doh_Memory Doh_String
begin

text \<open>
  The List object (\<^verbatim>\<open>Source/DOH/list.c\<close>): an array of object references with a fill count that doubles when it is
  full. The state is the array, with \<open>None\<close> for a null or unset entry, and the store of \<open>Doh_Memory\<close>, since every
  operation takes and gives back references. Reading or writing outside the array is an error. The list is
  compared with HOL lists of addresses, and every operation is proved to keep the counts balanced.
\<close>

section \<open>State and operations\<close>

record List =
  maxitems :: nat
  nitems :: nat
  items :: "addr option list"
  list_file :: "addr option"
  list_line :: int

text \<open>The parameters of the operations are objects or C strings (\<^verbatim>\<open>DOHObj_or_char\<close>).\<close>

datatype DOHObj_or_char = Null | Obj addr | Chars string

definition MAXLISTITEMS :: nat where "MAXLISTITEMS = 8"

definition new_held :: "string \<Rightarrow> DohMemory \<Rightarrow> (addr \<times> DohMemory) res" where
  \<comment> \<open>\<^verbatim>\<open>item = NewString(item); Decref(item);\<close>\<close>
  "new_held s m = res_bind (NewString s m) (\<lambda>(a, m1). res_bind (Decref a m1) (\<lambda>m2. Inr (a, m2)))"

definition to_object :: "DOHObj_or_char \<Rightarrow> DohMemory \<Rightarrow> (addr \<times> DohMemory) res" where
  \<comment> \<open>\<^verbatim>\<open>if (!DohCheck(item)) ...\<close>; a pointer to an object outside the pools would be read as a text\<close>
  "to_object x m = (case x of Null \<Rightarrow> new_held [] m | Chars s \<Rightarrow> new_held s m
     | Obj a \<Rightarrow> if DohCheck m a then Inr (a, m) else Inl Undefined)"

definition opt_ref :: "(addr \<Rightarrow> DohMemory \<Rightarrow> DohMemory res) \<Rightarrow> addr option \<Rightarrow> DohMemory \<Rightarrow> DohMemory res" where
  \<comment> \<open>\<^verbatim>\<open>Incref\<close>, \<^verbatim>\<open>Decref\<close> and \<^verbatim>\<open>DohDelete\<close> do nothing for a null pointer\<close>
  "opt_ref f r m = (case r of None \<Rightarrow> Inr m | Some a \<Rightarrow> f a m)"

definition arr_get :: "'a list \<Rightarrow> nat \<Rightarrow> 'a res" where
  "arr_get xs i = (if i < length xs then Inr (xs ! i) else Inl OutOfBounds)"

definition arr_set :: "'a list \<Rightarrow> nat \<Rightarrow> 'a \<Rightarrow> 'a list res" where
  "arr_set xs i v = (if i < length xs then Inr (xs[i := v]) else Inl OutOfBounds)"

definition list_more :: "List \<Rightarrow> List" where
  "list_more l = l\<lparr>items := items l @ replicate (maxitems l) None, maxitems := maxitems l * 2\<rparr>"

definition DohNewList :: List where
  "DohNewList = \<lparr>maxitems = MAXLISTITEMS, nitems = 0, items = replicate MAXLISTITEMS None, list_file = None, list_line = 0\<rparr>"

fun copy_items :: "nat \<Rightarrow> nat \<Rightarrow> addr option list \<Rightarrow> addr option list \<Rightarrow> DohMemory \<Rightarrow> (addr option list \<times> DohMemory) res" where
  \<comment> \<open>the loop of \<^verbatim>\<open>CopyList\<close>: \<open>k\<close> items to go from index \<open>i\<close>\<close>
  "copy_items 0 i src dst m = Inr (dst, m)"
| "copy_items (Suc k) i src dst m =
     res_bind (arr_get src i) (\<lambda>v. res_bind (arr_set dst i v) (\<lambda>dst1. res_bind (opt_ref Incref v m) (copy_items k (i + 1) src dst1)))"

definition CopyList :: "List \<Rightarrow> DohMemory \<Rightarrow> (List \<times> DohMemory) res" where
  "CopyList l m =
     res_bind (copy_items (nitems l) 0 (items l) (replicate (maxitems l) None) m) (\<lambda>(its, m1).
     res_bind (opt_ref Incref (list_file l) m1) (\<lambda>m2.
     Inr (\<lparr>maxitems = maxitems l, nitems = nitems l, items = its, list_file = list_file l, list_line = list_line l\<rparr>, m2)))"

fun delete_items :: "nat \<Rightarrow> nat \<Rightarrow> addr option list \<Rightarrow> DohMemory \<Rightarrow> DohMemory res" where
  "delete_items 0 i its m = Inr m"
| "delete_items (Suc k) i its m = res_bind (arr_get its i) (\<lambda>v. res_bind (opt_ref DohDelete v m) (delete_items k (i + 1) its))"

definition DelList :: "List \<Rightarrow> DohMemory \<Rightarrow> DohMemory res" where
  "DelList l m = delete_items (nitems l) 0 (items l) m"

definition List_clear :: "List \<Rightarrow> DohMemory \<Rightarrow> (List \<times> DohMemory) res" where
  "List_clear l m = res_bind (delete_items (nitems l) 0 (items l) m) (\<lambda>m1. Inr (l\<lparr>nitems := 0\<rparr>, m1))"

fun shift_up :: "nat \<Rightarrow> nat \<Rightarrow> addr option list \<Rightarrow> addr option list res" where
  \<comment> \<open>\<^verbatim>\<open>for (i = l->nitems; i > pos; i--) l->items[i] = l->items[i - 1];\<close>\<close>
  "shift_up i pos its =
     (if i > pos then res_bind (arr_get its (i - 1)) (\<lambda>v. res_bind (arr_set its i v) (shift_up (i - 1) pos)) else Inr its)"

fun shift_down :: "nat \<Rightarrow> nat \<Rightarrow> addr option list \<Rightarrow> addr option list res" where
  \<comment> \<open>\<^verbatim>\<open>for (i = pos; i < l->nitems - 1; i++) l->items[i] = l->items[i + 1];\<close> with \<open>k\<close> moves to go\<close>
  "shift_down 0 i its = Inr its"
| "shift_down (Suc k) i its = res_bind (arr_get its (i + 1)) (\<lambda>v. res_bind (arr_set its i v) (shift_down k (i + 1)))"

definition List_insert :: "List \<Rightarrow> int \<Rightarrow> DOHObj_or_char \<Rightarrow> DohMemory \<Rightarrow> (int \<times> List \<times> DohMemory) res" where
  "List_insert l pos item m =
     (if item = Null then Inr (-1, l, m)
      else res_bind (to_object item m) (\<lambda>(a, m1).
        let p0 = (if pos = DOH_END then int (nitems l) else pos);
            p1 = (if p0 < 0 then 0 else p0);
            p = nat (if p1 > int (nitems l) then int (nitems l) else p1);
            l1 = (if nitems l = maxitems l then list_more l else l) in
        res_bind (shift_up (nitems l1) p (items l1)) (\<lambda>its.
        res_bind (arr_set its p (Some a)) (\<lambda>its1.
        res_bind (Incref a m1) (\<lambda>m2.
        Inr (0, l1\<lparr>items := its1, nitems := nitems l1 + 1\<rparr>, m2))))))"

definition item_index :: "List \<Rightarrow> int \<Rightarrow> nat res" where
  \<comment> \<open>the position as \<^verbatim>\<open>List_remove\<close> and \<^verbatim>\<open>List_get\<close> read it, with their assertion\<close>
  "item_index l pos =
     (let p0 = (if pos = DOH_END then int (nitems l) - 1 else pos);
          p = (if p0 = DOH_BEGIN then 0 else p0) in
      if p < 0 \<or> p \<ge> int (nitems l) then Inl AssertFailed else Inr (nat p))"

definition List_remove :: "List \<Rightarrow> int \<Rightarrow> DohMemory \<Rightarrow> (List \<times> DohMemory) res" where
  "List_remove l pos m =
     res_bind (item_index l pos) (\<lambda>p.
     res_bind (arr_get (items l) p) (\<lambda>v.
     res_bind (opt_ref DohDelete v m) (\<lambda>m1.
     res_bind (shift_down (nitems l - 1 - p) p (items l)) (\<lambda>its.
     Inr (l\<lparr>items := its, nitems := nitems l - 1\<rparr>, m1)))))"

definition List_len :: "List \<Rightarrow> nat" where
  "List_len l = nitems l"

definition List_get :: "List \<Rightarrow> int \<Rightarrow> addr option res" where
  "List_get l n = res_bind (item_index l n) (arr_get (items l))"

definition List_set :: "List \<Rightarrow> int \<Rightarrow> DOHObj_or_char \<Rightarrow> DohMemory \<Rightarrow> (int \<times> List \<times> DohMemory) res" where
  "List_set l n val m =
     (if val = Null then Inr (-1, l, m)
      else if n < 0 \<or> n \<ge> int (nitems l) then Inl AssertFailed
      else res_bind (to_object val m) (\<lambda>(a, m1).
        res_bind (arr_get (items l) (nat n)) (\<lambda>v.
        res_bind (opt_ref DohDelete v m1) (\<lambda>m2.
        res_bind (arr_set (items l) (nat n) (Some a)) (\<lambda>its.
        res_bind (Incref a m2) (\<lambda>m3.
        res_bind (DohDelete a m3) (\<lambda>m4.
        Inr (0, l\<lparr>items := its\<rparr>, m4))))))))"

record DohIterator =
  iter_index :: nat
  iter_item :: "addr option"

definition List_first :: "List \<Rightarrow> DohIterator res" where
  "List_first l = (if nitems l > 0 then res_bind (arr_get (items l) 0) (\<lambda>v. Inr \<lparr>iter_index = 0, iter_item = v\<rparr>)
     else Inr \<lparr>iter_index = 0, iter_item = None\<rparr>)"

definition List_next :: "List \<Rightarrow> DohIterator \<Rightarrow> DohIterator res" where
  "List_next l it =
     (let i = iter_index it + 1 in
      if i \<ge> nitems l then Inr \<lparr>iter_index = i, iter_item = None\<rparr>
      else res_bind (arr_get (items l) i) (\<lambda>v. Inr \<lparr>iter_index = i, iter_item = v\<rparr>))"

fun list_visit :: "nat \<Rightarrow> List \<Rightarrow> DohIterator \<Rightarrow> addr list res" where
  \<comment> \<open>the client loop \<^verbatim>\<open>for (i = First(l); i.item; i = Next(i))\<close> with fuel\<close>
  "list_visit 0 l it = Inl Diverges"
| "list_visit (Suc k) l it =
     (case iter_item it of None \<Rightarrow> Inr []
      | Some a \<Rightarrow> res_bind (List_next l it) (\<lambda>it'. res_bind (list_visit k l it') (\<lambda>as. Inr (a # as))))"

definition List_setfile :: "List \<Rightarrow> DOHObj_or_char \<Rightarrow> DohMemory \<Rightarrow> (List \<times> DohMemory) res" where
  "List_setfile l f m =
     res_bind (to_object f m) (\<lambda>(a, m1).
     res_bind (Incref a m1) (\<lambda>m2.
     res_bind (opt_ref DohDelete (list_file l) m2) (\<lambda>m3.
     Inr (l\<lparr>list_file := Some a\<rparr>, m3))))"

text \<open>The String object has the same operation.\<close>

definition String_setfile :: "String \<Rightarrow> DOHObj_or_char \<Rightarrow> DohMemory \<Rightarrow> (String \<times> DohMemory) res" where
  "String_setfile s f m =
     res_bind (to_object f m) (\<lambda>(a, m1).
     res_bind (Incref a m1) (\<lambda>m2.
     res_bind (opt_ref DohDelete (str_file s) m2) (\<lambda>m3.
     Inr (s\<lparr>str_file := Some a\<rparr>, m3))))"

definition List_setline :: "List \<Rightarrow> int \<Rightarrow> List" where
  "List_setline l n = l\<lparr>list_line := n\<rparr>"

section \<open>The list as a HOL list\<close>

definition elems :: "List \<Rightarrow> addr list" where
  "elems l = map the (take (nitems l) (items l))"

definition wf_List :: "List \<Rightarrow> bool" where
  "wf_List l \<longleftrightarrow> length (items l) = maxitems l \<and> 0 < maxitems l \<and> nitems l \<le> maxitems l \<and> None \<notin> set (take (nitems l) (items l))"

definition list_refs :: "List \<Rightarrow> addr multiset" where
  "list_refs l = mset (elems l) + (case list_file l of None \<Rightarrow> {#} | Some f \<Rightarrow> {#f#})"


lemma length_elems: "wf_List l \<Longrightarrow> length (elems l) = nitems l"
  by (simp add: elems_def wf_List_def)

lemma items_nth: "wf_List l \<Longrightarrow> i < nitems l \<Longrightarrow> items l ! i = Some (elems l ! i)"
  by (auto simp: elems_def wf_List_def in_set_conv_nth)

lemma take_items: "wf_List l \<Longrightarrow> take (nitems l) (items l) = map Some (elems l)"
  by (rule nth_equalityI) (auto simp: length_elems items_nth wf_List_def)

lemma elemsI:
  assumes "length (items l) = maxitems l" "0 < maxitems l" "nitems l \<le> maxitems l" "length xs = nitems l"
    and "\<And>i. i < nitems l \<Longrightarrow> items l ! i = Some (xs ! i)"
  shows "wf_List l \<and> elems l = xs"
proof -
  have "take (nitems l) (items l) = map Some xs" using assms by (intro nth_equalityI) auto
  then show ?thesis using assms by (auto simp: wf_List_def elems_def)
qed

lemma DohNewList_wf: "wf_List DohNewList \<and> elems DohNewList = [] \<and> list_refs DohNewList = {#}"
  by (simp add: wf_List_def elems_def list_refs_def DohNewList_def MAXLISTITEMS_def)

lemma list_more_wf: "wf_List l \<Longrightarrow> wf_List (list_more l) \<and> elems (list_more l) = elems l \<and> nitems (list_more l) = nitems l \<and> list_file (list_more l) = list_file l"
  by (simp add: wf_List_def elems_def list_more_def)

section \<open>The loops\<close>

lemma each_opt: "each (opt_ref f) (map Some as) m = each f as m"
  by (induction as arbitrary: m) (auto simp: opt_ref_def res_bind_def split: sum.splits)

lemma take_Suc_drop: "i < length xs \<Longrightarrow> take (Suc k) (drop i xs) = xs ! i # take k (drop (Suc i) xs)"
  by (metis Cons_nth_drop_Suc take_Suc_Cons)

lemma delete_items_each: "i + k \<le> length its \<Longrightarrow> delete_items k i its m = each (opt_ref DohDelete) (take k (drop i its)) m"
  by (induction k i its m rule: delete_items.induct) (auto simp: arr_get_def take_Suc_drop res_bind_def split: sum.splits)

lemma copy_items_each:
  "i + k \<le> length src \<Longrightarrow> length dst = length src \<Longrightarrow>
   copy_items k i src dst m =
     res_bind (each (opt_ref Incref) (take k (drop i src)) m) (\<lambda>m'. Inr (take i dst @ take k (drop i src) @ drop (i + k) dst, m'))"
proof (induction k i src dst m rule: copy_items.induct)
  case (2 k i src dst m)
  then show ?case
  proof (cases "opt_ref Incref (src ! i) m")
    case (Inr m1)
    then have "copy_items (Suc k) i src dst m = copy_items k (i + 1) src (dst[i := src ! i]) m1"
      using 2(2,3) by (simp add: arr_get_def arr_set_def)
    also have "\<dots> = res_bind (each (opt_ref Incref) (take k (drop (i + 1) src)) m1)
        (\<lambda>m'. Inr (take (i + 1) (dst[i := src ! i]) @ take k (drop (i + 1) src) @ drop (i + 1 + k) (dst[i := src ! i]), m'))"
      using 2(2,3) Inr by (intro 2(1)) (simp_all add: arr_get_def arr_set_def)
    also have "take (i + 1) (dst[i := src ! i]) = take i dst @ [src ! i]"
      using 2(2,3) by (simp add: take_Suc_conv_app_nth)
    finally show ?thesis using 2(2,3) Inr by (simp add: take_Suc_drop)
  qed (simp add: arr_get_def arr_set_def take_Suc_drop)
qed simp

declare shift_up.simps [simp del]

lemma shift_up_nth:
  "pos \<le> i \<Longrightarrow> i < length its \<Longrightarrow> \<exists>its'. shift_up i pos its = Inr its' \<and> length its' = length its \<and>
     (\<forall>j < length its. its' ! j = (if pos < j \<and> j \<le> i then its ! (j - 1) else its ! j))"
proof (induction i pos its rule: shift_up.induct)
  case (1 i pos its)
  show ?case
  proof (cases "i > pos")
    case True
    have "arr_get its (i - 1) = Inr (its ! (i - 1))" "arr_set its i (its ! (i - 1)) = Inr (its[i := its ! (i - 1)])"
      using 1(3) by (simp_all add: arr_get_def arr_set_def)
    note step = this
    obtain its' where its': "shift_up (i - 1) pos (its[i := its ! (i - 1)]) = Inr its'" "length its' = length its"
      "\<forall>j < length its. its' ! j = (if pos < j \<and> j \<le> i - 1 then its[i := its ! (i - 1)] ! (j - 1) else its[i := its ! (i - 1)] ! j)"
    proof -
      have "pos \<le> i - 1" "i - 1 < length (its[i := its ! (i - 1)])" using True 1(3) by simp_all
      from 1(1)[OF True this] show ?thesis using that by (auto simp only: length_list_update)
    qed
    then have "shift_up i pos its = Inr its'" using True step by (subst shift_up.simps) simp
    then show ?thesis using its'(2,3) True by (auto simp: nth_list_update)
  next
    case False
    then show ?thesis using 1(2) by (subst shift_up.simps) auto
  qed
qed

lemma shift_down_nth:
  "i + k < length its \<Longrightarrow> \<exists>its'. shift_down k i its = Inr its' \<and> length its' = length its \<and>
     (\<forall>j < length its. its' ! j = (if i \<le> j \<and> j < i + k then its ! (j + 1) else its ! j))"
proof (induction k i its rule: shift_down.induct)
  case (2 k i its)
  have step: "arr_get its (i + 1) = Inr (its ! (i + 1))" "arr_set its i (its ! (i + 1)) = Inr (its[i := its ! (i + 1)])"
    using 2(2) by (simp_all add: arr_get_def arr_set_def)
  obtain its' where its': "shift_down k (i + 1) (its[i := its ! (i + 1)]) = Inr its'" "length its' = length its"
    "\<forall>j < length its. its' ! j = (if i + 1 \<le> j \<and> j < i + 1 + k then its[i := its ! (i + 1)] ! (j + 1) else its[i := its ! (i + 1)] ! j)"
    using 2(1)[of "its[i := its ! (i + 1)]"] 2(2) by auto
  have "its' ! j = (if i \<le> j \<and> j < i + Suc k then its ! (j + 1) else its ! j)" if "j < length its" for j
    using its'(3) that by (cases "j = i") (simp_all add: nth_list_update)
  then show ?case using step its'(1,2) by simp
qed auto

lemma shift_up_items:
  assumes "p \<le> n" "n < length its" "take n its = map Some xs"
  shows "\<exists>its1. res_bind (shift_up n p its) (\<lambda>its'. arr_set its' p (Some a)) = Inr its1 \<and> length its1 = length its \<and>
    take (n + 1) its1 = map Some (take p xs @ a # drop p xs)"
proof -
  obtain its' where its': "shift_up n p its = Inr its'" "length its' = length its"
    "\<forall>j < length its. its' ! j = (if p < j \<and> j \<le> n then its ! (j - 1) else its ! j)"
    using shift_up_nth[OF assms(1,2)] by blast
  have len: "length xs = n" using arg_cong[OF assms(3), of length] assms(2) by simp
  have x: "j < n \<Longrightarrow> its ! j = Some (xs ! j)" for j using arg_cong[OF assms(3), of "\<lambda>l. l ! j"] len by simp
  have "take (n + 1) (its'[p := Some a]) = map Some (take p xs @ a # drop p xs)"
  proof (rule nth_equalityI)
    fix j assume "j < length (take (n + 1) (its'[p := Some a]))"
    then have "j \<le> n" using its'(2) assms(2) by simp
    then show "take (n + 1) (its'[p := Some a]) ! j = map Some (take p xs @ a # drop p xs) ! j"
      using its'(2,3) assms(1,2) len x by (auto simp: nth_append nth_list_update nth_Cons' min_def)
  qed (use its'(2) assms(1,2) len in simp)
  then show ?thesis using its' assms(1,2) by (simp add: arr_set_def)
qed

lemma shift_down_items:
  assumes "p < n" "n \<le> length its" "take n its = map Some xs"
  shows "\<exists>its1. shift_down (n - 1 - p) p its = Inr its1 \<and> length its1 = length its \<and>
    take (n - 1) its1 = map Some (take p xs @ drop (p + 1) xs)"
proof -
  obtain its' where its': "shift_down (n - 1 - p) p its = Inr its'" "length its' = length its"
    "\<forall>j < length its. its' ! j = (if p \<le> j \<and> j < n - 1 then its ! (j + 1) else its ! j)"
  proof -
    have "p + (n - 1 - p) = n - 1" "p + (n - 1 - p) < length its" using assms(1,2) by simp_all
    then show ?thesis using shift_down_nth[of p "n - 1 - p" its] that by metis
  qed
  have len: "length xs = n" using arg_cong[OF assms(3), of length] assms(2) by simp
  have x: "j < n \<Longrightarrow> its ! j = Some (xs ! j)" for j using arg_cong[OF assms(3), of "\<lambda>l. l ! j"] len by simp
  have "take (n - 1) its' = map Some (take p xs @ drop (p + 1) xs)"
    by (rule nth_equalityI) (use its' assms len x in \<open>auto simp: nth_append\<close>)
  then show ?thesis using its' by blast
qed


section \<open>Arguments\<close>

definition given :: "DOHObj_or_char \<Rightarrow> addr multiset \<Rightarrow> bool" where
  \<comment> \<open>an argument the caller may pass: a text, or an object it or the list holds with room for one reference more\<close>
  "given x V \<longleftrightarrow> (case x of Obj a \<Rightarrow> a \<in># V \<and> count V a + 1 < REFMOD | _ \<Rightarrow> True)"

definition denotes :: "DOHObj_or_char \<Rightarrow> addr \<Rightarrow> DohMemory \<Rightarrow> DohMemory \<Rightarrow> bool" where
  \<comment> \<open>the object that stands for the argument: itself, or a new string with its text\<close>
  "denotes x a m m' \<longleftrightarrow> (case x of Obj b \<Rightarrow> a = b | Chars s \<Rightarrow> \<not> live m a \<and> obj_text (objs m' a) = s \<and> obj_type (objs m' a) = Some DohStringType
     | Null \<Rightarrow> \<not> live m a \<and> obj_text (objs m' a) = [] \<and> obj_type (objs m' a) = Some DohStringType)"

lemma new_held_spec:
  assumes "counted {} m V"
  shows "\<exists>a m1. new_held s m = Inr (a, m1) \<and> counted {a} m1 V \<and> \<not> live m a \<and> a \<notin># V \<and> obj_text (objs m1 a) = s \<and> keeps m m1 \<and> creates m m1 \<and>
    obj_type (objs m1 a) = Some DohStringType \<and> \<not> interned m1 a"
proof -
  obtain a m0 where a: "NewString s m = Inr (a, m0)" "\<not> live m a" "counted {} m0 (add_mset a V)" "creates m m0"
    "obj_text (objs m0 a) = s" "\<not> interned m0 a" "obj_type (objs m0 a) = Some DohStringType" using NewString_balanced[OF assms, of s] by blast
  have na: "a \<notin># V" using a(2) live_of[OF assms] by auto
  obtain m1 where m1: "Decref a m0 = Inr m1" "counted {a} m1 V" "frees m0 m1" "creates m0 m1"
    using Decref_new_balanced[OF a(3) na a(6)] by blast
  have "live m1 a" using live_of[OF m1(2)] by simp
  then have t: "obj_text (objs m1 a) = s" "obj_type (objs m1 a) = Some DohStringType" using m1(3) a(5,7) by (simp_all add: frees_def same_obj_def)
  have "creates m m1" "\<not> interned m1 a" using creates_trans[OF a(4) m1(4)] m1(3) a(6) by (simp_all add: frees_def)
  then show ?thesis using a(1,2) m1(1,2) t na creates_frees[OF a(4) m1(3)] by (simp add: new_held_def)
qed

text \<open>Converting an argument and taking a reference to it.\<close>

lemma to_object_spec:
  assumes "counted {} m V" "given x V"
  shows "\<exists>a Z m1. to_object x m = Inr (a, m1) \<and> counted Z m1 V \<and> Z \<subseteq> {a} \<and> (a \<in># V \<or> a \<in> Z) \<and> (Z = {} \<or> a \<notin># V) \<and>
    count V a + 1 < REFMOD \<and> denotes x a m m1 \<and> creates m m1"
proof (cases x)
  case (Obj a)
  then have "DohCheck m a" using assms live_check[OF balancedD(1)] live_of[OF assms(1)] by (simp add: given_def)
  then show ?thesis using Obj assms by (auto simp: to_object_def given_def denotes_def intro!: exI[of _ "{}"])
next
  case Null
  then show ?thesis using new_held_spec[OF assms(1), of "[]"] by (auto simp: to_object_def denotes_def not_in_iff)
next
  case (Chars s)
  then show ?thesis using new_held_spec[OF assms(1), of s] by (auto simp: to_object_def denotes_def not_in_iff)
qed

lemma denotes_frees: "denotes x a m m1 \<Longrightarrow> frees m1 m2 \<Longrightarrow> live m2 a \<Longrightarrow> denotes x a m m2"
  by (auto simp: denotes_def frees_def same_obj_def split: DOHObj_or_char.splits)

lemma take_argument:
  assumes "counted {} m V" "given x V"
  shows "\<exists>a m1 m2. to_object x m = Inr (a, m1) \<and> Incref a m1 = Inr m2 \<and> counted {} m2 (add_mset a V) \<and> denotes x a m m2 \<and> keeps m m2 \<and>
    creates m m1 \<and> frees m1 m2"
proof -
  obtain a Z m1 where a: "to_object x m = Inr (a, m1)" "counted Z m1 V" "Z \<subseteq> {a}" "a \<in># V \<or> a \<in> Z" "count V a + 1 < REFMOD"
    "denotes x a m m1" "creates m m1" using to_object_spec[OF assms] by blast
  obtain m2 where m2: "Incref a m1 = Inr m2" "counted (Z - {a}) m2 (add_mset a V)" "frees m1 m2"
    using Incref_balanced[OF a(2,4,5)] by blast
  have "Z - {a} = {}" using a(3) by auto
  then have b: "counted {} m2 (add_mset a V)" using m2(2) by (simp only:)
  then have "live m2 a" using live_of by fastforce
  then show ?thesis using a b m2 denotes_frees creates_frees by blast
qed

section \<open>The operations on balanced counts\<close>

definition insert_pos :: "nat \<Rightarrow> int \<Rightarrow> nat" where
  "insert_pos n pos = (if pos = DOH_END then n else min n (nat pos))"

definition insert_at :: "nat \<Rightarrow> 'a \<Rightarrow> 'a list \<Rightarrow> 'a list" where
  "insert_at p x xs = take p xs @ x # drop p xs"

lemma mset_insert_at: "mset (insert_at p x xs) = add_mset x (mset xs)"
proof -
  have "mset xs = mset (take p xs) + mset (drop p xs)" by (simp flip: mset_append)
  then show ?thesis by (simp add: insert_at_def)
qed

lemma take_map_Some: "take n its = map Some xs \<Longrightarrow> length xs = n \<Longrightarrow> i < n \<Longrightarrow> its ! i = Some (xs ! i)"
  by (metis length_map nth_map nth_take)

lemma List_insert_spec:
  assumes "wf_List l" "counted {} m (W + list_refs l)" "item \<noteq> Null" "given item (W + list_refs l)"
  shows "\<exists>a l' m'. List_insert l pos item m = Inr (0, l', m') \<and> denotes item a m m' \<and> keeps m m' \<and> wf_List l' \<and>
    elems l' = insert_at (insert_pos (length (elems l)) pos) a (elems l) \<and> list_file l' = list_file l \<and> counted {} m' (W + list_refs l')"
proof -
  obtain a m1 m2 where a: "to_object item m = Inr (a, m1)" "Incref a m1 = Inr m2" "counted {} m2 (add_mset a (W + list_refs l))"
    "denotes item a m m2" "keeps m m2" using take_argument[OF assms(2,4)] by blast
  define l1 where "l1 = (if nitems l = maxitems l then list_more l else l)"
  have l1: "wf_List l1" "elems l1 = elems l" "nitems l1 = nitems l" "list_file l1 = list_file l" "nitems l1 < maxitems l1"
    using assms(1) list_more_wf[OF assms(1)] by (auto simp: l1_def wf_List_def list_more_def)
  define p where "p = insert_pos (nitems l) pos"
  have p: "p \<le> nitems l" by (simp add: p_def insert_pos_def)
  have pos: "nat (if (if (if pos = DOH_END then int (nitems l) else pos) < 0 then 0 else (if pos = DOH_END then int (nitems l) else pos)) > int (nitems l)
      then int (nitems l) else (if (if pos = DOH_END then int (nitems l) else pos) < 0 then 0 else (if pos = DOH_END then int (nitems l) else pos))) = p"
    by (simp add: p_def insert_pos_def)
  obtain its1 where its1: "res_bind (shift_up (nitems l1) p (items l1)) (\<lambda>its'. arr_set its' p (Some a)) = Inr its1"
    "length its1 = length (items l1)" "take (nitems l1 + 1) its1 = map Some (insert_at p a (elems l))"
    using shift_up_items[of p "nitems l1" "items l1" "elems l" a] l1 p take_items[OF l1(1)] by (auto simp: wf_List_def insert_at_def)
  define l' where "l' = l1\<lparr>items := its1, nitems := nitems l1 + 1\<rparr>"
  have len: "length (insert_at p a (elems l)) = nitems l1 + 1" using p l1(3) length_elems[OF assms(1)] by (simp add: insert_at_def)
  have "wf_List l' \<and> elems l' = insert_at p a (elems l)"
    using its1(2,3) l1(1,5) len by (intro elemsI) (simp_all add: l'_def wf_List_def take_map_Some)
  moreover have "list_file l' = list_file l" by (simp add: l'_def l1(4))
  moreover have "List_insert l pos item m = Inr (0, l', m2)"
    using a(1,2) assms(3) its1(1) unfolding List_insert_def l1_def[symmetric] Let_def pos
    by (auto simp: l'_def res_bind_eq_Inr)
  ultimately show ?thesis using a(3-5) length_elems[OF assms(1)] by (intro exI[of _ a] exI[of _ l'] exI[of _ m2]) (simp add: p_def list_refs_def mset_insert_at)
qed


lemma item_index_ok:
  "item_index l pos = (if pos = DOH_END then (if nitems l = 0 then Inl AssertFailed else Inr (nitems l - 1))
     else if pos = DOH_BEGIN then (if nitems l = 0 then Inl AssertFailed else Inr 0)
     else if pos < 0 \<or> int (nitems l) \<le> pos then Inl AssertFailed else Inr (nat pos))"
  if "nitems l > 0 \<or> pos \<noteq> DOH_END"
  using that by (auto simp: item_index_def Let_def)

lemma item_index_less: "item_index l pos = Inr p \<Longrightarrow> p < nitems l"
  by (auto simp: item_index_def Let_def split: if_splits)

lemma opt_ref_Some [simp]: "opt_ref f (Some a) m = f a m"
  by (simp add: opt_ref_def)

lemma mset_remove_nth: "p < length xs \<Longrightarrow> mset (take p xs @ drop (p + 1) xs) = mset xs - {#xs ! p#}"
  using arg_cong[OF id_take_nth_drop[of p xs], of mset] by simp

lemma List_remove_spec:
  assumes "wf_List l" "counted {} m (W + list_refs l)" "item_index l pos = Inr p"
  shows "\<exists>l' m'. List_remove l pos m = Inr (l', m') \<and> frees m m' \<and> wf_List l' \<and> elems l' = take p (elems l) @ drop (p + 1) (elems l) \<and>
    list_file l' = list_file l \<and> counted {} m' (W + list_refs l')"
proof -
  note p = item_index_less[OF assms(3)]
  let ?a = "elems l ! p"
  have in_l: "?a \<in># mset (elems l)" using p length_elems[OF assms(1)] by simp
  then obtain m' where m': "DohDelete ?a m = Inr m'" "counted {} m' (W + list_refs l - {#?a#})" "frees m m'"
    using DohDelete_balanced[OF assms(2), of ?a] by (auto simp: list_refs_def)
  obtain its where its: "shift_down (nitems l - 1 - p) p (items l) = Inr its" "length its = length (items l)"
    "take (nitems l - 1) its = map Some (take p (elems l) @ drop (p + 1) (elems l))"
    using shift_down_items[OF p, of "items l" "elems l"] assms(1) take_items[OF assms(1)] by (auto simp: wf_List_def)
  define l' where "l' = l\<lparr>items := its, nitems := nitems l - 1\<rparr>"
  have len: "length (take p (elems l) @ drop (p + 1) (elems l)) = nitems l - 1" using p length_elems[OF assms(1)] by simp
  have e: "wf_List l' \<and> elems l' = take p (elems l) @ drop (p + 1) (elems l)"
    using its(2,3) assms(1) len take_map_Some[OF its(3) len] by (intro elemsI) (auto simp: l'_def wf_List_def)
  have "mset (elems l') = mset (elems l) - {#?a#}" using e mset_remove_nth[of p "elems l"] p length_elems[OF assms(1)] by simp
  then have "W + list_refs l - {#?a#} = W + list_refs l'" using in_l by (simp add: list_refs_def l'_def)
  moreover have "List_remove l pos m = Inr (l', m')"
    using assms(1,3) m'(1) its(1) p items_nth[OF assms(1) p] by (simp add: List_remove_def arr_get_def wf_List_def l'_def)
  ultimately show ?thesis using m' e by (auto simp: l'_def)
qed

text \<open>\<^verbatim>\<open>List_set\<close> takes over the reference of the caller: afterwards the caller holds one reference less.\<close>

lemma List_set_spec:
  assumes "wf_List l" "counted {} m (add_mset a W + list_refs l)" "0 \<le> n" "n < int (nitems l)" "count (add_mset a W + list_refs l) a + 1 < REFMOD"
  shows "\<exists>l' m'. List_set l n (Obj a) m = Inr (0, l', m') \<and> frees m m' \<and> wf_List l' \<and> elems l' = (elems l)[nat n := a] \<and>
    list_file l' = list_file l \<and> counted {} m' (W + list_refs l')"
proof -
  let ?i = "nat n" and ?V = "add_mset a W + list_refs l"
  let ?b = "elems l ! ?i"
  have i: "?i < nitems l" using assms(3,4) by simp
  have check: "DohCheck m a" using live_check[OF balancedD(1)[OF assms(2)]] live_of[OF assms(2), of a] by simp
  have b: "?b \<in># mset (elems l)" using i length_elems[OF assms(1)] by simp
  then obtain m1 where m1: "DohDelete ?b m = Inr m1" "counted {} m1 (?V - {#?b#})" "frees m m1"
    using DohDelete_balanced[OF assms(2), of ?b] by (auto simp: list_refs_def)
  have V: "?V - {#?b#} = add_mset a (W + (list_refs l - {#?b#}))" using b by (simp add: list_refs_def)
  have c: "count (?V - {#?b#}) a + 1 < REFMOD" using assms(5) by simp
  obtain m2 where m2: "Incref a m1 = Inr m2" "counted {} m2 (add_mset a (?V - {#?b#}))" "frees m1 m2"
    using Incref_balanced[OF m1(2) _ c] V by auto
  obtain m3 where m3: "DohDelete a m2 = Inr m3" "counted {} m3 (?V - {#?b#})" "frees m2 m3"
    using DohDelete_balanced[OF m2(2), of a] by auto
  define l' where "l' = l\<lparr>items := (items l)[?i := Some a]\<rparr>"
  have e: "wf_List l' \<and> elems l' = (elems l)[?i := a]"
    using assms(1) i length_elems[OF assms(1)] items_nth[OF assms(1)]
    by (intro elemsI) (auto simp: l'_def wf_List_def nth_list_update)
  have "mset (elems l') = add_mset a (mset (elems l) - {#?b#})" using e i length_elems[OF assms(1)] by (simp add: mset_update)
  then have "?V - {#?b#} = W + list_refs l'" unfolding V using b by (simp add: list_refs_def l'_def)
  moreover have "List_set l n (Obj a) m = Inr (0, l', m3)"
    using assms(1,3,4) i items_nth[OF assms(1) i] m1(1) m2(1) m3(1) check
    by (simp add: List_set_def to_object_def arr_get_def arr_set_def wf_List_def l'_def)
  moreover have "frees m m3" using m1(3) m2(3) m3(3) frees_trans by blast
  ultimately show ?thesis using e m3(2) by (auto simp: l'_def)
qed

lemma opt_incr:
  assumes "counted {} m V" "case r of None \<Rightarrow> True | Some a \<Rightarrow> a \<in># V \<and> count V a + 1 < REFMOD"
  shows "\<exists>m'. opt_ref Incref r m = Inr m' \<and> counted {} m' (V + (case r of None \<Rightarrow> {#} | Some a \<Rightarrow> {#a#})) \<and> frees m m'"
  using assms store.incr_law[OF assms(1)] by (cases r) (auto simp: opt_ref_def)

lemma list_refs_in: "a \<in> set (elems l) \<Longrightarrow> a \<in># W + list_refs l"
  by (simp add: list_refs_def)

lemma CopyList_spec:
  assumes "wf_List l" "counted {} m (W + list_refs l)" "\<And>a. count (W + list_refs l + list_refs l) a < REFMOD"
  shows "\<exists>l' m'. CopyList l m = Inr (l', m') \<and> frees m m' \<and> wf_List l' \<and> elems l' = elems l \<and> list_file l' = list_file l \<and>
    list_line l' = list_line l \<and> counted {} m' (W + list_refs l + list_refs l')"
proof -
  let ?V = "W + list_refs l"
  have n: "count (?V + mset (elems l)) a < REFMOD" for a using assms(3)[of a] by (simp add: list_refs_def)
  obtain m1 where m1: "each Incref (elems l) m = Inr m1" "counted {} m1 (?V + mset (elems l))" "frees m m1"
    using store.each_incr[OF assms(2), of "elems l"] n list_refs_in by blast
  have "case list_file l of None \<Rightarrow> True | Some a \<Rightarrow> a \<in># ?V + mset (elems l) \<and> count (?V + mset (elems l)) a + 1 < REFMOD"
  proof (cases "list_file l")
    case (Some a)
    then show ?thesis using assms(3)[of a] by (simp add: list_refs_def)
  qed simp
  from opt_incr[OF m1(2) this] obtain m2 where m2: "opt_ref Incref (list_file l) m1 = Inr m2"
    "counted {} m2 (?V + mset (elems l) + (case list_file l of None \<Rightarrow> {#} | Some a \<Rightarrow> {#a#}))" "frees m1 m2" by blast
  define its where "its = map Some (elems l) @ drop (nitems l) (replicate (maxitems l) None)"
  have "copy_items (nitems l) 0 (items l) (replicate (maxitems l) None) m = Inr (its, m1)"
  proof -
    have len: "0 + nitems l \<le> length (items l)" "length (replicate (maxitems l) None) = length (items l)"
      using assms(1) by (simp_all add: wf_List_def)
    show ?thesis using m1(1) by (simp add: copy_items_each[OF len] take_items[OF assms(1)] each_opt its_def)
  qed
  moreover define l' where "l' = \<lparr>maxitems = maxitems l, nitems = nitems l, items = its, list_file = list_file l, list_line = list_line l\<rparr>"
  ultimately have "CopyList l m = Inr (l', m2)" using m2(1) by (simp add: CopyList_def)
  moreover have "wf_List l' \<and> elems l' = elems l"
    using assms(1) length_elems[OF assms(1)] by (intro elemsI) (auto simp: l'_def its_def wf_List_def nth_append)
  moreover have "list_refs l' = mset (elems l) + (case list_file l of None \<Rightarrow> {#} | Some a \<Rightarrow> {#a#})"
    using calculation(2) by (simp add: list_refs_def l'_def)
  ultimately show ?thesis using m1(3) m2(2,3) frees_trans by (auto simp: l'_def add.assoc)
qed

lemma delete_items_spec:
  assumes "wf_List l" "counted {} m (W + list_refs l)"
  shows "\<exists>m'. delete_items (nitems l) 0 (items l) m = Inr m' \<and> frees m m' \<and>
    counted {} m' (W + (case list_file l of None \<Rightarrow> {#} | Some a \<Rightarrow> {#a#}))"
proof -
  have sub: "mset (elems l) \<subseteq># W + list_refs l" by (simp add: list_refs_def)
  have "delete_items (nitems l) 0 (items l) m = each DohDelete (elems l) m"
    using delete_items_each[of 0 "nitems l" "items l" m] assms(1) take_items[OF assms(1)] by (simp add: wf_List_def each_opt)
  then show ?thesis using store.each_del[OF assms(2) sub] by (auto simp: list_refs_def)
qed

lemma List_clear_spec:
  assumes "wf_List l" "counted {} m (W + list_refs l)"
  shows "\<exists>l' m'. List_clear l m = Inr (l', m') \<and> frees m m' \<and> wf_List l' \<and> elems l' = [] \<and> list_file l' = list_file l \<and>
    counted {} m' (W + list_refs l')"
  using delete_items_spec[OF assms] assms(1) by (auto simp: List_clear_def wf_List_def elems_def list_refs_def)

definition file_refs :: "addr option \<Rightarrow> addr multiset" where
  "file_refs f = (case f of None \<Rightarrow> {#} | Some a \<Rightarrow> {#a#})"

text \<open>The reference to the old file name is given back after the one to the new name is taken.\<close>

lemma replace_file:
  assumes "counted {} m (W + file_refs old)" "given f (W + file_refs old)"
  shows "\<exists>a m1 m2 m3. to_object f m = Inr (a, m1) \<and> Incref a m1 = Inr m2 \<and> opt_ref DohDelete old m2 = Inr m3 \<and>
    denotes f a m m3 \<and> keeps m m3 \<and> counted {} m3 (add_mset a W)"
proof -
  obtain a m1 m2 where a: "to_object f m = Inr (a, m1)" "Incref a m1 = Inr m2" "counted {} m2 (add_mset a (W + file_refs old))"
    "denotes f a m m2" "creates m m1" "frees m1 m2" using take_argument[OF assms] by blast
  have "\<exists>m3. opt_ref DohDelete old m2 = Inr m3 \<and> counted {} m3 (add_mset a W) \<and> frees m2 m3"
  proof (cases old)
    case None
    then show ?thesis using a(3) by (simp add: opt_ref_def file_refs_def)
  next
    case (Some b)
    then show ?thesis using store.del_law[OF a(3), of b] by (simp add: file_refs_def)
  qed
  then obtain m3 where m3: "opt_ref DohDelete old m2 = Inr m3" "counted {} m3 (add_mset a W)" "frees m2 m3" by blast
  have "live m3 a" using live_of[OF m3(2)] by simp
  then have "denotes f a m m3" "keeps m m3" using denotes_frees[OF a(4) m3(3)] creates_frees[OF a(5) frees_trans[OF a(6) m3(3)]] by simp_all
  with a(1,2) m3(1,2) show ?thesis by blast
qed

lemma List_setfile_spec:
  assumes "wf_List l" "counted {} m (W + list_refs l)" "given f (W + list_refs l)"
  shows "\<exists>a l' m'. List_setfile l f m = Inr (l', m') \<and> denotes f a m m' \<and> keeps m m' \<and> wf_List l' \<and> elems l' = elems l \<and> list_file l' = Some a \<and>
    counted {} m' (W + list_refs l')"
proof -
  have r: "list_refs l = mset (elems l) + file_refs (list_file l)" by (simp add: list_refs_def file_refs_def)
  from replace_file[of m "W + mset (elems l)" "list_file l" f] assms(2,3) obtain a m1 m2 m3 where
    a: "to_object f m = Inr (a, m1)" "Incref a m1 = Inr m2" "opt_ref DohDelete (list_file l) m2 = Inr m3"
    "denotes f a m m3" "keeps m m3" "counted {} m3 (add_mset a (W + mset (elems l)))"
    unfolding r by (auto simp: add.assoc)
  define l' where "l' = l\<lparr>list_file := Some a\<rparr>"
  have e: "wf_List l'" "elems l' = elems l" using assms(1) by (simp_all add: l'_def wf_List_def elems_def)
  have "List_setfile l f m = Inr (l', m3)" using a(1-3) by (simp add: List_setfile_def l'_def)
  with a(4-6) e show ?thesis by (auto simp: list_refs_def l'_def)
qed

lemma String_setfile_spec:
  assumes "counted {} m (W + file_refs (str_file s))" "given f (W + file_refs (str_file s))"
  shows "\<exists>a s' m'. String_setfile s f m = Inr (s', m') \<and> denotes f a m m' \<and> keeps m m' \<and> contents s' = contents s \<and>
    String_getfile s' = Some a \<and> counted {} m' (W + file_refs (str_file s'))"
  using replace_file[OF assms] by (auto simp: String_setfile_def contents_def String_getfile_def file_refs_def)

lemma list_visit_from:
  assumes "wf_List l"
  shows "i < nitems l \<Longrightarrow> nitems l - i < k \<Longrightarrow>
    list_visit k l \<lparr>iter_index = i, iter_item = Some (elems l ! i)\<rparr> = Inr (drop i (elems l))"
proof (induction k arbitrary: i)
  case (Suc k)
  have d: "drop i (elems l) = elems l ! i # drop (Suc i) (elems l)" using Suc.prems(1) length_elems[OF assms] by (simp add: Cons_nth_drop_Suc)
  show ?case
  proof (cases "Suc i < nitems l")
    case True
    then show ?thesis using Suc.IH[of "Suc i"] Suc.prems assms items_nth[OF assms, of "Suc i"] d
      by (simp add: List_next_def arr_get_def wf_List_def)
  next
    case False
    then have "k > 0" "drop (Suc i) (elems l) = []" using Suc.prems length_elems[OF assms] by simp_all
    then show ?thesis using False d by (cases k) (simp_all add: List_next_def)
  qed
qed simp

section \<open>Properties\<close>



text \<open>The client loop over a list visits its elements in order and ends.\<close>

lemma list_iterates:
  assumes "wf_List l"
  shows "res_bind (List_first l) (list_visit (nitems l + 1) l) = Inr (elems l)"
proof (cases "nitems l > 0")
  case True
  then show ?thesis using list_visit_from[OF assms True, of "nitems l + 1"] items_nth[OF assms True] assms
    by (simp add: List_first_def arr_get_def wf_List_def del: list_visit.simps)
next
  case False
  then show ?thesis using length_elems[OF assms] by (simp add: List_first_def)
qed

text \<open>Deleting a list gives back the references to its items, not the one to its file.\<close>

lemma DelList_leaks_file:
  assumes "wf_List l" "counted {} m (W + list_refs l)"
  shows "\<exists>m'. DelList l m = Inr m' \<and> counted {} m' (W + (case list_file l of None \<Rightarrow> {#} | Some f \<Rightarrow> {#f#}))"
  using delete_items_spec[OF assms] by (auto simp: DelList_def)

text \<open>Replacing an item by a C string leaves the list with an object that is already freed: the reference that \<^verbatim>\<open>List_set\<close>
  gives back for its caller is the only one.\<close>

lemma List_set_text_dangles:
  assumes "wf_List l" "counted {} m (W + list_refs l)" "0 \<le> n" "n < int (nitems l)"
  shows "\<exists>a l' m'. List_set l n (Chars s) m = Inr (0, l', m') \<and> elems l' ! nat n = a \<and> \<not> live m' a"
proof -
  let ?i = "nat n" and ?V = "W + list_refs l"
  let ?b = "elems l ! ?i"
  have i: "?i < nitems l" using assms(3,4) by simp
  obtain a m1 where a: "new_held s m = Inr (a, m1)" "counted {a} m1 ?V" "a \<notin># ?V" "\<not> interned m1 a"
    using new_held_spec[OF assms(2)] by blast
  have "?b \<in># ?V" using i length_elems[OF assms(1)] by (intro list_refs_in) simp
  moreover have "?b \<noteq> a" using calculation a(3) by auto
  ultimately obtain m2 where m2: "DohDelete ?b m1 = Inr m2" "counted {a} m2 (?V - {#?b#})" "frees m1 m2"
    using DohDelete_balanced[OF a(2), of ?b] by auto
  have z: "count (?V - {#?b#}) a = 0" using a(3) by (auto simp: not_in_iff)
  obtain m3 where m3: "Incref a m2 = Inr m3" "counted ({a} - {a}) m3 (add_mset a (?V - {#?b#}))" "frees m2 m3"
    using Incref_balanced[OF m2(2), of a] z by auto
  obtain m4 where m4: "DohDelete a m3 = Inr m4" "counted ({a} - {a}) m4 (?V - {#?b#})" "frees m3 m4"
    using DohDelete_balanced[OF m3(2), of a] by auto
  have "\<not> interned m4 a" using a(4) m2(3) m3(3) m4(3) by (simp add: frees_def)
  then have "\<not> live m4 a" using balancedD(2)[OF m4(2), of a] z by (simp add: bal_at_def)
  moreover have "List_set l n (Chars s) m = Inr (0, l\<lparr>items := (items l)[?i := Some a]\<rparr>, m4)"
    using assms(1,3,4) i items_nth[OF assms(1) i] a(1) m2(1) m3(1) m4(1)
    by (simp add: List_set_def to_object_def arr_get_def arr_set_def wf_List_def)
  moreover have "elems (l\<lparr>items := (items l)[?i := Some a]\<rparr>) ! ?i = a" using i assms(1) by (simp add: elems_def wf_List_def)
  ultimately show ?thesis by blast
qed

end
