(* ===== verification/Doh_Hash.thy ===== *)
theory Doh_Hash
  imports Doh_List Doh_String
begin

text \<open>
  The Hash object (\<^verbatim>\<open>Source/DOH/hash.c\<close>) and the attribute functions of \<^verbatim>\<open>base.c\<close> over it. A bucket is the list of its
  nodes in the order of the \<^verbatim>\<open>next\<close> pointers. The table of interned keys is the search tree that \<^verbatim>\<open>find_key\<close> grows, and
  like the store it is passed along. Keys that are C strings are interned; keys that are objects are compared by
  \<^verbatim>\<open>Hashval\<close> and \<^verbatim>\<open>Cmp\<close>, which only Strings implement.

  The table is compared with a finite map from texts to objects.
\<close>

section \<open>State\<close>

record HashNode =
  hn_key :: addr
  hn_object :: addr

record Hash =
  hashtable :: "HashNode list list"
  hashsize :: nat
  hash_nitems :: nat
  hash_file :: "addr option"
  hash_line :: int

datatype KeyValue = NoKey | KeyValue (cstr: string) (sstr: addr) (left: KeyValue) (right: KeyValue)

type_synonym keyed = "KeyValue \<times> DohMemory"

section \<open>Interned keys\<close>

fun strcmp :: "string \<Rightarrow> string \<Rightarrow> int" where
  "strcmp [] [] = 0"
| "strcmp [] (y # ys) = -1"
| "strcmp (x # xs) [] = 1"
| "strcmp (x # xs) (y # ys) = (if x = y then strcmp xs ys else if cc x < cc y then -1 else 1)"

fun search_key :: "KeyValue \<Rightarrow> string \<Rightarrow> addr option" where
  \<comment> \<open>the loop of \<^verbatim>\<open>find_key\<close>: smaller keys are on the right\<close>
  "search_key NoKey c = None"
| "search_key (KeyValue t a l r) c =
     (let d = strcmp t c in if d = 0 then Some a else if d < 0 then search_key l c else search_key r c)"

fun attach_key :: "KeyValue \<Rightarrow> string \<Rightarrow> addr \<Rightarrow> KeyValue" where
  \<comment> \<open>the new node in place of the null pointer at which the loop ends\<close>
  "attach_key NoKey c a = KeyValue c a NoKey NoKey"
| "attach_key (KeyValue t b l r) c a =
     (if strcmp t c < 0 then KeyValue t b (attach_key l c a) r else KeyValue t b l (attach_key r c a))"

definition find_key :: "string \<Rightarrow> keyed \<Rightarrow> (addr \<times> keyed) res" where
  "find_key c = (\<lambda>(root, m).
     case search_key root c of
       Some a \<Rightarrow> Inr (a, root, m)
     | None \<Rightarrow> res_bind (NewString c m) (\<lambda>(a, m1). Inr (a, attach_key root c a, DohIntern a m1)))"

definition to_key :: "DOHObj_or_char \<Rightarrow> keyed \<Rightarrow> (addr \<times> keyed) res" where
  \<comment> \<open>\<^verbatim>\<open>if (!DohCheck(k)) k = find_key(k);\<close>\<close>
  "to_key k st = (case k of Null \<Rightarrow> Inl NullDeref | Chars c \<Rightarrow> find_key c st
     | Obj a \<Rightarrow> if DohCheck (snd st) a then Inr (a, st) else Inl Undefined)"

definition Hashval :: "DohMemory \<Rightarrow> addr \<Rightarrow> nat" where
  "Hashval m a = (if obj_type (objs m a) = Some DohStringType then nat (hash_of (obj_text (objs m a))) else 0)"

definition Cmp :: "DohMemory \<Rightarrow> addr \<Rightarrow> addr \<Rightarrow> int" where
  \<comment> \<open>of two objects; only Strings have a \<^verbatim>\<open>doh_cmp\<close>\<close>
  "Cmp m a b = (if obj_type (objs m a) = obj_type (objs m b) \<and> obj_type (objs m a) = Some DohStringType
     then text_cmp (obj_text (objs m a)) (obj_text (objs m b)) else 1)"

section \<open>Nodes\<close>

definition NewNode :: "addr \<Rightarrow> addr \<Rightarrow> DohMemory \<Rightarrow> (HashNode \<times> DohMemory) res" where
  "NewNode k obj m = res_bind (Incref k m) (\<lambda>m1. res_bind (Incref obj m1) (\<lambda>m2. Inr (\<lparr>hn_key = k, hn_object = obj\<rparr>, m2)))"

definition DelNode :: "HashNode \<Rightarrow> DohMemory \<Rightarrow> DohMemory res" where
  "DelNode hn m = res_bind (DohDelete (hn_key hn) m) (DohDelete (hn_object hn))"

definition DelHash :: "Hash \<Rightarrow> DohMemory \<Rightarrow> DohMemory res" where
  "DelHash h m = each (each DelNode) (hashtable h) m"

fun clear_buckets :: "nat \<Rightarrow> HashNode list list \<Rightarrow> DohMemory \<Rightarrow> (HashNode list list \<times> DohMemory) res" where
  \<comment> \<open>the loop of \<^verbatim>\<open>Hash_clear\<close> from the index \<open>length table - k\<close>\<close>
  "clear_buckets 0 t m = Inr (t, m)"
| "clear_buckets (Suc k) t m =
     res_bind (arr_get t (length t - Suc k)) (\<lambda>b.
     res_bind (each DelNode b m) (\<lambda>m1. clear_buckets k (t[length t - Suc k := []]) m1))"

definition Hash_clear :: "Hash \<Rightarrow> DohMemory \<Rightarrow> (Hash \<times> DohMemory) res" where
  "Hash_clear h m = res_bind (clear_buckets (hashsize h) (hashtable h) m) (\<lambda>(t, m1). Inr (h\<lparr>hashtable := t, hash_nitems := 0\<rparr>, m1))"

definition HASH_INIT_SIZE :: nat where
  "HASH_INIT_SIZE = 7"

definition DohNewHash :: Hash where
  "DohNewHash = \<lparr>hashtable = replicate HASH_INIT_SIZE [], hashsize = HASH_INIT_SIZE, hash_nitems = 0, hash_file = None, hash_line = 0\<rparr>"

section \<open>The size of the table\<close>

definition good_size :: "nat \<Rightarrow> bool" where
  \<comment> \<open>sizes at which the search for a new size stops\<close>
  "good_size n \<longleftrightarrow> (\<forall>p. odd p \<and> 3 \<le> p \<and> p < n div 2 \<longrightarrow> \<not> p dvd n)"

lemma least_factor:
  assumes "1 < (n::nat)"
  shows "\<exists>q. 1 < q \<and> q dvd n \<and> (\<forall>p. 1 < p \<and> p < q \<longrightarrow> \<not> p dvd q)"
proof -
  define q where "q = (LEAST q. 1 < q \<and> q dvd n)"
  have q: "1 < q \<and> q dvd n" unfolding q_def using LeastI[of "\<lambda>q. 1 < q \<and> q dvd n" n] assms by simp
  moreover have "\<not> p dvd q" if "1 < p" "p < q" for p
    using not_less_Least[of p "\<lambda>q. 1 < q \<and> q dvd n", folded q_def] that q dvd_trans[of p q n] by blast
  ultimately show ?thesis by blast
qed

lemma good_odd: "\<exists>q. n \<le> q \<and> odd q \<and> good_size q"
proof -
  have "1 \<le> (fact (n + 2) :: nat)" by (rule fact_ge_1)
  then have "1 < fact (n + 2) + (1::nat)" by linarith
  then obtain q where q: "1 < q" "q dvd fact (n + 2) + (1::nat)" "\<forall>p. 1 < p \<and> p < q \<longrightarrow> \<not> p dvd q" using least_factor by blast
  have above: "n + 2 < q"
  proof (rule ccontr)
    assume "\<not> n + 2 < q"
    then have "q dvd fact (n + 2)" using q(1) by (intro dvd_fact) auto
    then have "q dvd 1" using q(2) dvd_add_right_iff by blast
    then show False using q(1) by simp
  qed
  moreover have "odd q" using q(3)[rule_format, of 2] above by auto
  moreover have "\<not> p dvd q" if "3 \<le> p" "p < q div 2" for p using q(3)[rule_format, of p] that by linarith
  then have "good_size q" by (simp add: good_size_def)
  ultimately show ?thesis by (intro exI[of _ q]) simp
qed


lemma good_even: "\<exists>q. n \<le> q \<and> even q \<and> good_size q"
proof -
  have "\<not> p dvd 2 ^ (n + 1)" if "odd p" "3 \<le> p" for p :: nat
  proof
    assume d: "p dvd 2 ^ (n + 1)"
    have "coprime p (2 ^ (n + 1))" using that(1) by simp
    then have "p dvd 1" using coprime_common_divisor[OF _ dvd_refl d] by blast
    then show False using that(2) by simp
  qed
  then have "good_size (2 ^ (n + 1))" by (simp add: good_size_def)
  moreover have "n \<le> 2 ^ (n + 1)" using less_exp[of "n + 1"] by linarith
  ultimately show ?thesis by (intro exI[of _ "2 ^ (n + 1)"]) simp
qed

definition goal_size :: "nat \<Rightarrow> nat" where
  "goal_size n = (LEAST q. n \<le> q \<and> even q = even n \<and> good_size q)"

lemma goal_size: "n \<le> goal_size n \<and> even (goal_size n) = even n \<and> good_size (goal_size n)"
  unfolding goal_size_def by (rule LeastI_ex) (use good_odd[of n] good_even[of n] in \<open>cases "even n"; auto\<close>)

lemma goal_size_step:
  assumes "\<not> good_size n"
  shows "goal_size (n + 2) = goal_size n" "n < goal_size n"
proof -
  show less: "n < goal_size n" using goal_size[of n] assms by (metis le_neq_implies_less)
  have "n + 2 \<le> q \<longleftrightarrow> n \<le> q" if "even q = even n" "good_size q" for q
  proof -
    have "q \<noteq> n" "q \<noteq> n + 1" using that assms by auto
    then show ?thesis by linarith
  qed
  then have "(\<lambda>q. n + 2 \<le> q \<and> even q = even (n + 2) \<and> good_size q) = (\<lambda>q. n \<le> q \<and> even q = even n \<and> good_size q)" by (intro ext) auto
  then show "goal_size (n + 2) = goal_size n" by (simp add: goal_size_def)
qed

function next_size :: "nat \<Rightarrow> nat \<Rightarrow> nat" where
  \<comment> \<open>the loop of \<^verbatim>\<open>resize\<close> over \<open>newsize\<close> and \<open>p\<close>\<close>
  "next_size newsize p =
     (if p < newsize div 2
      then if (newsize div p) * p = newsize then next_size (newsize + 2) 3 else next_size newsize (p + 2)
      else newsize)"
  by pat_completeness auto
termination
proof (relation "measures [\<lambda>(n, p). if odd p \<and> 3 \<le> p then 0 else 1, \<lambda>(n, p). goal_size n - n, \<lambda>(n, p). n - p]", goal_cases)
  case (2 n p)
  show ?case
  proof (cases "odd p \<and> 3 \<le> p")
    case True
    then have "p dvd n" using 2 by (metis dvd_triv_right)
    then have "\<not> good_size n" using True 2 by (auto simp: good_size_def)
    note g = goal_size_step[OF this]
    have "even (goal_size n) = even n" using goal_size by blast
    then have "goal_size n \<noteq> n + 1" by auto
    then show ?thesis using True g by auto
  qed auto
qed auto

declare next_size.simps [simp del]

text \<open>The search ends, and an odd start gives a size without divisors.\<close>

lemma next_size_result:
  "odd p \<Longrightarrow> 3 \<le> p \<Longrightarrow> (\<forall>q. odd q \<and> 3 \<le> q \<and> q < p \<longrightarrow> \<not> q dvd n) \<Longrightarrow>
   n \<le> next_size n p \<and> even (next_size n p) = even n \<and> good_size (next_size n p)"
proof (induction n p rule: next_size.induct)
  case (1 n p)
  show ?case
  proof (cases "p < n div 2")
    case True
    show ?thesis
    proof (cases "(n div p) * p = n")
      case t: True
      have "next_size n p = next_size (n + 2) 3" using True t by (subst next_size.simps) simp
      moreover have "\<forall>q. odd q \<and> 3 \<le> q \<and> q < (3::nat) \<longrightarrow> \<not> q dvd n + 2" by linarith
      ultimately show ?thesis using 1(1)[OF True t] by auto
    next
      case f: False
      then have "\<not> p dvd n" by (metis dvd_div_mult_self)
      have "\<not> q dvd n" if "odd q" "3 \<le> q" "q < p + 2" for q
      proof -
        have "q < p \<or> q = p" using that(1,3) 1(3) by presburger
        then show ?thesis using 1(5) that \<open>\<not> p dvd n\<close> by blast
      qed
      moreover have "next_size n p = next_size n (p + 2)" using True f by (subst next_size.simps) simp
      ultimately show ?thesis using 1(2)[OF True f] 1(3,4) by auto
    qed
  next
    case False
    then have "next_size n p = n" by (subst next_size.simps) simp
    then show ?thesis using 1(5) False by (auto simp: good_size_def)
  qed
qed

lemma good_size_prime:
  assumes "good_size n" "odd n" "1 < d" "d < n"
  shows "\<not> d dvd n"
proof
  assume d: "d dvd n"
  then obtain e where e: "n = d * e" by blast
  have odd: "odd d" "odd e" using assms(2) e by auto
  have "e \<noteq> 1" using e assms(4) by auto
  then have "3 \<le> e" "3 \<le> d" using odd assms(3) by presburger+
  then have "3 * d \<le> n" "9 \<le> n" using e mult_le_mono[of 3 d 3 e] by simp_all
  then have "d < n div 2" by linarith
  then show False using assms(1) odd(1) \<open>3 \<le> d\<close> d by (auto simp: good_size_def)
qed


definition place :: "DohMemory \<Rightarrow> nat \<Rightarrow> HashNode \<Rightarrow> HashNode list list \<Rightarrow> HashNode list list res" where
  "place m newsize n table =
     (let hv = Hashval m (hn_key n) mod newsize in
      res_bind (arr_get table hv) (\<lambda>chain. arr_set table hv (n # chain)))"

definition resize :: "DohMemory \<Rightarrow> Hash \<Rightarrow> Hash res" where
  "resize m h =
     (if hash_nitems h < 2 * hashsize h then Inr h
      else let newsize = next_size (2 * hashsize h + 1) 3 in
           res_bind (each (each (place m newsize)) (hashtable h) (replicate newsize []))
             (\<lambda>table. Inr (h\<lparr>hashtable := table, hashsize := newsize\<rparr>)))"

section \<open>Attributes\<close>

fun scan_chain :: "DohMemory \<Rightarrow> addr \<Rightarrow> HashNode list \<Rightarrow> (HashNode list \<times> HashNode \<times> HashNode list) option" where
  \<comment> \<open>the first node with an equal key, the nodes before and after it\<close>
  "scan_chain m k [] = None"
| "scan_chain m k (n # ns) =
     (if Cmp m (hn_key n) k = 0 then Some ([], n, ns)
      else case scan_chain m k ns of None \<Rightarrow> None | Some (pre, x, post) \<Rightarrow> Some (n # pre, x, post))"

definition bucket :: "DohMemory \<Rightarrow> Hash \<Rightarrow> addr \<Rightarrow> nat" where
  "bucket m h k = Hashval m k mod hashsize h"

definition Hash_delattr :: "Hash \<Rightarrow> DOHObj_or_char \<Rightarrow> keyed \<Rightarrow> (int \<times> Hash \<times> keyed) res" where
  "Hash_delattr h k st =
     res_bind (to_key k st) (\<lambda>(ka, root, m).
     let hv = bucket m h ka in
     res_bind (arr_get (hashtable h) hv) (\<lambda>chain.
     case scan_chain m ka chain of
       Some (pre, n, post) \<Rightarrow>
         res_bind (arr_set (hashtable h) hv (pre @ post)) (\<lambda>t.
         res_bind (DelNode n m) (\<lambda>m1.
         Inr (1, h\<lparr>hashtable := t, hash_nitems := hash_nitems h - 1\<rparr>, root, m1)))
     | None \<Rightarrow> Inr (0, h, root, m)))"

definition replace_object :: "Hash \<Rightarrow> nat \<Rightarrow> HashNode list \<Rightarrow> HashNode \<Rightarrow> HashNode list \<Rightarrow> addr \<Rightarrow> DohMemory \<Rightarrow> (Hash \<times> DohMemory) res" where
  \<comment> \<open>the node exists\<close>
  "replace_object h hv pre n post oa m =
     (if hn_object n = oa then Inr (h, m)
      else res_bind (DohDelete (hn_object n) m) (\<lambda>m1.
        res_bind (arr_set (hashtable h) hv (pre @ n\<lparr>hn_object := oa\<rparr> # post)) (\<lambda>t.
        res_bind (Incref oa m1) (\<lambda>m2. Inr (h\<lparr>hashtable := t\<rparr>, m2)))))"

definition add_node :: "Hash \<Rightarrow> nat \<Rightarrow> HashNode list \<Rightarrow> addr \<Rightarrow> addr \<Rightarrow> DohMemory \<Rightarrow> (Hash \<times> DohMemory) res" where
  \<comment> \<open>a new node at the end of the chain\<close>
  "add_node h hv chain ka oa m =
     res_bind (NewNode ka oa m) (\<lambda>(n, m1).
     res_bind (arr_set (hashtable h) hv (chain @ [n])) (\<lambda>t.
     res_bind (resize m1 (h\<lparr>hashtable := t, hash_nitems := hash_nitems h + 1\<rparr>)) (\<lambda>h1. Inr (h1, m1))))"

definition Hash_setattr :: "Hash \<Rightarrow> DOHObj_or_char \<Rightarrow> DOHObj_or_char \<Rightarrow> keyed \<Rightarrow> (int \<times> Hash \<times> keyed) res" where
  "Hash_setattr h k obj st =
     (if obj = Null then Hash_delattr h k st
      else res_bind (to_key k st) (\<lambda>(ka, root, m).
        res_bind (to_object obj m) (\<lambda>(oa, m1).
        let hv = bucket m1 h ka in
        res_bind (arr_get (hashtable h) hv) (\<lambda>chain.
        case scan_chain m1 ka chain of
          Some (pre, n, post) \<Rightarrow> res_bind (replace_object h hv pre n post oa m1) (\<lambda>(h1, m2). Inr (1, h1, root, m2))
        | None \<Rightarrow> res_bind (add_node h hv chain ka oa m1) (\<lambda>(h1, m2). Inr (0, h1, root, m2))))))"

fun get_chain :: "DohMemory \<Rightarrow> addr \<Rightarrow> HashNode list \<Rightarrow> addr option \<Rightarrow> addr option res" where
  \<comment> \<open>the last node with an equal key; a key that is not a String has neither \<^verbatim>\<open>doh_equal\<close> nor \<^verbatim>\<open>doh_cmp\<close>\<close>
  "get_chain m k [] obj = Inr obj"
| "get_chain m k (n # ns) obj =
     (if obj_type (objs m k) = obj_type (objs m (hn_key n))
      then if obj_type (objs m k) = Some DohStringType
           then get_chain m k ns (if obj_text (objs m k) = obj_text (objs m (hn_key n)) then Some (hn_object n) else obj)
           else Inl NullDeref
      else get_chain m k ns obj)"

definition Hash_getattr :: "Hash \<Rightarrow> DOHObj_or_char \<Rightarrow> keyed \<Rightarrow> (addr option \<times> keyed) res" where
  "Hash_getattr h k st =
     res_bind (to_key k st) (\<lambda>(ka, root, m).
     res_bind (arr_get (hashtable h) (bucket m h ka)) (\<lambda>chain.
     res_bind (get_chain m ka chain None) (\<lambda>obj. Inr (obj, root, m))))"

definition Hash_len :: "Hash \<Rightarrow> nat" where
  "Hash_len h = hash_nitems h"

definition copy_node :: "HashNode \<Rightarrow> Hash \<times> keyed \<Rightarrow> (Hash \<times> keyed) res" where
  "copy_node n = (\<lambda>(nh, st). res_bind (Hash_setattr nh (Obj (hn_key n)) (Obj (hn_object n)) st) (\<lambda>(_, nh1, st1). Inr (nh1, st1)))"

definition CopyHash :: "Hash \<Rightarrow> keyed \<Rightarrow> (Hash \<times> keyed) res" where
  "CopyHash h = (\<lambda>(root, m).
     res_bind (opt_ref Incref (hash_file h) m) (\<lambda>m1.
     each (each copy_node) (hashtable h)
       (\<lparr>hashtable = replicate (hashsize h) [], hashsize = hashsize h, hash_nitems = 0, hash_file = hash_file h, hash_line = hash_line h\<rparr>,
        root, m1)))"

definition Hash_setfile :: "Hash \<Rightarrow> DOHObj_or_char \<Rightarrow> DohMemory \<Rightarrow> (Hash \<times> DohMemory) res" where
  "Hash_setfile h f m =
     res_bind (to_object f m) (\<lambda>(a, m1).
     res_bind (Incref a m1) (\<lambda>m2.
     res_bind (opt_ref DohDelete (hash_file h) m2) (\<lambda>m3.
     Inr (h\<lparr>hash_file := Some a\<rparr>, m3))))"

definition Hash_setline :: "Hash \<Rightarrow> int \<Rightarrow> Hash" where
  "Hash_setline h n = h\<lparr>hash_line := n\<rparr>"

section \<open>Iteration\<close>

record HashIterator =
  hi_index :: nat
  hi_current :: "HashNode list"
  hi_key :: "addr option"
  hi_item :: "addr option"

function skip_empty :: "Hash \<Rightarrow> nat \<Rightarrow> nat res" where
  \<comment> \<open>\<^verbatim>\<open>while ((iter._index < h->hashsize) && !h->hashtable[iter._index]) iter._index++;\<close>\<close>
  "skip_empty h i =
     (if i < hashsize h
      then res_bind (arr_get (hashtable h) i) (\<lambda>b. if b = [] then skip_empty h (i + 1) else Inr i)
      else Inr i)"
  by pat_completeness auto
termination by (relation "measure (\<lambda>(h, i). hashsize h - i)") auto

declare skip_empty.simps [simp del]

definition at_bucket :: "Hash \<Rightarrow> nat \<Rightarrow> HashIterator res" where
  \<comment> \<open>the iterator on the first node of the next bucket that has one\<close>
  "at_bucket h i =
     res_bind (skip_empty h i) (\<lambda>j.
     if j \<ge> hashsize h then Inr \<lparr>hi_index = j, hi_current = [], hi_key = None, hi_item = None\<rparr>
     else res_bind (arr_get (hashtable h) j) (\<lambda>b.
       case b of [] \<Rightarrow> Inl NullDeref
       | n # ns \<Rightarrow> Inr \<lparr>hi_index = j, hi_current = ns, hi_key = Some (hn_key n), hi_item = Some (hn_object n)\<rparr>))"

definition Hash_firstiter :: "Hash \<Rightarrow> HashIterator res" where
  "Hash_firstiter h = at_bucket h 0"

definition Hash_nextiter :: "Hash \<Rightarrow> HashIterator \<Rightarrow> HashIterator res" where
  "Hash_nextiter h it =
     (case hi_current it of [] \<Rightarrow> at_bucket h (hi_index it + 1)
      | n # ns \<Rightarrow> Inr \<lparr>hi_index = hi_index it, hi_current = ns, hi_key = Some (hn_key n), hi_item = Some (hn_object n)\<rparr>)"

fun keys_loop :: "nat \<Rightarrow> Hash \<Rightarrow> HashIterator \<Rightarrow> List \<Rightarrow> DohMemory \<Rightarrow> (List \<times> DohMemory) res" where
  \<comment> \<open>\<^verbatim>\<open>for (i = First(so); i.key; i = Next(i)) Append(keys, i.key);\<close> with fuel\<close>
  "keys_loop 0 h it keys m = Inl Diverges"
| "keys_loop (Suc f) h it keys m =
     (case hi_key it of
        None \<Rightarrow> Inr (keys, m)
      | Some k \<Rightarrow> res_bind (List_insert keys DOH_END (Obj k) m) (\<lambda>(_, keys1, m1).
          res_bind (Hash_nextiter h it) (\<lambda>it1. keys_loop f h it1 keys1 m1)))"

definition Hash_keys :: "Hash \<Rightarrow> DohMemory \<Rightarrow> (List \<times> DohMemory) res" where
  "Hash_keys h m = res_bind (Hash_firstiter h) (\<lambda>it. keys_loop (hash_nitems h + 1) h it DohNewList m)"

section \<open>Attribute functions of base.c\<close>

definition DohNone :: addr where
  \<comment> \<open>the first object that \<^verbatim>\<open>InitPools\<close> makes\<close>
  "DohNone = 0"

definition DohGetattr :: "Hash \<Rightarrow> DOHObj_or_char \<Rightarrow> keyed \<Rightarrow> (addr option \<times> keyed) res" where
  "DohGetattr h name st = res_bind (Hash_getattr h name st) (\<lambda>(r, st1). Inr (if r = Some DohNone then None else r, st1))"

definition DohGetFlagAttr :: "Hash \<Rightarrow> DOHObj_or_char \<Rightarrow> keyed \<Rightarrow> (addr option \<times> keyed) res" where
  "DohGetFlagAttr h name st =
     res_bind (DohGetattr h name st) (\<lambda>(val, st1).
     case val of None \<Rightarrow> Inr (None, st1)
     | Some a \<Rightarrow>
         if obj_type (objs (snd st1) a) \<noteq> Some DohStringType then Inr (Some a, st1)
         else Inr (if strcmp (obj_text (objs (snd st1) a)) ''0'' \<noteq> 0 then Some a else None, st1))"

definition DohSetFlag :: "Hash \<Rightarrow> DOHObj_or_char \<Rightarrow> keyed \<Rightarrow> (Hash \<times> keyed) res" where
  "DohSetFlag h name = (\<lambda>(root, m).
     res_bind (NewString ''1'' m) (\<lambda>(a, m1).
     res_bind (Hash_setattr h name (Obj a) (root, m1)) (\<lambda>(_, h1, st1). Inr (h1, st1))))"


section \<open>The table of interned keys\<close>

lemma strcmp_eq_0: "strcmp a b = 0 \<longleftrightarrow> a = b"
  by (induction a b rule: strcmp.induct) auto

lemma search_attach:
  "search_key root c = None \<Longrightarrow> search_key (attach_key root c a) c' = (if c' = c then Some a else search_key root c')"
  by (induction root) (auto simp: Let_def strcmp_eq_0 split: if_splits)

definition string_at :: "DohMemory \<Rightarrow> addr \<Rightarrow> string \<Rightarrow> bool" where
  "string_at m a t \<longleftrightarrow> obj_type (objs m a) = Some DohStringType \<and> obj_text (objs m a) = t"

definition wf_root :: "KeyValue \<Rightarrow> DohMemory \<Rightarrow> bool" where
  "wf_root root m \<longleftrightarrow> (\<forall>c a. search_key root c = Some a \<longrightarrow> interned m a \<and> string_at m a c)"

lemma string_at_live: "string_at m a t \<Longrightarrow> live m a"
  by (simp add: string_at_def live_def)

lemma same_string: "same_obj m m' a \<Longrightarrow> string_at m' a t \<longleftrightarrow> string_at m a t"
  by (simp add: same_obj_def string_at_def)

lemma wf_root_frees:
  assumes "wf_root root m" "frees m m'" "counted Z m' V"
  shows "wf_root root m'"
  unfolding wf_root_def
proof (intro allI impI)
  fix c a assume "search_key root c = Some a"
  then have a: "interned m a" "string_at m a c" using assms(1) by (simp_all add: wf_root_def)
  then have i: "interned m' a" using assms(2) by (simp add: frees_def)
  then have "same_obj m m' a" using interned_live[OF assms(3)] assms(2) by (simp add: frees_def)
  then show "interned m' a \<and> string_at m' a c" using a(2) i same_string by simp
qed

lemma wf_root_creates: "wf_root root m \<Longrightarrow> creates m m' \<Longrightarrow> wf_root root m'"
  by (auto simp: wf_root_def creates_def same_obj_def string_at_def live_def)

lemma find_key_spec:
  assumes "counted {} m V" "wf_root root m"
  shows "\<exists>a root' m'. find_key c (root, m) = Inr (a, root', m') \<and> counted {} m' V \<and> wf_root root' m' \<and> interned m' a \<and> string_at m' a c \<and>
    creates m m' \<and> search_key root' c = Some a"
proof (cases "search_key root c")
  case (Some a)
  then show ?thesis using assms by (auto simp: find_key_def wf_root_def)
next
  case None
  obtain a m1 where a: "NewString c m = Inr (a, m1)" "\<not> live m a" "counted {} m1 (add_mset a V)" "creates m m1" "obj_text (objs m1 a) = c"
    "obj_type (objs m1 a) = Some DohStringType" using NewString_balanced[OF assms(1), of c] by blast
  let ?m = "DohIntern a m1"
  have i: "interned ?m a" "string_at ?m a c" using a(5,6) by (simp_all add: interned_def DohIntern_def string_at_def)
  have "counted {} ?m (add_mset a V)" using DohIntern_balanced[OF a(3)] by simp
  then have b: "counted {} ?m V" using balanced_interned[OF i(1)] by blast
  have "live m b \<Longrightarrow> live ?m b \<and> same_obj m ?m b" for b
    using a(2,4) by (cases "b = a") (auto simp: creates_def same_obj_def live_def interned_def DohIntern_def)
  then have cr: "creates m ?m" by (simp add: creates_def)
  have "wf_root (attach_key root c a) ?m"
    using wf_root_creates[OF assms(2) cr] i by (auto simp: wf_root_def search_attach[OF None])
  then show ?thesis using None a(1) b i cr search_attach[OF None, of a c] by (simp add: find_key_def)
qed

definition key_text :: "DohMemory \<Rightarrow> DOHObj_or_char \<Rightarrow> string" where
  "key_text m k = (case k of Null \<Rightarrow> [] | Chars c \<Rightarrow> c | Obj a \<Rightarrow> obj_text (objs m a))"

definition key_given :: "DOHObj_or_char \<Rightarrow> DohMemory \<Rightarrow> addr multiset \<Rightarrow> bool" where
  \<comment> \<open>keys a caller may pass: a text, or a String object that is held or interned\<close>
  "key_given k m V \<longleftrightarrow> (case k of Null \<Rightarrow> False | Chars c \<Rightarrow> True
     | Obj a \<Rightarrow> obj_type (objs m a) = Some DohStringType)"

lemma to_key_spec:
  assumes "counted {} m V" "wf_root root m" "key_given k m V"
  shows "\<exists>ka root' m'. to_key k (root, m) = Inr (ka, root', m') \<and> counted {} m' V \<and> wf_root root' m' \<and> string_at m' ka (key_text m k) \<and> creates m m'"
proof (cases k)
  case (Obj a)
  then have s: "string_at m a (key_text m k)" using assms(3) by (simp add: string_at_def key_given_def key_text_def)
  then have "DohCheck m a" using live_check[OF balancedD(1)[OF assms(1)]] string_at_live by blast
  then show ?thesis using Obj assms s by (auto simp: to_key_def)
next
  case (Chars c)
  then show ?thesis using find_key_spec[OF assms(1,2), of c] by (auto simp: to_key_def key_text_def)
qed (use assms(3) in \<open>simp add: key_given_def\<close>)

section \<open>The invariant and the map\<close>

definition nodes :: "Hash \<Rightarrow> HashNode list" where
  "nodes h = concat (hashtable h)"

definition node_text :: "DohMemory \<Rightarrow> HashNode \<Rightarrow> string" where
  "node_text m n = obj_text (objs m (hn_key n))"

definition bucket_ok :: "DohMemory \<Rightarrow> HashNode list list \<Rightarrow> bool" where
  "bucket_ok m t \<longleftrightarrow> (\<forall>i < length t. \<forall>n \<in> set (t ! i). obj_type (objs m (hn_key n)) = Some DohStringType \<and> Hashval m (hn_key n) mod length t = i)"

definition wf_table :: "DohMemory \<Rightarrow> Hash \<Rightarrow> bool" where
  "wf_table m h \<longleftrightarrow> length (hashtable h) = hashsize h \<and> odd (hashsize h) \<and> hash_nitems h = length (nodes h) \<and> bucket_ok m (hashtable h) \<and>
     distinct (map (node_text m) (nodes h))"

definition wf_Hash :: "DohMemory \<Rightarrow> Hash \<Rightarrow> bool" where
  "wf_Hash m h \<longleftrightarrow> wf_table m h \<and> hash_nitems h < 2 * hashsize h"

definition hash_map :: "DohMemory \<Rightarrow> Hash \<Rightarrow> string \<rightharpoonup> addr" where
  "hash_map m h = map_of (map (\<lambda>n. (node_text m n, hn_object n)) (nodes h))"

definition node_refs :: "HashNode list \<Rightarrow> addr multiset" where
  "node_refs ns = mset (map hn_key ns) + mset (map hn_object ns)"

definition hash_refs :: "Hash \<Rightarrow> addr multiset" where
  "hash_refs h = node_refs (nodes h) + (case hash_file h of None \<Rightarrow> {#} | Some f \<Rightarrow> {#f#})"

lemma DohNewHash_wf: "wf_Hash m DohNewHash \<and> hash_map m DohNewHash = Map.empty \<and> hash_refs DohNewHash = {#}"
  by (simp add: wf_Hash_def wf_table_def DohNewHash_def HASH_INIT_SIZE_def nodes_def bucket_ok_def hash_map_def hash_refs_def node_refs_def)

lemma concat_at:
  assumes "i < length t"
  shows "concat t = concat (take i t) @ t ! i @ concat (drop (Suc i) t)"
    and "concat (t[i := c]) = concat (take i t) @ c @ concat (drop (Suc i) t)"
  using arg_cong[OF id_take_nth_drop[OF assms], of concat] upd_conv_take_nth_drop[OF assms, of c] by simp_all

lemma bucket_ok_nodes: "bucket_ok m t \<Longrightarrow> n \<in> set (concat t) \<Longrightarrow> obj_type (objs m (hn_key n)) = Some DohStringType \<and> n \<in> set (t ! (Hashval m (hn_key n) mod length t))"
proof -
  assume ok: "bucket_ok m t" and "n \<in> set (concat t)"
  then obtain b where b: "b \<in> set t" "n \<in> set b" by auto
  then obtain i where i: "i < length t" "b = t ! i" by (auto simp: in_set_conv_nth)
  then have "obj_type (objs m (hn_key n)) = Some DohStringType \<and> Hashval m (hn_key n) mod length t = i"
    using ok b(2) unfolding bucket_ok_def by blast
  then show ?thesis using b(2) i by blast
qed

lemma Hashval_same: "string_at m a t \<Longrightarrow> string_at m b t \<Longrightarrow> Hashval m a = Hashval m b"
  by (simp add: Hashval_def string_at_def)

lemma Hashval_same_obj: "same_obj m m' a \<Longrightarrow> Hashval m' a = Hashval m a"
  by (simp add: Hashval_def same_obj_def)

lemma wf_same:
  assumes "\<And>n. n \<in> set (nodes h) \<Longrightarrow> same_obj m m' (hn_key n)"
  shows "wf_table m' h = wf_table m h" "wf_Hash m' h = wf_Hash m h" "hash_map m' h = hash_map m h"
proof -
  have t: "map (node_text m') (nodes h) = map (node_text m) (nodes h)" using assms by (simp add: node_text_def same_obj_def)
  have "bucket_ok m' (hashtable h) = bucket_ok m (hashtable h)"
  proof -
    have "same_obj m m' (hn_key n)" if "i < length (hashtable h)" "n \<in> set (hashtable h ! i)" for i n
      using that nth_mem[OF that(1)] by (intro assms) (auto simp: nodes_def)
    then have e: "obj_type (objs m' (hn_key n)) = obj_type (objs m (hn_key n))" "Hashval m' (hn_key n) = Hashval m (hn_key n)"
      if "i < length (hashtable h)" "n \<in> set (hashtable h ! i)" for i n
      using that Hashval_same_obj[of m m' "hn_key n"] unfolding same_obj_def by blast+
    show ?thesis unfolding bucket_ok_def by (simp add: e)
  qed
  then show w: "wf_table m' h = wf_table m h" unfolding wf_table_def t by simp
  then show "wf_Hash m' h = wf_Hash m h" by (simp add: wf_Hash_def)
  have "map (\<lambda>n. (node_text m' n, hn_object n)) (nodes h) = map (\<lambda>n. (node_text m n, hn_object n)) (nodes h)"
    using assms by (simp add: node_text_def same_obj_def)
  then show "hash_map m' h = hash_map m h" unfolding hash_map_def by (simp only:)
qed

lemma hash_map_set:
  assumes "distinct (map (node_text m) (nodes h))"
  shows "hash_map m h t = Some v \<longleftrightarrow> (\<exists>n \<in> set (nodes h). node_text m n = t \<and> hn_object n = v)"
proof -
  have "distinct (map fst (map (\<lambda>n. (node_text m n, hn_object n)) (nodes h)))" using assms by (simp add: comp_def)
  then show ?thesis unfolding hash_map_def by (auto simp: map_of_eq_Some_iff)
qed


lemma hash_map_None: "hash_map m h t = None \<longleftrightarrow> (\<forall>n \<in> set (nodes h). node_text m n \<noteq> t)"
  by (auto simp: hash_map_def map_of_eq_None_iff image_iff)

lemma same_nodes:
  assumes "mset (nodes h') = mset (nodes h)" "distinct (map (node_text m) (nodes h))"
  shows "distinct (map (node_text m) (nodes h'))" "hash_map m h' = hash_map m h" "node_refs (nodes h') = node_refs (nodes h)"
proof -
  show d: "distinct (map (node_text m) (nodes h'))" using assms by (metis mset_eq_imp_distinct_iff mset_map)
  have "set (nodes h') = set (nodes h)" using assms(1) mset_eq_setD by blast
  then have "hash_map m h' t = Some v \<longleftrightarrow> hash_map m h t = Some v" for t v using hash_map_set[OF d] hash_map_set[OF assms(2)] by simp
  then show "hash_map m h' = hash_map m h" by (metis ext not_None_eq)
  show "node_refs (nodes h') = node_refs (nodes h)" using assms(1) by (simp add: node_refs_def)
qed

section \<open>Placing nodes\<close>

lemma each_append: "each f (xs @ ys) m = res_bind (each f xs m) (each f ys)"
  by (induction xs arbitrary: m) (auto simp: res_bind_def split: sum.splits)

lemma each_each: "each (each f) xss m = each f (concat xss) m"
  by (induction xss arbitrary: m) (auto simp: each_append res_bind_def split: sum.splits)

lemma place_spec:
  assumes "0 < length t" "bucket_ok m t" "obj_type (objs m (hn_key n)) = Some DohStringType"
  shows "\<exists>t'. place m (length t) n t = Inr t' \<and> length t' = length t \<and> bucket_ok m t' \<and> mset (concat t') = add_mset n (mset (concat t))"
proof -
  let ?i = "Hashval m (hn_key n) mod length t"
  have i: "?i < length t" using assms(1) by simp
  let ?t = "t[?i := n # t ! ?i]"
  have "bucket_ok m ?t" unfolding bucket_ok_def
  proof (intro allI impI ballI)
    fix j x assume "j < length ?t" "x \<in> set (?t ! j)"
    then show "obj_type (objs m (hn_key x)) = Some DohStringType \<and> Hashval m (hn_key x) mod length ?t = j"
      using assms(2,3) i by (cases "j = ?i") (auto simp: bucket_ok_def)
  qed
  moreover have "mset (concat ?t) = add_mset n (mset (concat t))" by (simp add: concat_at[OF i])
  ultimately show ?thesis using i by (simp add: place_def Let_def arr_get_def arr_set_def)
qed

lemma each_place:
  assumes "0 < N"
  shows "length t = N \<Longrightarrow> bucket_ok m t \<Longrightarrow> (\<And>n. n \<in> set ns \<Longrightarrow> obj_type (objs m (hn_key n)) = Some DohStringType) \<Longrightarrow>
    \<exists>t'. each (place m N) ns t = Inr t' \<and> length t' = N \<and> bucket_ok m t' \<and> mset (concat t') = mset ns + mset (concat t)"
proof (induction ns arbitrary: t)
  case (Cons n ns)
  obtain t1 where t1: "place m N n t = Inr t1" "length t1 = N" "bucket_ok m t1" "mset (concat t1) = add_mset n (mset (concat t))"
    using place_spec[of t m n] Cons.prems assms by auto
  then show ?case using Cons.IH[OF t1(2,3)] Cons.prems(3) by auto
qed simp

lemma resize_spec:
  assumes "wf_table m h" "hash_nitems h \<le> 2 * hashsize h"
  shows "\<exists>h'. resize m h = Inr h' \<and> wf_Hash m h' \<and> mset (nodes h') = mset (nodes h) \<and> hash_file h' = hash_file h \<and> hashsize h \<le> hashsize h' \<and>
    (hash_nitems h < 2 * hashsize h \<longrightarrow> hashsize h' = hashsize h) \<and> hash_line h' = hash_line h"
proof (cases "hash_nitems h < 2 * hashsize h")
  case True
  then show ?thesis using assms(1) by (auto simp: resize_def wf_Hash_def)
next
  case False
  define N where "N = next_size (2 * hashsize h + 1) 3"
  have none: "\<forall>q. odd q \<and> 3 \<le> q \<and> q < (3::nat) \<longrightarrow> \<not> q dvd 2 * hashsize h + 1" by linarith
  have N: "2 * hashsize h + 1 \<le> N" "odd N" using next_size_result[OF _ _ none] by (simp_all add: N_def)
  have "bucket_ok m (hashtable h)" using assms(1) by (simp add: wf_table_def)
  then have ty: "n \<in> set (concat (hashtable h)) \<Longrightarrow> obj_type (objs m (hn_key n)) = Some DohStringType" for n using bucket_ok_nodes by blast
  have "\<exists>t. each (each (place m N)) (hashtable h) (replicate N []) = Inr t \<and> length t = N \<and> bucket_ok m t \<and> mset (concat t) = mset (concat (hashtable h)) + mset (concat (replicate N []))"
    unfolding each_each by (rule each_place) (use N ty in \<open>auto simp: bucket_ok_def\<close>)
  then obtain t where t: "each (each (place m N)) (hashtable h) (replicate N []) = Inr t" "length t = N" "bucket_ok m t" "mset (concat t) = mset (concat (hashtable h))"
    by auto
  let ?h = "h\<lparr>hashtable := t, hashsize := N\<rparr>"
  have ms: "mset (nodes ?h) = mset (nodes h)" using t(4) by (simp add: nodes_def)
  then have "length (nodes ?h) = length (nodes h)" using mset_eq_length by blast
  then have "wf_Hash m ?h" using same_nodes(1)[OF ms] assms t(2,3) N by (simp add: wf_Hash_def wf_table_def)
  moreover have "resize m h = Inr ?h" using False t(1) by (simp add: resize_def N_def Let_def)
  ultimately show ?thesis using ms N False by auto
qed

section \<open>Chains\<close>

lemma Cmp_strings: "string_at m a s \<Longrightarrow> string_at m b t \<Longrightarrow> Cmp m a b = 0 \<longleftrightarrow> s = t"
  by (simp add: Cmp_def string_at_def text_cmp_eq_0)

lemma scan_None:
  assumes "string_at m k t" "\<And>n. n \<in> set c \<Longrightarrow> obj_type (objs m (hn_key n)) = Some DohStringType" "scan_chain m k c = None" "n \<in> set c"
  shows "node_text m n \<noteq> t"
  using assms(2-4)
proof (induction c)
  case (Cons x c)
  have "string_at m (hn_key x) (node_text m x)" using Cons.prems(1)[of x] by (simp add: string_at_def node_text_def)
  then show ?case using Cons Cmp_strings[OF _ assms(1)] by (auto split: if_splits option.splits)
qed simp

lemma scan_Some:
  assumes "string_at m k t" "\<And>n. n \<in> set c \<Longrightarrow> obj_type (objs m (hn_key n)) = Some DohStringType" "scan_chain m k c = Some (pre, n, post)"
  shows "c = pre @ n # post \<and> node_text m n = t"
  using assms(2,3)
proof (induction c arbitrary: pre)
  case (Cons x c)
  have "string_at m (hn_key x) (node_text m x)" using Cons.prems(1)[of x] by (simp add: string_at_def node_text_def)
  then show ?case using Cons Cmp_strings[OF _ assms(1)] by (fastforce split: if_splits option.splits)
qed simp

lemma bucket_has:
  assumes "wf_table m h" "string_at m k t"
  shows "bucket m h k < length (hashtable h)"
    and "n \<in> set (nodes h) \<Longrightarrow> node_text m n = t \<Longrightarrow> n \<in> set (hashtable h ! bucket m h k)"
    and "n \<in> set (hashtable h ! bucket m h k) \<Longrightarrow> obj_type (objs m (hn_key n)) = Some DohStringType \<and> n \<in> set (nodes h)"
proof -
  have len: "length (hashtable h) = hashsize h" "0 < hashsize h" and ok: "bucket_ok m (hashtable h)"
    using assms(1) by (auto simp: wf_table_def odd_pos)
  then show b: "bucket m h k < length (hashtable h)" by (simp add: bucket_def)
  show "n \<in> set (hashtable h ! bucket m h k)" if "n \<in> set (nodes h)" "node_text m n = t"
  proof -
    have n: "obj_type (objs m (hn_key n)) = Some DohStringType" "n \<in> set (hashtable h ! (Hashval m (hn_key n) mod hashsize h))"
      using bucket_ok_nodes[OF ok, of n] that(1) len by (simp_all add: nodes_def)
    then have "string_at m (hn_key n) t" using that(2) by (simp add: string_at_def node_text_def)
    then show ?thesis using n(2) Hashval_same[OF assms(2)] by (simp add: bucket_def)
  qed
  show "obj_type (objs m (hn_key n)) = Some DohStringType \<and> n \<in> set (nodes h)" if "n \<in> set (hashtable h ! bucket m h k)"
    using ok b that by (auto simp: bucket_ok_def nodes_def intro!: bexI[of _ "hashtable h ! bucket m h k"])
qed

text \<open>What a scan of the bucket says of the map.\<close>

lemma scan_map:
  assumes "wf_table m h" "string_at m k t"
  shows "scan_chain m k (hashtable h ! bucket m h k) = None \<Longrightarrow> hash_map m h t = None"
    and "scan_chain m k (hashtable h ! bucket m h k) = Some (pre, n, post) \<Longrightarrow>
      hashtable h ! bucket m h k = pre @ n # post \<and> node_text m n = t \<and> n \<in> set (nodes h) \<and> hash_map m h t = Some (hn_object n)"
proof -
  note ty = bucket_has[OF assms]
  show "hash_map m h t = None" if "scan_chain m k (hashtable h ! bucket m h k) = None"
    using scan_None[OF assms(2) _ that] ty(2,3) by (auto simp: hash_map_None)
  assume s: "scan_chain m k (hashtable h ! bucket m h k) = Some (pre, n, post)"
  have sc: "hashtable h ! bucket m h k = pre @ n # post \<and> node_text m n = t" using scan_Some[OF assms(2) _ s] ty(3) by blast
  then have "n \<in> set (nodes h)" using ty(3)[of n] by simp
  then show "hashtable h ! bucket m h k = pre @ n # post \<and> node_text m n = t \<and> n \<in> set (nodes h) \<and> hash_map m h t = Some (hn_object n)"
    using sc assms(1) by (auto simp: hash_map_set wf_table_def)
qed


section \<open>Operations on balanced counts\<close>

lemma node_refs_simps [simp]:
  "node_refs [] = {#}"
  "node_refs (n # ns) = add_mset (hn_key n) (add_mset (hn_object n) (node_refs ns))"
  "node_refs (ns @ ns') = node_refs ns + node_refs ns'"
  by (simp_all add: node_refs_def)

lemma node_refs_in: "n \<in> set ns \<Longrightarrow> hn_key n \<in># node_refs ns \<and> hn_object n \<in># node_refs ns"
  by (auto simp: node_refs_def)

lemma hash_refs_in: "n \<in> set (nodes h) \<Longrightarrow> hn_key n \<in># W + hash_refs h \<and> hn_object n \<in># W + hash_refs h"
  using node_refs_in[of n "nodes h"] by (auto simp: hash_refs_def)

text \<open>The keys of a table that is held before and after a step are the same objects.\<close>

lemma wf_keeps:
  assumes "keeps m m'" "counted Z m V" "counted Z' m' V'" "node_refs (nodes h) \<subseteq># V" "node_refs (nodes h) \<subseteq># V'"
  shows "wf_table m' h = wf_table m h" "wf_Hash m' h = wf_Hash m h" "hash_map m' h = hash_map m h"
proof -
  have same: "same_obj m m' (hn_key n)" if "n \<in> set (nodes h)" for n
  proof -
    have "hn_key n \<in># V" "hn_key n \<in># V'" using node_refs_in[OF that] mset_subset_eqD[OF assms(4)] mset_subset_eqD[OF assms(5)] by simp_all
    then show ?thesis using assms(1) live_of[OF assms(2)] live_of[OF assms(3)] by (simp add: keeps_def)
  qed
  show "wf_table m' h = wf_table m h" "wf_Hash m' h = wf_Hash m h" "hash_map m' h = hash_map m h"
    using wf_same[of h m m'] same by blast+
qed

lemma hash_map_replace:
  assumes "nodes h = A @ n # B" "nodes h' = A @ n\<lparr>hn_object := v\<rparr> # B" "distinct (map (node_text m) (nodes h))"
  shows "hash_map m h' = (hash_map m h)(node_text m n \<mapsto> v)" "map (node_text m) (nodes h') = map (node_text m) (nodes h)"
proof -
  show t: "map (node_text m) (nodes h') = map (node_text m) (nodes h)" by (simp add: assms(1,2) node_text_def)
  have eq: "node_text m (n\<lparr>hn_object := v\<rparr>) = node_text m n" by (simp add: node_text_def)
  have "hash_map m h' s = ((hash_map m h)(node_text m n \<mapsto> v)) s" for s
  proof (cases "s = node_text m n")
    case True
    have "hash_map m h' s = Some v" using assms(2) True eq hash_map_set[OF assms(3)[folded t]] by auto
    then show ?thesis using True by simp
  next
    case False
    have "hash_map m h' s = Some x \<longleftrightarrow> hash_map m h s = Some x" for x
      unfolding hash_map_set[OF assms(3)[folded t]] hash_map_set[OF assms(3)] using False eq by (auto simp: assms(1,2))
    then show ?thesis using False by (cases "hash_map m h s") (auto simp: option.expand)
  qed
  then show "hash_map m h' = (hash_map m h)(node_text m n \<mapsto> v)" by (rule ext)
qed

lemma bucket_ok_replace:
  assumes "bucket_ok m t" "i < length t" "\<And>n. n \<in> set c \<Longrightarrow> obj_type (objs m (hn_key n)) = Some DohStringType \<and> Hashval m (hn_key n) mod length t = i"
  shows "bucket_ok m (t[i := c])"
  unfolding bucket_ok_def
proof (intro allI impI ballI)
  fix j x assume "j < length (t[i := c])" "x \<in> set (t[i := c] ! j)"
  then show "obj_type (objs m (hn_key x)) = Some DohStringType \<and> Hashval m (hn_key x) mod length (t[i := c]) = j"
    using assms by (cases "j = i") (auto simp: bucket_ok_def)
qed

lemma replace_object_spec:
  assumes "wf_Hash m h" "string_at m ka t" "counted Z m (W + hash_refs h)" "Z \<subseteq> {oa}" "oa \<in># W + hash_refs h \<or> oa \<in> Z"
    "Z = {} \<or> oa \<notin># W + hash_refs h" "count (W + hash_refs h) oa + 1 < REFMOD"
    and s: "scan_chain m ka (hashtable h ! bucket m h ka) = Some (pre, n, post)"
  shows "\<exists>h' m'. replace_object h (bucket m h ka) pre n post oa m = Inr (h', m') \<and> frees m m' \<and> wf_Hash m' h' \<and>
    counted {} m' (W + hash_refs h') \<and> hash_map m' h' = (hash_map m h)(t \<mapsto> oa) \<and> hash_file h' = hash_file h \<and> live m' oa"
proof -
  let ?hv = "bucket m h ka" and ?V = "W + hash_refs h"
  let ?ob = "hn_object n"
  have w: "wf_table m h" using assms(1) by (simp add: wf_Hash_def)
  note sc = scan_map(2)[OF w assms(2) s]
  note i = bucket_has(1)[OF w assms(2)]
  have obV: "?ob \<in># ?V" using hash_refs_in sc by blast
  show ?thesis
  proof (cases "?ob = oa")
    case True
    then have "Z = {}" using assms(6) obV by blast
    then show ?thesis using True assms(1,3) sc live_of[OF assms(3)] obV by (auto simp: replace_object_def fun_upd_idem)
  next
    case False
    have "?ob \<notin> Z" using False assms(4) by auto
    then obtain m1 where m1: "DohDelete ?ob m = Inr m1" "counted Z m1 (?V - {#?ob#})" "frees m m1"
      using DohDelete_balanced[OF assms(3) obV] by blast
    have "oa \<in># ?V - {#?ob#} \<or> oa \<in> Z" using assms(5) False by (auto simp: in_diff_count simp flip: count_greater_zero_iff)
    moreover have "count (?V - {#?ob#}) oa + 1 < REFMOD" using assms(7) by simp
    ultimately obtain m2 where m2: "Incref oa m1 = Inr m2" "counted (Z - {oa}) m2 (add_mset oa (?V - {#?ob#}))" "frees m1 m2"
      using Incref_balanced[OF m1(2)] by blast
    have Z: "Z - {oa} = {}" using assms(4) by auto
    define h' where "h' = h\<lparr>hashtable := (hashtable h)[?hv := pre @ n\<lparr>hn_object := oa\<rparr> # post]\<rparr>"
    define A B where "A = concat (take ?hv (hashtable h)) @ pre" and "B = post @ concat (drop (Suc ?hv) (hashtable h))"
    have n: "nodes h = A @ n # B" "nodes h' = A @ n\<lparr>hn_object := oa\<rparr> # B"
      using concat_at[OF i] sc by (simp_all add: nodes_def h'_def A_def B_def)
    have dist: "distinct (map (node_text m) (nodes h))" using w by (simp add: wf_table_def)
    have V: "add_mset oa (?V - {#?ob#}) = W + hash_refs h'" using n by (simp add: hash_refs_def h'_def)
    have b2: "counted {} m2 (W + hash_refs h')" using m2(2) V Z by (simp only:)
    have fr: "frees m m2" using m1(3) m2(3) frees_trans by blast
    have ok: "bucket_ok m (hashtable h)" using w by (simp add: wf_table_def)
    have "bucket_ok m ((hashtable h)[?hv := pre @ n\<lparr>hn_object := oa\<rparr> # post])"
    proof (rule bucket_ok_replace[OF ok i])
      fix x assume "x \<in> set (pre @ n\<lparr>hn_object := oa\<rparr> # post)"
      then have "\<exists>y \<in> set (hashtable h ! ?hv). hn_key x = hn_key y" using sc by auto
      then obtain y where "y \<in> set (hashtable h ! ?hv)" "hn_key x = hn_key y" by blast
      then show "obj_type (objs m (hn_key x)) = Some DohStringType \<and> Hashval m (hn_key x) mod length (hashtable h) = ?hv"
        using ok i by (simp add: bucket_ok_def)
    qed
    then have "bucket_ok m (hashtable h')" by (simp add: h'_def)
    then have wf: "wf_Hash m h'" using w assms(1) hash_map_replace(2)[OF n dist] n dist by (simp add: wf_Hash_def wf_table_def h'_def)
    have same: "same_obj m m2 (hn_key x)" if "x \<in> set (nodes h')" for x
    proof -
      have "live m2 (hn_key x)" using live_of[OF b2] hash_refs_in[OF that] by blast
      then show ?thesis using fr by (simp add: frees_def)
    qed
    have "replace_object h ?hv pre n post oa m = Inr (h', m2)"
      using False m1(1) m2(1) i by (simp add: replace_object_def arr_set_def h'_def)
    moreover have "hash_map m2 h' = (hash_map m h)(t \<mapsto> oa)" using wf_same(3)[OF same] hash_map_replace(1)[OF n dist] sc by simp
    moreover have "live m2 oa" using live_of[OF b2, of oa] n by (simp add: hash_refs_def)
    ultimately show ?thesis using fr b2 wf wf_same(2)[OF same] by (auto simp: h'_def)
  qed
qed


lemma add_node_spec:
  assumes "wf_Hash m h" "string_at m ka t" "counted Z m (W + hash_refs h)" "Z \<subseteq> {oa}" "live m oa" "\<And>a. count (W + hash_refs h) a + 2 < REFMOD"
    and s: "scan_chain m ka (hashtable h ! bucket m h ka) = None"
  shows "\<exists>h' m'. add_node h (bucket m h ka) (hashtable h ! bucket m h ka) ka oa m = Inr (h', m') \<and> frees m m' \<and> wf_Hash m' h' \<and>
    counted {} m' (W + hash_refs h') \<and> hash_map m' h' = (hash_map m h)(t \<mapsto> oa) \<and> hash_file h' = hash_file h \<and> live m' oa \<and>
    (hash_nitems h + 1 < 2 * hashsize h \<longrightarrow> hashsize h' = hashsize h) \<and> mset (nodes h') = add_mset \<lparr>hn_key = ka, hn_object = oa\<rparr> (mset (nodes h))"
proof -
  let ?hv = "bucket m h ka" and ?V = "W + hash_refs h"
  have w: "wf_table m h" using assms(1) by (simp add: wf_Hash_def)
  note i = bucket_has(1)[OF w assms(2)]
  have new: "hash_map m h t = None" using scan_map(1)[OF w assms(2) s] .
  have "count ?V ka + 1 < REFMOD" using assms(6)[of ka] by simp
  then obtain m1 where m1: "Incref ka m = Inr m1" "counted (Z - {ka}) m1 (add_mset ka ?V)" "frees m m1"
    using Incref_live[OF assms(3) string_at_live[OF assms(2)]] by blast
  have "live m1 oa"
  proof (cases "oa = ka")
    case True then show ?thesis using live_of[OF m1(2), of oa] by simp
  next
    case False
    then show ?thesis using balanced_live[OF assms(3,5)] live_of[OF m1(2), of oa] interned_live[OF m1(2), of oa] m1(3) by (auto simp: frees_def)
  qed
  moreover have "count (add_mset ka ?V) oa + 1 < REFMOD" using assms(6)[of oa] by simp
  ultimately obtain m2 where m2: "Incref oa m1 = Inr m2" "counted (Z - {ka} - {oa}) m2 (add_mset oa (add_mset ka ?V))" "frees m1 m2"
    using Incref_live[OF m1(2)] by blast
  have Z: "Z - {ka} - {oa} = {}" using assms(4) by auto
  define n where "n = \<lparr>hn_key = ka, hn_object = oa\<rparr>"
  define h1 where "h1 = h\<lparr>hashtable := (hashtable h)[?hv := hashtable h ! ?hv @ [n]], hash_nitems := hash_nitems h + 1\<rparr>"
  have ms: "mset (nodes h1) = add_mset n (mset (nodes h))" using concat_at[OF i] by (simp add: nodes_def h1_def)
  have "node_refs (nodes h1) = add_mset ka (add_mset oa (node_refs (nodes h)))" unfolding node_refs_def mset_map ms by (simp add: n_def)
  moreover have "hash_file h1 = hash_file h" by (simp add: h1_def)
  ultimately have V: "add_mset oa (add_mset ka ?V) = W + hash_refs h1" by (simp add: hash_refs_def)
  have b2: "counted {} m2 (W + hash_refs h1)" using m2(2) V Z by (simp only:)
  have fr: "frees m m2" using m1(3) m2(3) frees_trans by blast
  have same: "same_obj m m2 (hn_key x)" if "x \<in> set (nodes h1)" for x
    using live_of[OF b2] hash_refs_in[OF that, of W] fr by (auto simp: frees_def)
  have tn: "node_text m n = t" using assms(2) by (simp add: node_text_def n_def string_at_def)
  have dist: "distinct (map (node_text m) (nodes h))" using w by (simp add: wf_table_def)
  have "t \<notin> node_text m ` set (nodes h)" using new by (auto simp: hash_map_None)
  then have "distinct (map (node_text m) (n # nodes h))" using dist tn by simp
  moreover have "mset (map (node_text m) (nodes h1)) = mset (map (node_text m) (n # nodes h))" using ms by simp
  ultimately have dist1: "distinct (map (node_text m) (nodes h1))" using mset_eq_imp_distinct_iff by blast
  have map1: "hash_map m h1 = (hash_map m h)(t \<mapsto> oa)"
  proof (rule ext)
    fix u
    have "set (nodes h1) = insert n (set (nodes h))" using ms by (metis set_mset_add_mset_insert set_mset_mset)
    then have "hash_map m h1 u = Some v \<longleftrightarrow> ((hash_map m h)(t \<mapsto> oa)) u = Some v" for v
      using hash_map_set[OF dist1] hash_map_set[OF dist] tn new by (auto simp: n_def hash_map_None)
    then show "hash_map m h1 u = ((hash_map m h)(t \<mapsto> oa)) u" by (metis option.exhaust)
  qed
  have ok: "bucket_ok m (hashtable h)" using w by (simp add: wf_table_def)
  have "bucket_ok m ((hashtable h)[?hv := hashtable h ! ?hv @ [n]])"
  proof (rule bucket_ok_replace[OF ok i])
    fix x assume "x \<in> set (hashtable h ! ?hv @ [n])"
    then show "obj_type (objs m (hn_key x)) = Some DohStringType \<and> Hashval m (hn_key x) mod length (hashtable h) = ?hv"
      using ok i assms(2) w by (auto simp: bucket_ok_def n_def string_at_def bucket_def wf_table_def)
  qed
  moreover have "length (nodes h1) = length (nodes h) + 1" using ms by (metis size_add_mset size_mset Suc_eq_plus1)
  ultimately have "wf_table m h1" using w dist1 by (simp add: wf_table_def h1_def)
  then have w1: "wf_table m2 h1" using wf_same(1)[OF same] by simp
  have "hash_nitems h1 \<le> 2 * hashsize h1" using assms(1) by (simp add: h1_def wf_Hash_def)
  then obtain h' where h': "resize m2 h1 = Inr h'" "wf_Hash m2 h'" "mset (nodes h') = mset (nodes h1)" "hash_file h' = hash_file h1"
    "hash_nitems h1 < 2 * hashsize h1 \<longrightarrow> hashsize h' = hashsize h1" using resize_spec[OF w1] by blast
  have "distinct (map (node_text m2) (nodes h1))" using w1 by (simp add: wf_table_def)
  note sn = same_nodes[OF h'(3) this]
  have "W + hash_refs h' = W + hash_refs h1" using sn(3) h'(4) by (simp add: hash_refs_def)
  moreover have "hash_map m2 h' = (hash_map m h)(t \<mapsto> oa)" using sn(2) wf_same(3)[OF same] map1 by simp
  moreover have "add_node h ?hv (hashtable h ! ?hv) ka oa m = Inr (h', m2)"
    using m1(1) m2(1) i h'(1) by (simp add: add_node_def NewNode_def arr_set_def h1_def n_def)
  moreover have "live m2 oa" using live_of[OF m2(2), of oa] by simp
  moreover have "mset (nodes h') = add_mset \<lparr>hn_key = ka, hn_object = oa\<rparr> (mset (nodes h))" using h'(3) ms by (simp add: n_def)
  ultimately show ?thesis using b2 h' fr by (auto simp: h1_def)
qed


text \<open>The state of a client: a table, the interned keys and the store, with the references \<open>W\<close> that others hold.\<close>

definition hash_state :: "Hash \<Rightarrow> KeyValue \<Rightarrow> DohMemory \<Rightarrow> addr multiset \<Rightarrow> bool" where
  "hash_state h root m W \<longleftrightarrow> wf_Hash m h \<and> wf_root root m \<and> counted {} m (W + hash_refs h)"

definition room :: "nat \<Rightarrow> addr multiset \<Rightarrow> bool" where
  "room n V \<longleftrightarrow> (\<forall>a. count V a + n < REFMOD)"

definition arg_given :: "DOHObj_or_char \<Rightarrow> addr multiset \<Rightarrow> bool" where
  "arg_given x V \<longleftrightarrow> (case x of Null \<Rightarrow> False | Obj a \<Rightarrow> a \<in># V | Chars _ \<Rightarrow> True)"

lemma hash_state_creates:
  assumes "hash_state h root m W" "creates m m'" "counted {} m' (W + hash_refs h)"
  shows "wf_Hash m' h" "hash_map m' h = hash_map m h"
proof -
  have "same_obj m m' (hn_key n)" if "n \<in> set (nodes h)" for n
    using live_of[of "{}" m "W + hash_refs h"] hash_refs_in[OF that, of W] assms by (auto simp: creates_def hash_state_def)
  from wf_same(2,3)[OF this] show "wf_Hash m' h" "hash_map m' h = hash_map m h" using assms(1) by (simp_all add: hash_state_def)
qed

lemma hash_key_spec:
  assumes "hash_state h root m W" "key_given k m (W + hash_refs h)"
  shows "\<exists>ka root' m'. to_key k (root, m) = Inr (ka, root', m') \<and> hash_state h root' m' W \<and> string_at m' ka (key_text m k) \<and>
    hash_map m' h = hash_map m h \<and> creates m m'"
proof -
  obtain ka root' m' where *: "to_key k (root, m) = Inr (ka, root', m')" "counted {} m' (W + hash_refs h)" "wf_root root' m'"
    "string_at m' ka (key_text m k)" "creates m m'"
    using to_key_spec[of m "W + hash_refs h" root k] assms by (auto simp: hash_state_def)
  then show ?thesis using hash_state_creates[OF assms(1) *(5,2)] by (auto simp: hash_state_def)
qed

lemma Hash_getattr_spec:
  assumes "hash_state h root m W" "key_given k m (W + hash_refs h)"
  shows "\<exists>root' m'. Hash_getattr h k (root, m) = Inr (hash_map m h (key_text m k), root', m') \<and> hash_state h root' m' W \<and>
    hash_map m' h = hash_map m h \<and> creates m m'"
proof -
  obtain ka root' m' where k: "to_key k (root, m) = Inr (ka, root', m')" "hash_state h root' m' W" "string_at m' ka (key_text m k)"
    "hash_map m' h = hash_map m h" "creates m m'" using hash_key_spec[OF assms] by blast
  have w: "wf_table m' h" using k(2) by (simp add: hash_state_def wf_Hash_def)
  note b = bucket_has[OF w k(3)]
  let ?t = "key_text m k" and ?c = "hashtable h ! bucket m' h ka"
  have get: "get_chain m' ka c v = Inr (case map_of (map (\<lambda>n. (node_text m' n, hn_object n)) c) ?t of None \<Rightarrow> v | Some x \<Rightarrow> Some x)"
    if "\<forall>n \<in> set c. obj_type (objs m' (hn_key n)) = Some DohStringType" "distinct (map (node_text m') c)" for c v
    using that
  proof (induction c arbitrary: v)
    case (Cons n c)
    then show ?case using k(3) by (auto simp: string_at_def node_text_def map_of_eq_None_iff image_iff split: option.splits dest!: map_of_SomeD)
  qed simp
  have nodes: "set ?c \<subseteq> set (nodes h)" using b(3) by blast
  have "distinct (map (node_text m') (nodes h))" using w by (simp add: wf_table_def)
  then have dc: "distinct (map (node_text m') ?c)" using concat_at(1)[OF b(1)] by (simp add: nodes_def)
  have fst: "distinct (map fst (map (\<lambda>n. (node_text m' n, hn_object n)) ?c))" using dc by (simp add: comp_def)
  have "map_of (map (\<lambda>n. (node_text m' n, hn_object n)) ?c) ?t = Some v \<longleftrightarrow> hash_map m' h ?t = Some v" for v
    unfolding map_of_eq_Some_iff[OF fst] hash_map_set[OF \<open>distinct (map (node_text m') (nodes h))\<close>] using nodes b(2)
    by (auto simp: image_iff) metis
  then have "map_of (map (\<lambda>n. (node_text m' n, hn_object n)) ?c) ?t = hash_map m' h ?t" by (metis option.exhaust)
  then have "get_chain m' ka ?c None = Inr (hash_map m h ?t)"
    using get[of ?c None] b(3) dc k(4) by (cases "hash_map m h ?t") auto
  then show ?thesis using k b(1) by (auto simp: Hash_getattr_def arr_get_def)
qed

lemma Hash_setattr_spec:
  assumes "hash_state h root m W" "key_given k m (W + hash_refs h)" "arg_given x (W + hash_refs h)" "room 2 (W + hash_refs h)"
  shows "\<exists>oa h' root' m'. Hash_setattr h k x (root, m) = Inr (if hash_map m h (key_text m k) = None then 0 else 1, h', root', m') \<and>
    hash_state h' root' m' W \<and> hash_map m' h' = (hash_map m h)(key_text m k \<mapsto> oa) \<and> denotes x oa m m' \<and> keeps m m' \<and> hash_file h' = hash_file h \<and>
    (hash_map m h (key_text m k) = None \<longrightarrow> (\<exists>ka. mset (nodes h') = add_mset \<lparr>hn_key = ka, hn_object = oa\<rparr> (mset (nodes h)) \<and> (\<forall>b. k = Obj b \<longrightarrow> ka = b)))"
proof -
  let ?V = "W + hash_refs h"
  obtain ka root1 m1 where k: "to_key k (root, m) = Inr (ka, root1, m1)" "hash_state h root1 m1 W" "string_at m1 ka (key_text m k)"
    "hash_map m1 h = hash_map m h" "creates m m1" using hash_key_spec[OF assms(1,2)] by blast
  have rm: "count ?V a + 2 < REFMOD" for a using assms(4) by (simp add: room_def)
  have b: "counted {} m1 ?V" using k(2) by (simp add: hash_state_def)
  have g: "given x ?V" using assms(3) rm by (cases x) (auto simp: given_def arg_given_def intro: Suc_lessD)
  from to_object_spec[OF b g] obtain oa Z m2 where ob: "to_object x m1 = Inr (oa, m2)" "counted Z m2 ?V" "Z \<subseteq> {oa}" "oa \<in># ?V \<or> oa \<in> Z"
    "Z = {} \<or> oa \<notin># ?V" "count ?V oa + 1 < REFMOD" "denotes x oa m1 m2" "creates m1 m2" by blast
  have cr: "creates m m2" using creates_trans[OF k(5) ob(8)] .
  have same: "same_obj m1 m2 (hn_key n)" if "n \<in> set (nodes h)" for n
    using live_of[OF b] hash_refs_in[OF that, of W] ob(8) by (auto simp: creates_def)
  have w2: "wf_Hash m2 h" "hash_map m2 h = hash_map m h" using wf_same(2,3)[OF same] k(2,4) by (auto simp: hash_state_def)
  have ka: "string_at m2 ka (key_text m k)" using k(3) ob(8) string_at_live[OF k(3)] same_string by (auto simp: creates_def)
  have oa: "live m2 oa" using live_of[OF ob(2,4)] .
  have wt: "wf_table m2 h" using w2 by (simp add: wf_Hash_def)
  note bu = bucket_has(1)[OF wt ka]
  have nn: "x \<noteq> Null" using assms(3) by (auto simp: arg_given_def)
  have den: "denotes x oa m m'" if "frees m2 m'" "live m' oa" for m'
    using denotes_frees[OF ob(7) that] k(5) by (auto simp: denotes_def creates_def split: DOHObj_or_char.splits)
  have root: "wf_root root1 m'" if "frees m2 m'" "counted Z' m' V'" for m' Z' V'
    using wf_root_frees[OF wf_root_creates[OF _ ob(8)] that] k(2) by (auto simp: hash_state_def)
  note set = k(1) ob(1) bu nn
  show ?thesis
  proof (cases "scan_chain m2 ka (hashtable h ! bucket m2 h ka)")
    case None
    obtain h' m' where n: "add_node h (bucket m2 h ka) (hashtable h ! bucket m2 h ka) ka oa m2 = Inr (h', m')" "frees m2 m'" "wf_Hash m' h'"
      "counted {} m' (W + hash_refs h')" "hash_map m' h' = (hash_map m2 h)(key_text m k \<mapsto> oa)" "hash_file h' = hash_file h" "live m' oa"
      "mset (nodes h') = add_mset \<lparr>hn_key = ka, hn_object = oa\<rparr> (mset (nodes h))"
      using add_node_spec[OF w2(1) ka ob(2,3) oa rm None] by blast
    have "Hash_setattr h k x (root, m) = Inr (0, h', root1, m')" using set None n(1) by (simp add: Hash_setattr_def arr_get_def Let_def)
    moreover have "k = Obj b \<longrightarrow> ka = b" for b using k(1) by (auto simp: to_key_def split: if_splits)
    moreover have "hash_map m h (key_text m k) = None" using scan_map(1)[OF wt ka None] w2(2) by simp
    ultimately show ?thesis using n w2(2) root[OF n(2,4)] den[OF n(2,7)] creates_frees[OF cr n(2)] by (auto simp: hash_state_def)
  next
    case (Some y)
    obtain pre n post where y: "y = (pre, n, post)" by (cases y)
    obtain h' m' where n: "replace_object h (bucket m2 h ka) pre n post oa m2 = Inr (h', m')" "frees m2 m'" "wf_Hash m' h'"
      "counted {} m' (W + hash_refs h')" "hash_map m' h' = (hash_map m2 h)(key_text m k \<mapsto> oa)" "hash_file h' = hash_file h" "live m' oa"
      using replace_object_spec[OF w2(1) ka ob(2-6) Some[unfolded y]] by blast
    have "Hash_setattr h k x (root, m) = Inr (1, h', root1, m')" using set Some n(1) by (simp add: Hash_setattr_def arr_get_def Let_def y)
    moreover have "hash_map m h (key_text m k) \<noteq> None" using scan_map(2)[OF wt ka Some[unfolded y]] w2(2) by simp
    ultimately show ?thesis using n w2(2) root[OF n(2,4)] den[OF n(2,7)] creates_frees[OF cr n(2)] by (auto simp: hash_state_def)
  qed
qed


text \<open>Removing nodes.\<close>

lemma DelNode_balanced:
  assumes "counted {} m V" "hn_key n \<in># V" "hn_object n \<in># V - {#hn_key n#}"
  shows "\<exists>m'. DelNode n m = Inr m' \<and> counted {} m' (V - {#hn_key n#} - {#hn_object n#}) \<and> frees m m'"
proof -
  obtain m1 where m1: "DohDelete (hn_key n) m = Inr m1" "counted {} m1 (V - {#hn_key n#})" "frees m m1"
    using store.del_law[OF assms(1,2)] by blast
  then show ?thesis using store.del_law[OF m1(2) assms(3)] frees_trans by (fastforce simp: DelNode_def)
qed

lemma Hash_delattr_spec:
  assumes "hash_state h root m W" "key_given k m (W + hash_refs h)"
  shows "\<exists>h' root' m'. Hash_delattr h k (root, m) = Inr (if hash_map m h (key_text m k) = None then 0 else 1, h', root', m') \<and>
    hash_state h' root' m' W \<and> hash_map m' h' = (hash_map m h)(key_text m k := None) \<and> keeps m m' \<and> hash_file h' = hash_file h"
proof -
  let ?V = "W + hash_refs h" and ?t = "key_text m k"
  obtain ka root1 m1 where k: "to_key k (root, m) = Inr (ka, root1, m1)" "hash_state h root1 m1 W" "string_at m1 ka ?t"
    "hash_map m1 h = hash_map m h" "creates m m1" using hash_key_spec[OF assms] by blast
  have b: "counted {} m1 ?V" and w: "wf_table m1 h" "wf_Hash m1 h" using k(2) by (simp_all add: hash_state_def wf_Hash_def)
  let ?hv = "bucket m1 h ka"
  note i = bucket_has(1)[OF w(1) k(3)]
  show ?thesis
  proof (cases "scan_chain m1 ka (hashtable h ! ?hv)")
    case None
    then have "hash_map m h ?t = None" using scan_map(1)[OF w(1) k(3)] k(4) by simp
    moreover have "keeps m m1" using creates_frees[OF k(5) frees_refl] .
    ultimately show ?thesis using None k i by (auto simp: Hash_delattr_def arr_get_def fun_upd_idem Let_def)
  next
    case (Some y)
    obtain pre n post where y: "y = (pre, n, post)" by (cases y)
    note sc = scan_map(2)[OF w(1) k(3) Some[unfolded y]]
    define h' where "h' = h\<lparr>hashtable := (hashtable h)[?hv := pre @ post], hash_nitems := hash_nitems h - 1\<rparr>"
    define A B where "A = concat (take ?hv (hashtable h)) @ pre" and "B = post @ concat (drop (Suc ?hv) (hashtable h))"
    have n: "nodes h = A @ n # B" "nodes h' = A @ B" using concat_at[OF i] sc by (simp_all add: nodes_def h'_def A_def B_def)
    have V: "?V = add_mset (hn_key n) (add_mset (hn_object n) (W + hash_refs h'))" using n by (simp add: hash_refs_def h'_def)
    have "hn_key n \<in># ?V" "hn_object n \<in># ?V - {#hn_key n#}" unfolding V by simp_all
    from DelNode_balanced[OF b this] obtain m2 where m2: "DelNode n m1 = Inr m2" "counted {} m2 (W + hash_refs h')" "frees m1 m2"
      by (auto simp: V)
    have same: "same_obj m1 m2 (hn_key x)" if "x \<in> set (nodes h')" for x
      using live_of[OF m2(2)] hash_refs_in[OF that, of W] m2(3) by (auto simp: frees_def)
    have dist: "distinct (map (node_text m1) (nodes h))" using w by (simp add: wf_table_def)
    then have dist': "distinct (map (node_text m1) (nodes h'))" by (simp add: n)
    have "?t \<notin> node_text m1 ` set (nodes h')" using dist sc by (simp add: n image_Un)
    then have tn: "x \<in> set (nodes h') \<Longrightarrow> node_text m1 x \<noteq> ?t" for x by (metis imageI)
    have "hash_map m1 h' = (hash_map m1 h)(?t := None)"
    proof (rule ext)
      fix u
      have "hash_map m1 h' u = Some v \<longleftrightarrow> ((hash_map m1 h)(?t := None)) u = Some v" for v
        unfolding hash_map_set[OF dist'] using tn sc by (auto simp: hash_map_set[OF dist] n)
      then show "hash_map m1 h' u = ((hash_map m1 h)(?t := None)) u" by (metis option.exhaust)
    qed
    then have map2: "hash_map m2 h' = (hash_map m h)(?t := None)" using wf_same(3)[OF same] k(4) by simp
    have ok: "bucket_ok m1 (hashtable h)" using w by (simp add: wf_table_def)
    have "bucket_ok m1 ((hashtable h)[?hv := pre @ post])" using ok i sc by (intro bucket_ok_replace) (auto simp: bucket_ok_def)
    then have "wf_Hash m1 h'" using w n dist' by (auto simp: wf_Hash_def wf_table_def h'_def)
    then have "wf_Hash m2 h'" using wf_same(2)[OF same] by simp
    then have st: "hash_state h' root1 m2 W" using m2 wf_root_frees[OF _ m2(3,2)] k(2) by (simp add: hash_state_def)
    have "Hash_delattr h k (root, m) = Inr (1, h', root1, m2)"
      using k(1) i Some m2(1) by (simp add: Hash_delattr_def arr_get_def arr_set_def y h'_def Let_def)
    moreover have "hash_map m h ?t \<noteq> None" using sc k(4) by simp
    ultimately show ?thesis using st map2 creates_frees[OF k(5) m2(3)] by (auto simp: h'_def)
  qed
qed

lemma each_DelNode:
  "counted {} m (V + node_refs ns) \<Longrightarrow> \<exists>m'. each DelNode ns m = Inr m' \<and> counted {} m' V \<and> frees m m'"
proof (induction ns arbitrary: m)
  case (Cons n ns)
  obtain m1 where m1: "DelNode n m = Inr m1" "counted {} m1 (V + node_refs ns)" "frees m m1"
    using DelNode_balanced[OF Cons.prems, of n] by auto
  then show ?case using Cons.IH[OF m1(2)] frees_trans by fastforce
qed simp

lemma clear_buckets_each:
  "k \<le> length t \<Longrightarrow> clear_buckets k t m =
     res_bind (each (each DelNode) (drop (length t - k) t) m) (\<lambda>m'. Inr (take (length t - k) t @ replicate k [], m'))"
proof (induction k t m rule: clear_buckets.induct)
  case (2 k t m)
  let ?i = "length t - Suc k"
  have i: "?i < length t" "length t - k = Suc ?i" using 2(2) by simp_all
  have d: "drop ?i t = t ! ?i # drop (Suc ?i) t" using i(1) by (simp add: Cons_nth_drop_Suc)
  show ?case
  proof (cases "each DelNode (t ! ?i) m")
    case (Inr m1)
    have "clear_buckets (Suc k) t m = clear_buckets k (t[?i := []]) m1" using Inr i by (simp add: arr_get_def)
    also have "\<dots> = res_bind (each (each DelNode) (drop (Suc ?i) t) m1) (\<lambda>m'. Inr (take (Suc ?i) (t[?i := []]) @ replicate k [], m'))"
      using 2(1)[of m1] Inr i 2(2) by (simp add: arr_get_def)
    also have "take (Suc ?i) (t[?i := []]) = take ?i t @ [[]]" using i(1) by (simp add: take_Suc_conv_app_nth)
    finally show ?thesis using d Inr by (simp add: replicate_append_same[symmetric])
  qed (use i d in \<open>simp add: arr_get_def\<close>)
qed simp

lemma Hash_clear_spec:
  assumes "hash_state h root m W"
  shows "\<exists>h' m'. Hash_clear h m = Inr (h', m') \<and> hash_state h' root m' W \<and> hash_map m' h' = Map.empty \<and> frees m m' \<and> hash_file h' = hash_file h"
proof -
  let ?F = "case hash_file h of None \<Rightarrow> {#} | Some f \<Rightarrow> {#f#}"
  have "counted {} m (W + ?F + node_refs (concat (hashtable h)))" using assms by (simp add: hash_state_def hash_refs_def nodes_def ac_simps)
  then obtain m' where m': "each (each DelNode) (hashtable h) m = Inr m'" "counted {} m' (W + ?F)" "frees m m'" using each_DelNode unfolding each_each by blast
  have len: "length (hashtable h) = hashsize h" "odd (hashsize h)" using assms by (simp_all add: hash_state_def wf_Hash_def wf_table_def)
  define h' where "h' = h\<lparr>hashtable := replicate (hashsize h) [], hash_nitems := 0\<rparr>"
  have "Hash_clear h m = Inr (h', m')" using clear_buckets_each[of "hashsize h" "hashtable h" m] m'(1) len by (simp add: Hash_clear_def h'_def)
  moreover have "wf_Hash m' h'" "hash_map m' h' = Map.empty" "hash_refs h' = ?F" using len odd_pos[of "hashsize h"]
    by (simp_all add: h'_def wf_Hash_def wf_table_def nodes_def bucket_ok_def hash_map_def hash_refs_def)
  moreover have "wf_root root m'" using assms wf_root_frees[OF _ m'(3,2)] by (simp add: hash_state_def)
  ultimately show ?thesis using m' by (auto simp: hash_state_def h'_def)
qed

lemma DelHash_leaks_file:
  assumes "hash_state h root m W"
  shows "\<exists>m'. DelHash h m = Inr m' \<and> counted {} m' (W + (case hash_file h of None \<Rightarrow> {#} | Some f \<Rightarrow> {#f#}))"
proof -
  have "counted {} m (W + (case hash_file h of None \<Rightarrow> {#} | Some f \<Rightarrow> {#f#}) + node_refs (concat (hashtable h)))"
    using assms by (simp add: hash_state_def hash_refs_def nodes_def ac_simps)
  then show ?thesis using each_DelNode by (fastforce simp: DelHash_def each_each)
qed


lemma Hash_setfile_spec:
  assumes "hash_state h root m W" "arg_given f (W + hash_refs h)" "room 2 (W + hash_refs h)"
  shows "\<exists>a h' m'. Hash_setfile h f m = Inr (h', m') \<and> hash_state h' root m' W \<and> hash_map m' h' = hash_map m h \<and> hash_file h' = Some a \<and>
    denotes f a m m'"
proof -
  let ?V = "W + hash_refs h" and ?N = "node_refs (nodes h)"
  have b: "counted {} m ?V" using assms(1) by (simp add: hash_state_def)
  have g: "given f ?V" using assms(2,3) by (cases f) (auto simp: given_def arg_given_def room_def intro: Suc_lessD)
  obtain a m1 m2 where a: "to_object f m = Inr (a, m1)" "Incref a m1 = Inr m2" "counted {} m2 (add_mset a ?V)" "denotes f a m m2"
    "creates m m1" "frees m1 m2" using take_argument[OF b g] by blast
  have "\<exists>m3. opt_ref DohDelete (hash_file h) m2 = Inr m3 \<and> counted {} m3 (add_mset a (W + ?N)) \<and> frees m2 m3"
  proof (cases "hash_file h")
    case None
    then show ?thesis using a(3) by (simp add: opt_ref_def hash_refs_def)
  next
    case (Some f)
    then show ?thesis using store.del_law[OF a(3), of f] by (simp add: hash_refs_def)
  qed
  then obtain m3 where m3: "opt_ref DohDelete (hash_file h) m2 = Inr m3" "counted {} m3 (add_mset a (W + ?N))" "frees m2 m3" by blast
  define h' where "h' = h\<lparr>hash_file := Some a\<rparr>"
  have V: "add_mset a (W + ?N) = W + hash_refs h'" by (simp add: hash_refs_def h'_def nodes_def)
  have fr: "frees m1 m3" using frees_trans[OF a(6) m3(3)] .
  have "wf_Hash m3 h = wf_Hash m h" "hash_map m3 h = hash_map m h"
    using wf_keeps(2,3)[OF creates_frees[OF a(5) fr] b m3(2)] by (simp_all add: hash_refs_def)
  moreover have "wf_Hash m3 h' = wf_Hash m3 h" "hash_map m3 h' = hash_map m3 h" by (simp_all add: h'_def wf_Hash_def wf_table_def nodes_def hash_map_def)
  moreover have "wf_root root m3" using wf_root_frees[OF wf_root_creates[OF _ a(5)] fr m3(2)] assms(1) by (simp add: hash_state_def)
  moreover have "denotes f a m m3" using denotes_frees[OF a(4) m3(3)] live_of[OF m3(2), of a] by simp
  moreover have "Hash_setfile h f m = Inr (h', m3)" using a(1,2) m3(1) by (simp add: Hash_setfile_def h'_def)
  ultimately show ?thesis using assms(1) m3(2) unfolding V by (auto simp: hash_state_def h'_def)
qed

section \<open>Copies\<close>

lemma same_obj_trans: "same_obj m1 m2 a \<Longrightarrow> same_obj m2 m3 a \<Longrightarrow> same_obj m1 m3 a"
  by (simp add: same_obj_def)

lemma node_text_same: "same_obj m m' (hn_key n) \<Longrightarrow> node_text m' n = node_text m n"
  by (simp add: node_text_def same_obj_def)

lemma keeps_held: "keeps m m' \<Longrightarrow> counted Z m V \<Longrightarrow> counted Z' m' V' \<Longrightarrow> a \<in># V \<Longrightarrow> a \<in># V' \<Longrightarrow> same_obj m m' a"
  using live_of[of Z m V a] live_of[of Z' m' V' a] by (simp add: keeps_def)

lemma copy_nodes:
  "hash_state nh root m V \<Longrightarrow> node_refs ns \<subseteq># V \<Longrightarrow> (\<And>n. n \<in> set ns \<Longrightarrow> obj_type (objs m (hn_key n)) = Some DohStringType) \<Longrightarrow>
   distinct (map (node_text m) (nodes nh @ ns)) \<Longrightarrow> room 2 (V + hash_refs nh + node_refs ns) \<Longrightarrow>
   \<exists>nh' root' m'. each copy_node ns (nh, root, m) = Inr (nh', root', m') \<and> hash_state nh' root' m' V \<and>
     mset (nodes nh') = mset (nodes nh) + mset ns \<and> hash_file nh' = hash_file nh \<and> (\<forall>a \<in># V. same_obj m m' a)"
proof (induction ns arbitrary: nh root m)
  case Nil
  then show ?case by (auto simp: same_obj_def)
next
  case (Cons n ns)
  let ?V = "V + hash_refs nh"
  have "node_refs ns \<subseteq># node_refs (n # ns)" by (simp add: subseteq_mset_def)
  then have sub: "hn_key n \<in># V" "hn_object n \<in># V" "node_refs ns \<subseteq># V"
    using mset_subset_eqD[OF Cons.prems(2)] subset_mset.trans[OF _ Cons.prems(2)] by auto
  have k: "key_given (Obj (hn_key n)) m ?V" "key_text m (Obj (hn_key n)) = node_text m n" using Cons.prems(3)
    by (simp_all add: key_given_def key_text_def node_text_def)
  have o: "arg_given (Obj (hn_object n)) ?V" using sub by (simp add: arg_given_def)
  have "count ?V a \<le> count (?V + node_refs (n # ns)) a" for a by simp
  then have r: "room 2 ?V" using Cons.prems(5) unfolding room_def by (meson add_le_mono1 le_less_trans)
  have new: "hash_map m nh (node_text m n) = None"   proof -
    have "node_text m n \<notin> node_text m ` set (nodes nh)" using Cons.prems(4) by simp
    then show ?thesis unfolding hash_map_None by (metis imageI)
  qed
  obtain nh1 root1 m1 where s: "Hash_setattr nh (Obj (hn_key n)) (Obj (hn_object n)) (root, m) = Inr (0, nh1, root1, m1)"
    "hash_state nh1 root1 m1 V" "keeps m m1" "hash_file nh1 = hash_file nh" "mset (nodes nh1) = add_mset n (mset (nodes nh))"
    using Hash_setattr_spec[OF Cons.prems(1) k(1) o r] new unfolding k(2) by (fastforce simp: denotes_def)
  have b: "counted {} m ?V" "counted {} m1 (V + hash_refs nh1)" using Cons.prems(1) s(2) by (simp_all add: hash_state_def)
  have refs: "hash_refs nh1 = add_mset (hn_key n) (add_mset (hn_object n) (hash_refs nh))"
    unfolding hash_refs_def s(4) node_refs_def mset_map s(5) by simp
  have keep: "same_obj m m1 a" if "a \<in># ?V" for a
    using keeps_held[OF s(3) b that] that by (auto simp: refs)
  have set1: "set (nodes nh1) = insert n (set (nodes nh))" using s(5) by (metis set_mset_add_mset_insert set_mset_mset)
  have k1: "same_obj m m1 (hn_key x)" if "x \<in> set (nodes nh1 @ ns)" for x
  proof (rule keep)
    show "hn_key x \<in># ?V"
      using that sub node_refs_in[of x ns] mset_subset_eqD[OF sub(3)] hash_refs_in[of x nh V] set1 by auto
  qed
  then have texts: "map (node_text m1) (nodes nh1 @ ns) = map (node_text m) (nodes nh1 @ ns)"
    using node_text_same by (intro map_cong) blast+
  have "mset (map (node_text m) (nodes nh1 @ ns)) = mset (map (node_text m) (nodes nh @ n # ns))" using s(5) by simp
  then have "distinct (map (node_text m) (nodes nh1 @ ns))" using Cons.prems(4) mset_eq_imp_distinct_iff by blast
  then have d1: "distinct (map (node_text m1) (nodes nh1 @ ns))" unfolding texts .
  have ty: "obj_type (objs m1 (hn_key x)) = Some DohStringType" if "x \<in> set ns" for x
    using k1[of x] Cons.prems(3)[of x] that by (simp add: same_obj_def)
  have "V + hash_refs nh1 + node_refs ns = V + hash_refs nh + node_refs (n # ns)" by (simp add: refs)
  then have r1: "room 2 (V + hash_refs nh1 + node_refs ns)" using Cons.prems(5) by (simp only:)
  obtain nh' root' m' where "each copy_node ns (nh1, root1, m1) = Inr (nh', root', m')" "hash_state nh' root' m' V"
    "mset (nodes nh') = mset (nodes nh1) + mset ns" "hash_file nh' = hash_file nh1" "\<forall>a \<in># V. same_obj m1 m' a"
    using Cons.IH[OF s(2) sub(3) ty d1 r1] by blast
  note r = this
  have "copy_node n (nh, root, m) = Inr (nh1, root1, m1)" using s(1) by (simp add: copy_node_def)
  then have "each copy_node (n # ns) (nh, root, m) = Inr (nh', root', m')" using r(1) by simp
  moreover have "same_obj m m' a" if "a \<in># V" for a using same_obj_trans[OF keep[of a]] that r(5) by simp
  ultimately show ?case using r(2-4) s(4,5) by auto
qed

lemma CopyHash_spec:
  assumes "hash_state h root m W" "room 2 (W + hash_refs h + hash_refs h)"
  shows "\<exists>nh root' m'. CopyHash h (root, m) = Inr (nh, root', m') \<and> hash_state h root' m' (W + hash_refs nh) \<and> hash_state nh root' m' (W + hash_refs h) \<and>
    hash_map m' nh = hash_map m h \<and> hash_map m' h = hash_map m h \<and> hash_file nh = hash_file h"
proof -
  let ?V = "W + hash_refs h" and ?F = "case hash_file h of None \<Rightarrow> {#} | Some f \<Rightarrow> {#f#}"
  have b: "counted {} m ?V" and w: "wf_Hash m h" "wf_table m h" "wf_root root m" using assms(1) by (simp_all add: hash_state_def wf_Hash_def)
  have "case hash_file h of None \<Rightarrow> True | Some a \<Rightarrow> a \<in># ?V \<and> count ?V a + 1 < REFMOD"
  proof (cases "hash_file h")
    case (Some f)
    have "count (?V + hash_refs h) f + 2 < REFMOD" using assms(2) by (simp add: room_def)
    then show ?thesis using Some by (simp add: hash_refs_def)
  qed simp
  from opt_incr[OF b this] obtain m1 where m1: "opt_ref Incref (hash_file h) m = Inr m1" "counted {} m1 (?V + ?F)" "frees m m1" by blast
  define h0 where "h0 = \<lparr>hashtable = replicate (hashsize h) [], hashsize = hashsize h, hash_nitems = 0, hash_file = hash_file h, hash_line = hash_line h\<rparr>"
  have same1: "same_obj m m1 (hn_key n)" if "n \<in> set (nodes h)" for n
    using live_of[OF m1(2)] hash_refs_in[OF that, of W] m1(3) by (auto simp: frees_def)
  have w1: "wf_table m1 h = wf_table m h" "hash_map m1 h = hash_map m h" using wf_same(1,3)[of h m m1] same1 by blast+
  have "odd (hashsize h)" using w by (simp add: wf_table_def)
  then have "wf_Hash m1 h0" "hash_refs h0 = ?F" "nodes h0 = []" using odd_pos[of "hashsize h"]
    by (simp_all add: h0_def wf_Hash_def wf_table_def nodes_def bucket_ok_def hash_refs_def)
  note h0 = this
  have st: "hash_state h0 root m1 ?V" using h0 m1 wf_root_frees[OF w(3) m1(3,2)] by (simp add: hash_state_def)
  have ok: "bucket_ok m1 (hashtable h)" "distinct (map (node_text m1) (nodes h))" using w(2) w1(1) by (simp_all add: wf_table_def)
  then have ty: "n \<in> set (nodes h) \<Longrightarrow> obj_type (objs m1 (hn_key n)) = Some DohStringType" for n using bucket_ok_nodes by (fastforce simp: nodes_def)
  have r: "room 2 (?V + hash_refs h0 + node_refs (nodes h))"
  proof -
    have "?V + hash_refs h0 + node_refs (nodes h) = ?V + hash_refs h" using h0(2) by (simp add: hash_refs_def)
    then show ?thesis using assms(2) by (simp only:)
  qed
  have sub: "node_refs (nodes h) \<subseteq># ?V" by (simp add: hash_refs_def)
  obtain nh root' m' where c: "each copy_node (nodes h) (h0, root, m1) = Inr (nh, root', m')" "hash_state nh root' m' ?V"
    "mset (nodes nh) = mset (nodes h)" "hash_file nh = hash_file h0" "\<forall>a \<in># ?V. same_obj m1 m' a"
    using copy_nodes[OF st sub ty _ r] ok(2) h0(3) by auto
  have same2: "same_obj m1 m' (hn_key n)" if "n \<in> set (nodes h)" for n using c(5) hash_refs_in[OF that, of W] by blast
  have w2: "wf_table m' h = wf_table m1 h" "hash_map m' h = hash_map m1 h" using wf_same(1,3)[of h m1 m'] same2 by blast+
  have "distinct (map (node_text m') (nodes h))" using w2(1) w1(1) w(2) by (simp add: wf_table_def)
  then have map: "hash_map m' nh = hash_map m h" using same_nodes(2)[OF c(3)] w2(2) w1(2) by simp
  have "wf_Hash m' h" using w2(1) w1(1) w by (simp add: wf_Hash_def)
  moreover have "counted {} m' (W + hash_refs nh + hash_refs h)" using c(2) by (simp add: hash_state_def ac_simps)
  ultimately have "hash_state h root' m' (W + hash_refs nh)" using c(2) by (simp add: hash_state_def)
  moreover have "CopyHash h (root, m) = Inr (nh, root', m')" using m1(1) c(1) by (simp add: CopyHash_def each_each h0_def nodes_def)
  ultimately show ?thesis using c(2,4) map w2(2) w1(2) by (auto simp: h0_def)
qed

section \<open>Iteration and keys\<close>

definition iter_at :: "Hash \<Rightarrow> HashIterator \<Rightarrow> HashNode list \<Rightarrow> bool" where
  \<comment> \<open>the iterator stands on the first of these nodes\<close>
  "iter_at h it ns \<longleftrightarrow> (case ns of [] \<Rightarrow> hi_key it = None
     | n # r \<Rightarrow> hi_key it = Some (hn_key n) \<and> hi_item it = Some (hn_object n) \<and> r = hi_current it @ concat (drop (Suc (hi_index it)) (hashtable h)))"

lemma skip_empty_spec:
  "length (hashtable h) = hashsize h \<Longrightarrow> \<exists>j. skip_empty h i = Inr j \<and> concat (drop j (hashtable h)) = concat (drop i (hashtable h)) \<and>
    (j < hashsize h \<longrightarrow> hashtable h ! j \<noteq> [])"
proof (induction h i rule: skip_empty.induct)
  case (1 h i)
  show ?case
  proof (cases "i < hashsize h")
    case True
    have d: "drop i (hashtable h) = hashtable h ! i # drop (Suc i) (hashtable h)" using True 1(2) by (simp add: Cons_nth_drop_Suc)
    show ?thesis
    proof (cases "hashtable h ! i = []")
      case e: True
      have "skip_empty h i = skip_empty h (i + 1)" using True e 1(2) by (subst skip_empty.simps) (simp add: arr_get_def)
      then show ?thesis using 1(1)[OF True e 1(2)] d e by simp
    next
      case False
      have "skip_empty h i = Inr i" using True False 1(2) by (subst skip_empty.simps) (simp add: arr_get_def)
      then show ?thesis using False by simp
    qed
  next
    case False
    then have "skip_empty h i = Inr i" by (subst skip_empty.simps) simp
    then show ?thesis using False by simp
  qed
qed

lemma at_bucket_spec:
  assumes "length (hashtable h) = hashsize h"
  shows "\<exists>it. at_bucket h i = Inr it \<and> iter_at h it (concat (drop i (hashtable h)))"
proof -
  obtain j where j: "skip_empty h i = Inr j" "concat (drop j (hashtable h)) = concat (drop i (hashtable h))"
    "j < hashsize h \<longrightarrow> hashtable h ! j \<noteq> []" using skip_empty_spec[OF assms] by blast
  show ?thesis
  proof (cases "j < hashsize h")
    case True
    then obtain n ns where n: "hashtable h ! j = n # ns" using j(3) by (cases "hashtable h ! j") auto
    have "drop j (hashtable h) = hashtable h ! j # drop (Suc j) (hashtable h)" using True assms by (simp add: Cons_nth_drop_Suc)
    then show ?thesis using True assms n j by (simp add: at_bucket_def arr_get_def iter_at_def flip: j(2))
  next
    case False
    then have "concat (drop i (hashtable h)) = []" using j(2)[symmetric] assms by simp
    then show ?thesis using False j(1) by (simp add: at_bucket_def iter_at_def del: concat_eq_Nil_conv)
  qed
qed

lemma Hash_iterates:
  assumes "length (hashtable h) = hashsize h"
  shows "\<exists>it. Hash_firstiter h = Inr it \<and> iter_at h it (nodes h)"
    and "iter_at h it (n # ns) \<Longrightarrow> \<exists>it'. Hash_nextiter h it = Inr it' \<and> iter_at h it' ns"
proof -
  show "\<exists>it. Hash_firstiter h = Inr it \<and> iter_at h it (nodes h)" using at_bucket_spec[OF assms, of 0] by (simp add: Hash_firstiter_def nodes_def)
  assume it: "iter_at h it (n # ns)"
  show "\<exists>it'. Hash_nextiter h it = Inr it' \<and> iter_at h it' ns"
  proof (cases "hi_current it")
    case Nil
    then show ?thesis using it at_bucket_spec[OF assms, of "hi_index it + 1"] by (simp add: Hash_nextiter_def iter_at_def)
  next
    case (Cons x xs)
    then show ?thesis using it by (auto simp: Hash_nextiter_def iter_at_def)
  qed
qed

lemma Incref_frees: "Incref a m = Inr m' \<Longrightarrow> frees m m'"
  by (rule frees_at[of a]) (auto simp: Incref_def live_def interned_def same_obj_def split: if_splits)

lemma List_insert_object_frees: "List_insert l pos (Obj a) m = Inr (r, l', m') \<Longrightarrow> frees m m'"
  using Incref_frees by (auto simp: List_insert_def to_object_def Let_def res_bind_eq_Inr split: if_splits)

lemma keys_loop_spec:
  assumes "length (hashtable h) = hashsize h" "\<And>n. n \<in> set ns \<Longrightarrow> hn_key n \<in># V"
  shows "iter_at h it ns \<Longrightarrow> length ns < f \<Longrightarrow> wf_List ks \<Longrightarrow> counted {} m (V + list_refs ks) \<Longrightarrow>
    (\<And>a. count (V + list_refs ks + mset (map hn_key ns)) a < REFMOD) \<Longrightarrow>
    \<exists>ks' m'. keys_loop f h it ks m = Inr (ks', m') \<and> wf_List ks' \<and> elems ks' = elems ks @ map hn_key ns \<and>
      counted {} m' (V + list_refs ks') \<and> frees m m'"
  using assms(2)
proof (induction ns arbitrary: f it ks m)
  case Nil
  then show ?case by (cases f) (auto simp: iter_at_def)
next
  case (Cons n ns)
  obtain g where f: "f = Suc g" using Cons.prems(2) by (cases f) auto
  have k: "hi_key it = Some (hn_key n)" using Cons.prems(1) by (simp add: iter_at_def)
  have g: "given (Obj (hn_key n)) (V + list_refs ks)" using Cons.prems(5)[of "hn_key n"] Cons.prems(6)[of n] by (simp add: given_def)
  obtain ks1 m1 where i: "List_insert ks DOH_END (Obj (hn_key n)) m = Inr (0, ks1, m1)" "keeps m m1" "wf_List ks1"
    "elems ks1 = insert_at (length (elems ks)) (hn_key n) (elems ks)" "list_file ks1 = list_file ks" "counted {} m1 (V + list_refs ks1)"
    using List_insert_spec[OF Cons.prems(3,4) _ g, of DOH_END] by (auto simp: denotes_def insert_pos_def)
  have e: "elems ks1 = elems ks @ [hn_key n]" using i(4) by (simp add: insert_at_def)
  have "V + list_refs ks1 + mset (map hn_key ns) = V + list_refs ks + mset (map hn_key (n # ns))" using e i(5) by (simp add: list_refs_def)
  then have r: "count (V + list_refs ks1 + mset (map hn_key ns)) a < REFMOD" for a using Cons.prems(5)[of a] by (simp only:)
  obtain it1 where it1: "Hash_nextiter h it = Inr it1" "iter_at h it1 ns" using Hash_iterates(2)[OF assms(1) Cons.prems(1)] by blast
  obtain ks' m' where "keys_loop g h it1 ks1 m1 = Inr (ks', m')" "wf_List ks'" "elems ks' = elems ks1 @ map hn_key ns"
    "counted {} m' (V + list_refs ks')" "frees m1 m'"
    using Cons.IH[OF it1(2) _ i(3,6) r, of g] Cons.prems(2,6) f by auto
  moreover have "frees m m'" using List_insert_object_frees[OF i(1)] \<open>frees m1 m'\<close> frees_trans by blast
  ultimately show ?case using f k i(1) it1(1) e by auto
qed

lemma Hash_keys_spec:
  assumes "hash_state h root m W" "room 2 (W + hash_refs h + hash_refs h)"
  shows "\<exists>ks m'. Hash_keys h m = Inr (ks, m') \<and> wf_List ks \<and> hash_state h root m' (W + list_refs ks) \<and> hash_map m' h = hash_map m h \<and>
    distinct (map (\<lambda>a. obj_text (objs m' a)) (elems ks)) \<and> (\<lambda>a. obj_text (objs m' a)) ` set (elems ks) = dom (hash_map m h)"
proof -
  let ?V = "W + hash_refs h"
  have w: "wf_table m h" "wf_Hash m h" "counted {} m (?V + list_refs DohNewList)" using assms(1) DohNewList_wf
    by (simp_all add: hash_state_def wf_Hash_def)
  have len: "length (hashtable h) = hashsize h" "length (nodes h) < hash_nitems h + 1" using w(1) by (simp_all add: wf_table_def)
  have inV: "n \<in> set (nodes h) \<Longrightarrow> hn_key n \<in># ?V" for n using hash_refs_in by blast
  obtain it where it: "Hash_firstiter h = Inr it" "iter_at h it (nodes h)" using Hash_iterates(1)[OF len(1)] by blast
  have r: "count (?V + list_refs DohNewList + mset (map hn_key (nodes h))) a < REFMOD" for a
  proof -
    have "count (?V + hash_refs h) a + 2 < REFMOD" using assms(2) by (simp add: room_def)
    then show ?thesis using DohNewList_wf by (simp add: hash_refs_def node_refs_def)
  qed
  obtain ks m' where k: "keys_loop (hash_nitems h + 1) h it DohNewList m = Inr (ks, m')" "wf_List ks" "elems ks = map hn_key (nodes h)"
    "counted {} m' (?V + list_refs ks)" "frees m m'"
    using keys_loop_spec[OF len(1) inV it(2) len(2) _ w(3) r] DohNewList_wf by auto
  have same: "same_obj m m' (hn_key n)" if "n \<in> set (nodes h)" for n
    using live_of[OF k(4)] inV[OF that] k(5) by (auto simp: frees_def)
  have wf': "wf_Hash m' h = wf_Hash m h" "hash_map m' h = hash_map m h" using wf_same[of h m m'] same by blast+
  have "counted {} m' (W + list_refs ks + hash_refs h)" using k(4) by (simp add: ac_simps)
  moreover have "wf_root root m'" using wf_root_frees[OF _ k(5,4)] assms(1) by (simp add: hash_state_def)
  ultimately have st: "hash_state h root m' (W + list_refs ks)" using w(2) wf'(1) by (simp add: hash_state_def)
  have texts: "map (\<lambda>a. obj_text (objs m' a)) (elems ks) = map (node_text m) (nodes h)"
    using same node_text_same by (simp add: k(3) node_text_def[of m', symmetric])
  then have "distinct (map (\<lambda>a. obj_text (objs m' a)) (elems ks))" using w(1) by (simp only: wf_table_def)
  moreover have "(\<lambda>a. obj_text (objs m' a)) ` set (elems ks) = dom (hash_map m h)"
    using arg_cong[OF texts, of set] by (auto simp: hash_map_def dom_map_of_conv_image_fst image_image)
  moreover have "Hash_keys h m = Inr (ks, m')" using it(1) k(1) by (simp add: Hash_keys_def)
  ultimately show ?thesis using k(2) st wf'(2) by blast
qed

section \<open>Flags\<close>

lemma DohSetFlag_spec:
  assumes "hash_state h root m W" "room 3 (W + hash_refs h)"
  shows "\<exists>a h' root' m'. DohSetFlag h (Chars name) (root, m) = Inr (h', root', m') \<and> hash_state h' root' m' (add_mset a W) \<and>
    hash_map m' h' = (hash_map m h)(name \<mapsto> a) \<and> string_at m' a ''1'' \<and> \<not> live m a"
proof -
  let ?V = "W + hash_refs h"
  have b: "counted {} m ?V" "wf_root root m" using assms(1) by (simp_all add: hash_state_def)
  obtain a m1 where a: "NewString ''1'' m = Inr (a, m1)" "\<not> live m a" "counted {} m1 (add_mset a ?V)" "creates m m1"
    "obj_text (objs m1 a) = ''1''" "obj_type (objs m1 a) = Some DohStringType" using NewString_balanced[OF b(1)] by blast
  have V: "add_mset a ?V = add_mset a W + hash_refs h" by simp
  have same: "same_obj m m1 (hn_key n)" if "n \<in> set (nodes h)" for n
    using live_of[OF b(1)] hash_refs_in[OF that, of W] a(4) by (auto simp: creates_def)
  have w1: "wf_Hash m1 h = wf_Hash m h" "hash_map m1 h = hash_map m h" using wf_same[of h m m1] same by blast+
  have st: "hash_state h root m1 (add_mset a W)"
    using w1(1) wf_root_creates[OF b(2) a(4)] a(3) assms(1) unfolding V by (simp add: hash_state_def)
  have "count (add_mset a W + hash_refs h) c + 2 < REFMOD" for c
  proof -
    have "count ?V c + 3 < REFMOD" using assms(2) by (simp add: room_def)
    then show ?thesis by auto
  qed
  then have rm: "room 2 (add_mset a W + hash_refs h)" by (simp add: room_def)
  have "key_given (Chars name) m1 (add_mset a W + hash_refs h)" "arg_given (Obj a) (add_mset a W + hash_refs h)"
    by (simp_all add: key_given_def arg_given_def)
  from Hash_setattr_spec[OF st this rm] obtain h' root' m' where s:
    "Hash_setattr h (Chars name) (Obj a) (root, m1) = Inr (if hash_map m1 h name = None then 0 else 1, h', root', m')"
    "hash_state h' root' m' (add_mset a W)" "hash_map m' h' = (hash_map m1 h)(name \<mapsto> a)" "keeps m1 m'"
    by (auto simp: key_text_def denotes_def)
  have b': "counted {} m' (add_mset a W + hash_refs h')" using s(2) by (simp add: hash_state_def)
  have "same_obj m1 m' a" using keeps_held[OF s(4) a(3) b'] by simp
  then have "string_at m' a ''1''" using a(5,6) by (simp add: string_at_def same_obj_def)
  moreover have "DohSetFlag h (Chars name) (root, m) = Inr (h', root', m')" using a(1) s(1) by (simp add: DohSetFlag_def)
  ultimately show ?thesis using a(2) s(2,3) w1(2) by auto
qed

lemma DohGetFlagAttr_spec:
  assumes "hash_state h root m W" "key_given k m (W + hash_refs h)"
  shows "\<exists>root' m'. DohGetFlagAttr h k (root, m) = Inr (case hash_map m h (key_text m k) of None \<Rightarrow> None
      | Some a \<Rightarrow> if a = DohNone \<or> string_at m a ''0'' then None else Some a, root', m') \<and> hash_state h root' m' W \<and> hash_map m' h = hash_map m h"
proof -
  obtain root' m' where g: "Hash_getattr h k (root, m) = Inr (hash_map m h (key_text m k), root', m')" "hash_state h root' m' W"
    "hash_map m' h = hash_map m h" "creates m m'" using Hash_getattr_spec[OF assms] by blast
  show ?thesis
  proof (cases "hash_map m h (key_text m k)")
    case None
    then show ?thesis using g by (auto simp: DohGetFlagAttr_def DohGetattr_def)
  next
    case (Some a)
    have "distinct (map (node_text m) (nodes h))" and b: "counted {} m (W + hash_refs h)" using assms(1)
      by (simp_all add: hash_state_def wf_Hash_def wf_table_def)
    then obtain n where "n \<in> set (nodes h)" "hn_object n = a" using Some hash_map_set by blast
    then have "live m a" using hash_refs_in[of n h W] live_of[OF b] by blast
    then have "same_obj m m' a" using g(4) by (simp add: creates_def)
    then show ?thesis using Some g by (auto simp: DohGetFlagAttr_def DohGetattr_def string_at_def same_obj_def strcmp_eq_0)
  qed
qed


section \<open>Properties\<close>

text \<open>C10: The hash table implements a finite map from texts to objects: with every count equal to the references held, setting
  an attribute (to an object or to a text, which becomes a new string), looking it up, deleting it, clearing the
  table, copying it and listing its keys act on the map as they should, whatever the collisions and rebuildings of
  the table, report whether the key was there, and leave the counts equal to the references held.\<close>

theorem hash_refines:
  assumes "hash_state h root m W" "room 2 (W + hash_refs h + hash_refs h)"
  shows "(\<forall>k x. key_given k m (W + hash_refs h) \<longrightarrow> arg_given x (W + hash_refs h) \<longrightarrow>
      (\<exists>v h' root' m'. Hash_setattr h k x (root, m) = Inr (if hash_map m h (key_text m k) = None then 0 else 1, h', root', m') \<and>
        hash_state h' root' m' W \<and> hash_map m' h' = (hash_map m h)(key_text m k \<mapsto> v) \<and> denotes x v m m')) \<and>
    (\<forall>k. key_given k m (W + hash_refs h) \<longrightarrow>
      (\<exists>root' m'. Hash_getattr h k (root, m) = Inr (hash_map m h (key_text m k), root', m') \<and> hash_state h root' m' W \<and> hash_map m' h = hash_map m h)) \<and>
    (\<forall>k. key_given k m (W + hash_refs h) \<longrightarrow>
      (\<exists>h' root' m'. Hash_delattr h k (root, m) = Inr (if hash_map m h (key_text m k) = None then 0 else 1, h', root', m') \<and>
        hash_state h' root' m' W \<and> hash_map m' h' = (hash_map m h)(key_text m k := None))) \<and>
    (\<exists>h' m'. Hash_clear h m = Inr (h', m') \<and> hash_state h' root m' W \<and> hash_map m' h' = Map.empty) \<and>
    (\<exists>nh root' m'. CopyHash h (root, m) = Inr (nh, root', m') \<and> hash_state h root' m' (W + hash_refs nh) \<and>
      hash_state nh root' m' (W + hash_refs h) \<and> hash_map m' nh = hash_map m h \<and> hash_map m' h = hash_map m h) \<and>
    (\<exists>ks m'. Hash_keys h m = Inr (ks, m') \<and> hash_state h root m' (W + list_refs ks) \<and> hash_map m' h = hash_map m h \<and>
      distinct (map (\<lambda>a. obj_text (objs m' a)) (elems ks)) \<and> (\<lambda>a. obj_text (objs m' a)) ` set (elems ks) = dom (hash_map m h))"
proof (intro conjI allI impI)
  have r: "room 2 (W + hash_refs h)"
  proof -
    have "count (W + hash_refs h) a \<le> count (W + hash_refs h + hash_refs h) a" for a by simp
    then show ?thesis using assms(2) unfolding room_def by (meson add_le_mono1 le_less_trans)
  qed
  show "\<exists>v h' root' m'. Hash_setattr h k x (root, m) = Inr (if hash_map m h (key_text m k) = None then 0 else 1, h', root', m') \<and>
      hash_state h' root' m' W \<and> hash_map m' h' = (hash_map m h)(key_text m k \<mapsto> v) \<and> denotes x v m m'"
    if "key_given k m (W + hash_refs h)" "arg_given x (W + hash_refs h)" for k x
    using Hash_setattr_spec[OF assms(1) that r] by blast
  show "\<exists>root' m'. Hash_getattr h k (root, m) = Inr (hash_map m h (key_text m k), root', m') \<and> hash_state h root' m' W \<and> hash_map m' h = hash_map m h"
    if "key_given k m (W + hash_refs h)" for k using Hash_getattr_spec[OF assms(1) that] by blast
  show "\<exists>h' root' m'. Hash_delattr h k (root, m) = Inr (if hash_map m h (key_text m k) = None then 0 else 1, h', root', m') \<and>
      hash_state h' root' m' W \<and> hash_map m' h' = (hash_map m h)(key_text m k := None)"
    if "key_given k m (W + hash_refs h)" for k using Hash_delattr_spec[OF assms(1) that] by blast
  show "\<exists>h' m'. Hash_clear h m = Inr (h', m') \<and> hash_state h' root m' W \<and> hash_map m' h' = Map.empty" using Hash_clear_spec[OF assms(1)] by blast
  show "\<exists>nh root' m'. CopyHash h (root, m) = Inr (nh, root', m') \<and> hash_state h root' m' (W + hash_refs nh) \<and>
      hash_state nh root' m' (W + hash_refs h) \<and> hash_map m' nh = hash_map m h \<and> hash_map m' h = hash_map m h"
    using CopyHash_spec[OF assms] by blast
  show "\<exists>ks m'. Hash_keys h m = Inr (ks, m') \<and> hash_state h root m' (W + list_refs ks) \<and> hash_map m' h = hash_map m h \<and>
      distinct (map (\<lambda>a. obj_text (objs m' a)) (elems ks)) \<and> (\<lambda>a. obj_text (objs m' a)) ` set (elems ks) = dom (hash_map m h)"
    using Hash_keys_spec[OF assms] by blast
qed

lemma start_hash: "hash_state DohNewHash NoKey none_memory {#}" "room 3 ({#} + hash_refs DohNewHash)"
  using none_memory_balanced DohNewHash_wf by (simp_all add: hash_state_def wf_root_def room_def)

theorem hash_refines_witness:
  "\<exists>v h root m. Hash_setattr DohNewHash (Chars ''name'') (Chars ''int'') (NoKey, none_memory) = Inr (0, h, root, m) \<and>
     hash_state h root m {#} \<and> hash_map m h = [''name'' \<mapsto> v] \<and> obj_text (objs m v) = ''int''"
proof -
  have refs: "hash_refs DohNewHash = {#}" "hash_map none_memory DohNewHash = Map.empty" using DohNewHash_wf by simp_all
  have "room 2 ({#} + hash_refs DohNewHash + hash_refs DohNewHash)" by (simp add: refs room_def)
  note hash_refines[OF start_hash(1) this, THEN conjunct1, rule_format, of "Chars ''name''" "Chars ''int''"]
  then show ?thesis using refs by (auto simp: key_given_def arg_given_def key_text_def denotes_def)
qed

text \<open>The search for the size of a bigger table ends, with a size that is at least twice the old one plus one and has no
  divisors, for every table (the search starts from an odd number and only steps over odd ones).\<close>

theorem table_size_prime:
  assumes "s = next_size (2 * n + 1) 3" "1 < d" "d < s"
  shows "2 * n + 1 \<le> s \<and> odd s \<and> \<not> d dvd s"
proof -
  have "\<forall>q. odd q \<and> 3 \<le> q \<and> q < (3::nat) \<longrightarrow> \<not> q dvd 2 * n + 1" by linarith
  from next_size_result[OF _ _ this] have s: "2 * n + 1 \<le> s \<and> odd s \<and> good_size s" using assms(1) by simp
  then show ?thesis using good_size_prime assms(2,3) by blast
qed

theorem table_size_prime_witness: "next_size (2 * 7 + 1) 3 = 17 \<and> \<not> 3 dvd (17::nat)"
proof -
  have "next_size (2 * 7 + 1) 3 = 17" by (simp add: next_size.simps)
  then show ?thesis using table_size_prime[of 17 7 3] by simp
qed

text \<open>C11: A flag that is set is read as set and, once it is deleted, as not set. Setting a flag leaves one reference to its
  value that nobody holds: the balance only closes with it on the side of the clients.\<close>

theorem flag_roundtrip:
  assumes "hash_state h root m W" "room 3 (W + hash_refs h)" "live m DohNone"
  shows "\<exists>a h1 root1 m1. DohSetFlag h (Chars name) (root, m) = Inr (h1, root1, m1) \<and> hash_state h1 root1 m1 (add_mset a W) \<and>
    (\<exists>st. DohGetFlagAttr h1 (Chars name) (root1, m1) = Inr (Some a, st)) \<and>
    (\<exists>h2 root2 m2. Hash_delattr h1 (Chars name) (root1, m1) = Inr (1, h2, root2, m2) \<and>
      (\<exists>st. DohGetFlagAttr h2 (Chars name) (root2, m2) = Inr (None, st)))"
proof -
  obtain a h1 root1 m1 where s: "DohSetFlag h (Chars name) (root, m) = Inr (h1, root1, m1)" "hash_state h1 root1 m1 (add_mset a W)"
    "hash_map m1 h1 = (hash_map m h)(name \<mapsto> a)" "string_at m1 a ''1''" "\<not> live m a" using DohSetFlag_spec[OF assms(1,2)] by blast
  have k: "key_given (Chars name) m' V" "key_text m' (Chars name) = name" for m' V by (simp_all add: key_given_def key_text_def)
  have "a \<noteq> DohNone" "\<not> string_at m1 a ''0''" using s(4,5) assms(3) by (auto simp: string_at_def)
  then have "\<exists>st. DohGetFlagAttr h1 (Chars name) (root1, m1) = Inr (Some a, st)"
    using DohGetFlagAttr_spec[OF s(2) k(1)] s(3) unfolding k(2) by auto
  moreover obtain h2 root2 m2 where d: "Hash_delattr h1 (Chars name) (root1, m1) = Inr (1, h2, root2, m2)"
    "hash_state h2 root2 m2 (add_mset a W)" "hash_map m2 h2 = (hash_map m1 h1)(name := None)"
    using Hash_delattr_spec[OF s(2) k(1)] s(3) unfolding k(2) by auto
  moreover have "\<exists>st. DohGetFlagAttr h2 (Chars name) (root2, m2) = Inr (None, st)"
    using DohGetFlagAttr_spec[OF d(2) k(1)] d(3) unfolding k(2) by auto
  ultimately show ?thesis using s(1,2) by blast
qed

theorem flag_roundtrip_witness:
  "\<exists>a h1 root1 m1. DohSetFlag DohNewHash (Chars ''feature'') (NoKey, none_memory) = Inr (h1, root1, m1) \<and> hash_state h1 root1 m1 {#a#} \<and>
    (\<exists>st. DohGetFlagAttr h1 (Chars ''feature'') (root1, m1) = Inr (Some a, st))"
proof -
  have "live none_memory DohNone" by (simp add: live_def none_memory_def DohNone_def new_base_def)
  from flag_roundtrip[OF start_hash this, of "''feature''"] show ?thesis by blast
qed

end
