(* ===== verification/Swig_Tree.thy ===== *)
theory Swig_Tree
  imports Swig_Prelude
begin

text \<open>
  The parse tree (\<^verbatim>\<open>Source/Swig/tree.c\<close>, \<^verbatim>\<open>swigtree.h\<close>): the five link attributes of the nodes and the functions that
  change them, and the views that \<^verbatim>\<open>Swig_require\<close> and \<^verbatim>\<open>Swig_save\<close> open on the attributes of a node and
  \<^verbatim>\<open>Swig_restore\<close> closes. A link that is set to null is deleted, as \<^verbatim>\<open>Setattr\<close> does.

  The links are compared with a function from nodes to the lists of their children.
\<close>

section \<open>Links\<close>

type_synonym node = nat

record Tree =
  parentNode :: "node \<Rightarrow> node option"
  previousSibling :: "node \<Rightarrow> node option"
  nextSibling :: "node \<Rightarrow> node option"
  firstChild :: "node \<Rightarrow> node option"
  lastChild :: "node \<Rightarrow> node option"

definition set_parentNode :: "node \<Rightarrow> node option \<Rightarrow> Tree \<Rightarrow> Tree" where
  "set_parentNode n v t = t\<lparr>parentNode := (parentNode t)(n := v)\<rparr>"

definition set_previousSibling :: "node \<Rightarrow> node option \<Rightarrow> Tree \<Rightarrow> Tree" where
  "set_previousSibling n v t = t\<lparr>previousSibling := (previousSibling t)(n := v)\<rparr>"

definition set_nextSibling :: "node \<Rightarrow> node option \<Rightarrow> Tree \<Rightarrow> Tree" where
  "set_nextSibling n v t = t\<lparr>nextSibling := (nextSibling t)(n := v)\<rparr>"

definition set_firstChild :: "node \<Rightarrow> node option \<Rightarrow> Tree \<Rightarrow> Tree" where
  "set_firstChild n v t = t\<lparr>firstChild := (firstChild t)(n := v)\<rparr>"

definition set_lastChild :: "node \<Rightarrow> node option \<Rightarrow> Tree \<Rightarrow> Tree" where
  "set_lastChild n v t = t\<lparr>lastChild := (lastChild t)(n := v)\<rparr>"

lemmas set_links = set_parentNode_def set_previousSibling_def set_nextSibling_def set_firstChild_def set_lastChild_def

definition no_links :: Tree where
  \<comment> \<open>nodes as \<^verbatim>\<open>NewHash\<close> makes them\<close>
  "no_links = \<lparr>parentNode = (\<lambda>_. None), previousSibling = (\<lambda>_. None), nextSibling = (\<lambda>_. None), firstChild = (\<lambda>_. None), lastChild = (\<lambda>_. None)\<rparr>"

text \<open>The loops follow \<^verbatim>\<open>nextSibling\<close>; on a cyclic chain they do not end, which is the value \<open>None\<close>.\<close>

partial_function (option) set_parents :: "node option \<Rightarrow> node option \<Rightarrow> node \<Rightarrow> Tree \<Rightarrow> (node option \<times> Tree) option" where
  \<comment> \<open>\<^verbatim>\<open>while (chd) { lc = chd; set_parentNode(chd, node); chd = nextSibling(chd); }\<close>\<close>
  "set_parents chd lc p t =
     (case chd of None \<Rightarrow> Some (lc, t)
      | Some c \<Rightarrow> set_parents (nextSibling t c) (Some c) p (set_parentNode c (Some p) t))"

partial_function (option) last_sibling :: "Tree \<Rightarrow> node \<Rightarrow> node option" where
  "last_sibling t lc = (case nextSibling t lc of None \<Rightarrow> Some lc | Some n \<Rightarrow> last_sibling t n)"

definition appendChild :: "node \<Rightarrow> node option \<Rightarrow> Tree \<Rightarrow> Tree option" where
  "appendChild n chd t =
     (case chd of None \<Rightarrow> Some t
      | Some c \<Rightarrow>
          let t1 = (case lastChild t n of
                 None \<Rightarrow> set_firstChild n (Some c) t
               | Some lc \<Rightarrow> set_previousSibling c (Some lc) (set_nextSibling lc (Some c) t)) in
          Option.bind (set_parents (Some c) (lastChild t n) n t1) (\<lambda>(lc, t2). Some (set_lastChild n lc t2)))"

definition prependChild :: "node \<Rightarrow> node option \<Rightarrow> Tree \<Rightarrow> Tree option" where
  "prependChild n chd t =
     (case chd of None \<Rightarrow> Some t
      | Some c \<Rightarrow>
          let t1 = (case firstChild t n of
                 None \<Rightarrow> t
               | Some fc \<Rightarrow> set_previousSibling fc (Some c) (set_nextSibling c (Some fc) t)) in
          Option.bind (set_parents (Some c) None n (set_firstChild n (Some c) t1)) (\<lambda>(_, t2). Some t2))"

definition appendSibling :: "node \<Rightarrow> node \<Rightarrow> Tree \<Rightarrow> Tree option" where
  "appendSibling n chd t =
     Option.bind (last_sibling t n) (\<lambda>lc.
     let t1 = set_previousSibling chd (Some lc) (set_nextSibling lc (Some chd) t) in
     case parentNode t1 n of
       None \<Rightarrow> Some t1
     | Some p \<Rightarrow> Option.bind (set_parents (Some chd) (Some lc) p t1) (\<lambda>(lc', t2). Some (set_lastChild p lc' t2)))"

definition removeNode :: "node \<Rightarrow> Tree \<Rightarrow> Tree" where
  \<comment> \<open>the last deletion names \<^verbatim>\<open>prevSibling\<close>, which no node has\<close>
  "removeNode n t =
     (case parentNode t n of None \<Rightarrow> t
      | Some p \<Rightarrow>
          let prev = previousSibling t n; nxt = nextSibling t n;
              t1 = (case prev of Some q \<Rightarrow> set_nextSibling q nxt t | None \<Rightarrow> set_firstChild p nxt t);
              t2 = (case nxt of Some q \<Rightarrow> set_previousSibling q prev t1 | None \<Rightarrow> set_lastChild p prev t1) in
          set_nextSibling n None (set_parentNode n None t2))"

section \<open>Views on the attributes of a node\<close>

text \<open>
  The attributes are the map of \<open>Doh_Hash\<close>; \<open>NoneObject\<close> is the object \<^verbatim>\<open>DohNone\<close>, which \<^verbatim>\<open>Getattr\<close> reports as null.
  \<open>order\<close> is the order in which the hash table lists its keys.
\<close>

datatype DOH = NoneObject | Str string | Object nat

type_synonym attrs = "string \<rightharpoonup> DOH"

definition Getattr :: "attrs \<Rightarrow> string \<Rightarrow> DOH option" where
  "Getattr n k = (if n k = Some NoneObject then None else n k)"

definition Setattr :: "attrs \<Rightarrow> string \<Rightarrow> DOH option \<Rightarrow> attrs" where
  "Setattr n k v = n(k := v)"

definition Delattr :: "attrs \<Rightarrow> string \<Rightarrow> attrs" where
  "Delattr n k = n(k := None)"

definition checkAttribute :: "attrs \<Rightarrow> string \<Rightarrow> string \<Rightarrow> bool" where
  "checkAttribute n name val = (case Getattr n name of None \<Rightarrow> False | Some v \<Rightarrow> v = Str val)"

definition copy_attrs :: "string list \<Rightarrow> attrs \<Rightarrow> attrs" where
  \<comment> \<open>the attributes of \<^verbatim>\<open>copyNode\<close>: Strings only\<close>
  "copy_attrs ks n = foldl (\<lambda>c k. case n k of Some (Str s) \<Rightarrow> Setattr c k (Some (Str s)) | _ \<Rightarrow> c) Map.empty ks"

definition copyNode :: "(attrs \<Rightarrow> string list) \<Rightarrow> attrs \<Rightarrow> attrs" where
  "copyNode order n = copy_attrs (order n) n"

definition saved_name :: "string \<Rightarrow> string \<Rightarrow> string" where
  \<comment> \<open>\<^verbatim>\<open>NewStringf("%s:%s", ns, name)\<close>\<close>
  "saved_name ns name = ns @ CHR 0x3A # name"

datatype mark = Plain | Star | Query

definition parse_name :: "string \<Rightarrow> mark \<times> string" where
  "parse_name s = (case s of c # r \<Rightarrow> if c = CHR 0x2A then (Star, r) else if c = CHR 0x3F then (Query, r) else (Plain, s) | [] \<Rightarrow> (Plain, s))"

definition save_view :: "string \<Rightarrow> attrs \<Rightarrow> attrs res" where
  "save_view ns n =
     (case Getattr n ''view'' of
        Some (Str v) \<Rightarrow>
          if v \<noteq> ns then Inr (Setattr (Setattr n (saved_name ns ''view'') (Some (Str v))) ''view'' (Some (Str ns))) else Inr n
      | Some _ \<Rightarrow> Inl Undefined
      | None \<Rightarrow> Inr (Setattr n ''view'' (Some (Str ns))))"

definition or_none :: "DOH option \<Rightarrow> DOH option" where
  "or_none v = (case v of None \<Rightarrow> Some NoneObject | Some x \<Rightarrow> Some x)"

fun require_names :: "string \<Rightarrow> string list \<Rightarrow> attrs \<Rightarrow> attrs res" where
  "require_names ns [] n = Inr n"
| "require_names ns (a # as) n =
     (let (k, name) = parse_name a; v = Getattr n name in
      if k \<noteq> Query \<and> v = None then Inl AssertFailed
      else require_names ns as (if k \<noteq> Plain then Setattr n (saved_name ns name) (or_none v) else n))"

definition Swig_require :: "string \<Rightarrow> string list \<Rightarrow> attrs \<Rightarrow> attrs res" where
  "Swig_require ns names n = res_bind (require_names ns names n) (save_view ns)"

fun save_names :: "string \<Rightarrow> string list \<Rightarrow> attrs \<Rightarrow> attrs" where
  \<comment> \<open>without the warning that an attribute was already saved\<close>
  "save_names ns [] n = n"
| "save_names ns (a # as) n = (let name = snd (parse_name a) in save_names ns as (Setattr n (saved_name ns name) (or_none (Getattr n name))))"

definition Swig_save :: "string \<Rightarrow> string list \<Rightarrow> attrs \<Rightarrow> attrs res" where
  "Swig_save ns names n = save_view ns (save_names ns names n)"

definition saved_keys :: "string \<Rightarrow> string list \<Rightarrow> string list" where
  "saved_keys ns ks = filter (\<lambda>k. take (length ns + 1) k = ns @ '':'') ks"

fun restore_keys :: "nat \<Rightarrow> string list \<Rightarrow> attrs \<Rightarrow> attrs" where
  "restore_keys len [] n = n"
| "restore_keys len (k # ks) n = restore_keys len ks (Delattr (Setattr n (drop len k) (Getattr n k)) k)"

definition Swig_restore :: "(attrs \<Rightarrow> string list) \<Rightarrow> attrs \<Rightarrow> attrs res" where
  "Swig_restore order n =
     (case Getattr n ''view'' of
        None \<Rightarrow> Inl AssertFailed
      | Some (Str ns) \<Rightarrow> Inr (restore_keys (length ns + 1) (saved_keys ns (order n)) n)
      | Some _ \<Rightarrow> Inl Undefined)"

section \<open>The children of the nodes\<close>

fun seg :: "Tree \<Rightarrow> node option \<Rightarrow> node list \<Rightarrow> node option \<Rightarrow> bool" where
  \<comment> \<open>a chain linked in both directions, with the predecessor of its first and the successor of its last node\<close>
  "seg t prev [] nxt = True"
| "seg t prev (x # xs) nxt \<longleftrightarrow>
     previousSibling t x = prev \<and> nextSibling t x = (case xs of [] \<Rightarrow> nxt | y # _ \<Rightarrow> Some y) \<and> seg t (Some x) xs nxt"

definition head :: "'a list \<Rightarrow> 'a option" where
  "head xs = (case xs of [] \<Rightarrow> None | x # _ \<Rightarrow> Some x)"

definition final :: "'a list \<Rightarrow> 'a option" where
  "final xs = (if xs = [] then None else Some (last xs))"

definition is_kids :: "Tree \<Rightarrow> node \<Rightarrow> node list \<Rightarrow> bool" where
  "is_kids t p xs \<longleftrightarrow> seg t None xs None \<and> distinct xs \<and> firstChild t p = head xs \<and> lastChild t p = final xs"

definition wf_tree :: "Tree \<Rightarrow> (node \<Rightarrow> node list) \<Rightarrow> bool" where
  "wf_tree t kids \<longleftrightarrow> (\<forall>p. is_kids t p (kids p)) \<and> (\<forall>x p. parentNode t x = Some p \<longleftrightarrow> x \<in> set (kids p))"

definition loose :: "Tree \<Rightarrow> node list \<Rightarrow> bool" where
  \<comment> \<open>a chain of nodes that are nobody's children\<close>
  "loose t xs \<longleftrightarrow> xs \<noteq> [] \<and> seg t None xs None \<and> distinct xs \<and> (\<forall>x \<in> set xs. parentNode t x = None)"

lemma head_final_simps [simp]:
  "head [] = None" "head (x # xs) = Some x" "final [] = None" "final (xs @ [x]) = Some x" "final (x # xs) = Some (last (x # xs))"
  by (simp_all add: head_def final_def)

lemma set_links_sel [simp]:
  "parentNode (set_parentNode a v t) = (parentNode t)(a := v)" "parentNode (set_previousSibling a v t) = parentNode t"
  "parentNode (set_nextSibling a v t) = parentNode t" "parentNode (set_firstChild a v t) = parentNode t" "parentNode (set_lastChild a v t) = parentNode t"
  "previousSibling (set_parentNode a v t) = previousSibling t" "previousSibling (set_previousSibling a v t) = (previousSibling t)(a := v)"
  "previousSibling (set_nextSibling a v t) = previousSibling t" "previousSibling (set_firstChild a v t) = previousSibling t"
  "previousSibling (set_lastChild a v t) = previousSibling t"
  "nextSibling (set_parentNode a v t) = nextSibling t" "nextSibling (set_previousSibling a v t) = nextSibling t"
  "nextSibling (set_nextSibling a v t) = (nextSibling t)(a := v)" "nextSibling (set_firstChild a v t) = nextSibling t"
  "nextSibling (set_lastChild a v t) = nextSibling t"
  "firstChild (set_parentNode a v t) = firstChild t" "firstChild (set_previousSibling a v t) = firstChild t"
  "firstChild (set_nextSibling a v t) = firstChild t" "firstChild (set_firstChild a v t) = (firstChild t)(a := v)"
  "firstChild (set_lastChild a v t) = firstChild t"
  "lastChild (set_parentNode a v t) = lastChild t" "lastChild (set_previousSibling a v t) = lastChild t"
  "lastChild (set_nextSibling a v t) = lastChild t" "lastChild (set_firstChild a v t) = lastChild t"
  "lastChild (set_lastChild a v t) = (lastChild t)(a := v)"
  by (simp_all add: set_links)

lemma seg_cong:
  "(\<And>x. x \<in> set xs \<Longrightarrow> previousSibling t' x = previousSibling t x \<and> nextSibling t' x = nextSibling t x) \<Longrightarrow> seg t' prev xs nxt = seg t prev xs nxt"
  by (induction xs arbitrary: prev) auto

lemma seg_append: "seg t prev (xs @ ys) nxt \<longleftrightarrow>
    seg t prev xs (if ys = [] then nxt else Some (hd ys)) \<and> seg t (if xs = [] then prev else Some (last xs)) ys nxt"
proof (induction xs arbitrary: prev)
  case (Cons x xs)
  then show ?case by (cases xs; cases ys) auto
qed simp

lemma seg_links [simp]:
  "seg (set_parentNode a v t) = seg t" "seg (set_firstChild a v t) = seg t" "seg (set_lastChild a v t) = seg t"
  "seg (t\<lparr>parentNode := f\<rparr>) = seg t"
  by (auto intro!: ext seg_cong)

lemma seg_other [simp]:
  "a \<notin> set xs \<Longrightarrow> seg (set_nextSibling a v t) prev xs nxt = seg t prev xs nxt"
  "a \<notin> set xs \<Longrightarrow> seg (set_previousSibling a v t) prev xs nxt = seg t prev xs nxt"
  by (auto intro!: seg_cong)

lemma seg_set_last:
  assumes "seg t prev xs nxt" "xs \<noteq> []" "distinct xs"
  shows "seg (set_nextSibling (last xs) v t) prev xs v"
proof -
  obtain ys x where "xs = ys @ [x]" using assms(2) by (metis rev_exhaust)
  then show ?thesis using assms(1,3) by (auto simp: seg_append)
qed

lemma seg_set_first:
  assumes "seg t prev xs nxt" "xs \<noteq> []" "distinct xs"
  shows "seg (set_previousSibling (hd xs) v t) v xs nxt"
proof -
  obtain x ys where "xs = x # ys" using assms(2) by (cases xs) auto
  then show ?thesis using assms(1,3) by auto
qed

lemma seg_last: "seg t prev xs nxt \<Longrightarrow> xs \<noteq> [] \<Longrightarrow> nextSibling t (last xs) = nxt"
  by (induction xs arbitrary: prev) (auto split: if_splits)

lemma seg_hd: "seg t prev xs nxt \<Longrightarrow> xs \<noteq> [] \<Longrightarrow> previousSibling t (hd xs) = prev"
  by (cases xs) auto

section \<open>The loops\<close>

lemma set_parents_step:
  "set_parents None lc p t = Some (lc, t)"
  "set_parents (Some c) lc p t = set_parents (nextSibling t c) (Some c) p (set_parentNode c (Some p) t)"
  by (subst set_parents.simps, simp)+

lemma last_sibling_end: "nextSibling t x = None \<Longrightarrow> last_sibling t x = Some x"
  by (subst last_sibling.simps) simp

definition adopt :: "node \<Rightarrow> node list \<Rightarrow> Tree \<Rightarrow> Tree" where
  "adopt p xs t = t\<lparr>parentNode := (\<lambda>x. if x \<in> set xs then Some p else parentNode t x)\<rparr>"

lemma seg_adopt [simp]: "seg (adopt p xs t) = seg t"
  by (simp add: adopt_def)

lemma adopt_sel [simp]:
  "nextSibling (adopt p xs t) = nextSibling t" "previousSibling (adopt p xs t) = previousSibling t"
  "firstChild (adopt p xs t) = firstChild t" "lastChild (adopt p xs t) = lastChild t"
  "parentNode (adopt p xs t) x = (if x \<in> set xs then Some p else parentNode t x)"
  by (simp_all add: adopt_def)

lemma set_parents_spec: "seg t prev xs None \<Longrightarrow> set_parents (head xs) lc p t = Some (if xs = [] then lc else final xs, adopt p xs t)"
proof (induction xs arbitrary: prev lc t)
  case Nil
  have "adopt p [] t = t" by (simp add: adopt_def)
  then show ?case by (subst set_parents.simps) simp
next
  case (Cons x xs)
  have nx: "nextSibling t x = head xs" using Cons.prems by (cases xs) auto
  have "set_parents (head (x # xs)) lc p t = set_parents (head xs) (Some x) p (set_parentNode x (Some p) t)"
    using nx by (subst set_parents.simps) simp
  also have "\<dots> = Some (if xs = [] then Some x else final xs, adopt p xs (set_parentNode x (Some p) t))"
    using Cons.prems by (intro Cons.IH[of _ "Some x"]) simp
  also have "adopt p xs (set_parentNode x (Some p) t) = adopt p (x # xs) t"
    by (rule Tree.equality) (auto simp: adopt_def)
  finally show ?case by (cases xs) (simp_all add: final_def)
qed

lemma last_sibling_spec: "seg t prev (x # xs) None \<Longrightarrow> last_sibling t x = Some (last (x # xs))"
proof (induction xs arbitrary: prev x)
  case Nil
  then show ?case by (subst last_sibling.simps) simp
next
  case (Cons y xs)
  then show ?case by (subst last_sibling.simps) simp
qed

section \<open>The operations on lists of children\<close>

lemma wf_tree_kids: "wf_tree t kids \<Longrightarrow> is_kids t p (kids p)" "wf_tree t kids \<Longrightarrow> parentNode t x = Some p \<longleftrightarrow> x \<in> set (kids p)"
  by (simp_all add: wf_tree_def)

lemma wf_tree_update:
  assumes "wf_tree t kids" "is_kids t' p zs"
    and "\<And>x. parentNode t' x = (if x \<in> set zs then Some p else if x \<in> set (kids p) then None else parentNode t x)"
    and "\<And>x. x \<in> set zs \<Longrightarrow> parentNode t x = Some p \<or> parentNode t x = None"
    and "\<And>q x. q \<noteq> p \<Longrightarrow> x \<in> set (kids q) \<Longrightarrow> previousSibling t' x = previousSibling t x \<and> nextSibling t' x = nextSibling t x"
    and "\<And>q. q \<noteq> p \<Longrightarrow> firstChild t' q = firstChild t q \<and> lastChild t' q = lastChild t q"
  shows "wf_tree t' (kids(p := zs))"
  unfolding wf_tree_def
proof (intro conjI allI)
  fix q
  show "is_kids t' q ((kids(p := zs)) q)"
  proof (cases "q = p")
    case False
    then show ?thesis using wf_tree_kids(1)[OF assms(1), of q] seg_cong[of "kids q" t' t] assms(5)[OF False] assms(6)[OF False]
      by (simp add: is_kids_def)
  qed (simp add: assms(2))
next
  fix x q
  show "parentNode t' x = Some q \<longleftrightarrow> x \<in> set ((kids(p := zs)) q)"
    using assms(3)[of x] assms(4)[of x] wf_tree_kids(2)[OF assms(1), of x p] wf_tree_kids(2)[OF assms(1), of x q]
    by (cases "q = p") (auto split: if_splits)
qed

lemma loose_not_kid: "wf_tree t kids \<Longrightarrow> loose t ys \<Longrightarrow> y \<in> set ys \<Longrightarrow> y \<notin> set (kids q)"
  using wf_tree_kids(2)[of t kids y q] by (auto simp: loose_def)

lemma kids_disjoint: "wf_tree t kids \<Longrightarrow> x \<in> set (kids p) \<Longrightarrow> q \<noteq> p \<Longrightarrow> x \<notin> set (kids q)"
  using wf_tree_kids(2)[of t kids x p] wf_tree_kids(2)[of t kids x q] by auto

text \<open>Joining a list of children with a loose chain.\<close>

definition join_chains :: "node \<Rightarrow> node \<Rightarrow> Tree \<Rightarrow> Tree" where
  "join_chains l c t = set_previousSibling c (Some l) (set_nextSibling l (Some c) t)"

lemma join_sel [simp]:
  "parentNode (join_chains l c t) = parentNode t" "firstChild (join_chains l c t) = firstChild t" "lastChild (join_chains l c t) = lastChild t"
  "x \<noteq> l \<Longrightarrow> nextSibling (join_chains l c t) x = nextSibling t x" "x \<noteq> c \<Longrightarrow> previousSibling (join_chains l c t) x = previousSibling t x"
  by (simp_all add: join_chains_def)

lemma seg_join:
  assumes "seg t None xs None" "seg t None ys None" "xs \<noteq> []" "ys \<noteq> []" "distinct (xs @ ys)"
  shows "seg (join_chains (last xs) (hd ys) t) None (xs @ ys) None"
proof -
  have n: "hd ys \<notin> set xs" "last xs \<notin> set ys" using assms(3-5) hd_in_set[of ys] last_in_set[of xs] by (auto simp: disjoint_iff)
  have "seg (set_nextSibling (last xs) (Some (hd ys)) t) None xs (Some (hd ys))" using seg_set_last[OF assms(1,3)] assms(5) by simp
  then have "seg (join_chains (last xs) (hd ys) t) None xs (Some (hd ys))" using n by (simp add: join_chains_def)
  moreover have "seg (set_nextSibling (last xs) (Some (hd ys)) t) None ys None" using assms(2) n by simp
  then have "seg (join_chains (last xs) (hd ys) t) (Some (last xs)) ys None" using seg_set_first assms(4,5) by (auto simp: join_chains_def)
  ultimately show ?thesis using assms(3,4) by (simp add: seg_append)
qed

lemma appendChild_spec:
  assumes "wf_tree t kids" "loose t ys"
  shows "\<exists>t'. appendChild p (head ys) t = Some t' \<and> wf_tree t' (kids(p := kids p @ ys))"
proof -
  note k = wf_tree_kids(1)[OF assms(1), of p]
  have ys: "ys \<noteq> []" "seg t None ys None" "distinct ys" using assms(2) by (simp_all add: loose_def)
  have dist: "distinct (kids p @ ys)" using k ys(3) loose_not_kid[OF assms] by (auto simp: is_kids_def)
  obtain c cs where c: "ys = c # cs" using ys(1) by (cases ys) auto
  define t1 where "t1 = (case lastChild t p of None \<Rightarrow> set_firstChild p (Some c) t | Some lc \<Rightarrow> set_previousSibling c (Some lc) (set_nextSibling lc (Some c) t))"
  have lc: "lastChild t p = (if kids p = [] then None else Some (last (kids p)))" using k by (simp add: is_kids_def final_def)
  have s1: "seg t1 None (kids p @ ys) None"
  proof (cases "kids p = []")
    case True
    then show ?thesis using lc ys by (simp add: t1_def)
  next
    case False
    then have "t1 = join_chains (last (kids p)) (hd ys) t" using lc by (simp add: t1_def join_chains_def c)
    then show ?thesis using seg_join[OF _ ys(2) False ys(1) dist] k by (simp add: is_kids_def)
  qed
  have fc: "firstChild t1 p = head (kids p @ ys)"
    using lc k c by (cases "kids p") (auto simp: t1_def is_kids_def)
  have sy: "seg t1 (if kids p = [] then None else Some (last (kids p))) ys None" using s1 by (simp add: seg_append)
  define t' where "t' = set_lastChild p (final ys) (adopt p ys t1)"
  have "appendChild p (head ys) t = Some t'"
    using set_parents_spec[OF sy, of "lastChild t p" p] ys(1) by (simp add: appendChild_def c t1_def[symmetric] t'_def)
  moreover have "wf_tree t' (kids(p := kids p @ ys))"
  proof (rule wf_tree_update[OF assms(1)])
    show "is_kids t' p (kids p @ ys)" using s1 dist fc ys(1) by (simp add: is_kids_def t'_def final_def)
    show "parentNode t' x = (if x \<in> set (kids p @ ys) then Some p else if x \<in> set (kids p) then None else parentNode t x)" for x
      using wf_tree_kids(2)[OF assms(1), of x p] by (auto simp: t'_def t1_def split: option.splits)
    show "parentNode t x = Some p \<or> parentNode t x = None" if "x \<in> set (kids p @ ys)" for x
      using that assms wf_tree_kids(2)[OF assms(1), of x p] by (auto simp: loose_def)
    show "previousSibling t' x = previousSibling t x \<and> nextSibling t' x = nextSibling t x" if "q \<noteq> p" "x \<in> set (kids q)" for q x
    proof -
      have "x \<noteq> c" using loose_not_kid[OF assms, of c q] that(2) c by auto
      moreover have "kids p \<noteq> [] \<longrightarrow> x \<noteq> last (kids p)" using kids_disjoint[OF assms(1) _ that(1), of "last (kids p)"] that(2) by auto
      ultimately show ?thesis using lc by (auto simp: t'_def t1_def)
    qed
    show "firstChild t' q = firstChild t q \<and> lastChild t' q = lastChild t q" if "q \<noteq> p" for q
      using that by (auto simp: t'_def t1_def split: option.splits)
  qed
  ultimately show ?thesis by blast
qed


lemma prependChild_spec:
  assumes "wf_tree t kids" "loose t [c]" "kids p \<noteq> []"
  shows "\<exists>t'. prependChild p (Some c) t = Some t' \<and> wf_tree t' (kids(p := c # kids p))"
proof -
  note k = wf_tree_kids(1)[OF assms(1), of p]
  have nk: "c \<notin> set (kids q)" for q using loose_not_kid[OF assms(1,2)] by simp
  have fc: "firstChild t p = Some (hd (kids p))" using k assms(3) by (cases "kids p") (simp_all add: is_kids_def)
  define t2 where "t2 = set_firstChild p (Some c) (join_chains c (hd (kids p)) t)"
  have s2: "seg t2 None ([c] @ kids p) None"
    using seg_join[of t "[c]" "kids p"] assms(2,3) k nk by (simp add: t2_def loose_def is_kids_def)
  have hd: "head (c # kids p) = Some c" by simp
  define t' where "t' = adopt p (c # kids p) t2"
  have "set_parents (Some c) None p t2 = Some (final (c # kids p), t')"
    using set_parents_spec[of t2 None "c # kids p" None p] s2 by (simp add: t'_def)
  then have "prependChild p (Some c) t = Some t'" using fc by (simp add: prependChild_def t2_def join_chains_def)
  moreover have "wf_tree t' (kids(p := c # kids p))"
  proof (rule wf_tree_update[OF assms(1)])
    have "final (c # kids p) = final (kids p)" using assms(3) by (simp add: final_def)
    then show "is_kids t' p (c # kids p)" using s2 k nk by (simp add: is_kids_def t'_def t2_def)
    show "parentNode t' x = (if x \<in> set (c # kids p) then Some p else if x \<in> set (kids p) then None else parentNode t x)" for x
      by (simp add: t'_def t2_def)
    show "parentNode t x = Some p \<or> parentNode t x = None" if "x \<in> set (c # kids p)" for x
      using that assms(2) wf_tree_kids(2)[OF assms(1), of x p] by (auto simp: loose_def)
    show "previousSibling t' x = previousSibling t x \<and> nextSibling t' x = nextSibling t x" if "q \<noteq> p" "x \<in> set (kids q)" for q x
    proof -
      have "x \<noteq> c" "x \<noteq> hd (kids p)" using nk that kids_disjoint[OF assms(1) _ that(1), of "hd (kids p)"] assms(3) by auto
      then show ?thesis by (simp add: t'_def t2_def)
    qed
  qed (simp add: t'_def t2_def)
  ultimately show ?thesis by blast
qed

lemma seg_suffix: "seg t prev (xs @ ys) nxt \<Longrightarrow> ys \<noteq> [] \<Longrightarrow> \<exists>prev'. seg t prev' ys nxt"
  by (auto simp: seg_append split: if_splits)

lemma appendSibling_spec:
  assumes "wf_tree t kids" "x \<in> set (kids p)" "loose t ys"
  shows "\<exists>t'. appendSibling x (hd ys) t = Some t' \<and> wf_tree t' (kids(p := kids p @ ys))"
proof -
  note k = wf_tree_kids(1)[OF assms(1), of p]
  have ne: "kids p \<noteq> []" using assms(2) by auto
  have ys: "ys \<noteq> []" "seg t None ys None" "distinct ys" using assms(3) by (simp_all add: loose_def)
  have dist: "distinct (kids p @ ys)" using k ys(3) loose_not_kid[OF assms(1,3)] by (auto simp: is_kids_def)
  obtain us vs where uv: "kids p = us @ x # vs" using split_list[OF assms(2)] by blast
  then have "\<exists>prev. seg t prev (x # vs) None" using k seg_suffix[of t None us "x # vs"] by (simp add: is_kids_def)
  then have last: "last_sibling t x = Some (last (kids p))" using last_sibling_spec uv by fastforce
  define t1 where "t1 = join_chains (last (kids p)) (hd ys) t"
  have s1: "seg t1 None (kids p @ ys) None" using seg_join[OF _ ys(2) ne ys(1) dist] k by (simp add: is_kids_def t1_def)
  then have sy: "seg t1 (Some (last (kids p))) ys None" using ne by (simp add: seg_append)
  have par: "parentNode t1 x = Some p" using wf_tree_kids(2)[OF assms(1)] assms(2) by (simp add: t1_def)
  define t' where "t' = set_lastChild p (final ys) (adopt p ys t1)"
  have "head ys = Some (hd ys)" using ys(1) by (cases ys) simp_all
  then have "appendSibling x (hd ys) t = Some t'"
    using last par set_parents_spec[OF sy, of "Some (last (kids p))" p] ys(1)
    by (simp add: appendSibling_def t1_def[unfolded join_chains_def] t'_def Let_def)
  moreover have "wf_tree t' (kids(p := kids p @ ys))"
  proof (rule wf_tree_update[OF assms(1)])
    have "firstChild t' p = head (kids p @ ys)" using k ne by (cases "kids p") (simp_all add: t'_def t1_def is_kids_def)
    then show "is_kids t' p (kids p @ ys)" using s1 dist ys(1) by (simp add: is_kids_def t'_def final_def)
    show "parentNode t' z = (if z \<in> set (kids p @ ys) then Some p else if z \<in> set (kids p) then None else parentNode t z)" for z
      using wf_tree_kids(2)[OF assms(1), of z p] by (auto simp: t'_def t1_def)
    show "parentNode t z = Some p \<or> parentNode t z = None" if "z \<in> set (kids p @ ys)" for z
      using that assms(3) wf_tree_kids(2)[OF assms(1), of z p] by (auto simp: loose_def)
    show "previousSibling t' z = previousSibling t z \<and> nextSibling t' z = nextSibling t z" if "q \<noteq> p" "z \<in> set (kids q)" for q z
    proof -
      have "z \<noteq> hd ys" using loose_not_kid[OF assms(1,3), of "hd ys" q] that(2) ys(1) by auto
      moreover have "z \<noteq> last (kids p)" using kids_disjoint[OF assms(1) _ that(1), of "last (kids p)"] that(2) ne by auto
      ultimately show ?thesis by (simp add: t'_def t1_def)
    qed
  qed (simp add: t'_def t1_def)
  ultimately show ?thesis by blast
qed

text \<open>A removed node keeps its \<^verbatim>\<open>previousSibling\<close>.\<close>

lemma removeNode_spec:
  assumes "wf_tree t kids" "kids p = us @ x # vs"
  shows "wf_tree (removeNode x t) (kids(p := us @ vs))" "parentNode (removeNode x t) x = None" "nextSibling (removeNode x t) x = None"
    "previousSibling (removeNode x t) x = (if us = [] then None else Some (last us))"
proof -
  let ?t = "removeNode x t"
  note k = wf_tree_kids(1)[OF assms(1), of p]
  have par: "parentNode t x = Some p" using wf_tree_kids(2)[OF assms(1), of x p] assms(2) by simp
  have dist: "distinct (us @ x # vs)" using k assms(2) by (simp add: is_kids_def)
  have seg: "seg t None us (Some x)" "previousSibling t x = (if us = [] then None else Some (last us))"
    "nextSibling t x = (if vs = [] then None else Some (hd vs))" "seg t (Some x) vs None"
    using k assms(2) by (cases vs; auto simp: is_kids_def seg_append)+
  define t1 where "t1 = (if us = [] then set_firstChild p (nextSibling t x) t else set_nextSibling (last us) (nextSibling t x) t)"
  define t2 where "t2 = (if vs = [] then set_lastChild p (previousSibling t x) t1 else set_previousSibling (hd vs) (previousSibling t x) t1)"
  have r: "?t = set_nextSibling x None (set_parentNode x None t2)"
    using par seg(2,3) by (simp add: removeNode_def t2_def t1_def Let_def)
  have nx: "x \<noteq> last us" "x \<noteq> hd vs" if "us \<noteq> []" "vs \<noteq> []" using dist that by auto
  show "parentNode ?t x = None" "nextSibling ?t x = None" by (simp_all add: r)
  show "previousSibling ?t x = (if us = [] then None else Some (last us))" using seg(2) dist hd_in_set[of vs] by (auto simp: r t2_def t1_def)
  show "wf_tree ?t (kids(p := us @ vs))"
  proof (rule wf_tree_update[OF assms(1)])
    have "us = [] \<Longrightarrow> seg ?t None us (nextSibling t x)" by simp
    moreover have "seg ?t None us (nextSibling t x)" if "us \<noteq> []"
    proof -
      have "seg t1 None us (nextSibling t x)" using seg_set_last[OF seg(1) that] dist that by (simp add: t1_def)
      moreover have "vs \<noteq> [] \<Longrightarrow> hd vs \<notin> set us" using dist hd_in_set[of vs] by auto
      ultimately show ?thesis using dist by (simp add: r t2_def)
    qed
    ultimately have left: "seg ?t None us (nextSibling t x)" by blast
    have right: "seg ?t (previousSibling t x) vs None" if "vs \<noteq> []"
    proof -
      have "us \<noteq> [] \<Longrightarrow> last us \<notin> set vs" using dist last_in_set[of us] by (auto simp: disjoint_iff)
      then have "seg t1 (Some x) vs None" using seg(4) by (simp add: t1_def)
      then have "seg t2 (previousSibling t x) vs None" using seg_set_first that dist by (simp add: t2_def)
      then show ?thesis using dist by (simp add: r)
    qed
    have "seg ?t None (us @ vs) None" using left right seg(2,3) by (auto simp: seg_append split: if_splits)
    moreover have "firstChild ?t p = head (us @ vs)" using k seg(3) assms(2)
      by (cases us; cases vs) (auto simp: r t2_def t1_def is_kids_def)
    moreover have "lastChild ?t p = final (us @ vs)" using k seg(2) assms(2)
      by (cases "vs = []") (auto simp: r t2_def t1_def is_kids_def final_def)
    ultimately show "is_kids ?t p (us @ vs)" using dist by (simp add: is_kids_def)
    show "parentNode ?t y = (if y \<in> set (us @ vs) then Some p else if y \<in> set (kids p) then None else parentNode t y)" for y
      using wf_tree_kids(2)[OF assms(1), of y p] dist by (auto simp: r t2_def t1_def assms(2))
    show "parentNode t y = Some p \<or> parentNode t y = None" if "y \<in> set (us @ vs)" for y
      using that wf_tree_kids(2)[OF assms(1), of y p] by (auto simp: assms(2))
    show "previousSibling ?t y = previousSibling t y \<and> nextSibling ?t y = nextSibling t y" if "q \<noteq> p" "y \<in> set (kids q)" for q y
    proof -
      have "y \<notin> set (us @ x # vs)" using kids_disjoint[OF assms(1) that(2)] that(1) assms(2) by metis
      then have "y \<noteq> x" "us \<noteq> [] \<Longrightarrow> y \<noteq> last us" "vs \<noteq> [] \<Longrightarrow> y \<noteq> hd vs" by auto
      then show ?thesis by (simp add: r t2_def t1_def)
    qed
  qed (simp add: r t2_def t1_def)
qed


section \<open>Trees that a program builds\<close>

inductive built :: "Tree \<Rightarrow> (node \<Rightarrow> node list) \<Rightarrow> bool" where
  built_start: "built no_links (\<lambda>_. [])"
| built_append: "built t kids \<Longrightarrow> loose t ys \<Longrightarrow> appendChild p (head ys) t = Some t' \<Longrightarrow> built t' (kids(p := kids p @ ys))"
| built_prepend: "built t kids \<Longrightarrow> loose t [c] \<Longrightarrow> kids p \<noteq> [] \<Longrightarrow> prependChild p (Some c) t = Some t' \<Longrightarrow> built t' (kids(p := c # kids p))"
| built_sibling: "built t kids \<Longrightarrow> loose t ys \<Longrightarrow> x \<in> set (kids p) \<Longrightarrow> appendSibling x (hd ys) t = Some t' \<Longrightarrow> built t' (kids(p := kids p @ ys))"
| built_remove: "built t kids \<Longrightarrow> kids p = us @ x # vs \<Longrightarrow> built (removeNode x t) (kids(p := us @ vs))"

lemma no_links_wf: "wf_tree no_links (\<lambda>_. [])"
  by (simp add: wf_tree_def is_kids_def no_links_def)

lemma built_wf: "built t kids \<Longrightarrow> wf_tree t kids"
proof (induction rule: built.induct)
  case (built_append t kids ys p t')
  then show ?case using appendChild_spec[of t kids ys p] by (metis option.inject)
next
  case (built_prepend t kids c p t')
  then show ?case using prependChild_spec[of t kids c p] by (metis option.inject)
next
  case (built_sibling t kids ys x p t')
  then show ?case using appendSibling_spec[of t kids x p ys] by (metis option.inject)
next
  case (built_remove t kids p us x vs)
  then show ?case using removeNode_spec(1) by blast
qed (rule no_links_wf)

lemma seg_nth:
  "seg t prev xs nxt \<Longrightarrow> i < length xs \<Longrightarrow> nextSibling t (xs ! i) = (if Suc i < length xs then Some (xs ! Suc i) else nxt) \<and>
     previousSibling t (xs ! i) = (if i = 0 then prev else Some (xs ! (i - 1)))"
proof (induction xs arbitrary: prev i)
  case (Cons x xs)
  show ?case
  proof (cases i)
    case 0
    then show ?thesis using Cons.prems by (cases xs) simp_all
  next
    case (Suc j)
    then show ?thesis using Cons.IH[of "Some x" j] Cons.prems by (cases j) auto
  qed
qed simp



text \<open>Two ways to break the links: a node that was prepended to a node without children is lost when another one is appended;
  a removed node that becomes the first child of another node still has its old sibling, whose next sibling it changes
  when it is removed again.\<close>

lemma prepend_empty_loses_child:
  "Option.bind (prependChild 0 (Some 1) no_links) (\<lambda>t. map_option (\<lambda>t'. (firstChild t' 0, nextSibling t' 2, parentNode t' 1)) (appendChild 0 (Some 2) t)) =
     Some (Some 2, None, Some 0)"
  by (simp add: prependChild_def appendChild_def no_links_def set_links set_parents_step)

lemma remove_leaves_sibling:
  assumes "wf_tree t kids" "kids p = us @ [u, x]" "kids q = []" "q \<noteq> p" "y \<notin> set us" "y \<noteq> u" "y \<noteq> x" "loose t [y]"
  shows "\<exists>t1 t2. appendChild q (Some x) (removeNode x t) = Some t1 \<and> previousSibling t1 x = Some u \<and> appendChild q (Some y) t1 = Some t2 \<and>
    nextSibling (removeNode x t2) u = Some y \<and> parentNode (removeNode x t2) u = Some p"
proof -
  have e: "kids p = (us @ [u]) @ x # []" using assms(2) by simp
  note r = removeNode_spec[OF assms(1) e]
  define t0 where "t0 = removeNode x t"
  have l0: "lastChild t0 q = None" "firstChild t0 q = None" using wf_tree_kids(1)[OF r(1), of q] assms(3,4) by (simp_all add: t0_def is_kids_def)
  have x0: "parentNode t0 x = None" "nextSibling t0 x = None" "previousSibling t0 x = Some u" using r by (simp_all add: t0_def)
  define t1 where "t1 = set_lastChild q (Some x) (set_parentNode x (Some q) (set_firstChild q (Some x) t0))"
  have a1: "appendChild q (Some x) t0 = Some t1" using l0 x0 by (simp add: appendChild_def set_parents_step t1_def)
  have pu: "parentNode t0 u = Some p" using wf_tree_kids(2)[OF r(1), of u p] by (simp add: t0_def)
  have par: "parentNode t x = Some p" "previousSibling t x = Some u" "nextSibling t x = None"
    using wf_tree_kids(1)[OF assms(1), of p] wf_tree_kids(2)[OF assms(1), of x p] by (simp_all add: assms(2) is_kids_def seg_append)
  have y: "nextSibling t y = None" "parentNode t y = None" using assms(8) by (simp_all add: loose_def)
  have ny: "nextSibling t0 y = None" using y(1) assms(6,7) par by (simp add: t0_def removeNode_def)
  have ux: "u \<noteq> x" using wf_tree_kids(1)[OF assms(1), of p] by (auto simp: assms(2) is_kids_def)
  define t2 where "t2 = set_lastChild q (Some y) (set_parentNode y (Some q) (set_previousSibling y (Some x) (set_nextSibling x (Some y) t1)))"
  have a2: "appendChild q (Some y) t1 = Some t2" using ny assms(7) by (simp add: appendChild_def set_parents_step t2_def t1_def)
  have "parentNode t2 x = Some q" "previousSibling t2 x = Some u" "nextSibling t2 x = Some y" using assms(7) x0 by (simp_all add: t2_def t1_def)
  then have "nextSibling (removeNode x t2) u = Some y \<and> parentNode (removeNode x t2) u = Some p"
    using ux pu assms(6) by (simp add: removeNode_def t2_def t1_def Let_def)
  moreover have "previousSibling t1 x = Some u" using x0 by (simp add: t1_def)
  ultimately show ?thesis using a1 a2 unfolding t0_def by blast
qed


section \<open>Copies and saved attributes\<close>

lemma copyNode_strings:
  assumes "set (order n) = dom n"
  shows "copyNode order n k = (case n k of Some (Str s) \<Rightarrow> Some (Str s) | _ \<Rightarrow> None)"
proof -
  let ?f = "\<lambda>c k. case n k of Some (Str s) \<Rightarrow> Setattr c k (Some (Str s)) | _ \<Rightarrow> c"
  have "foldl ?f c ks k = (if k \<in> set ks then (case n k of Some (Str s) \<Rightarrow> Some (Str s) | _ \<Rightarrow> c k) else c k)" for c ks
  proof (induction ks arbitrary: c)
    case (Cons a ks)
    then show ?case by (auto simp: Setattr_def split: option.splits DOH.splits)
  qed simp
  then show ?thesis using assms by (auto simp: copyNode_def copy_attrs_def split: option.splits DOH.splits)
qed


definition prefixed :: "string \<Rightarrow> string \<Rightarrow> bool" where
  "prefixed ns k \<longleftrightarrow> take (length ns + 1) k = ns @ '':''"

lemma prefixed_iff: "prefixed ns k \<longleftrightarrow> (\<exists>s. k = saved_name ns s)"
proof
  assume "prefixed ns k"
  then have "k = (ns @ '':'') @ drop (length ns + 1) k" by (metis append_take_drop_id prefixed_def)
  then show "\<exists>s. k = saved_name ns s" by (auto simp: saved_name_def)
qed (auto simp: prefixed_def saved_name_def)

lemma prefixed_saved [simp]: "prefixed ns (saved_name ns s)"
  using prefixed_iff by blast

lemma saved_name_inject [simp]: "saved_name ns s = saved_name ns s' \<longleftrightarrow> s = s'"
  by (simp add: saved_name_def)

lemma drop_saved [simp]: "drop (Suc (length ns)) (saved_name ns s) = s"
  by (simp add: saved_name_def)

lemma view_not_prefixed: "\<not> prefixed ns ''view''"
proof
  assume "prefixed ns ''view''"
  then obtain s where "''view'' = saved_name ns s" using prefixed_iff by blast
  then have "CHR 0x3A \<in> set ''view''" by (metis in_set_conv_decomp saved_name_def)
  then show False by simp
qed

lemma restore_keys_spec:
  assumes "distinct ks" "\<And>k. k \<in> set ks \<Longrightarrow> \<exists>s. k = saved_name ns s \<and> \<not> prefixed ns s"
  shows "restore_keys (length ns + 1) ks n =
    (\<lambda>k. if k \<in> set ks then None else if saved_name ns k \<in> set ks then Getattr n (saved_name ns k) else n k)"
  using assms
proof (induction ks arbitrary: n)
  case (Cons k ks)
  obtain s where s: "k = saved_name ns s" "\<not> prefixed ns s" using Cons.prems(2)[of k] by auto
  define n' where "n' = Delattr (Setattr n s (Getattr n k)) k"
  have sub: "x \<in> set ks \<Longrightarrow> \<exists>s. x = saved_name ns s \<and> \<not> prefixed ns s" for x using Cons.prems(2)[of x] by simp
  have IH: "restore_keys (length ns + 1) ks n' =
      (\<lambda>k. if k \<in> set ks then None else if saved_name ns k \<in> set ks then Getattr n' (saved_name ns k) else n' k)"
    using Cons.IH Cons.prems(1) sub by simp
  have ne: "s \<noteq> saved_name ns x" for x using s(2) by auto
  have "restore_keys (length ns + 1) (k # ks) n = restore_keys (length ns + 1) ks n'" by (simp add: n'_def s(1))
  also have "\<dots> = (\<lambda>x. if x \<in> set (k # ks) then None else if saved_name ns x \<in> set (k # ks) then Getattr n (saved_name ns x) else n x)"
  proof (rule ext)
    fix x
    have "k \<notin> set ks" using Cons.prems(1) by simp
    moreover have "saved_name ns s \<noteq> s" using ne[of s] by metis
    moreover have "Getattr n' (saved_name ns x) = Getattr n (saved_name ns x)" if "saved_name ns x \<noteq> k"
      using that ne[of x] by (auto simp: n'_def Getattr_def Setattr_def Delattr_def)
    moreover have "saved_name ns k \<notin> set ks"
    proof
      assume "saved_name ns k \<in> set ks"
      then obtain s' where "saved_name ns k = saved_name ns s'" "\<not> prefixed ns s'" using sub by blast
      then show False using s(1) prefixed_saved[of ns s] by auto
    qed
    ultimately show "restore_keys (length ns + 1) ks n' x =
        (if x \<in> set (k # ks) then None else if saved_name ns x \<in> set (k # ks) then Getattr n (saved_name ns x) else n x)"
      unfolding IH by (auto simp: s(1) n'_def Setattr_def Delattr_def)
  qed
  finally show ?case .
qed simp

abbreviation plain_name :: "string \<Rightarrow> string" where
  "plain_name a \<equiv> snd (parse_name a)"

lemma save_names_spec:
  assumes "\<forall>a \<in> set names. \<not> prefixed ns (plain_name a)"
  shows "save_names ns names n = (\<lambda>k. if k \<in> saved_name ns ` plain_name ` set names then or_none (Getattr n (drop (length ns + 1) k)) else n k)"
  using assms
proof (induction names arbitrary: n)
  case (Cons a as)
  define n' where "n' = Setattr n (saved_name ns (plain_name a)) (or_none (Getattr n (plain_name a)))"
  have "Getattr n' (plain_name b) = Getattr n (plain_name b)" if "b \<in> set (a # as)" for b
  proof -
    have "plain_name b \<noteq> saved_name ns (plain_name a)" using that Cons.prems prefixed_saved by metis
    then show ?thesis by (simp add: n'_def Getattr_def Setattr_def)
  qed
  note same = this
  have e: "save_names ns (a # as) n = save_names ns as n'" by (simp add: n'_def Let_def)
  have IH: "save_names ns as n' = (\<lambda>k. if k \<in> saved_name ns ` plain_name ` set as then or_none (Getattr n' (drop (length ns + 1) k)) else n' k)"
    using Cons.IH[of n'] Cons.prems by simp
  show ?case unfolding e IH
  proof (rule ext)
    fix k
    show "(if k \<in> saved_name ns ` plain_name ` set as then or_none (Getattr n' (drop (length ns + 1) k)) else n' k) =
        (if k \<in> saved_name ns ` plain_name ` set (a # as) then or_none (Getattr n (drop (length ns + 1) k)) else n k)"
    proof (cases "k \<in> saved_name ns ` plain_name ` set as")
      case True
      then obtain b where "b \<in> set as" "k = saved_name ns (plain_name b)" by blast
      then show ?thesis using same[of b] True by simp
    next
      case False
      then show ?thesis by (auto simp: n'_def Setattr_def)
    qed
  qed
qed simp



definition saved_node :: attrs where
  "saved_node = [''type'' \<mapsto> Str ''int'', ''view'' \<mapsto> Str ''b'']"

definition changed_node :: attrs where
  "changed_node = [''a:type'' \<mapsto> Str ''int'', ''type'' \<mapsto> Str ''long'', ''a:view'' \<mapsto> Str ''b'', ''view'' \<mapsto> Str ''a'']"


end
