(* ===== verification/Swig_WrapFunc.thy ===== *)
theory Swig_WrapFunc
  imports Doh_Replace_Laws "HOL-Library.Sublist"
begin

text \<open>
  Wrapper functions (\<^verbatim>\<open>Source/Swig/wrapfunc.c\<close>): the object that collects the pieces of a generated function, and the
  two printers that lay its text out. A String that is read from the start with \<^verbatim>\<open>Getc\<close> and \<^verbatim>\<open>Ungetc\<close> is the text that
  is left to read (\<open>Doh_String.string_getc_reads_all\<close>), one that is only appended to is its text, and so is the output
  file.
\<close>

section \<open>Shared loops of the printers\<close>

text \<open>\<^verbatim>\<open>Putc(EOF, ts)\<close> writes the byte \<^verbatim>\<open>(char) -1\<close>.\<close>

abbreviation EOF_char :: char where "EOF_char \<equiv> CHR 0xFF"

definition spaces :: "int \<Rightarrow> string" where
  "spaces n = replicate (nat n) (CHR 0x20)"

text \<open>A literal: up to the next quote, where the character behind a backslash is copied, and ends the literal as well
  when it is a quote.\<close>

fun copy_literal :: "char \<Rightarrow> string \<Rightarrow> string \<Rightarrow> string \<times> string" where
  "copy_literal q [] ts = ([], ts)"
| "copy_literal q (c # r) ts =
     (if c = CHR 0x5C then
        (case r of
           [] \<Rightarrow> ([], ts @ [c, EOF_char])
         | d # r' \<Rightarrow> if d = q then (r', ts @ [c, d]) else copy_literal q r' (ts @ [c, d]))
      else if c = q then (r, ts @ [c])
      else copy_literal q r (ts @ [c]))"

fun skip_space :: "string \<Rightarrow> string" where
  "skip_space [] = []"
| "skip_space (c # r) = (if \<not> isspace c then c # r else skip_space r)"

text \<open>A C++ comment, without its line end, and a C comment, whose lines are indented.\<close>

fun copy_line_comment :: "string \<Rightarrow> string \<Rightarrow> string \<times> string" where
  "copy_line_comment [] ts = ([], ts)"
| "copy_line_comment (c # r) ts = (if c = NL then (c # r, ts) else copy_line_comment r (ts @ [c]))"

fun copy_comment :: "int \<Rightarrow> bool \<Rightarrow> string \<Rightarrow> string \<Rightarrow> string \<times> string" where
  "copy_comment level endstar [] ts = ([], ts)"
| "copy_comment level endstar (c # r) ts =
     (if endstar \<and> c = CHR ''/'' then (r, ts @ [c])
      else copy_comment level (c = CHR ''*'') r (ts @ [c] @ (if c = NL then spaces level else [])))"

section \<open>Pretty printing\<close>

record pretty =
  pp_ts :: string
  pp_out :: string
  pp_level :: int
  pp_empty :: bool
  pp_plevel :: int
  pp_label :: bool

definition pretty_start :: pretty where
  "pretty_start = \<lparr>pp_ts = [], pp_out = [], pp_level = 0, pp_empty = True, pp_plevel = 0, pp_label = False\<rparr>"

text \<open>\<^verbatim>\<open>for (i = 0; i < n; i++) Putc(' ', f); Printf(f, "%s", ts); Clear(ts);\<close>\<close>

definition flush_indented :: "int \<Rightarrow> pretty \<Rightarrow> pretty" where
  "flush_indented n st = st\<lparr>pp_out := pp_out st @ spaces n @ pp_ts st, pp_ts := []\<rparr>"

text \<open>The branches of the loop; \<open>st\<close> already holds the character where the branch begins with \<^verbatim>\<open>Putc(c, ts)\<close>.\<close>

definition pretty_colon :: "string \<Rightarrow> pretty \<Rightarrow> pretty" where
  "pretty_colon r st =
     (if r \<noteq> [] \<and> hd r = NL \<and> \<not> pp_empty st \<and> strchr (until_nul (pp_ts st)) (CHR ''?'') = None
      then st\<lparr>pp_label := True\<rparr> else st)"

definition pretty_open :: "pretty \<Rightarrow> pretty" where
  "pretty_open st =
     (let st1 = flush_indented (pp_level st) (st\<lparr>pp_ts := pp_ts st @ [NL]\<rparr>)
      in st1\<lparr>pp_level := pp_level st1 + 2, pp_empty := False\<rparr>)"

definition pretty_close :: "pretty \<Rightarrow> pretty" where
  "pretty_close st =
     (let st1 = (if \<not> pp_empty st then flush_indented (pp_level st) (st\<lparr>pp_ts := pp_ts st @ [NL]\<rparr>) else st)
      in st1\<lparr>pp_level := pp_level st1 - 2, pp_ts := pp_ts st1 @ [CHR 0x7D], pp_empty := False\<rparr>)"

definition pretty_newline :: "pretty \<Rightarrow> pretty" where
  "pretty_newline st =
     (let slevel = (if pp_label st \<and> pp_level st \<ge> 2 then pp_level st - 2 else pp_level st);
          st1 = flush_indented (if hd (pp_ts st) \<noteq> CHR ''#'' then slevel else 0) st
      in st1\<lparr>pp_out := pp_out st1 @ spaces (pp_plevel st1), pp_label := False, pp_empty := True\<rparr>)"

definition pretty_slash :: "string \<Rightarrow> int \<Rightarrow> string \<Rightarrow> string \<times> string" where
  "pretty_slash r level ts =
     (case r of
        [] \<Rightarrow> ([], ts)
      | d # r' \<Rightarrow>
          if d = CHR ''/'' then copy_line_comment r' (ts @ [d])
          else if d = CHR ''*'' then copy_comment level False r' (ts @ [d])
          else (r', ts @ [d]))"

text \<open>One turn of the loop, with the character read and the text behind it.\<close>

definition pretty_step :: "char \<Rightarrow> string \<Rightarrow> pretty \<Rightarrow> string \<times> pretty" where
  "pretty_step c r st =
     (let putc = st\<lparr>pp_ts := pp_ts st @ [c]\<rparr> in
      if c = CHR 0x22 \<or> c = CHR 0x27 then
        (case copy_literal c r (pp_ts putc) of (r', ts) \<Rightarrow> (r', putc\<lparr>pp_ts := ts, pp_empty := False\<rparr>))
      else if c = CHR '':'' then (r, pretty_colon r putc)
      else if c = CHR ''('' then (r, putc\<lparr>pp_plevel := pp_plevel putc + 2, pp_empty := False\<rparr>)
      else if c = CHR '')'' then (r, putc\<lparr>pp_plevel := pp_plevel putc - 2, pp_empty := False\<rparr>)
      else if c = CHR 0x7B then (skip_space r, pretty_open putc)
      else if c = CHR 0x7D then (r, pretty_close st)
      else if c = NL then (r, pretty_newline putc)
      else if c = CHR ''/'' then
        (case pretty_slash r (pp_level putc) (pp_ts putc) of (r', ts) \<Rightarrow> (r', putc\<lparr>pp_ts := ts, pp_empty := False\<rparr>))
      else if \<not> pp_empty st \<or> \<not> isspace c then (r, putc\<lparr>pp_empty := False\<rparr>)
      else (r, st))"

lemma copy_literal_rest: "length (fst (copy_literal q r ts)) \<le> length r"
  by (induction q r ts rule: copy_literal.induct) (simp_all add: le_SucI split: list.split)

lemma skip_space_rest: "length (skip_space r) \<le> length r"
  by (induction r) simp_all

lemma copy_line_comment_rest: "length (fst (copy_line_comment r ts)) \<le> length r"
  by (induction r ts rule: copy_line_comment.induct) (simp_all add: le_SucI)

lemma copy_comment_rest: "length (fst (copy_comment l e r ts)) \<le> length r"
  by (induction l e r ts rule: copy_comment.induct) (simp_all add: le_SucI)

lemma pretty_slash_rest: "length (fst (pretty_slash r l ts)) \<le> length r"
  by (simp add: pretty_slash_def copy_line_comment_rest copy_comment_rest le_SucI split: list.split)

lemma pretty_step_rest: "length (fst (pretty_step c r st)) \<le> length r"
  by (simp add: pretty_step_def Let_def case_prod_beta copy_literal_rest skip_space_rest pretty_slash_rest)

function pretty_loop :: "string \<Rightarrow> pretty \<Rightarrow> pretty" where
  "pretty_loop [] st = st"
| "pretty_loop (c # r) st = (case pretty_step c r st of (r', st') \<Rightarrow> pretty_loop r' st')"
  by pat_completeness auto
termination
  by (relation "measure (\<lambda>(r, st). length r)")
    (auto simp: less_Suc_eq_le case_prod_beta dest!: arg_cong[of _ "pretty_step _ _ _" fst] intro: pretty_step_rest)

definition Wrapper_pretty_print :: "string \<Rightarrow> string" where
  \<comment> \<open>what is printed to \<^verbatim>\<open>f\<close>\<close>
  "Wrapper_pretty_print str =
     (let st = pretty_loop str pretty_start in pp_out st @ (if \<not> pp_empty st then pp_ts st else []) @ [NL])"

section \<open>Compact printing\<close>

definition Max_line_size :: nat where "Max_line_size = 128"

record compact =
  cp_ts :: string
  cp_tf :: string
  cp_out :: string
  cp_level :: int
  cp_empty :: bool

definition compact_start :: compact where
  "compact_start = \<lparr>cp_ts = [], cp_tf = [], cp_out = [], cp_level = 0, cp_empty = True\<rparr>"

text \<open>The lines that stand three times in the code: make room in \<open>tf\<close>, then \<^verbatim>\<open>Append(tf, ts)\<close>.\<close>

definition append_line :: "compact \<Rightarrow> compact" where
  "append_line st =
     (let st1 =
        (if length (cp_tf st) = 0 then st\<lparr>cp_tf := spaces (cp_level st)\<rparr>
         else if length (cp_tf st) + length (cp_ts st) < Max_line_size then st\<lparr>cp_tf := cp_tf st @ [CHR 0x20]\<rparr>
         else st\<lparr>cp_out := cp_out st @ cp_tf st @ [NL], cp_tf := spaces (cp_level st)\<rparr>)
      in st1\<lparr>cp_tf := cp_tf st1 @ cp_ts st1\<rparr>)"

fun skip_line_comment :: "string \<Rightarrow> string" where
  "skip_line_comment [] = []"
| "skip_line_comment (c # r) = (if c = NL then c # r else skip_line_comment r)"

fun skip_comment :: "bool \<Rightarrow> string \<Rightarrow> string" where
  "skip_comment endstar [] = []"
| "skip_comment endstar (c # r) = (if endstar \<and> c = CHR ''/'' then r else skip_comment (c = CHR ''*'') r)"

text \<open>A preprocessor line with its continuations.\<close>

fun copy_directive :: "string \<Rightarrow> string \<Rightarrow> string \<times> string" where
  "copy_directive [] ts = ([], ts)"
| "copy_directive (c # r) ts =
     (if c = CHR 0x5C then
        (case r of
           [] \<Rightarrow> ([], ts @ [c])
         | d # r' \<Rightarrow> if d = NL then copy_directive r' (ts @ [c, d]) else copy_directive r (ts @ [c]))
      else if c = NL then (r, ts @ [c])
      else copy_directive r (ts @ [c]))"

text \<open>A line end, with the text behind the white space that follows.\<close>

definition compact_newline :: "string \<Rightarrow> compact \<Rightarrow> compact" where
  "compact_newline r st =
     (let st1 = (if r \<noteq> [] \<and> hd r = CHR ''#'' then st\<lparr>cp_ts := cp_ts st @ [NL]\<rparr>
                 else if r \<noteq> [] \<and> hd r = CHR 0x7D then st\<lparr>cp_ts := cp_ts st @ [CHR 0x20]\<rparr>
                 else if r \<noteq> [] \<or> length (cp_ts st) \<noteq> 0 then (append_line st)\<lparr>cp_ts := []\<rparr>
                 else st)
      in st1\<lparr>cp_empty := True\<rparr>)"

text \<open>The other branches of the loop.\<close>

definition compact_open :: "compact \<Rightarrow> compact" where
  "compact_open st =
     (let st1 = append_line (st\<lparr>cp_ts := cp_ts st @ [CHR 0x7B], cp_empty := False\<rparr>)
      in st1\<lparr>cp_ts := [], cp_level := cp_level st1 + 2\<rparr>)"

definition compact_close :: "compact \<Rightarrow> compact" where
  "compact_close st =
     (let st1 = append_line (st\<lparr>cp_empty := False\<rparr>)
      in st1\<lparr>cp_tf := cp_tf st1 @ [CHR 0x7D], cp_ts := [], cp_level := cp_level st1 - 2\<rparr>)"

definition compact_slash :: "string \<Rightarrow> string \<Rightarrow> string \<times> string" where
  "compact_slash r ts =
     (case r of
        [] \<Rightarrow> ([], ts)
      | d # r' \<Rightarrow>
          if d = CHR ''/'' then (skip_line_comment r', ts)
          else if d = CHR ''*'' then (skip_comment False r', ts)
          else (r', ts @ [CHR ''/'', d]))"

definition compact_directive :: "string \<Rightarrow> compact \<Rightarrow> compact" where
  \<comment> \<open>with the text of the line\<close>
  "compact_directive ts st =
     st\<lparr>cp_out := cp_out st @ cp_tf st @ (if \<not> cp_empty st then [NL] else []) @ ts, cp_tf := spaces (cp_level st),
        cp_ts := [], cp_empty := True\<rparr>"

definition compact_step :: "char \<Rightarrow> string \<Rightarrow> compact \<Rightarrow> string \<times> compact" where
  "compact_step c r st =
     (let putc = cp_ts st @ [c] in
      if c = CHR 0x22 \<or> c = CHR 0x27 then
        (case copy_literal c r putc of (r', ts) \<Rightarrow> (r', st\<lparr>cp_ts := ts, cp_empty := False\<rparr>))
      else if c = CHR 0x7B then (skip_space r, compact_open st)
      else if c = CHR 0x7D then (r, compact_close st)
      else if c = NL then (skip_space r, compact_newline (skip_space r) st)
      else if c = CHR ''/'' then
        (case compact_slash r (cp_ts st) of (r', ts) \<Rightarrow> (r', st\<lparr>cp_ts := ts, cp_empty := False\<rparr>))
      else if c = CHR ''#'' then
        (case copy_directive r putc of (r', ts) \<Rightarrow> (r', compact_directive ts st))
      else if \<not> cp_empty st \<or> \<not> isspace c then (r, st\<lparr>cp_ts := putc, cp_empty := False\<rparr>)
      else (r, st))"

lemma skip_line_comment_rest: "length (skip_line_comment r) \<le> length r"
  by (induction r) simp_all

lemma skip_comment_rest: "length (skip_comment e r) \<le> length r"
  by (induction e r rule: skip_comment.induct) (simp_all add: le_SucI)

lemma copy_directive_rest: "length (fst (copy_directive r ts)) \<le> length r"
proof (induction r ts rule: copy_directive.induct)
  case (2 c r ts)
  note e = copy_directive.simps(2)[of c r ts]
  show ?case
  proof (cases "c = BSLASH")
    case True
    show ?thesis
    proof (cases r)
      case Nil
      then show ?thesis unfolding e by simp
    next
      case (Cons d r')
      show ?thesis unfolding e using True Cons 2 by (cases "d = NL") (simp_all add: le_SucI del: copy_directive.simps)
    qed
  qed (use 2 in \<open>simp add: le_SucI\<close>)
qed simp

lemma compact_slash_rest: "length (fst (compact_slash r ts)) \<le> length r"
  by (simp add: compact_slash_def skip_line_comment_rest skip_comment_rest le_SucI split: list.split)

lemma compact_step_rest: "length (fst (compact_step c r st)) \<le> length r"
  by (simp add: compact_step_def Let_def case_prod_beta copy_literal_rest skip_space_rest compact_slash_rest
      copy_directive_rest)

function compact_loop :: "string \<Rightarrow> compact \<Rightarrow> compact" where
  "compact_loop [] st = st"
| "compact_loop (c # r) st = (case compact_step c r st of (r', st') \<Rightarrow> compact_loop r' st')"
  by pat_completeness auto
termination
  by (relation "measure (\<lambda>(r, st). length r)")
    (auto simp: less_Suc_eq_le case_prod_beta dest!: arg_cong[of _ "compact_step _ _ _" fst] intro: compact_step_rest)

definition Wrapper_compact_print :: "string \<Rightarrow> string" where
  "Wrapper_compact_print str =
     (let st = compact_loop str compact_start;
          tf = (if \<not> cp_empty st then cp_tf st @ cp_ts st else cp_tf st)
      in cp_out st @ (if length tf \<noteq> 0 then tf else []) @ [NL])"

section \<open>The wrapper object\<close>

text \<open>\<open>localh\<close> is the map of \<open>Doh_Hash\<close> on the texts of the declarations; a Hash object is finite.\<close>

record Wrapper =
  w_localh :: "string \<Rightarrow> string option"
  w_locals :: string
  w_code :: string
  w_def :: string

definition NewWrapper :: Wrapper where
  "NewWrapper = \<lparr>w_localh = (\<lambda>_. None), w_locals = [], w_code = [], w_def = []\<rparr>"

definition Wrapper_print :: "int \<Rightarrow> Wrapper \<Rightarrow> string" where
  "Wrapper_print Compact_mode w =
     (let str = w_def w @ [NL] @ w_locals w @ [NL] @ w_code w @ [NL]
      in if Compact_mode = 1 then Wrapper_compact_print str else Wrapper_pretty_print str)"

definition Wrapper_add_local :: "Wrapper \<Rightarrow> string \<Rightarrow> string \<Rightarrow> int \<times> Wrapper" where
  "Wrapper_add_local w name decl =
     (if w_localh w name \<noteq> None then (-1, w)
      else (0, w\<lparr>w_localh := (w_localh w)(name \<mapsto> decl), w_locals := w_locals w @ decl @ '';'' @ [NL]\<rparr>))"

text \<open>The variable arguments, joined with a blank behind each.\<close>

definition join_args :: "string list \<Rightarrow> string" where
  "join_args args = concat (map (\<lambda>a. a @ '' '') args)"

definition Wrapper_add_localv :: "Wrapper \<Rightarrow> string \<Rightarrow> string list \<Rightarrow> int \<times> Wrapper" where
  "Wrapper_add_localv w name args = Wrapper_add_local w name (join_args args)"

definition Wrapper_check_local :: "Wrapper \<Rightarrow> string \<Rightarrow> int" where
  "Wrapper_check_local w name = (if w_localh w name \<noteq> None then 1 else 0)"

text \<open>\<^verbatim>\<open>%d\<close> of a number that is not negative.\<close>

fun decimal_of :: "nat \<Rightarrow> string" where
  "decimal_of n = (if n < 10 then [char_of (48 + n)] else decimal_of (n div 10) @ [char_of (48 + n mod 10)])"

declare decimal_of.simps [simp del]

partial_function (option) free_name :: "Wrapper \<Rightarrow> string \<Rightarrow> string \<Rightarrow> nat \<Rightarrow> string option" where
  "free_name w name nname i =
     (if Wrapper_check_local w nname \<noteq> 0 then free_name w name (name @ decimal_of i) (i + 1) else Some nname)"

text \<open>\<^verbatim>\<open>Replace(ndecl, name, nname, DOH_REPLACE_ID)\<close> on a new String.\<close>

definition replace_id :: "string \<Rightarrow> string \<Rightarrow> string \<Rightarrow> string res" where
  "replace_id decl name nname =
     res_bind (DohNewString (Some (CStr decl))) (\<lambda>ndecl.
     res_bind (String_replace ndecl (CStr name) (CStr nname) DOH_REPLACE_ID) (\<lambda>(_, s).
     Inr (contents s)))"

definition Wrapper_new_local :: "Wrapper \<Rightarrow> string \<Rightarrow> string \<Rightarrow> (string \<times> Wrapper) res" where
  "Wrapper_new_local w name decl =
     (case free_name w name name 0 of
        None \<Rightarrow> Inl Diverges
      | Some nname \<Rightarrow>
          res_bind (replace_id decl name nname) (\<lambda>ndecl.
          Inr (nname, w\<lparr>w_localh := (w_localh w)(nname \<mapsto> ndecl), w_locals := w_locals w @ ndecl @ '';'' @ [NL]\<rparr>)))"

definition Wrapper_new_localv :: "Wrapper \<Rightarrow> string \<Rightarrow> string list \<Rightarrow> (string \<times> Wrapper) res" where
  "Wrapper_new_localv w name args = Wrapper_new_local w name (join_args args)"

section \<open>Printing changes white space only\<close>

definition ink :: "string \<Rightarrow> string" where
  "ink s = filter (\<lambda>c. \<not> isspace c) s"

lemma ink_simps [simp]: "ink [] = []" "ink (a @ b) = ink a @ ink b" "ink (c # r) = (if isspace c then ink r else c # ink r)"
  by (simp_all add: ink_def)

lemma ink_spaces [simp]: "ink (spaces n) = []" "isspace (CHR 0x20)" "isspace NL"
  by (simp_all add: ink_def spaces_def ctype_defs)

lemma copy_literal_suffix: "suffix (fst (copy_literal q r ts)) r"
  by (induction q r ts rule: copy_literal.induct) (auto simp: suffix_Cons split: list.split)

lemma skip_space_suffix: "suffix (skip_space r) r"
  by (induction r) (auto simp: suffix_Cons)

lemma copy_line_comment_suffix: "suffix (fst (copy_line_comment r ts)) r"
  by (induction r ts rule: copy_line_comment.induct) (auto simp: suffix_Cons)

lemma copy_comment_suffix: "suffix (fst (copy_comment l e r ts)) r"
  by (induction l e r ts rule: copy_comment.induct) (auto simp: suffix_Cons)

lemma skip_space_ink [simp]: "ink (skip_space r) = ink r"
  by (induction r) auto

definition ends_line :: "string \<Rightarrow> bool" where
  "ends_line r \<longleftrightarrow> r = [] \<or> last r = NL"

lemma ends_line_suffix: "ends_line r \<Longrightarrow> suffix r' r \<Longrightarrow> ends_line r'"
  by (cases r') (auto simp: ends_line_def suffix_def)

lemma ends_line_Cons: "ends_line (c # r) \<longleftrightarrow> (if r = [] then c = NL else ends_line r)"
  by (auto simp: ends_line_def)

lemma copy_literal_ink: "ends_line r \<Longrightarrow> ink (snd (copy_literal q r ts)) @ ink (fst (copy_literal q r ts)) = ink ts @ ink r"
proof (induction q r ts rule: copy_literal.induct)
  case (2 q c r ts)
  show ?case
  proof (cases "c = BSLASH")
    case True
    with "2.prems" obtain d r' where r: "r = d # r'" by (cases r) (auto simp: ends_line_Cons)
    then have "ends_line r'" using "2.prems" by (auto simp: ends_line_def split: if_split_asm)
    with True r "2.IH" show ?thesis by auto
  next
    case False
    then have "ends_line r" using "2.prems" by (auto simp: ends_line_def split: if_split_asm)
    with False "2.IH" show ?thesis by auto
  qed
qed simp

lemma copy_line_comment_ink: "ink (snd (copy_line_comment r ts)) @ ink (fst (copy_line_comment r ts)) = ink ts @ ink r"
  by (induction r ts rule: copy_line_comment.induct) auto

lemma copy_comment_ink: "ink (snd (copy_comment l e r ts)) @ ink (fst (copy_comment l e r ts)) = ink ts @ ink r"
  by (induction l e r ts rule: copy_comment.induct) auto

lemma pretty_slash_suffix: "suffix (fst (pretty_slash r l ts)) r"
  by (auto simp: pretty_slash_def copy_line_comment_suffix copy_comment_suffix intro: suffix_ConsI split: list.split)

lemma pretty_slash_ink: "ink (snd (pretty_slash r l ts)) @ ink (fst (pretty_slash r l ts)) = ink ts @ ink r"
  by (auto simp: pretty_slash_def copy_line_comment_ink copy_comment_ink split: list.split)

lemma pretty_step_suffix: "suffix (fst (pretty_step c r st)) r"
  by (simp add: pretty_step_def Let_def case_prod_beta copy_literal_suffix skip_space_suffix pretty_slash_suffix)

definition written :: "pretty \<Rightarrow> string" where
  "written st = pp_out st @ pp_ts st"

lemma branches_ink [simp]:
  "ink (written (pretty_colon r st)) = ink (written st)"
  "ink (written (pretty_open st)) = ink (written st)"
  "ink (written (pretty_close st)) = ink (written st) @ [CHR 0x7D]"
  "ink (written (pretty_newline st)) = ink (written st)"
  by (simp_all add: written_def pretty_colon_def pretty_open_def pretty_close_def pretty_newline_def flush_indented_def
      Let_def ctype_defs)

lemma written_putc [simp]: "written (st\<lparr>pp_ts := ts\<rparr>) = pp_out st @ ts"
  "written (st\<lparr>pp_empty := e\<rparr>) = written st" "written (st\<lparr>pp_plevel := p\<rparr>) = written st"
  by (simp_all add: written_def)

lemma pretty_step_ink:
  "ends_line r \<Longrightarrow>
   ink (written (snd (pretty_step c r st))) @ ink (fst (pretty_step c r st)) = ink (written st) @ ink (c # r)"
  by (simp add: pretty_step_def Let_def case_prod_beta copy_literal_ink pretty_slash_ink)
    (simp add: written_def ctype_defs)

lemma pretty_step_end:
  "ends_line (c # r) \<Longrightarrow> fst (pretty_step c r st) = [] \<Longrightarrow> pp_empty (snd (pretty_step c r st)) \<Longrightarrow>
   pp_ts (snd (pretty_step c r st)) = []"
  by (simp add: pretty_step_def Let_def case_prod_beta ends_line_Cons pretty_newline_def pretty_open_def flush_indented_def
      split: if_split_asm)

lemma pretty_loop_ink: "ends_line r \<Longrightarrow> ink (written (pretty_loop r st)) = ink (written st) @ ink r"
proof (induction r st rule: pretty_loop.induct)
  case (2 c r st)
  obtain r' st' where p: "pretty_step c r st = (r', st')" by fastforce
  have e: "ends_line r" using "2.prems" by (auto simp: ends_line_Cons ends_line_def[of "[]"] split: if_split_asm)
  have "ends_line r'" using ends_line_suffix[OF e] pretty_step_suffix[of c r st] p by simp
  then show ?case using "2.IH"[OF p[symmetric]] pretty_step_ink[OF e, of c st] p by simp
qed simp

lemma pretty_loop_end: "ends_line (c # r) \<Longrightarrow> pp_empty (pretty_loop (c # r) st) \<Longrightarrow> pp_ts (pretty_loop (c # r) st) = []"
proof (induction "length r" arbitrary: c r st rule: less_induct)
  case less
  obtain r' st' where p: "pretty_step c r st = (r', st')" by fastforce
  show ?case
  proof (cases r')
    case Nil
    with pretty_step_end[OF less.prems(1), of st] less.prems(2) p show ?thesis by simp
  next
    case (Cons d r'')
    have e: "ends_line r" using less.prems by (auto simp: ends_line_Cons ends_line_def[of "[]"] split: if_split_asm)
    have s: "suffix (d # r'') r" using pretty_step_suffix[of c r st] p Cons by simp
    have "length r'' < length r" using suffix_length_le[OF s] by simp
    with less.hyps[of r'' d st'] ends_line_suffix[OF e s] less.prems(2) p Cons show ?thesis by simp
  qed
qed

lemma pretty_print_ink: "ends_line str \<Longrightarrow> ink (Wrapper_pretty_print str) = ink str"
  using pretty_loop_ink[of str pretty_start] pretty_loop_end[of "hd str" "tl str" pretty_start]
  by (cases str) (auto simp: Wrapper_pretty_print_def Let_def written_def pretty_start_def)

text \<open>The compact printer drops comments; in a text without them it keeps the rest.\<close>

fun no_comment :: "string \<Rightarrow> bool" where
  "no_comment (c # d # r) \<longleftrightarrow> \<not> (c = CHR ''/'' \<and> (d = CHR ''/'' \<or> d = CHR ''*'')) \<and> no_comment (d # r)"
| "no_comment _ \<longleftrightarrow> True"

lemma no_comment_Cons: "no_comment (c # r) \<Longrightarrow> no_comment r"
  by (cases r) auto

lemma no_comment_suffix: "no_comment r \<Longrightarrow> suffix r' r \<Longrightarrow> no_comment r'"
proof (induction r)
  case (Cons c r)
  then show ?case using no_comment_Cons[OF Cons.prems(1)] by (auto simp: suffix_Cons)
qed simp

lemma copy_directive_suffix: "suffix (fst (copy_directive r ts)) r \<and> ink (snd (copy_directive r ts)) @ ink (fst (copy_directive r ts)) = ink ts @ ink r"
proof (induction r ts rule: copy_directive.induct)
  case (2 c r ts)
  note e = copy_directive.simps(2)[of c r ts]
  show ?case
  proof (cases "c = BSLASH")
    case True
    show ?thesis
    proof (cases r)
      case Nil
      then show ?thesis unfolding e using True by simp
    next
      case (Cons d r')
      show ?thesis unfolding e using True Cons 2
        by (cases "d = NL") (auto simp: suffix_ConsI simp del: copy_directive.simps)
    qed
  qed (use 2 in \<open>auto simp: suffix_ConsI\<close>)
qed simp

definition cp_written :: "compact \<Rightarrow> string" where
  "cp_written st = cp_out st @ cp_tf st @ cp_ts st"

lemma append_line_ink: "ink (cp_out (append_line st)) @ ink (cp_tf (append_line st)) = ink (cp_written st)"
  by (simp add: append_line_def cp_written_def Let_def)

lemma compact_branches_ink [simp]:
  "ink (cp_written (compact_open st)) = ink (cp_written st) @ [CHR 0x7B]"
  "ink (cp_written (compact_close st)) = ink (cp_written st) @ [CHR 0x7D]"
  "ink (cp_written (compact_newline r st)) = ink (cp_written st)"
  "ink (cp_written (compact_directive ts st)) = ink (cp_out st) @ ink (cp_tf st) @ ink ts"
proof -
  have a: "ink (cp_out (append_line s)) @ ink (cp_tf (append_line s)) @ x = ink (cp_written s) @ x" for s x
    using append_line_ink[of s] by (metis append_assoc)
  show "ink (cp_written (compact_open st)) = ink (cp_written st) @ [CHR 0x7B]"
    using append_line_ink[of "st\<lparr>cp_ts := cp_ts st @ [CHR 0x7B], cp_empty := False\<rparr>"]
    by (simp add: compact_open_def Let_def cp_written_def ctype_defs)
  show "ink (cp_written (compact_close st)) = ink (cp_written st) @ [CHR 0x7D]"
    using a[of "st\<lparr>cp_empty := False\<rparr>"] by (simp add: compact_close_def Let_def cp_written_def ctype_defs)
  show "ink (cp_written (compact_newline r st)) = ink (cp_written st)"
    using append_line_ink[of st] by (simp add: compact_newline_def Let_def cp_written_def)
  show "ink (cp_written (compact_directive ts st)) = ink (cp_out st) @ ink (cp_tf st) @ ink ts"
    by (simp add: compact_directive_def cp_written_def)
qed

lemma compact_slash_keeps:
  assumes "ends_line (CHR ''/'' # r)" "no_comment (CHR ''/'' # r)"
  shows "suffix (fst (compact_slash r ts)) r"
    "ink (snd (compact_slash r ts)) @ ink (fst (compact_slash r ts)) = ink ts @ ink (CHR ''/'' # r)"
  using assms by (cases r; auto simp: compact_slash_def ends_line_Cons suffix_ConsI ctype_defs)+

lemma compact_step_suffix:
  "ends_line (c # r) \<Longrightarrow> no_comment (c # r) \<Longrightarrow> suffix (fst (compact_step c r st)) r"
  by (simp add: compact_step_def Let_def case_prod_beta copy_literal_suffix skip_space_suffix copy_directive_suffix)
    (auto intro: compact_slash_keeps(1))

lemma compact_step_ink:
  assumes "ends_line (c # r)" "no_comment (c # r)"
  shows "ink (cp_written (snd (compact_step c r st))) @ ink (fst (compact_step c r st)) = ink (cp_written st) @ ink (c # r)"
proof -
  have e: "ends_line r" using assms(1) by (auto simp: ends_line_Cons ends_line_def[of "[]"] split: if_split_asm)
  have up: "ink (cp_written (st\<lparr>cp_ts := ts, cp_empty := b\<rparr>)) = ink (cp_out st) @ ink (cp_tf st) @ ink ts" for ts b
    by (simp add: cp_written_def)
  have w: "ink (cp_written st) = ink (cp_out st) @ ink (cp_tf st) @ ink (cp_ts st)" by (simp add: cp_written_def)
  consider "c = CHR ''/''" | "c = CHR ''#''" | "c \<noteq> CHR ''/''" "c \<noteq> CHR ''#''" by blast
  then show ?thesis
  proof cases
    case 1
    with compact_slash_keeps(2)[of r "cp_ts st"] assms show ?thesis
      by (simp add: compact_step_def Let_def case_prod_beta up w)
  next
    case 2
    with copy_directive_suffix[of r "cp_ts st @ [c]", THEN conjunct2] show ?thesis
      by (simp add: compact_step_def Let_def case_prod_beta w)
  next
    case 3
    then show ?thesis
      by (simp add: compact_step_def Let_def case_prod_beta up w copy_literal_ink[OF e] ctype_defs)
  qed
qed

lemma compact_step_end:
  "ends_line (c # r) \<Longrightarrow> fst (compact_step c r st) = [] \<Longrightarrow> cp_empty (snd (compact_step c r st)) \<Longrightarrow>
   cp_ts (snd (compact_step c r st)) = []"
  by (simp add: compact_step_def Let_def case_prod_beta ends_line_Cons compact_newline_def compact_open_def append_line_def
      compact_directive_def split: if_split_asm)

lemma compact_loop_ink:
  "ends_line r \<Longrightarrow> no_comment r \<Longrightarrow> ink (cp_written (compact_loop r st)) = ink (cp_written st) @ ink r"
proof (induction r st rule: compact_loop.induct)
  case (2 c r st)
  obtain r' st' where p: "compact_step c r st = (r', st')" by fastforce
  have e: "ends_line r" using "2.prems" by (auto simp: ends_line_Cons ends_line_def[of "[]"] split: if_split_asm)
  have s: "suffix r' r" using compact_step_suffix[OF "2.prems", of st] p by simp
  have "ends_line r'" "no_comment r'"
    using ends_line_suffix[OF e s] no_comment_suffix[OF no_comment_Cons s] "2.prems"(2) by simp_all
  then show ?case using "2.IH"[OF p[symmetric]] compact_step_ink[OF "2.prems", of st] p by simp
qed simp

lemma compact_loop_end:
  "ends_line (c # r) \<Longrightarrow> no_comment (c # r) \<Longrightarrow> cp_empty (compact_loop (c # r) st) \<Longrightarrow> cp_ts (compact_loop (c # r) st) = []"
proof (induction "length r" arbitrary: c r st rule: less_induct)
  case less
  obtain r' st' where p: "compact_step c r st = (r', st')" by fastforce
  show ?case
  proof (cases r')
    case Nil
    with compact_step_end[OF less.prems(1), of st] less.prems(3) p show ?thesis by simp
  next
    case (Cons d r'')
    have e: "ends_line r" using less.prems by (auto simp: ends_line_Cons ends_line_def[of "[]"] split: if_split_asm)
    have s: "suffix (d # r'') r" using compact_step_suffix[OF less.prems(1,2), of st] p Cons by simp
    have "length r'' < length r" using suffix_length_le[OF s] by simp
    with less.hyps[of r'' d st'] ends_line_suffix[OF e s] no_comment_suffix[OF no_comment_Cons s] less.prems(2,3) p Cons
    show ?thesis by simp
  qed
qed

lemma compact_print_ink: "ends_line str \<Longrightarrow> no_comment str \<Longrightarrow> ink (Wrapper_compact_print str) = ink str"
  using compact_loop_ink[of str compact_start] compact_loop_end[of "hd str" "tl str" compact_start]
  by (cases str) (auto simp: Wrapper_compact_print_def Let_def cp_written_def compact_start_def)

section \<open>The layout of plain code\<close>

text \<open>Code of plain lines and nested blocks: its source text, and the text with every line indented by its depth. A
  plain line has a character other than white space and no character that the printer treats specially, but
  balanced parentheses.\<close>

datatype stmt = Line string | Block string "stmt list"

fun code_source :: "stmt \<Rightarrow> string" where
  "code_source (Line l) = l @ [NL]"
| "code_source (Block h b) = h @ [CHR 0x7B, NL] @ concat (map code_source b) @ [CHR 0x7D, NL]"

fun code_layout :: "int \<Rightarrow> stmt \<Rightarrow> string" where
  "code_layout n (Line l) = spaces n @ dropWhile isspace l @ [NL]"
| "code_layout n (Block h b) =
     spaces n @ dropWhile isspace h @ [CHR 0x7B, NL] @ concat (map (code_layout (n + 2)) b) @ spaces n @ [CHR 0x7D, NL]"

definition plain_char :: "char \<Rightarrow> bool" where
  "plain_char c \<longleftrightarrow> c \<notin> {CHR 0x22, CHR 0x27, CHR '':'', CHR 0x7B, CHR 0x7D, NL, CHR ''/''}"

fun plain_line :: "string \<Rightarrow> bool" where
  "plain_line l \<longleftrightarrow> list_all plain_char l \<and> list_ex (\<lambda>c. \<not> isspace c) l \<and> hd (dropWhile isspace l) \<noteq> CHR ''#'' \<and>
     count_list l (CHR ''('') = count_list l (CHR '')'')"

fun plain_code :: "stmt \<Rightarrow> bool" where
  "plain_code (Line l) \<longleftrightarrow> plain_line l"
| "plain_code (Block h b) \<longleftrightarrow> plain_line h \<and> b \<noteq> [] \<and> list_all plain_code b"

lemma skip_space_dropWhile: "skip_space r = dropWhile isspace r"
  by (induction r) auto

text \<open>Plain characters inside a line and at its beginning.\<close>

lemma plain_step:
  assumes "plain_char c" "\<not> pp_empty st \<or> \<not> isspace c"
  shows "pretty_loop (c # r) st = pretty_loop r (st\<lparr>pp_ts := pp_ts st @ [c],
     pp_plevel := pp_plevel st + (if c = CHR ''('' then 2 else 0) - (if c = CHR '')'' then 2 else 0), pp_empty := False\<rparr>)"
  using assms by (auto simp: plain_char_def pretty_step_def Let_def)

lemma plain_chars:
  "list_all plain_char l \<Longrightarrow> \<not> pp_empty st \<Longrightarrow>
   pretty_loop (l @ r) st = pretty_loop r (st\<lparr>pp_ts := pp_ts st @ l,
     pp_plevel := pp_plevel st + 2 * int (count_list l (CHR ''('')) - 2 * int (count_list l (CHR '')''))\<rparr>)"
proof (induction l arbitrary: st)
  case (Cons c l)
  from Cons.prems have "pretty_loop ((c # l) @ r) st = pretty_loop (l @ r) (st\<lparr>pp_ts := pp_ts st @ [c],
     pp_plevel := pp_plevel st + (if c = CHR ''('' then 2 else 0) - (if c = CHR '')'' then 2 else 0), pp_empty := False\<rparr>)"
    using plain_step[of c st "l @ r"] by simp
  also have "\<dots> = pretty_loop r (st\<lparr>pp_ts := pp_ts st @ c # l,
     pp_plevel := pp_plevel st + 2 * int (count_list (c # l) (CHR ''('')) - 2 * int (count_list (c # l) (CHR '')'')), pp_empty := False\<rparr>)"
    using Cons.IH Cons.prems by (cases st) (simp add: algebra_simps)
  finally show ?case using Cons.prems(2) by (cases st) simp
qed simp

definition pretty_at :: "string \<Rightarrow> int \<Rightarrow> bool \<Rightarrow> pretty" where
  "pretty_at out n e = \<lparr>pp_ts = [], pp_out = out, pp_level = n, pp_empty = e, pp_plevel = 0, pp_label = False\<rparr>"

lemma not_space [simp]: "\<not> isspace (CHR ''('')" "\<not> isspace (CHR '')'')" "\<not> isspace (CHR ''#'')"
  by (simp_all add: ctype_defs)

lemma plain_skip:
  assumes "plain_char c" "isspace c"
  shows "pretty_loop (c # r) (pretty_at out n True) = pretty_loop r (pretty_at out n True)"
proof -
  have "c \<noteq> CHR ''(''" "c \<noteq> CHR '')''" using assms(2) by auto
  moreover have "c \<noteq> CHR 0x22" "c \<noteq> CHR 0x27" "c \<noteq> CHR '':''" "c \<noteq> CHR 0x7B" "c \<noteq> CHR 0x7D" "c \<noteq> NL" "c \<noteq> CHR ''/''"
    using assms(1) by (auto simp: plain_char_def)
  ultimately have "pretty_step c r (pretty_at out n True) = (r, pretty_at out n True)"
    using assms(2) unfolding pretty_step_def Let_def by (simp add: pretty_at_def)
  then show ?thesis by simp
qed

lemma plain_line_read:
  assumes "plain_line l"
  shows "pretty_loop (dropWhile isspace l @ r) (pretty_at out n e) =
           pretty_loop r ((pretty_at out n False)\<lparr>pp_ts := dropWhile isspace l\<rparr>)"
    "pretty_loop (l @ r) (pretty_at out n True) = pretty_loop r ((pretty_at out n False)\<lparr>pp_ts := dropWhile isspace l\<rparr>)"
proof -
  let ?l = "dropWhile isspace l"
  have t: "l = takeWhile isspace l @ ?l" by simp
  have pl: "list_all plain_char l" using assms by simp
  then have pd: "list_all plain_char ?l" by (auto simp: list_all_iff dest: set_dropWhileD)
  have ne: "?l \<noteq> []" using assms by (auto simp: list_ex_iff)
  then obtain c k where ck: "?l = c # k" by (cases ?l) auto
  have nc: "\<not> isspace c" using ck by (metis hd_dropWhile list.sel(1) list.distinct(1))
  have cnt: "count_list ?l x = count_list l x" if "\<not> isspace x" for x
  proof -
    have "count_list (takeWhile isspace l) x = 0" using that by (auto simp: count_list_0_iff dest: set_takeWhileD)
    with t show ?thesis by (metis add_0 count_list_append)
  qed
  have par: "count_list ?l (CHR ''('') = count_list ?l (CHR '')'')" using assms cnt by (simp add: ctype_defs)
  show one: "pretty_loop (?l @ r) (pretty_at out n e) = pretty_loop r ((pretty_at out n False)\<lparr>pp_ts := ?l\<rparr>)" for e
  proof -
    have "pretty_loop (?l @ r) (pretty_at out n e) = pretty_loop (?l @ r) (pretty_at out n False)"
      unfolding ck using plain_step[of c _ "k @ r"] pd nc ck by (simp add: pretty_at_def)
    also have "\<dots> = pretty_loop r ((pretty_at out n False)\<lparr>pp_ts := ?l\<rparr>)"
      using plain_chars[OF pd, of "pretty_at out n False" r] par by (simp add: pretty_at_def)
    finally show ?thesis .
  qed
  have "pretty_loop (w @ x) (pretty_at out n True) = pretty_loop x (pretty_at out n True)"
    if "list_all plain_char w" "list_all isspace w" for w x
    using that by (induction w) (simp_all add: plain_skip del: pretty_loop.simps)
  moreover have "list_all plain_char (takeWhile isspace l)" "list_all isspace (takeWhile isspace l)"
    using pl by (auto simp: list_all_iff dest: set_takeWhileD)
  ultimately have "pretty_loop (takeWhile isspace l @ ?l @ r) (pretty_at out n True) = pretty_loop (?l @ r) (pretty_at out n True)"
    by blast
  then have "pretty_loop (l @ r) (pretty_at out n True) = pretty_loop (?l @ r) (pretty_at out n True)"
    by (metis append_assoc t)
  with one show "pretty_loop (l @ r) (pretty_at out n True) = pretty_loop r ((pretty_at out n False)\<lparr>pp_ts := ?l\<rparr>)" by simp
qed

lemma dropWhile_line: "plain_line l \<Longrightarrow> dropWhile isspace (l @ r) = dropWhile isspace l @ r"
  by (induction l) (auto simp: list_ex_iff)

lemma plain_head: "plain_line l \<Longrightarrow> hd (dropWhile isspace l @ x) \<noteq> CHR ''#''"
  by (cases "dropWhile isspace l") (auto simp: list_ex_iff)

text \<open>The ends of lines and blocks.\<close>

lemma read_newline:
  "0 \<le> n \<Longrightarrow> hd (ts @ [NL]) \<noteq> CHR ''#'' \<Longrightarrow>
   pretty_loop (NL # r) ((pretty_at out n False)\<lparr>pp_ts := ts\<rparr>) = pretty_loop r (pretty_at (out @ spaces n @ ts @ [NL]) n True)"
  by (simp add: pretty_step_def pretty_newline_def flush_indented_def Let_def pretty_at_def spaces_def)

lemma read_open:
  "pretty_loop (CHR 0x7B # r) ((pretty_at out n False)\<lparr>pp_ts := ts\<rparr>) =
   pretty_loop (dropWhile isspace r) (pretty_at (out @ spaces n @ ts @ [CHR 0x7B, NL]) (n + 2) False)"
  by (simp add: pretty_step_def pretty_open_def flush_indented_def Let_def pretty_at_def skip_space_dropWhile)

lemma read_close:
  "pretty_loop (CHR 0x7D # r) (pretty_at out (n + 2) True) = pretty_loop r ((pretty_at out n False)\<lparr>pp_ts := [CHR 0x7D]\<rparr>)"
  by (simp add: pretty_step_def pretty_close_def Let_def pretty_at_def)

definition reads_stmt :: "stmt \<Rightarrow> bool" where
  "reads_stmt s \<longleftrightarrow> (\<forall>n out r. 0 \<le> n \<longrightarrow>
     pretty_loop (code_source s @ r) (pretty_at out n True) = pretty_loop r (pretty_at (out @ code_layout n s) n True) \<and>
     pretty_loop (dropWhile isspace (code_source s) @ r) (pretty_at out n False) = pretty_loop r (pretty_at (out @ code_layout n s) n True))"

lemma source_head: "plain_code s \<Longrightarrow> \<exists>c\<in>set (code_source s). \<not> isspace c"
  by (cases s) (auto simp: list_ex_iff)

lemma reads_stmts:
  assumes "\<forall>s\<in>set b. reads_stmt s" "0 \<le> n"
  shows "pretty_loop (concat (map code_source b) @ r) (pretty_at out n True) =
           pretty_loop r (pretty_at (out @ concat (map (code_layout n) b)) n True)"
  using assms
proof (induction b arbitrary: out)
  case (Cons s b)
  then have "reads_stmt s" by simp
  with Cons show ?case by (simp add: reads_stmt_def)
qed simp

lemma reads_block:
  assumes "\<forall>s\<in>set b. reads_stmt s" "0 \<le> n" "b \<noteq> []" "list_all plain_code b"
  shows "pretty_loop (dropWhile isspace (NL # concat (map code_source b) @ r)) (pretty_at out n False) =
           pretty_loop r (pretty_at (out @ concat (map (code_layout n) b)) n True)"
proof -
  obtain s b' where b: "b = s # b'" using assms(3) by (cases b) auto
  then have "dropWhile isspace (NL # concat (map code_source b) @ r) =
      dropWhile isspace (code_source s) @ concat (map code_source b') @ r"
    using source_head[of s] assms(4) dropWhile_append1[of _ "code_source s" isspace] by (auto simp: ctype_defs)
  moreover have "reads_stmt s" using assms(1) b by simp
  ultimately show ?thesis using reads_stmts[of b' n r "out @ code_layout n s"] assms(1,2) b by (simp add: reads_stmt_def)
qed

lemma plain_code_reads: "plain_code s \<Longrightarrow> reads_stmt s"
proof (induction s)
  case (Line l)
  then have p: "plain_line l" by simp
  show ?case unfolding reads_stmt_def
    using plain_line_read[OF p] read_newline plain_head[OF p] dropWhile_line[OF p] p
    by (simp del: plain_line.simps)
next
  case (Block h b)
  then have p: "plain_line h" and b: "b \<noteq> []" "list_all plain_code b" by simp_all
  have ih: "\<forall>s\<in>set b. reads_stmt s" using Block by (auto simp: list_all_iff)
  have tail: "pretty_loop (CHR 0x7B # NL # concat (map code_source b) @ CHR 0x7D # NL # r) ((pretty_at out n False)\<lparr>pp_ts := dropWhile isspace h\<rparr>) =
      pretty_loop r (pretty_at (out @ code_layout n (Block h b)) n True)" if n: "0 \<le> n" for out n r
    unfolding read_open
    using reads_block[OF ih _ b, of "n + 2" "CHR 0x7D # NL # r"] n read_close read_newline[OF n, of "[CHR 0x7D]"]
    by (simp del: pretty_loop.simps)
  show ?case unfolding reads_stmt_def
    using plain_line_read[OF p] tail dropWhile_line[OF p] by (simp del: plain_line.simps pretty_loop.simps)
qed

lemma pretty_print_layout:
  assumes "list_all plain_code b"
  shows "Wrapper_pretty_print (concat (map code_source b)) = concat (map (code_layout 0) b) @ [NL]"
proof -
  have "\<forall>s\<in>set b. reads_stmt s" using assms plain_code_reads by (auto simp: list_all_iff)
  from reads_stmts[OF this, of 0 "[]" "[]"] show ?thesis
    by (simp add: Wrapper_pretty_print_def pretty_start_def pretty_at_def)
qed

section \<open>Local variables\<close>

lemma decimal_digits: "decimal_of n = (if n < 10 then [] else decimal_of (n div 10)) @ [char_of (48 + n mod 10)]"
  by (simp add: decimal_of.simps[of n])

lemma decimal_nonempty [simp]: "decimal_of n \<noteq> []"
  by (subst decimal_digits) simp

lemma digit_inject: "d < 10 \<Longrightarrow> e < 10 \<Longrightarrow> (char_of (48 + d) :: char) = char_of (48 + e) \<Longrightarrow> d = (e :: nat)"
  using cc_char_of[of "48 + d"] cc_char_of[of "48 + e"] by simp

lemma decimal_inject: "decimal_of n = decimal_of m \<Longrightarrow> n = m"
proof (induction n arbitrary: m rule: less_induct)
  case (less n)
  have d: "n mod 10 = m mod 10"
    using less.prems unfolding decimal_digits[of n] decimal_digits[of m] by (auto intro: digit_inject)
  have p: "(if n < 10 then [] else decimal_of (n div 10)) = (if m < 10 then [] else decimal_of (m div 10))"
    using less.prems unfolding decimal_digits[of n] decimal_digits[of m] by simp
  show ?case
  proof (cases "n < 10")
    case True
    with p decimal_nonempty[of "m div 10"] have "m < 10" by (cases "m < 10") auto
    with True d show ?thesis by simp
  next
    case False
    with p decimal_nonempty[of "n div 10"] have "decimal_of (n div 10) = decimal_of (m div 10)" by (cases "m < 10") auto
    with less.IH[of "n div 10" "m div 10"] False have "n div 10 = m div 10" by simp
    with d show ?thesis by (metis div_mult_mod_eq)
  qed
qed

lemma decimal_digit: "x \<in> set (decimal_of n) \<Longrightarrow> isdigit x"
proof (induction n rule: less_induct)
  case (less n)
  from less.prems consider "x \<in> set (if n < 10 then [] else decimal_of (n div 10))" | "x = char_of (48 + n mod 10)"
    unfolding decimal_digits[of n] by auto
  then show ?case
  proof cases
    case 1
    then show ?thesis using less.IH[of "n div 10"] by (auto split: if_split_asm)
  next
    case 2
    then show ?thesis by (simp add: isdigit_def cc_char_of)
  qed
qed

text \<open>A Hash object holds finitely many names, so the search for a free one ends.\<close>

definition taken :: "Wrapper \<Rightarrow> string \<Rightarrow> bool" where
  "taken w x \<longleftrightarrow> w_localh w x \<noteq> None"

lemma free_name_step:
  "free_name w name nname i = (if taken w nname then free_name w name (name @ decimal_of i) (i + 1) else Some nname)"
  by (subst free_name.simps) (simp add: Wrapper_check_local_def taken_def)

lemma some_free: "finite (dom (w_localh w)) \<Longrightarrow> \<exists>j\<ge>i. \<not> taken w (name @ decimal_of j)"
proof (rule ccontr)
  assume f: "finite (dom (w_localh w))" and "\<not> (\<exists>j\<ge>i. \<not> taken w (name @ decimal_of j))"
  then have "(\<lambda>j. name @ decimal_of j) ` {i..} \<subseteq> dom (w_localh w)" by (auto simp: taken_def)
  moreover have "inj_on (\<lambda>j. name @ decimal_of j) {i..}" using decimal_inject by (auto intro: inj_onI)
  ultimately show False using f infinite_Ici[of i] by (metis finite_imageD finite_subset)
qed

lemma free_name_search:
  assumes "\<not> taken w (name @ decimal_of j)" "\<forall>k. i \<le> k \<and> k < j \<longrightarrow> taken w (name @ decimal_of k)" "i \<le> j"
  shows "free_name w name (name @ decimal_of i) (i + 1) = Some (name @ decimal_of j)"
  using assms(2,3)
proof (induction "j - i" arbitrary: i)
  case 0
  then show ?case using assms(1) by (simp add: free_name_step)
next
  case (Suc d)
  then have "taken w (name @ decimal_of i)" by simp
  moreover have "free_name w name (name @ decimal_of (i + 1)) (i + 1 + 1) = Some (name @ decimal_of j)"
    using Suc by (intro Suc.hyps) auto
  ultimately show ?case by (subst free_name_step) simp
qed

lemma free_name_ok:
  assumes "finite (dom (w_localh w))"
  shows "\<exists>n. free_name w name name 0 = Some n \<and> \<not> taken w n \<and>
    (n = name \<or> taken w name \<and> (\<exists>j. n = name @ decimal_of j \<and> (\<forall>k<j. taken w (name @ decimal_of k))))"
proof (cases "taken w name")
  case False
  then show ?thesis by (subst free_name_step) simp
next
  case True
  define j where "j = (LEAST j. \<not> taken w (name @ decimal_of j))"
  have "\<exists>j. \<not> taken w (name @ decimal_of j)" using some_free[OF assms, of 0 name] by blast
  then have j: "\<not> taken w (name @ decimal_of j)" unfolding j_def by (rule LeastI_ex)
  have l: "\<forall>k<j. taken w (name @ decimal_of k)" unfolding j_def using not_less_Least by blast
  have "free_name w name (name @ decimal_of 0) (0 + 1) = Some (name @ decimal_of j)"
    using free_name_search[OF j, of 0] l by simp
  then have "free_name w name name 0 = Some (name @ decimal_of j)" using True by (subst free_name_step) simp
  with True j l show ?thesis by blast
qed

lemma new_string_terminated: "NUL \<notin> set t \<Longrightarrow> DohNewString (Some (CStr t)) = Inr s \<Longrightarrow> terminated s"
  by (auto simp: DohNewString_def Let_def res_bind_eq_Inr until_nul_id terminated_def dest!: peek_copied)

text \<open>The declaration with the name replaced where it stands as a word.\<close>

definition renamed :: "string \<Rightarrow> string \<Rightarrow> string \<Rightarrow> string" where
  "renamed decl name nname =
     splice_at decl (length name) nname (filter (occurrence Identifier decl name) [0..<length decl]) 0"

lemma replace_id_renames:
  assumes "NUL \<notin> set decl" "NUL \<notin> set nname" "name \<noteq> []" "list_all word_char name" "length nname = length name \<Longrightarrow> word_char (last nname)"
  shows "replace_id decl name nname = Inr (renamed decl name nname)"
proof -
  have "wf_arg (CStr decl)" "NUL \<notin> set (arg_text (CStr decl))" using assms(1) by (simp_all add: wf_arg_def arg_text_def)
  from DohNewString_spec[OF this] obtain s where s: "DohNewString (Some (CStr decl)) = Inr s" "wf_string s" "contents s = decl"
    by (auto simp: arg_text_def)
  have "NUL \<notin> set name" using assms(4) by (auto simp: list_all_iff)
  then have r: "replaceable s name nname"
    using s assms(1-3) new_string_terminated[OF assms(1) s(1)] by (simp add: replaceable_def)
  from replaceid_words[OF r assms(4,5)] s(1,3) show ?thesis
    by (auto simp: replace_id_def renamed_def simp del: splice_at.simps)
qed

lemma word_name:
  assumes "name \<noteq> []" "list_all word_char name" "n = name \<or> (\<exists>j. n = name @ decimal_of j)"
  shows "NUL \<notin> set n" "length n = length name \<Longrightarrow> word_char (last n)"
proof -
  have a: "NUL \<notin> set name" using assms(2) by (auto simp: list_all_iff)
  have "NUL \<notin> set (decimal_of j)" for j using decimal_digit[of NUL j] by auto
  with a assms(3) show "NUL \<notin> set n" by auto
  show "length n = length name \<Longrightarrow> word_char (last n)" using assms by (auto simp: list_all_iff)
qed

definition valid_local :: "string \<Rightarrow> string \<Rightarrow> bool" where
  "valid_local name decl \<longleftrightarrow> name \<noteq> [] \<and> list_all word_char name \<and> NUL \<notin> set decl"

lemma Wrapper_new_local_spec:
  assumes "finite (dom (w_localh w))" "valid_local name decl"
  shows "\<exists>n. Wrapper_new_local w name decl = Inr (n, w\<lparr>w_localh := (w_localh w)(n \<mapsto> renamed decl name n),
      w_locals := w_locals w @ renamed decl name n @ '';'' @ [NL]\<rparr>) \<and> \<not> taken w n \<and>
    (n = name \<or> taken w name \<and> (\<exists>j. n = name @ decimal_of j \<and> (\<forall>k<j. taken w (name @ decimal_of k))))"
proof -
  from free_name_ok[OF assms(1), of name] obtain n where
    n: "free_name w name name 0 = Some n" "\<not> taken w n"
      "n = name \<or> taken w name \<and> (\<exists>j. n = name @ decimal_of j \<and> (\<forall>k<j. taken w (name @ decimal_of k)))" by blast
  have v: "name \<noteq> []" "list_all word_char name" "NUL \<notin> set decl" using assms(2) by (auto simp: valid_local_def)
  have "replace_id decl name n = Inr (renamed decl name n)"
    by (rule replace_id_renames[OF v(3) word_name(1)[OF v(1,2)] v(1,2) word_name(2)[OF v(1,2)]]) (use n(3) in auto)
  with n show ?thesis by (intro exI[of _ n]) (simp add: Wrapper_new_local_def)
qed

text \<open>Every local is declared once, in the order of the calls.\<close>

definition declared_once :: "Wrapper \<Rightarrow> string list \<Rightarrow> bool" where
  "declared_once w ns \<longleftrightarrow> distinct ns \<and> dom (w_localh w) = set ns \<and>
     w_locals w = concat (map (\<lambda>n. the (w_localh w n) @ '';'' @ [NL]) ns)"

lemma declared_once_add:
  assumes "declared_once w ns" "\<not> taken w n"
  shows "declared_once (w\<lparr>w_localh := (w_localh w)(n \<mapsto> d), w_locals := w_locals w @ d @ '';'' @ [NL]\<rparr>) (ns @ [n])"
proof -
  have n: "n \<notin> set ns" using assms by (auto simp: declared_once_def taken_def)
  then have m: "map (\<lambda>x. the (((w_localh w)(n \<mapsto> d)) x) @ '';'' @ [NL]) ns = map (\<lambda>x. the (w_localh w x) @ '';'' @ [NL]) ns"
    by (intro map_cong) auto
  show ?thesis using assms(1) n
    by (simp add: declared_once_def m[unfolded append_Cons append_Nil] fun_upd_same del: fun_upd_apply)
qed

datatype local_op = AddLocal string string | NewLocal string string

fun run_locals :: "local_op list \<Rightarrow> Wrapper \<Rightarrow> Wrapper res" where
  "run_locals [] w = Inr w"
| "run_locals (AddLocal n d # ops) w = run_locals ops (snd (Wrapper_add_local w n d))"
| "run_locals (NewLocal n d # ops) w = res_bind (Wrapper_new_local w n d) (\<lambda>(_, w'). run_locals ops w')"

fun op_valid :: "local_op \<Rightarrow> bool" where
  "op_valid (AddLocal n d) \<longleftrightarrow> True"
| "op_valid (NewLocal n d) \<longleftrightarrow> valid_local n d"

lemma run_locals_once:
  "declared_once w ns \<Longrightarrow> list_all op_valid ops \<Longrightarrow>
   \<exists>w' ms. run_locals ops w = Inr w' \<and> declared_once w' (ns @ ms) \<and> w_code w' = w_code w \<and> w_def w' = w_def w"
proof (induction ops w arbitrary: ns rule: run_locals.induct)
  case (2 n d ops w)
  show ?case
  proof (cases "taken w n")
    case True
    then have "snd (Wrapper_add_local w n d) = w" by (simp add: Wrapper_add_local_def taken_def)
    with 2 show ?thesis by auto
  next
    case False
    from declared_once_add[OF "2.prems"(1) False, of d] "2.IH"[of "ns @ [n]"] "2.prems"(2) False show ?thesis
      by (fastforce simp: Wrapper_add_local_def taken_def)
  qed
next
  case (3 n d ops w)
  have "finite (dom (w_localh w))" using "3.prems"(1) by (simp add: declared_once_def)
  with Wrapper_new_local_spec[of w n d] "3.prems"(2) obtain k where
    k: "Wrapper_new_local w n d = Inr (k, w\<lparr>w_localh := (w_localh w)(k \<mapsto> renamed d n k),
      w_locals := w_locals w @ renamed d n k @ '';'' @ [NL]\<rparr>)" "\<not> taken w k" by auto
  from "3.IH"[OF _ refl declared_once_add[OF "3.prems"(1) k(2)]] "3.prems"(2) k(1) show ?case
    by fastforce
qed (auto intro: exI[of _ "[]"])

section \<open>Properties\<close>



text \<open>C31: Code of plain lines and nested blocks is printed with every line indented by twice its depth, whatever the
  indentation of the source.\<close>

theorem pretty_print_indents:
  assumes "list_all plain_code b"
  shows "Wrapper_pretty_print (concat (map code_source b)) = concat (map (code_layout 0) b) @ [NL]"
  using assms by (rule pretty_print_layout)

theorem pretty_print_indents_witness:
  "Wrapper_pretty_print (''if (a) {'' @ [NL] @ ''x = 1;'' @ [NL] @ ''}'' @ [NL]) =
     ''if (a) {'' @ [NL] @ ''  x = 1;'' @ [NL] @ ''}'' @ [NL, NL]"
  using pretty_print_indents[of "[Block ''if (a) '' [Line ''x = 1;'']]"]
  by (simp add: plain_char_def ctype_defs spaces_def numeral_2_eq_2)

text \<open>C32: \<^verbatim>\<open>Wrapper_new_local\<close> ends, with a name that no local has: the wanted one, or when that is taken the first
  free one with a number behind it; it declares the text with the wanted name replaced where it stands as a word.\<close>

theorem new_local_is_fresh:
  assumes "finite (dom (w_localh w))" "valid_local name decl"
  shows "\<exists>n w'. Wrapper_new_local w name decl = Inr (n, w') \<and> Wrapper_check_local w n = 0 \<and> Wrapper_check_local w' n = 1 \<and>
    (n = name \<or> Wrapper_check_local w name = 1 \<and> (\<exists>j. n = name @ decimal_of j \<and> (\<forall>k<j. Wrapper_check_local w (name @ decimal_of k) = 1))) \<and>
    w_localh w' = (w_localh w)(n \<mapsto> renamed decl name n) \<and> w_locals w' = w_locals w @ renamed decl name n @ '';'' @ [NL]"
proof -
  from Wrapper_new_local_spec[OF assms] obtain n where n: "Wrapper_new_local w name decl = Inr (n, w\<lparr>w_localh := (w_localh w)(n \<mapsto> renamed decl name n),
      w_locals := w_locals w @ renamed decl name n @ '';'' @ [NL]\<rparr>)" "\<not> taken w n"
    "n = name \<or> taken w name \<and> (\<exists>j. n = name @ decimal_of j \<and> (\<forall>k<j. taken w (name @ decimal_of k)))" by blast
  have c: "Wrapper_check_local v x = (if taken v x then 1 else 0)" for v x by (simp add: Wrapper_check_local_def taken_def)
  define w' where "w' = w\<lparr>w_localh := (w_localh w)(n \<mapsto> renamed decl name n), w_locals := w_locals w @ renamed decl name n @ '';'' @ [NL]\<rparr>"
  have "taken w' n" by (simp add: w'_def taken_def)
  with n show ?thesis by (intro exI[of _ n] exI[of _ w']) (simp add: c w'_def, blast)
qed

theorem new_local_is_fresh_witness:
  "\<exists>n w'. Wrapper_new_local (snd (Wrapper_add_local NewWrapper ''arg'' ''int arg'')) ''arg'' ''char arg'' = Inr (n, w') \<and>
     n \<noteq> ''arg'' \<and> Wrapper_check_local w' n = 1"
proof -
  let ?w = "snd (Wrapper_add_local NewWrapper ''arg'' ''int arg'')"
  have "finite (dom (w_localh ?w))" "valid_local ''arg'' ''char arg''"
    by (simp_all add: Wrapper_add_local_def NewWrapper_def valid_local_def word_char_def ctype_defs)
  from new_local_is_fresh[OF this] obtain n w' where n: "Wrapper_new_local ?w ''arg'' ''char arg'' = Inr (n, w')"
    "Wrapper_check_local ?w n = 0" "Wrapper_check_local w' n = 1" by blast
  have "Wrapper_check_local ?w ''arg'' = 1" by (simp add: Wrapper_add_local_def NewWrapper_def Wrapper_check_local_def)
  with n(2) have "n \<noteq> ''arg''" by auto
  with n show ?thesis by blast
qed



text \<open>An escaped quote ends a string literal for both printers: the brace behind it gets a line end, inside the
  literal.\<close>

theorem pretty_print_splits_literal:
  "Wrapper_pretty_print (CHR 0x22 # ''a'' @ [CHR 0x5C, CHR 0x22] @ ''{b'' @ [CHR 0x22, CHR '';'', NL]) =
     CHR 0x22 # ''a'' @ [CHR 0x5C, CHR 0x22] @ ''{'' @ [NL] @ ''b'' @ [CHR 0x22, CHR '';'', NL, NL]"
  by code_simp

end
