(* ===== verification/Swig_TypeObj.thy ===== *)
theory Swig_TypeObj
  imports Doh_String "HOL-Library.List_Lexorder"
begin

text \<open>
  The type strings of \<^verbatim>\<open>Source/Swig/typeobj.c\<close>: a C++ type is the text of its operators, each
  closed by a period, and a base name (\<^verbatim>\<open>p.a(10).q(const).int\<close>). A \<^verbatim>\<open>SwigType *\<close> is modelled by
  its text and the functions that change it return the new text; they are written with the
  sequence operations \<open>Insert\<close>, \<open>Append\<close>, \<open>Delslice\<close> and \<open>Delitem\<close> that \<open>Doh_String\<close> proves
  of the String object. The specification side is a list of elements: the theorems say when
  splitting, popping, adding and deleting operators agree with the list operations.
\<close>

type_synonym SwigType = string

section \<open>Scanning one element\<close>

text \<open>The inner loop of \<^verbatim>\<open>element_size\<close>: stops at the parenthesis that closes depth \<open>n\<close>.\<close>

fun skip_paren :: "nat \<Rightarrow> string \<Rightarrow> string" where
  "skip_paren n [] = []"
| "skip_paren n (x # xs) =
     (if x = CHR ''('' then skip_paren (Suc n) xs
      else if x = CHR '')'' then (if n - 1 = 0 then x # xs else skip_paren (n - 1) xs)
      else skip_paren n xs)"

lemma length_skip_paren: "length (skip_paren n xs) \<le> length xs"
  by (induction n xs rule: skip_paren.induct) auto

text \<open>Where \<^verbatim>\<open>element_size\<close> leaves its pointer: after the first period outside parentheses.\<close>

function (sequential) element_end :: "string \<Rightarrow> string" where
  "element_end [] = []"
| "element_end (x # xs) =
     (if x = CHR ''.'' then xs
      else if x = CHR ''('' then (case skip_paren 1 xs of [] \<Rightarrow> [] | y # ys \<Rightarrow> element_end ys)
      else element_end xs)"
  by pat_completeness auto
termination
proof (relation "measure length")
  fix x :: char and xs y ys
  assume "skip_paren 1 xs = y # ys"
  then show "(ys, x # xs) \<in> measure length" using length_skip_paren[of 1 xs] by simp
qed auto

definition element_size :: "string \<Rightarrow> int" where
  "element_size c = int (ptr_diff (element_end c) c)"

lemma length_element_end: "length (element_end c) \<le> length c"
proof (induction c rule: element_end.induct)
  case (2 x xs)
  show ?case
  proof (cases "skip_paren 1 xs")
    case Nil
    then show ?thesis using 2 by auto
  next
    case (Cons y ys)
    then show ?thesis using 2 length_skip_paren[of 1 xs] by fastforce
  qed
qed simp

lemma length_element_end_less: "c \<noteq> [] \<Longrightarrow> length (element_end c) < length c"
proof (cases c)
  case (Cons x xs)
  have "length (element_end ys) \<le> length xs" if "skip_paren 1 xs = y # ys" for y ys
    using length_element_end[of ys] length_skip_paren[of 1 xs] that by simp
  then show ?thesis using Cons length_element_end[of xs] by (auto split: list.splits)
qed simp

definition SwigType_del_element :: "SwigType \<Rightarrow> SwigType" where
  "SwigType_del_element t = Delslice t 0 (element_size t)"

definition SwigType_pop :: "SwigType \<Rightarrow> string option \<times> SwigType" where
  "SwigType_pop t =
     (if t = [] then (None, t)
      else let sz = element_size t;
               result = take (nat sz) t;
               t1 = Delslice t 0 sz
           in (Some result, if starts_with ''.'' t1 then Delitem t1 0 else t1))"

fun parm_end :: "nat \<Rightarrow> string \<Rightarrow> string" where
  "parm_end n [] = []"
| "parm_end n (x # xs) =
     (if x = CHR '')'' then (if n = 0 then x # xs else parm_end (n - 1) xs)
      else if x = CHR ''('' then parm_end (Suc n) xs
      else parm_end n xs)"

definition to_paren :: "string \<Rightarrow> string" where
  \<comment> \<open>\<^verbatim>\<open>while (*c && (*c != '(') && (*c != '.')) c++;\<close>\<close>
  "to_paren t = dropWhile (\<lambda>x. x \<noteq> CHR ''('' \<and> x \<noteq> CHR ''.'') t"

definition SwigType_parm :: "SwigType \<Rightarrow> string option" where
  "SwigType_parm t =
     (case to_paren t of
        [] \<Rightarrow> None
      | x # start \<Rightarrow> if x = CHR ''.'' then None
                     else Some (take (ptr_diff (parm_end 0 start) start) start))"

function (sequential) SwigType_split :: "SwigType \<Rightarrow> string list" where
  "SwigType_split [] = []"
| "SwigType_split (x # xs) =
     (let len = nat (element_size (x # xs));
          c = drop len (x # xs)
      in take len (x # xs) # SwigType_split (if starts_with ''.'' c then drop 1 c else c))"
  by pat_completeness auto
termination
proof (relation "measure length")
  fix x :: char and xs len c
  assume "len = nat (element_size (x # xs))" "c = drop len (x # xs)"
  moreover have "0 < nat (element_size (x # xs))"
    using length_element_end_less[of "x # xs"] by (simp add: element_size_def ptr_diff_def)
  ultimately show "(if starts_with ''.'' c then drop 1 c else c, x # xs) \<in> measure length" by auto
qed auto

text \<open>
  \<^verbatim>\<open>SwigType_parmlist\<close>: the items with the reference count each is left with, counting the
  reference of the returned list. After the loop \<^verbatim>\<open>Delete(item)\<close> releases the last item
  made: the one after the last comma, or, when that is empty, the one before it, which had
  been released already.
\<close>

definition parmlist_finish :: "string \<Rightarrow> string \<Rightarrow> (string \<times> nat) list \<Rightarrow> (string \<times> nat) list" where
  "parmlist_finish itemstart c items =
     (let sz = ptr_diff c itemstart in
      if sz > 0 then items @ [(take sz itemstart, 1)]
      else if items = [] then []
      else butlast items @ [(fst (last items), snd (last items) - 1)])"

function (sequential) parmlist_loop :: "string \<Rightarrow> string \<Rightarrow> (string \<times> nat) list \<Rightarrow> (string \<times> nat) list" where
  "parmlist_loop itemstart [] items = parmlist_finish itemstart [] items"
| "parmlist_loop itemstart (x # xs) items =
     (if x = CHR '','' then parmlist_loop xs xs (items @ [(take (ptr_diff (x # xs) itemstart) itemstart, 1)])
      else if x = CHR ''('' then
        (case skip_paren 1 xs of
           [] \<Rightarrow> parmlist_finish itemstart [] items
         | y # ys \<Rightarrow> parmlist_loop itemstart ys items)
      else if x = CHR '')'' then parmlist_finish itemstart (x # xs) items
      else parmlist_loop itemstart xs items)"
  by pat_completeness auto
termination
proof (relation "measure (\<lambda>(a, b, c). length b)")
  fix itemstart :: string and x :: char and xs and items :: "(string \<times> nat) list" and y ys
  assume "skip_paren 1 xs = y # ys"
  then show "((itemstart, ys, items), itemstart, x # xs, items) \<in> measure (\<lambda>(a, b, c). length b)"
    using length_skip_paren[of 1 xs] by simp
qed auto

definition SwigType_parmlist :: "string \<Rightarrow> (string \<times> nat) list option res" where
  "SwigType_parmlist p =
     (case to_paren p of
        [] \<Rightarrow> Inr None
      | x # c \<Rightarrow> if x = CHR ''.'' then Inl AssertFailed else Inr (Some (parmlist_loop c c [])))"

section \<open>Pointers and references\<close>

definition SwigType_add_pointer :: "SwigType \<Rightarrow> SwigType" where
  "SwigType_add_pointer t = Insert t 0 ''p.''"

definition SwigType_del_pointer :: "SwigType \<Rightarrow> SwigType res" where
  "SwigType_del_pointer t =
     res_bind
       (if starts_with ''q('' t
        then (case strchr t CHR ''.'' of None \<Rightarrow> Inl AssertFailed | Some c \<Rightarrow> Inr (drop 1 c))
        else Inr t) (\<lambda>c.
     if starts_with ''p.'' c then Inr (Delslice t 0 (int (ptr_diff c t) + 2))
     else Inl Aborted)"

definition SwigType_ispointer :: "SwigType \<Rightarrow> bool" where
  "SwigType_ispointer t =
     (if starts_with ''q('' t
      then (case strchr t CHR ''.'' of None \<Rightarrow> False | Some c \<Rightarrow> starts_with ''p.'' (drop 1 c))
      else starts_with ''p.'' t)"

definition SwigType_add_reference :: "SwigType \<Rightarrow> SwigType" where
  "SwigType_add_reference t = Insert t 0 ''r.''"

definition SwigType_del_reference :: "SwigType \<Rightarrow> SwigType res" where
  "SwigType_del_reference t = (if starts_with ''r.'' t then Inr (Delslice t 0 2) else Inl AssertFailed)"

definition SwigType_isreference :: "SwigType \<Rightarrow> bool" where
  "SwigType_isreference t = starts_with ''r.'' t"

definition SwigType_add_rvalue_reference :: "SwigType \<Rightarrow> SwigType" where
  "SwigType_add_rvalue_reference t = Insert t 0 ''z.''"

definition SwigType_del_rvalue_reference :: "SwigType \<Rightarrow> SwigType res" where
  "SwigType_del_rvalue_reference t = (if starts_with ''z.'' t then Inr (Delslice t 0 2) else Inl AssertFailed)"

definition SwigType_isrvalue_reference :: "SwigType \<Rightarrow> bool" where
  "SwigType_isrvalue_reference t = starts_with ''z.'' t"

section \<open>Qualifiers\<close>

text \<open>\<^verbatim>\<open>DohSplit\<close> of \<^verbatim>\<open>Source/DOH/fio.c\<close> on a String, read from its start.\<close>

function (sequential) DohSplit :: "string \<Rightarrow> char \<Rightarrow> int \<Rightarrow> string list" where
  "DohSplit s ch nsplits =
     (case dropWhile (\<lambda>c. c = ch) s of
        [] \<Rightarrow> [[]]
      | x # xs \<Rightarrow>
          (x # takeWhile (\<lambda>c. \<not> (c = ch \<and> nsplits \<noteq> 0)) xs) #
          (case dropWhile (\<lambda>c. \<not> (c = ch \<and> nsplits \<noteq> 0)) xs of
             [] \<Rightarrow> []
           | _ # ys \<Rightarrow> DohSplit ys ch (nsplits - 1)))"
  by pat_completeness auto
termination
proof (relation "measure (\<lambda>(s, ch, n). length s)")
  fix s :: string and ch :: char and n :: int and x y :: char and xs ys
  assume "dropWhile (\<lambda>c. c = ch) s = x # xs" "dropWhile (\<lambda>c. \<not> (c = ch \<and> n \<noteq> 0)) xs = y # ys"
  then have "length (x # xs) \<le> length s" "length (y # ys) \<le> length xs"
    by (metis length_dropWhile_le)+
  then show "((ys, ch, n - 1), s, ch, n) \<in> measure (\<lambda>(s, ch, n). length s)" by simp
qed simp

declare DohSplit.simps [simp del]

abbreviation (input) INT_MAX :: int where "INT_MAX \<equiv> 2147483647"

text \<open>The loop that joins the sorted qualifiers, leaving out repetitions.\<close>

fun join_quals :: "nat \<Rightarrow> string option \<Rightarrow> string list \<Rightarrow> string" where
  "join_quals i prev [] = []"
| "join_quals i prev (q # qs) =
     (if prev \<noteq> Some q then (if i > 0 then '' '' else []) @ q @ join_quals (Suc i) (Some q) qs
      else join_quals (Suc i) prev qs)"

definition all_quals :: "SwigType \<Rightarrow> string \<Rightarrow> string" where
  \<comment> \<open>the string \<^verbatim>\<open>allq\<close>\<close>
  "all_quals t qual =
     Append (if starts_with ''q('' t then Append (case SwigType_parm t of Some q \<Rightarrow> q | None \<Rightarrow> []) '' '' else []) qual"

definition SwigType_add_qualifier :: "SwigType \<Rightarrow> string \<Rightarrow> SwigType" where
  "SwigType_add_qualifier t qual =
     (if \<not> starts_with ''q('' t \<and> strstr qual '' '' = None then Insert t 0 (''q('' @ qual @ '').'')
      else let allq = all_quals t qual;
               t1 = (if starts_with ''q('' t then SwigType_del_element t else t);
               qlist = sort (DohSplit allq CHR '' '' INT_MAX);
               newq = Append (''q('' @ join_quals 0 None qlist) '').''
           in Insert t1 0 newq)"

definition SwigType_del_qualifier :: "SwigType \<Rightarrow> SwigType res" where
  "SwigType_del_qualifier t =
     (if starts_with ''q('' t then Inr (Delslice t 0 (element_size t)) else Inl AssertFailed)"

definition SwigType_isqualifier :: "SwigType \<Rightarrow> bool" where
  "SwigType_isqualifier t = starts_with ''q('' t"

section \<open>Function pointers, member pointers, arrays\<close>

definition SwigType_isfunctionpointer :: "SwigType \<Rightarrow> bool" where
  "SwigType_isfunctionpointer t = starts_with ''p.f('' t"

definition SwigType_functionpointer_decompose :: "SwigType \<Rightarrow> (string option \<times> SwigType) res" where
  "SwigType_functionpointer_decompose t =
     (if SwigType_isfunctionpointer t then Inr (SwigType_pop (snd (SwigType_pop t))) else Inl AssertFailed)"

definition SwigType_add_memberpointer :: "SwigType \<Rightarrow> string \<Rightarrow> SwigType" where
  "SwigType_add_memberpointer t name = Insert t 0 (''m('' @ name @ '').'')"

definition SwigType_del_memberpointer :: "SwigType \<Rightarrow> SwigType res" where
  "SwigType_del_memberpointer t =
     (if starts_with ''m('' t then Inr (Delslice t 0 (element_size t)) else Inl AssertFailed)"

definition SwigType_ismemberpointer :: "SwigType \<Rightarrow> bool" where
  "SwigType_ismemberpointer t = starts_with ''m('' t"

definition SwigType_add_array :: "SwigType \<Rightarrow> string \<Rightarrow> SwigType" where
  "SwigType_add_array t sz = Insert t 0 (Append (Append ''a('' sz) '').'')"

definition SwigType_del_array :: "SwigType \<Rightarrow> SwigType res" where
  "SwigType_del_array t =
     (if starts_with ''a('' t then Inr (Delslice t 0 (element_size t)) else Inl AssertFailed)"

definition SwigType_isarray :: "SwigType \<Rightarrow> bool" where
  "SwigType_isarray t = starts_with ''a('' t"

definition SwigType_prefix_is_simple_1D_array :: "SwigType \<Rightarrow> bool" where
  "SwigType_prefix_is_simple_1D_array t =
     (if starts_with ''a('' t
      then (case strchr t CHR ''.'' of None \<Rightarrow> False | Some c \<Rightarrow> drop 1 c = [])
      else False)"

lemma length_pop: "t \<noteq> [] \<Longrightarrow> length (snd (SwigType_pop t)) < length t"
  using length_element_end_less[of t]
  by (auto simp: SwigType_pop_def Let_def element_size_def ptr_diff_def)

lemma isarray_nonempty: "SwigType_isarray t \<Longrightarrow> t \<noteq> []"
  by (auto simp: SwigType_isarray_def)

function pop_arrays_loop :: "string \<Rightarrow> SwigType \<Rightarrow> string \<times> SwigType" where
  "pop_arrays_loop ta t =
     (if SwigType_isarray t
      then pop_arrays_loop (Append ta (case fst (SwigType_pop t) of Some td \<Rightarrow> td | None \<Rightarrow> [])) (snd (SwigType_pop t))
      else (ta, t))"
  by pat_completeness auto
termination
  by (relation "measure (\<lambda>(ta, t). length t)") (auto intro: length_pop dest: isarray_nonempty)

declare pop_arrays_loop.simps [simp del]

definition SwigType_pop_arrays :: "SwigType \<Rightarrow> (string \<times> SwigType) res" where
  "SwigType_pop_arrays t = (if SwigType_isarray t then Inr (pop_arrays_loop [] t) else Inl AssertFailed)"

lemma length_strchr: "strchr c ch = Some r \<Longrightarrow> length r \<le> length c \<and> r \<noteq> []"
  by (auto dest!: strchr_SomeD)

function SwigType_array_ndim :: "SwigType \<Rightarrow> nat" where
  "SwigType_array_ndim c =
     (if starts_with ''a('' c
      then (case strchr c CHR ''.'' of None \<Rightarrow> 0 | Some r \<Rightarrow> Suc (SwigType_array_ndim (drop 1 r)))
      else 0)"
  by pat_completeness auto
termination
proof (relation "measure length")
  fix c r
  assume "strchr c CHR ''.'' = Some r"
  then show "(drop 1 r, c) \<in> measure length" using length_strchr[of c "CHR ''.''" r] by (cases r) auto
qed auto

declare SwigType_array_ndim.simps [simp del]

text \<open>
  The loop of \<^verbatim>\<open>SwigType_array_getdim\<close> and \<^verbatim>\<open>SwigType_array_setdim\<close>: the pointer (\<open>None\<close> is
  null) and the number of dimensions still to skip.
\<close>

function dim_loop :: "string \<Rightarrow> int \<Rightarrow> string option \<times> int" where
  "dim_loop c n =
     (if starts_with ''a('' c \<and> n > 0
      then (case strchr c CHR ''.'' of None \<Rightarrow> (None, n) | Some r \<Rightarrow> dim_loop (drop 1 r) (n - 1))
      else (Some c, n))"
  by pat_completeness auto
termination
  by (relation "measure (\<lambda>(c, n). nat n)") auto

declare dim_loop.simps [simp del]

definition SwigType_array_setdim :: "SwigType \<Rightarrow> int \<Rightarrow> string \<Rightarrow> SwigType res" where
  "SwigType_array_setdim t n rep =
     (if \<not> starts_with ''a('' t then Inl Aborted
      else case dim_loop t n of
             (None, m) \<Rightarrow> Inl NullDeref
           | (Some c, m) \<Rightarrow>
               if m = 0 then
                 (case strchr c CHR ''.'' of
                    None \<Rightarrow> Inl NullDeref
                  | Some r \<Rightarrow> Inr (Append [] (Append (take (ptr_diff c t) t @ ''a('' @ rep @ '')'') r)))
               else Inl NullDeref)"

definition SwigType_array_type :: "SwigType \<Rightarrow> SwigType" where
  "SwigType_array_type ty = snd (pop_arrays_loop [] ty)"

section \<open>Functions\<close>

text \<open>A \<^verbatim>\<open>Parm\<close> node, as far as type construction reads it.\<close>

record Parm =
  p_type :: SwigType
  p_name :: "string option"
  p_value :: "string option"
  p_default :: "string option"

fun parm_types :: "Parm list \<Rightarrow> string" where
  \<comment> \<open>the loop of \<^verbatim>\<open>SwigType_add_function\<close>\<close>
  "parm_types [] = []"
| "parm_types [p] = p_type p"
| "parm_types (p # q # ps) = p_type p @ '','' @ parm_types (q # ps)"

definition SwigType_add_function :: "SwigType \<Rightarrow> Parm list \<Rightarrow> SwigType" where
  "SwigType_add_function t parms = Insert (Insert t 0 '').'') 0 (''f('' @ parm_types parms)"

text \<open>\<^verbatim>\<open>SwigType_push\<close> of \<^verbatim>\<open>Source/Swig/stype.c\<close>.\<close>

definition SwigType_push :: "SwigType \<Rightarrow> string option \<Rightarrow> SwigType" where
  "SwigType_push t cons =
     (case cons of None \<Rightarrow> t
      | Some c \<Rightarrow> if c = [] then t
                  else Insert (if t \<noteq> [] \<and> last c \<noteq> CHR ''.'' then Insert t 0 ''.'' else t) 0 c)"

definition is_refqual :: "string \<Rightarrow> bool" where
  "is_refqual c \<longleftrightarrow> starts_with ''r.'' c \<or> starts_with ''z.'' c"

text \<open>
  The two blocks at the start of \<^verbatim>\<open>SwigType_pop_function\<close> and
  \<^verbatim>\<open>SwigType_pop_function_qualifiers\<close> that take off the ref-qualifier and the cv-qualifier.
\<close>

definition pop_fn_quals :: "SwigType \<Rightarrow> string option \<times> SwigType" where
  "pop_fn_quals t =
     (let (f, t1) = (if is_refqual t then SwigType_pop t else (None, t)) in
      if starts_with ''q('' t1 then
        (let (qual, t2) = SwigType_pop t1
         in (map_option (\<lambda>q. SwigType_push q f) qual, t2))
      else (f, t1))"

definition SwigType_pop_function :: "SwigType \<Rightarrow> (string \<times> SwigType) res" where
  "SwigType_pop_function t =
     (let (f, t1) = pop_fn_quals t in
      if \<not> starts_with ''f('' t1 then Inl Aborted
      else case SwigType_pop t1 of
             (Some g, t2) \<Rightarrow> Inr (SwigType_push g f, t2)
           | (None, t2) \<Rightarrow> Inl NullDeref)"

definition SwigType_pop_function_qualifiers :: "SwigType \<Rightarrow> (string option \<times> SwigType) res" where
  "SwigType_pop_function_qualifiers t =
     (let (q, t1) = pop_fn_quals t in if starts_with ''f('' t1 then Inr (q, t1) else Inl AssertFailed)"

definition SwigType_isfunction :: "SwigType \<Rightarrow> bool" where
  "SwigType_isfunction t =
     (let c = (if is_refqual t then drop 2 t else t) in
      if is_refqual t \<and> c = [] then False
      else if starts_with ''q('' c
      then (case strchr c CHR ''.'' of None \<Rightarrow> False | Some r \<Rightarrow> starts_with ''f('' (drop 1 r))
      else starts_with ''f('' c)"

definition SwigType_function_parms :: "SwigType \<Rightarrow> Parm list res" where
  "SwigType_function_parms t =
     res_bind (SwigType_parmlist t) (\<lambda>l.
       Inr (map (\<lambda>(ty, _). \<lparr>p_type = ty, p_name = None, p_value = None, p_default = None\<rparr>)
             (case l of None \<Rightarrow> [] | Some items \<Rightarrow> items)))"

definition SwigType_isvarargs :: "SwigType \<Rightarrow> bool" where
  "SwigType_isvarargs t \<longleftrightarrow> t = ''v(...)''"

section \<open>Templates\<close>

fun template_args :: "bool \<Rightarrow> Parm list \<Rightarrow> string" where
  \<comment> \<open>\<open>first\<close>: the node is the first of the list (\<^verbatim>\<open>p == parms\<close>)\<close>
  "template_args first [] = []"
| "template_args first (p # ps) =
     (if p_default p \<noteq> None then template_args False ps
      else (if first then [] else '','') @
           (case p_value p of Some v \<Rightarrow> v | None \<Rightarrow> p_type p) @ template_args False ps)"

definition SwigType_add_template :: "SwigType \<Rightarrow> Parm list \<Rightarrow> SwigType" where
  "SwigType_add_template t parms = Append (Append (Append t ''<('') (template_args True parms)) '')>''"

definition SwigType_templateprefix :: "SwigType \<Rightarrow> string" where
  "SwigType_templateprefix s = (case strstr s ''<('' of Some c \<Rightarrow> take (ptr_diff c s) s | None \<Rightarrow> s)"

text \<open>The loop \<^verbatim>\<open>while (*c && nest)\<close> over angle brackets.\<close>

fun angle_skip :: "nat \<Rightarrow> string \<Rightarrow> string" where
  "angle_skip 0 s = s"
| "angle_skip (Suc n) [] = []"
| "angle_skip (Suc n) (x # xs) =
     angle_skip (if x = CHR ''<'' then Suc (Suc n) else if x = CHR ''>'' then n else Suc n) xs"

fun SwigType_templatesuffix :: "SwigType \<Rightarrow> string" where
  "SwigType_templatesuffix [] = []"
| "SwigType_templatesuffix (x # xs) =
     (if x = CHR ''<'' \<and> starts_with ''('' xs then angle_skip 1 xs else SwigType_templatesuffix xs)"

definition SwigType_istemplate_templateprefix :: "SwigType \<Rightarrow> string option" where
  "SwigType_istemplate_templateprefix s = map_option (\<lambda>c. take (ptr_diff c s) s) (strstr s ''<('')"

definition SwigType_istemplate_only_templateprefix :: "SwigType \<Rightarrow> string option" where
  "SwigType_istemplate_only_templateprefix s =
     (if length s \<ge> 4 \<and> drop (length s - 2) s = '')>''
      then map_option (\<lambda>c. take (ptr_diff c s) s) (strstr s ''<('')
      else None)"

fun SwigType_templateargs :: "SwigType \<Rightarrow> string option" where
  "SwigType_templateargs [] = None"
| "SwigType_templateargs (x # xs) =
     (if x = CHR ''<'' \<and> starts_with ''('' xs
      then Some (take (ptr_diff (angle_skip 1 xs) (x # xs)) (x # xs))
      else SwigType_templateargs xs)"

definition SwigType_istemplate :: "SwigType \<Rightarrow> bool" where
  "SwigType_istemplate s =
     (case strstr s ''<('' of None \<Rightarrow> False | Some ct \<Rightarrow> strstr (drop 2 ct) '')>'' \<noteq> None)"

section \<open>Base and prefix\<close>

text \<open>
  The two nested loops of \<^verbatim>\<open>SwigType_base\<close>: the text after the bracket that closes depth \<open>n\<close>,
  \<open>None\<close> when the text ends first (the \<^verbatim>\<open>break\<close>).
\<close>

fun bracket_close :: "char \<Rightarrow> char \<Rightarrow> nat \<Rightarrow> string \<Rightarrow> string option" where
  "bracket_close o' c' 0 s = Some s"
| "bracket_close o' c' (Suc n) [] = None"
| "bracket_close o' c' (Suc n) (x # xs) =
     bracket_close o' c' (if x = c' then n else if x = o' then Suc (Suc n) else Suc n) xs"

lemma length_bracket_close: "bracket_close o' c' n s = Some r \<Longrightarrow> length r \<le> length s"
  by (induction o' c' n s rule: bracket_close.induct) (auto dest: le_SucI)

function (sequential) base_loop :: "string \<Rightarrow> string \<Rightarrow> string" where
  "base_loop lastop [] = lastop"
| "base_loop lastop (x # xs) =
     (if x = CHR ''.'' then base_loop (if xs \<noteq> [] then xs else lastop) xs
      else if x = CHR ''<'' then
        (case bracket_close CHR ''<'' CHR ''>'' 1 xs of None \<Rightarrow> lastop | Some r \<Rightarrow> base_loop lastop r)
      else if x = CHR ''('' then
        (case bracket_close CHR ''('' CHR '')'' 1 xs of None \<Rightarrow> lastop | Some r \<Rightarrow> base_loop lastop r)
      else base_loop lastop xs)"
  by pat_completeness auto
termination
  by (relation "measure (\<lambda>(l, c). length c)") (auto dest!: length_bracket_close)

definition SwigType_base :: "SwigType \<Rightarrow> SwigType" where
  "SwigType_base t = base_loop t t"

text \<open>
  \<^verbatim>\<open>SwigType_prefix\<close> walks backward. The pointer \<open>d\<close> is the list of the characters from \<open>*d\<close>
  down to the start of the text; \<open>[]\<close> is a pointer before the start, and reading there is out
  of bounds.
\<close>

fun back_skip :: "char \<Rightarrow> char \<Rightarrow> nat \<Rightarrow> string \<Rightarrow> string" where
  "back_skip up dn (Suc n) (y # z # zs) =
     back_skip up dn (if y = up then Suc (Suc n) else if y = dn then n else Suc n) (z # zs)"
| "back_skip up dn n l = l"

lemma length_back_skip: "length (back_skip up dn n l) \<le> length l"
  by (induction up dn n l rule: back_skip.induct) auto

function (sequential) prefix_loop :: "string \<Rightarrow> string res" where
  "prefix_loop [] = Inr []"
| "prefix_loop (x # r) =
     (let l1 = (if x = CHR ''>'' then back_skip CHR ''>'' CHR ''<'' 1 r else x # r) in
      if l1 = [] then Inl OutOfBounds
      else let l2 = (if hd l1 = CHR '')'' then back_skip CHR '')'' CHR ''('' 1 (tl l1) else l1) in
      if l2 = [] then Inl OutOfBounds
      else if hd l2 = CHR ''.'' then Inr (rev l2)
      else prefix_loop (tl l2))"
  by pat_completeness auto
termination
proof (relation "measure length")
  fix x r l1 l2
  assume l1: "l1 = (if x = CHR ''>'' then back_skip CHR ''>'' CHR ''<'' 1 r else x # r)" "l1 \<noteq> []"
    and l2: "l2 = (if hd l1 = CHR '')'' then back_skip CHR '')'' CHR ''('' 1 (tl l1) else l1)" "l2 \<noteq> []"
  have "length l1 \<le> Suc (length r)"
    using l1 length_back_skip[of _ _ 1 r] by (auto intro: le_SucI)
  moreover have "length l2 \<le> length l1"
    using l2 length_back_skip[of "CHR '')''" "CHR ''(''" 1 "tl l1"] by (auto simp: le_diff_conv)
  ultimately show "(tl l2, x # r) \<in> measure length" using l2 by (cases l2) auto
qed auto

definition SwigType_prefix :: "SwigType \<Rightarrow> string res" where
  "SwigType_prefix t = prefix_loop (rev (if t \<noteq> [] \<and> last t = CHR ''.'' then butlast t else t))"

section \<open>Stripping qualifiers\<close>

text \<open>
  Both functions keep their results in a static hash table, the argument \<open>memo\<close>; the
  computation proper is the function with the suffix \<open>compute\<close>.
\<close>

definition strip_qualifiers_compute :: "SwigType \<Rightarrow> SwigType" where
  "strip_qualifiers_compute t = concat (filter (\<lambda>e. \<not> SwigType_isqualifier e) (SwigType_split t))"

definition SwigType_strip_qualifiers ::
  "(SwigType \<rightharpoonup> SwigType) \<Rightarrow> SwigType \<Rightarrow> SwigType \<times> (SwigType \<rightharpoonup> SwigType)" where
  "SwigType_strip_qualifiers memo t =
     (case memo t of
        Some r \<Rightarrow> (r, memo)
      | None \<Rightarrow> let r = strip_qualifiers_compute t in (r, memo(t \<mapsto> r)))"

text \<open>The loop over \<^verbatim>\<open>item\<close>: the last qualifier among the first \<open>n\<close> elements is deleted.\<close>

fun del_last_qualifier :: "string list \<Rightarrow> nat \<Rightarrow> string list option" where
  "del_last_qualifier l 0 = None"
| "del_last_qualifier l (Suc i) =
     (if SwigType_isqualifier (l ! i) then Some (take i l @ drop (Suc i) l) else del_last_qualifier l i)"

definition strip_single_compute :: "SwigType \<Rightarrow> SwigType" where
  "strip_single_compute t =
     (let l = SwigType_split t in
      case (if length l \<ge> 2 then del_last_qualifier l (length l - 1) else None) of
        Some l' \<Rightarrow> concat l'
      | None \<Rightarrow> t)"

definition SwigType_strip_single_qualifier ::
  "(SwigType \<rightharpoonup> SwigType) \<Rightarrow> SwigType \<Rightarrow> SwigType \<times> (SwigType \<rightharpoonup> SwigType)" where
  "SwigType_strip_single_qualifier memo t =
     (case memo t of
        Some r \<Rightarrow> (r, memo)
      | None \<Rightarrow> let r = strip_single_compute t in (r, memo(t \<mapsto> r)))"

section \<open>Elements and their encoding\<close>

text \<open>
  A type in its abstract form is the list of its operators, without the period that closes
  them, and the base name; \<open>enc\<close> is its text. An element is well formed when its parentheses
  close and it has no period outside them.
\<close>

definition enc :: "string list \<Rightarrow> string \<Rightarrow> SwigType" where
  "enc es b = concat (map (\<lambda>e. e @ ''.'') es) @ b"

definition wf_elem :: "string \<Rightarrow> bool" where
  "wf_elem e \<longleftrightarrow> e \<noteq> [] \<and> topfree CHR ''.'' 0 e"

lemma enc_simps [simp]:
  "enc [] b = b"
  "enc (e # es) b = e @ CHR ''.'' # enc es b"
  by (simp_all add: enc_def)

lemma topfree_close:
  "topfree d (Suc n) s \<Longrightarrow> \<exists>p t. s = p @ CHR '')'' # t \<and> balanced 0 p \<and> topfree d n t"
proof (induction s arbitrary: n rule: length_induct)
  case (1 s)
  then obtain x xs where s: "s = x # xs" by (cases s) auto
  consider (op) "x = CHR ''(''" | (cl) "x = CHR '')''" | (ot) "x \<noteq> CHR ''(''" "x \<noteq> CHR '')''" by blast
  then show ?case
  proof cases
    case op
    then have "topfree d (Suc (Suc n)) xs" using 1 s by simp
    with 1 s obtain p1 t1 where p1: "xs = p1 @ CHR '')'' # t1" "balanced 0 p1" "topfree d (Suc n) t1" by fastforce
    have "length t1 < length s" using s p1 by simp
    with 1 p1 obtain p2 t2 where p2: "t1 = p2 @ CHR '')'' # t2" "balanced 0 p2" "topfree d n t2" by blast
    have "balanced 1 (p1 @ [CHR '')''])" using balanced_append[OF p1(2), of 1 "[CHR '')'']"] by simp
    then have "balanced (1 + 0) ((p1 @ [CHR '')'']) @ p2)" using p2(2) by (rule balanced_append)
    then have "balanced 0 (x # p1 @ CHR '')'' # p2)" using op by simp
    with p2 p1 s show ?thesis by (intro exI[of _ "x # p1 @ CHR '')'' # p2"] exI[of _ t2]) simp
  next
    case cl
    then show ?thesis using 1 s by (intro exI[of _ "[]"] exI[of _ xs]) auto
  next
    case ot
    then have "topfree d (Suc n) xs" using 1 s by simp
    with 1 s obtain p t where "xs = p @ CHR '')'' # t" "balanced 0 p" "topfree d n t" by fastforce
    with ot s show ?thesis by (intro exI[of _ "x # p"] exI[of _ t]) auto
  qed
qed

lemma topfree_induct [consumes 1, case_names Nil Paren Char]:
  assumes "topfree d 0 s" "P []"
    and "\<And>p t. balanced 0 p \<Longrightarrow> topfree d 0 t \<Longrightarrow> P t \<Longrightarrow> P (CHR ''('' # p @ CHR '')'' # t)"
    and "\<And>x xs. x \<noteq> d \<Longrightarrow> x \<noteq> CHR ''('' \<Longrightarrow> x \<noteq> CHR '')'' \<Longrightarrow> topfree d 0 xs \<Longrightarrow> P xs \<Longrightarrow> P (x # xs)"
  shows "P s"
  using assms(1)
proof (induction s rule: length_induct)
  case (1 s)
  show ?case
  proof (cases s)
    case Nil
    then show ?thesis using assms(2) by simp
  next
    case (Cons x xs)
    show ?thesis
    proof (cases "x = CHR ''(''")
      case True
      then have "topfree d (Suc 0) xs" using 1 Cons by simp
      then obtain p t where p: "xs = p @ CHR '')'' # t" "balanced 0 p" "topfree d 0 t"
        using topfree_close by blast
      then show ?thesis using 1 Cons True assms(3) by simp
    next
      case False
      then show ?thesis using 1 Cons assms(4) by (auto split: if_splits)
    qed
  qed
qed

lemma skip_paren_balanced [swig_str]:
  "balanced n p \<Longrightarrow> skip_paren (Suc n) (p @ CHR '')'' # r) = CHR '')'' # r"
  by (induction n p rule: balanced.induct) (auto split: if_splits)

lemma element_end_enc [swig_str]:
  "topfree CHR ''.'' 0 e \<Longrightarrow> element_end (e @ CHR ''.'' # r) = r"
proof (induction e rule: topfree_induct)
  case (Paren p t)
  then show ?case using skip_paren_balanced[of 0 p "t @ CHR ''.'' # r"] by simp
qed auto

lemma element_end_base [swig_str]: "topfree CHR ''.'' 0 b \<Longrightarrow> element_end b = []"
proof (induction b rule: topfree_induct)
  case (Paren p t)
  then show ?case using skip_paren_balanced[of 0 p t] by simp
qed auto

lemma element_size_enc: "topfree CHR ''.'' 0 e \<Longrightarrow> element_size (e @ CHR ''.'' # r) = int (length e + 1)"
  by (simp add: element_size_def ptr_diff_def element_end_enc)

lemma element_size_base: "topfree CHR ''.'' 0 b \<Longrightarrow> element_size b = int (length b)"
  by (simp add: element_size_def ptr_diff_def element_end_base)

lemma topfree_no_dot: "topfree CHR ''.'' 0 e \<Longrightarrow> \<not> starts_with ''.'' e"
  by (cases e) auto

lemma enc_no_dot: "list_all wf_elem es \<Longrightarrow> wf_elem b \<Longrightarrow> \<not> starts_with ''.'' (enc es b)"
  by (cases es) (auto simp: wf_elem_def neq_Nil_conv topfree_no_dot)

lemma SwigType_pop_enc:
  "wf_elem e \<Longrightarrow> \<not> starts_with ''.'' r \<Longrightarrow> SwigType_pop (e @ CHR ''.'' # r) = (Some (e @ ''.''), r)"
  by (auto simp: SwigType_pop_def wf_elem_def element_size_enc nat_add_distrib)

lemma SwigType_del_element_enc: "wf_elem e \<Longrightarrow> SwigType_del_element (e @ CHR ''.'' # r) = r"
  by (simp add: SwigType_del_element_def wf_elem_def element_size_enc nat_add_distrib)

lemma SwigType_split_step:
  assumes "wf_elem e" "\<not> starts_with ''.'' r"
  shows "SwigType_split (e @ CHR ''.'' # r) = (e @ ''.'') # SwigType_split r"
proof -
  obtain x xs where e: "e @ CHR ''.'' # r = x # xs" by (cases e) auto
  have "nat (element_size (x # xs)) = length e + 1"
    using assms e[symmetric] by (simp only: wf_elem_def element_size_enc nat_int)
  moreover have "drop (length e + 1) (x # xs) = r" "take (length e + 1) (x # xs) = e @ ''.''"
    unfolding e[symmetric] by simp_all
  ultimately show ?thesis unfolding e using assms(2) by (simp only: SwigType_split.simps Let_def if_False)
qed

lemma SwigType_split_base: "wf_elem b \<Longrightarrow> SwigType_split b = [b]"
  by (cases b) (auto simp: wf_elem_def element_size_base Let_def simp del: topfree.simps)

lemma SwigType_split_enc:
  "list_all wf_elem es \<Longrightarrow> wf_elem b \<Longrightarrow> SwigType_split (enc es b) = map (\<lambda>e. e @ ''.'') es @ [b]"
proof (induction es)
  case Nil
  then show ?case by (simp add: SwigType_split_base)
next
  case (Cons e es)
  then have "\<not> starts_with ''.'' (enc es b)" by (intro enc_no_dot) simp_all
  with Cons show ?case by (simp add: SwigType_split_step)
qed

lemma wf_elem_atom: "set e \<inter> {CHR ''.'', CHR ''('', CHR '')''} = {} \<Longrightarrow> e \<noteq> [] \<Longrightarrow> wf_elem e"
  by (simp add: wf_elem_def topfree_atom)

lemma wf_elem_op: "balanced 0 p \<Longrightarrow> c \<notin> {CHR ''.'', CHR ''('', CHR '')''} \<Longrightarrow> wf_elem (c # CHR ''('' # p @ '')'')"
  using topfree_paren[of 0 p "CHR ''.''" "[]"] by (auto simp: wf_elem_def)

section \<open>Parameters of an operator\<close>

lemma parm_end_balanced: "balanced n p \<Longrightarrow> parm_end n (p @ CHR '')'' # r) = CHR '')'' # r"
  by (induction n p rule: balanced.induct) (auto split: if_splits)

lemma to_paren_name: "set nm \<inter> {CHR ''('', CHR ''.''} = {} \<Longrightarrow> to_paren (nm @ CHR ''('' # r) = CHR ''('' # r"
  unfolding to_paren_def by (subst dropWhile_append2) auto

lemma SwigType_parm_op:
  "set nm \<inter> {CHR ''('', CHR ''.''} = {} \<Longrightarrow> balanced 0 p \<Longrightarrow>
   SwigType_parm (nm @ CHR ''('' # p @ CHR '')'' # r) = Some p"
  by (simp add: SwigType_parm_def to_paren_name parm_end_balanced ptr_diff_def)

fun join :: "string \<Rightarrow> string list \<Rightarrow> string" where
  "join sep [] = []"
| "join sep [x] = x"
| "join sep (x # y # ys) = x @ sep @ join sep (y # ys)"

lemma join_Cons: "xs \<noteq> [] \<Longrightarrow> join sep (x # xs) = x @ sep @ join sep xs"
  by (cases xs) auto

lemma parmlist_scan:
  "topfree CHR '','' 0 s \<Longrightarrow> parmlist_loop st (s @ r) items = parmlist_loop st r items"
proof (induction s rule: topfree_induct)
  case (Paren p t)
  then show ?case using skip_paren_balanced[of 0 p "t @ r"] by simp
qed auto

lemma parmlist_items:
  "its \<noteq> [] \<Longrightarrow> \<forall>i \<in> set its. i \<noteq> [] \<and> topfree CHR '','' 0 i \<Longrightarrow>
   parmlist_loop (join '','' its @ CHR '')'' # r) (join '','' its @ CHR '')'' # r) acc
     = acc @ map (\<lambda>i. (i, 1)) its"
proof (induction its arbitrary: acc)
  case (Cons i its)
  then have i: "topfree CHR '','' 0 i" "i \<noteq> []" by auto
  show ?case
  proof (cases "its = []")
    case True
    then show ?thesis using i by (simp add: parmlist_scan parmlist_finish_def ptr_diff_def)
  next
    case False
    let ?rest = "join '','' its @ CHR '')'' # r"
    have "parmlist_loop (i @ CHR '','' # ?rest) (i @ CHR '','' # ?rest) acc
        = parmlist_loop (i @ CHR '','' # ?rest) (CHR '','' # ?rest) acc"
      using parmlist_scan[OF i(1)] by simp
    also have "\<dots> = parmlist_loop ?rest ?rest (acc @ [(i, 1)])"
      by (simp add: ptr_diff_def)
    also have "\<dots> = acc @ map (\<lambda>i. (i, 1)) (i # its)" using Cons False by simp
    finally show ?thesis using False by (simp add: join_Cons)
  qed
qed simp

lemma SwigType_parmlist_items:
  assumes "set nm \<inter> {CHR ''('', CHR ''.''} = {}" "\<forall>i \<in> set its. i \<noteq> [] \<and> topfree CHR '','' 0 i"
  shows "SwigType_parmlist (nm @ CHR ''('' # join '','' its @ CHR '')'' # r) = Inr (Some (map (\<lambda>i. (i, 1)) its))"
proof (cases "its = []")
  case True
  then show ?thesis using assms by (simp add: SwigType_parmlist_def to_paren_name parmlist_finish_def ptr_diff_def)
next
  case False
  then show ?thesis using assms parmlist_items[of "its" r "[]"]
    by (simp add: SwigType_parmlist_def to_paren_name)
qed

lemma parm_types_join: "parm_types ps = join '','' (map p_type ps)"
  by (induction ps rule: parm_types.induct) auto

section \<open>Qualifier words\<close>

definition wf_qual :: "string \<Rightarrow> bool" where
  \<comment> \<open>one qualifier: not empty, no blank, no parenthesis\<close>
  "wf_qual w \<longleftrightarrow> w \<noteq> [] \<and> set w \<inter> {CHR '' '', CHR ''('', CHR '')''} = {}"

lemma DohSplit_join:
  assumes "ws \<noteq> []" "\<forall>w \<in> set ws. w \<noteq> [] \<and> ch \<notin> set w" "int (length ws) \<le> n"
  shows "DohSplit (join [ch] ws) ch n = ws"
  using assms
proof (induction ws arbitrary: n)
  case (Cons w ws)
  then obtain x xs where w: "w = x # xs" "x \<noteq> ch" "ch \<notin> set xs" by (cases w) auto
  have n: "n \<noteq> 0" using Cons.prems by auto
  have free: "\<forall>c \<in> set xs. \<not> (c = ch \<and> n \<noteq> 0)" using w by auto
  show ?case
  proof (cases "ws = []")
    case True
    have "takeWhile (\<lambda>c. c = ch \<longrightarrow> n = 0) xs = xs" "dropWhile (\<lambda>c. c = ch \<longrightarrow> n = 0) xs = []"
      using free by simp_all
    then have "DohSplit (x # xs) ch n = [x # xs]"
      using w(2) by (subst DohSplit.simps) (simp del: dropWhile_eq_Nil_conv)
    with True w show ?thesis by simp
  next
    case False
    let ?rest = "join [ch] ws"
    have "takeWhile (\<lambda>c. \<not> (c = ch \<and> n \<noteq> 0)) (xs @ ch # ?rest) = xs"
      using free n by (subst takeWhile_append2) auto
    moreover have "dropWhile (\<lambda>c. \<not> (c = ch \<and> n \<noteq> 0)) (xs @ ch # ?rest) = ch # ?rest"
      using free n by (subst dropWhile_append2) auto
    moreover have "DohSplit ?rest ch (n - 1) = ws" using Cons False by simp
    ultimately show ?thesis using w False by (simp add: DohSplit.simps[of "x # xs @ ch # ?rest"] join_Cons)
  qed
qed simp

lemma join_append: "xs \<noteq> [] \<Longrightarrow> ys \<noteq> [] \<Longrightarrow> join sep (xs @ ys) = join sep xs @ sep @ join sep ys"
  proof (induction xs)
  case (Cons x xs)
  then show ?case by (cases "xs = []") (auto simp: join_Cons)
qed simp

lemma join_concat: "join sep (x # xs) = x @ concat (map (\<lambda>y. sep @ y) xs)"
  by (induction xs arbitrary: x) (auto simp: join_Cons)

lemma join_quals_Some:
  "join_quals (Suc i) (Some p) qs = concat (map (\<lambda>q. '' '' @ q) (tl (remdups_adj (p # qs))))"
  by (induction qs arbitrary: i p) (auto simp: remdups_adj_Cons split: list.splits)

lemma join_quals_remdups_adj: "join_quals 0 None qs = join '' '' (remdups_adj qs)"
proof (cases qs)
  case (Cons q qs')
  obtain r where "remdups_adj (q # qs') = q # r" by (metis list.collapse hd_remdups_adj list.sel(1) remdups_adj_Nil_iff list.discI)
  then show ?thesis using Cons by (simp add: join_quals_Some join_concat)
qed simp

lemma distinct_remdups_adj_sorted: "sorted (xs :: 'a :: linorder list) \<Longrightarrow> distinct (remdups_adj xs)"
  by (induction xs rule: remdups_adj.induct) (auto dest: order.antisym)

lemma remdups_adj_sort: "remdups_adj (sort xs) = sorted_list_of_set (set (xs :: 'a :: linorder list))"
proof (rule sorted_distinct_set_unique)
  show "sorted (remdups_adj (sort xs))" using sorted_remdups_adj[OF sorted_sort] .
  show "distinct (remdups_adj (sort xs))" by (rule distinct_remdups_adj_sorted) simp
qed simp_all

lemma set_join: "set (join sep ws) \<subseteq> \<Union> (set ` set ws) \<union> set sep"
  by (induction ws rule: join.induct) auto

lemma balanced_plain: "set s \<inter> {CHR ''('', CHR '')''} = {} \<Longrightarrow> balanced 0 s"
  by (induction s) auto

lemma balanced_quals: "\<forall>w \<in> set ws. wf_qual w \<Longrightarrow> balanced 0 (join '' '' ws)"
  using set_join[of "'' ''" ws] by (intro balanced_plain) (fastforce simp: wf_qual_def)

text \<open>The text of a type \<open>r\<close> with the qualifiers \<open>qs\<close>.\<close>

definition with_quals :: "string list \<Rightarrow> SwigType \<Rightarrow> SwigType" where
  "with_quals qs r = (if qs = [] then r else ''q('' @ join '' '' qs @ '').'' @ r)"

lemma strstr_blank: "strstr s '' '' = None \<longleftrightarrow> CHR '' '' \<notin> set s"
  by (induction s) (auto simp: starts_with_def)

lemma join_has_sep: "length ws \<ge> 2 \<Longrightarrow> set sep \<subseteq> set (join sep ws)"
  by (cases ws; cases "tl ws") auto

lemma add_qualifier_words:
  assumes r: "\<not> starts_with ''q('' r" and quals: "\<forall>w \<in> set qs. wf_qual w"
    and ws: "ws \<noteq> []" "\<forall>w \<in> set ws. wf_qual w" and len: "int (length qs + length ws) \<le> INT_MAX"
  shows "SwigType_add_qualifier (with_quals qs r) (join '' '' ws) = with_quals (sorted_list_of_set (set qs \<union> set ws)) r"
proof (cases "qs = [] \<and> length ws = 1")
  case True
  then obtain w where w: "ws = [w]" by (auto simp: length_Suc_conv)
  then have "strstr w '' '' = None" using ws by (auto simp: strstr_blank wf_qual_def)
  then show ?thesis using True w r by (simp add: with_quals_def SwigType_add_qualifier_def)
next
  case False
  let ?all = "qs @ ws"
  have pth: "\<not> (\<not> starts_with ''q('' (with_quals qs r) \<and> strstr (join '' '' ws) '' '' = None)"
  proof (cases "qs = []")
    case True
    then have "length ws \<ge> 2" using False ws(1) by (cases ws) (auto simp: Suc_le_eq)
    then have "CHR '' '' \<in> set (join '' '' ws)" using join_has_sep[of ws "'' ''"] by auto
    then show ?thesis by (simp add: strstr_blank)
  qed (simp add: with_quals_def)
  have allq: "all_quals (with_quals qs r) (join '' '' ws) = join '' '' ?all"
  proof (cases "qs = []")
    case True
    then show ?thesis using r by (simp add: all_quals_def with_quals_def)
  next
    case nonempty: False
    have "SwigType_parm (''q'' @ CHR ''('' # join '' '' qs @ CHR '')'' # ''.'' @ r) = Some (join '' '' qs)"
      using balanced_quals[OF quals] by (intro SwigType_parm_op) auto
    then show ?thesis using nonempty ws by (simp add: all_quals_def with_quals_def join_append)
  qed
  have rst: "(if starts_with ''q('' (with_quals qs r) then SwigType_del_element (with_quals qs r) else with_quals qs r) = r"
  proof (cases "qs = []")
    case True
    then show ?thesis using r by (simp add: with_quals_def)
  next
    case nonempty: False
    have "wf_elem (CHR ''q'' # CHR ''('' # join '' '' qs @ '')'')" by (rule wf_elem_op[OF balanced_quals[OF quals]]) simp
    from SwigType_del_element_enc[OF this, of r] show ?thesis using nonempty by (simp add: with_quals_def)
  qed
  have "\<forall>w \<in> set ?all. w \<noteq> [] \<and> CHR '' '' \<notin> set w" using quals ws by (auto simp: wf_qual_def)
  then have spl: "DohSplit (join '' '' ?all) CHR '' '' INT_MAX = ?all" using ws len by (intro DohSplit_join) auto
  have "sorted_list_of_set (set qs \<union> set ws) \<noteq> []" using ws by auto
  then show ?thesis unfolding SwigType_add_qualifier_def if_not_P[OF pth]
    by (simp add: Let_def allq rst spl join_quals_remdups_adj remdups_adj_sort) (simp add: with_quals_def)
qed

section \<open>Base names and templates\<close>

text \<open>
  A base name is a sequence of names without separators and template argument lists whose
  angle brackets nest: \<open>base_text [(n\<^sub>1, a\<^sub>1), \<dots>] l\<close> is \<^verbatim>\<open>n1<a1>...l\<close>.
\<close>

inductive angbal :: "string \<Rightarrow> bool" where
  angbal_Nil: "angbal []"
| angbal_Char: "x \<noteq> CHR ''<'' \<Longrightarrow> x \<noteq> CHR ''>'' \<Longrightarrow> angbal s \<Longrightarrow> angbal (x # s)"
| angbal_Wrap: "angbal p \<Longrightarrow> angbal s \<Longrightarrow> angbal (CHR ''<'' # p @ CHR ''>'' # s)"

definition plain :: "string \<Rightarrow> bool" where
  "plain s \<longleftrightarrow> set s \<inter> {CHR ''.'', CHR ''('', CHR '')'', CHR ''<'', CHR ''>''} = {}"

fun base_text :: "(string \<times> string) list \<Rightarrow> string \<Rightarrow> string" where
  "base_text [] l = l"
| "base_text ((n, a) # segs) l = n @ CHR ''<'' # a @ CHR ''>'' # base_text segs l"

definition wf_base :: "(string \<times> string) list \<Rightarrow> string \<Rightarrow> bool" where
  "wf_base segs l \<longleftrightarrow> (\<forall>(n, a) \<in> set segs. plain n \<and> n \<noteq> [] \<and> angbal a) \<and> plain l \<and> (segs \<noteq> [] \<or> l \<noteq> [])"

lemma angbal_plain: "set s \<inter> {CHR ''<'', CHR ''>''} = {} \<Longrightarrow> angbal s"
  by (induction s) (auto intro: angbal.intros)

lemma bracket_close_angbal [swig_str]:
  "angbal s \<Longrightarrow> bracket_close CHR ''<'' CHR ''>'' (Suc n) (s @ t) = bracket_close CHR ''<'' CHR ''>'' (Suc n) t"
  by (induction s arbitrary: n t rule: angbal.induct) auto

lemma angle_skip_angbal [swig_str]: "angbal s \<Longrightarrow> angle_skip (Suc n) (s @ t) = angle_skip (Suc n) t"
  by (induction s arbitrary: n t rule: angbal.induct) auto

lemma angle_skip_suffix: "\<exists>p. s = p @ angle_skip n s"
proof (induction n s rule: angle_skip.induct)
  case (3 n x xs)
  then show ?case by (metis angle_skip.simps(3) append_Cons)
qed auto

lemma back_skip_step:
  "l \<noteq> [] \<Longrightarrow> back_skip up dn (Suc n) (y # l)
     = back_skip up dn (if y = up then Suc (Suc n) else if y = dn then n else Suc n) l"
  by (cases l) auto

lemma back_skip_angbal [swig_str]:
  "angbal s \<Longrightarrow> t \<noteq> [] \<Longrightarrow> back_skip CHR ''>'' CHR ''<'' (Suc n) (rev s @ t) = back_skip CHR ''>'' CHR ''<'' (Suc n) t"
proof (induction s arbitrary: n t rule: angbal.induct)
  case (angbal_Char x s)
  then show ?case by (cases t) auto
next
  case (angbal_Wrap p s)
  then show ?case by (simp add: back_skip_step)
qed simp

lemma bracket_close_balanced [swig_str]:
  "balanced n p \<Longrightarrow> bracket_close CHR ''('' CHR '')'' (Suc n) (p @ CHR '')'' # r) = Some r"
  by (induction n p rule: balanced.induct) (auto split: if_splits)

lemma base_loop_plain [swig_str]: "plain s \<Longrightarrow> base_loop l (s @ r) = base_loop l r"
  by (induction s) (auto simp: plain_def)

lemma base_loop_base_text: "wf_base segs l \<or> segs = [] \<and> plain l \<Longrightarrow> base_loop lo (base_text segs l) = lo"
proof (induction segs)
  case Nil
  then show ?case using base_loop_plain[of l lo "[]"] by (auto simp: wf_base_def)
next
  case (Cons s segs)
  obtain n a where "s = (n, a)" by (cases s)
  with Cons show ?case
    by (auto simp: wf_base_def base_loop_plain bracket_close_angbal)
qed

lemma prefix_loop_plain: "plain s \<Longrightarrow> prefix_loop (s @ r) = prefix_loop r"
  by (induction s) (auto simp: plain_def)

lemma plain_rev [simp]: "plain (rev s) = plain s"
  by (simp add: plain_def)

lemma prefix_loop_segment:
  assumes "plain n" "n \<noteq> []" "angbal a"
  shows "prefix_loop (CHR ''>'' # rev a @ CHR ''<'' # rev n @ r) = prefix_loop r"
proof -
  obtain y ys where n: "rev n = y # ys" using assms by (cases "rev n") auto
  have y: "y \<noteq> CHR '')''" "y \<noteq> CHR ''.''" "plain ys"
    using assms plain_rev[of n] unfolding n by (auto simp: plain_def)
  have "back_skip CHR ''>'' CHR ''<'' 1 (rev a @ CHR ''<'' # y # ys @ r) = y # ys @ r"
    using back_skip_angbal[OF assms(3), of "CHR ''<'' # y # ys @ r" 0] by simp
  then show ?thesis using y by (simp add: n prefix_loop_plain)
qed

lemma base_text_snoc: "base_text (segs @ [(n, a)]) l = base_text segs [] @ n @ CHR ''<'' # a @ CHR ''>'' # l"
  by (induction segs rule: induct_list012) auto

lemma prefix_loop_base_text:
  "\<forall>(n, a) \<in> set segs. plain n \<and> n \<noteq> [] \<and> angbal a \<Longrightarrow> plain l \<Longrightarrow>
   prefix_loop (rev (base_text segs l) @ r) = prefix_loop r"
proof (induction segs arbitrary: l rule: rev_induct)
  case Nil
  then show ?case by (simp add: prefix_loop_plain)
next
  case (snoc s segs)
  obtain n a where s: "s = (n, a)" by (cases s)
  have "plain []" by (simp add: plain_def)
  then show ?case using snoc s
    by (simp del: prefix_loop.simps add: base_text_snoc prefix_loop_plain prefix_loop_segment[of n a "rev (base_text segs []) @ r"])
qed

text \<open>An operator: a name, possibly with parameters in parentheses.\<close>

definition op_text :: "string \<times> string option \<Rightarrow> string" where
  "op_text e = fst e @ (case snd e of None \<Rightarrow> [] | Some p \<Rightarrow> CHR ''('' # p @ '')'')"

definition wf_op :: "string \<times> string option \<Rightarrow> bool" where
  "wf_op e \<longleftrightarrow> plain (fst e) \<and> fst e \<noteq> [] \<and> (\<forall>p. snd e = Some p \<longrightarrow> balanced 0 p)"

lemma wf_op_elem: "wf_op e \<Longrightarrow> wf_elem (op_text e)"
  using topfree_append[of "CHR ''.''" 0 "fst e"] topfree_atom[of "fst e" "CHR ''.''"]
  by (auto simp: wf_op_def wf_elem_def op_text_def plain_def topfree_paren split: option.splits)

lemma base_loop_op: "wf_op e \<Longrightarrow> base_loop lo (op_text e @ r) = base_loop lo r"
  by (auto simp: wf_op_def op_text_def base_loop_plain bracket_close_balanced split: option.splits)

lemma base_loop_enc:
  assumes "\<forall>e \<in> set es. wf_op e" "wf_base segs l" "es \<noteq> [] \<or> lo = base_text segs l"
  shows "base_loop lo (enc (map op_text es) (base_text segs l)) = base_text segs l"
  using assms(1,3)
proof (induction es arbitrary: lo)
  case Nil
  then show ?case using assms(2) by (simp add: base_loop_base_text)
next
  case (Cons e es)
  have "base_text segs l \<noteq> []" using assms(2) by (cases segs) (auto simp: wf_base_def)
  then show ?case using Cons assms(2) by (cases es) (simp_all add: base_loop_op base_loop_base_text)
qed

lemma enc_snoc: "enc (es @ [e]) b = enc es [] @ e @ CHR ''.'' # b"
  by (simp add: enc_def)

lemma plain_last: "plain l \<Longrightarrow> l \<noteq> [] \<Longrightarrow> last l \<noteq> CHR ''.''"
  by (metis Int_iff empty_iff insertI1 last_in_set plain_def)

lemma base_text_last: "wf_base segs l \<Longrightarrow> base_text segs l \<noteq> [] \<and> last (base_text segs l) \<noteq> CHR ''.''"
  by (cases segs rule: rev_cases) (auto simp: base_text_snoc wf_base_def plain_last split: if_splits)

lemma SwigType_prefix_enc:
  assumes "wf_base segs l"
  shows "SwigType_prefix (enc es (base_text segs l)) = Inr (enc es [])"
proof -
  have b: "base_text segs l \<noteq> []" "last (base_text segs l) \<noteq> CHR ''.''" using base_text_last[OF assms] by auto
  then have "last (enc es (base_text segs l)) \<noteq> CHR ''.''" by (simp add: enc_def)
  moreover have "prefix_loop (rev (base_text segs l) @ rev (enc es [])) = Inr (enc es [])"
  proof (cases es rule: rev_cases)
    case Nil
    then show ?thesis using prefix_loop_base_text[of segs l "[]"] assms by (simp add: wf_base_def)
  next
    case (snoc ys y)
    then show ?thesis using assms by (simp add: prefix_loop_base_text wf_base_def enc_snoc)
  qed
  ultimately show ?thesis using b by (simp add: SwigType_prefix_def enc_def)
qed

lemma template_parts:
  "SwigType_templateprefix t @ (case SwigType_templateargs t of Some a \<Rightarrow> a | None \<Rightarrow> []) @ SwigType_templatesuffix t = t"
proof (induction t)
  case Nil
  then show ?case by (simp add: SwigType_templateprefix_def)
next
  case (Cons x xs)
  show ?case
  proof (cases "x = CHR ''<'' \<and> starts_with ''('' xs")
    case True
    obtain p where p: "xs = p @ angle_skip 1 xs" using angle_skip_suffix by blast
    define r where "r = angle_skip 1 xs"
    have "xs = p @ r" "angle_skip 1 xs = r" using p by (simp_all add: r_def)
    then have "take (ptr_diff (angle_skip 1 xs) (x # xs)) (x # xs) @ angle_skip 1 xs = x # xs"
      by (simp add: ptr_diff_def Suc_diff_le)
    then show ?thesis using True by (simp add: SwigType_templateprefix_def ptr_diff_def)
  next
    case False
    then have n: "\<not> starts_with ''<('' (x # xs)" by simp
    then have "SwigType_templateprefix (x # xs) = x # SwigType_templateprefix xs"
      by (auto simp: SwigType_templateprefix_def ptr_diff_def Suc_diff_le dest!: strstr_SomeD split: option.splits)
    then show ?thesis using False Cons by (simp del: SwigType_templateargs.simps SwigType_templatesuffix.simps
        add: SwigType_templateargs.simps(2)[of x xs] SwigType_templatesuffix.simps(2)[of x xs] if_not_P[OF False])
  qed
qed

lemma template_add:
  fixes suf :: string
  assumes "CHR ''<'' \<notin> set pre" "angbal (template_args True ps)"
  defines "t \<equiv> SwigType_add_template pre ps @ suf"
  shows "SwigType_templateprefix t = pre" "SwigType_templateargs t = Some (''<('' @ template_args True ps @ '')>'')"
    "SwigType_templatesuffix t = suf" "SwigType_istemplate t"
proof -
  let ?a = "template_args True ps"
  have t: "t = pre @ ''<('' @ ?a @ '')>'' @ suf" by (simp add: t_def SwigType_add_template_def)
  have ss: "strstr t ''<('' = Some (''<('' @ ?a @ '')>'' @ suf)"
    using assms(1) unfolding t by (induction pre) auto
  have sk: "angle_skip 1 (CHR ''('' # ?a @ '')>'' @ suf) = suf"
    using angle_skip_angbal[OF assms(2), of 0 "'')>'' @ suf"] by simp
  show "SwigType_templateprefix t = pre" unfolding SwigType_templateprefix_def ss by (simp add: t ptr_diff_def)
  show "SwigType_templateargs t = Some (''<('' @ ?a @ '')>'')"
    using assms(1) sk unfolding t by (induction pre) (auto simp: ptr_diff_def take_Cons')
  show "SwigType_templatesuffix t = suf"
    using assms(1) sk unfolding t by (induction pre) auto
  have "strstr (?a @ '')>'' @ suf) '')>'' \<noteq> None" unfolding strstr_None by (metis starts_with_append)
  then show "SwigType_istemplate t" by (simp add: SwigType_istemplate_def ss)
qed

section \<open>Stripping qualifiers\<close>

lemma isqualifier_dot: "wf_elem e \<Longrightarrow> SwigType_isqualifier (e @ ''.'') = SwigType_isqualifier e"
  by (auto simp: SwigType_isqualifier_def wf_elem_def starts_with_def take_Cons' split: if_splits)

lemma concat_dots: "concat (map (\<lambda>e. e @ ''.'') es) @ b = enc es b"
  by (simp add: enc_def)

lemma strip_qualifiers_enc:
  assumes "list_all wf_elem es" "wf_elem b" "\<not> SwigType_isqualifier b"
  shows "strip_qualifiers_compute (enc es b) = enc (filter (\<lambda>e. \<not> SwigType_isqualifier e) es) b"
proof -
  have "filter (\<lambda>e. \<not> SwigType_isqualifier e) (map (\<lambda>e. e @ ''.'') es)
      = map (\<lambda>e. e @ ''.'') (filter (\<lambda>e. \<not> SwigType_isqualifier e) es)"
    using assms(1) by (induction es) (auto simp: isqualifier_dot)
  then show ?thesis using assms by (simp add: strip_qualifiers_compute_def SwigType_split_enc concat_dots)
qed

lemma del_last_qualifier_none: "\<forall>i < n. \<not> SwigType_isqualifier (l ! i) \<Longrightarrow> del_last_qualifier l n = None"
  by (induction n) auto

lemma del_last_qualifier_hit:
  "SwigType_isqualifier (l ! i) \<Longrightarrow> \<forall>j. i < j \<and> j < n \<longrightarrow> \<not> SwigType_isqualifier (l ! j) \<Longrightarrow> i < n \<Longrightarrow>
   del_last_qualifier l n = Some (take i l @ drop (Suc i) l)"
  by (induction n) (auto simp: less_Suc_eq)

lemma strip_single_none:
  assumes "list_all wf_elem es" "wf_elem b" "\<forall>e \<in> set es. \<not> SwigType_isqualifier e"
  shows "strip_single_compute (enc es b) = enc es b"
proof -
  let ?l = "map (\<lambda>e. e @ ''.'') es @ [b]"
  have "\<forall>i < length es. \<not> SwigType_isqualifier (?l ! i)"
    using assms by (auto simp: nth_append isqualifier_dot list_all_length)
  then show ?thesis using assms
    by (simp add: strip_single_compute_def SwigType_split_enc del_last_qualifier_none Let_def)
qed

lemma strip_single_hit:
  assumes "list_all wf_elem (es @ q # fs)" "wf_elem b" "SwigType_isqualifier q" "\<forall>e \<in> set fs. \<not> SwigType_isqualifier e"
  shows "strip_single_compute (enc (es @ q # fs) b) = enc (es @ fs) b"
proof -
  let ?l = "map (\<lambda>e. e @ ''.'') (es @ q # fs) @ [b]"
  have "SwigType_isqualifier (?l ! length es)" using assms by (simp add: nth_append isqualifier_dot)
  moreover have "\<not> SwigType_isqualifier (?l ! j)" if j: "length es < j \<and> j < length (es @ q # fs)" for j
  proof -
    obtain k where "j = length es + Suc k" using j less_imp_Suc_add[of "length es" j] by auto
    moreover from this have "fs ! k \<in> set fs" using j by simp
    ultimately show ?thesis using assms j by (auto simp: nth_append isqualifier_dot list_all_iff)
  qed
  ultimately have "del_last_qualifier ?l (length (es @ q # fs)) = Some (take (length es) ?l @ drop (Suc (length es)) ?l)"
    by (intro del_last_qualifier_hit) auto
  then show ?thesis using assms
    by (simp add: strip_single_compute_def SwigType_split_enc Let_def) (simp add: enc_def)
qed

definition memo_ok :: "(SwigType \<Rightarrow> SwigType) \<Rightarrow> (SwigType \<rightharpoonup> SwigType) \<Rightarrow> bool" where
  "memo_ok f memo \<longleftrightarrow> (\<forall>t r. memo t = Some r \<longrightarrow> r = f t)"

lemma strip_qualifiers_memo:
  "memo_ok strip_qualifiers_compute memo \<Longrightarrow>
   fst (SwigType_strip_qualifiers memo t) = strip_qualifiers_compute t \<and>
   memo_ok strip_qualifiers_compute (snd (SwigType_strip_qualifiers memo t))"
  by (auto simp: SwigType_strip_qualifiers_def memo_ok_def Let_def split: option.splits)

lemma strip_single_memo:
  "memo_ok strip_single_compute memo \<Longrightarrow>
   fst (SwigType_strip_single_qualifier memo t) = strip_single_compute t \<and>
   memo_ok strip_single_compute (snd (SwigType_strip_single_qualifier memo t))"
  by (auto simp: SwigType_strip_single_qualifier_def memo_ok_def Let_def split: option.splits)

section \<open>Function types\<close>

lemma pop_one:
  "wf_elem e \<Longrightarrow> r = [] \<or> \<not> starts_with ''.'' r \<Longrightarrow> SwigType_pop (e @ CHR ''.'' # r) = (Some (e @ ''.''), r)"
  by (rule SwigType_pop_enc) auto

text \<open>The ref-qualifier and the cv-qualifier a function type may start with.\<close>

definition fn_quals :: "char option \<Rightarrow> string option \<Rightarrow> string list" where
  "fn_quals ref cv = (case ref of None \<Rightarrow> [] | Some c \<Rightarrow> [[c]]) @ (case cv of None \<Rightarrow> [] | Some p \<Rightarrow> [''q('' @ p @ '')''])"

definition wf_fn_quals :: "char option \<Rightarrow> string option \<Rightarrow> bool" where
  "wf_fn_quals ref cv \<longleftrightarrow> (\<forall>c. ref = Some c \<longrightarrow> c = CHR ''r'' \<or> c = CHR ''z'') \<and> (\<forall>p. cv = Some p \<longrightarrow> balanced 0 p)"

lemma wf_elem_ref: "c = CHR ''r'' \<or> c = CHR ''z'' \<Longrightarrow> wf_elem [c]"
  by (auto simp: wf_elem_def)

lemma wf_elem_q: "balanced 0 p \<Longrightarrow> wf_elem (CHR ''q'' # CHR ''('' # p @ '')'')"
  by (rule wf_elem_op) auto

lemma wf_elem_f: "balanced 0 p \<Longrightarrow> wf_elem (CHR ''f'' # CHR ''('' # p @ '')'')"
  by (rule wf_elem_op) auto

lemma pop_fn_quals_enc:
  assumes "wf_fn_quals ref cv"
  shows "pop_fn_quals (enc (fn_quals ref cv) (''f('' @ r))
    = (if ref = None \<and> cv = None then None else Some (enc (fn_quals ref cv) []), ''f('' @ r)"
proof -
  let ?q = "\<lambda>p. CHR ''q'' # CHR ''('' # p @ '')''"
  have q: "SwigType_pop (CHR ''q'' # CHR ''('' # p @ CHR '')'' # CHR ''.'' # ''f('' @ r) = (Some (?q p @ ''.''), ''f('' @ r)"
    if "balanced 0 p" for p using pop_one[OF wf_elem_q[OF that], of "''f('' @ r"] by simp
  have c: "SwigType_pop (c # CHR ''.'' # s) = (Some (c # ''.''), s)"
    if "c = CHR ''r'' \<or> c = CHR ''z''" "\<not> starts_with ''.'' s" for c s
    using pop_one[OF wf_elem_ref[OF that(1)], of s] that(2) by simp
  show ?thesis
    using assms q c
    by (cases ref; cases cv)
       (auto simp: pop_fn_quals_def fn_quals_def wf_fn_quals_def is_refqual_def SwigType_push_def)
qed

lemma SwigType_pop_function_enc:
  assumes "wf_fn_quals ref cv" "balanced 0 p" "\<not> starts_with ''.'' r"
  shows "SwigType_pop_function (enc (fn_quals ref cv @ [''f('' @ p @ '')'']) r)
    = Inr (enc (fn_quals ref cv @ [''f('' @ p @ '')'']) [], r)"
proof -
  have e: "enc (es @ [f]) b = enc es (f @ CHR ''.'' # b)" for es f b by (simp add: enc_def)
  have f: "SwigType_pop (CHR ''f'' # CHR ''('' # p @ CHR '')'' # CHR ''.'' # r) = (Some (CHR ''f'' # CHR ''('' # p @ '').''), r)"
    using pop_one[OF wf_elem_f[OF assms(2)], of r] assms(3) by simp
  have n: "enc (fn_quals ref cv) [] \<noteq> [] \<and> last (enc (fn_quals ref cv) []) = CHR ''.''" if "\<not> (ref = None \<and> cv = None)"
    using that by (auto simp: fn_quals_def split: option.splits)
  have a: "enc es b = enc es [] @ b" for es b by (simp add: enc_def)
  show ?thesis
  proof (cases "ref = None \<and> cv = None")
    case True
    then show ?thesis using pop_fn_quals_enc[OF assms(1), of "p @ CHR '')'' # CHR ''.'' # r"] f
      by (simp add: SwigType_pop_function_def e fn_quals_def SwigType_push_def)
  next
    case False
    then show ?thesis using pop_fn_quals_enc[OF assms(1), of "p @ CHR '')'' # CHR ''.'' # r"] f n
      by (simp add: SwigType_pop_function_def e SwigType_push_def a[of _ "CHR ''f'' # s" for s] if_not_P)
  qed
qed

lemma SwigType_pop_function_qualifiers_enc:
  assumes "wf_fn_quals ref cv"
  shows "SwigType_pop_function_qualifiers (enc (fn_quals ref cv) (''f('' @ r))
    = Inr (if ref = None \<and> cv = None then None else Some (enc (fn_quals ref cv) []), ''f('' @ r)"
  using pop_fn_quals_enc[OF assms, of r] by (simp add: SwigType_pop_function_qualifiers_def)

section \<open>Adding and deleting operators\<close>

lemma element_size_op:
  assumes "balanced 0 p" "c \<notin> {CHR ''.'', CHR ''('', CHR '')''}"
  shows "element_size (c # CHR ''('' # p @ CHR '')'' # CHR ''.'' # r) = int (length p + 4)"
  using element_size_enc[of "c # CHR ''('' # p @ '')''" r] wf_elem_op[OF assms] by (simp add: wf_elem_def)

lemma drop_op: "drop (length p + 4) (c # CHR ''('' # p @ CHR '')'' # CHR ''.'' # r) = r"
  by (simp add: numeral_eq_Suc)

lemma del_add_array:
  "balanced 0 p \<Longrightarrow> SwigType_del_array (SwigType_add_array t p) = Inr t \<and> SwigType_isarray (SwigType_add_array t p)
     \<and> SwigType_parm (SwigType_add_array t p) = Some p"
  using element_size_op[of p "CHR ''a''" t] drop_op[of p "CHR ''a''" t] SwigType_parm_op[of "''a''" p "''.'' @ t"]
  by (simp add: SwigType_del_array_def SwigType_add_array_def SwigType_isarray_def nat_add_distrib add.commute)

lemma del_add_memberpointer:
  "balanced 0 p \<Longrightarrow> SwigType_del_memberpointer (SwigType_add_memberpointer t p) = Inr t
     \<and> SwigType_ismemberpointer (SwigType_add_memberpointer t p) \<and> SwigType_parm (SwigType_add_memberpointer t p) = Some p"
  using element_size_op[of p "CHR ''m''" t] drop_op[of p "CHR ''m''" t] SwigType_parm_op[of "''m''" p "''.'' @ t"]
  by (simp add: SwigType_del_memberpointer_def SwigType_add_memberpointer_def SwigType_ismemberpointer_def nat_add_distrib add.commute)

lemma del_add_qualified_pointer:
  assumes "CHR ''.'' \<notin> set q"
  shows "SwigType_del_pointer (''q('' @ q @ '').'' @ SwigType_add_pointer t) = Inr t
    \<and> SwigType_ispointer (''q('' @ q @ '').'' @ SwigType_add_pointer t)"
proof -
  have "strchr (''q('' @ q @ '').p.'' @ t) CHR ''.'' = Some (''.p.'' @ t)"
    using strchr_append[of "CHR ''.''" "''q('' @ q @ '')''" "''p.'' @ t"] assms by simp
  moreover have "drop (6 + length q) (''q('' @ q @ '').p.'' @ t) = t" by (simp add: numeral_eq_Suc)
  ultimately show ?thesis
    by (simp add: SwigType_del_pointer_def SwigType_ispointer_def SwigType_add_pointer_def ptr_diff_def nat_add_distrib)
qed

section \<open>Array dimensions\<close>

abbreviation (input) dims :: "string list \<Rightarrow> string list" where
  "dims \<equiv> map (\<lambda>d. ''a('' @ d @ '')'')"

lemma strchr_dim: "CHR ''.'' \<notin> set d \<Longrightarrow> strchr (CHR ''a'' # CHR ''('' # d @ CHR '')'' # CHR ''.'' # r) CHR ''.'' = Some (CHR ''.'' # r)"
  using strchr_append[of "CHR ''.''" "CHR ''a'' # CHR ''('' # d @ '')''" r] by simp

lemma array_ndim_enc:
  "\<forall>d \<in> set ds. CHR ''.'' \<notin> set d \<Longrightarrow> \<not> starts_with ''a('' r \<Longrightarrow> SwigType_array_ndim (enc (dims ds) r) = length ds"
  by (induction ds) (auto simp: SwigType_array_ndim.simps[of "CHR ''a'' # s" for s] SwigType_array_ndim.simps[of r] strchr_dim simp del: strchr.simps)

lemma dim_loop_enc:
  "\<forall>d \<in> set ds. CHR ''.'' \<notin> set d \<Longrightarrow> n \<le> length ds \<Longrightarrow>
   dim_loop (enc (dims ds) r) (int n) = (Some (enc (dims (drop n ds)) r), 0)"
proof (induction ds arbitrary: n)
  case Nil
  then show ?case by (simp add: dim_loop.simps)
next
  case (Cons d ds)
  then show ?case
    by (cases n) (auto simp: dim_loop.simps[of "CHR ''a'' # s" for s] strchr_dim simp del: strchr.simps)
qed

lemma dim_loop_out:
  "\<forall>d \<in> set ds. CHR ''.'' \<notin> set d \<Longrightarrow> \<not> starts_with ''a('' r \<Longrightarrow> n > int (length ds) \<Longrightarrow>
   dim_loop (enc (dims ds) r) n = (Some r, n - int (length ds))"
  by (induction ds arbitrary: n)
     (auto simp: dim_loop.simps[of "CHR ''a'' # s" for s] dim_loop.simps[of r] strchr_dim simp del: strchr.simps)

lemma array_setdim_enc:
  assumes "\<forall>d \<in> set ds. CHR ''.'' \<notin> set d" "n < length ds"
  shows "SwigType_array_setdim (enc (dims ds) r) (int n) v = Inr (enc (dims (ds[n := v])) r)"
proof -
  obtain a d b where ds: "ds = a @ d # b" "length a = n" 
    using id_take_nth_drop[OF assms(2)] assms(2) by (metis length_take min.absorb4)
  let ?t = "enc (dims ds) r" and ?c = "enc (dims (drop n ds)) r"
  have t: "?t = enc (dims a) [] @ ?c" and c: "?c = ''a('' @ d @ '').'' @ enc (dims b) r" using ds by (auto simp: enc_def)
  have "starts_with ''a('' ?t" using ds by (cases a) auto
  moreover have "dim_loop ?t (int n) = (Some ?c, 0)" using dim_loop_enc[OF assms(1)] assms(2) by simp
  moreover have "strchr ?c CHR ''.'' = Some (''.'' @ enc (dims b) r)" using c strchr_dim[of d "enc (dims b) r"] assms ds by simp
  moreover have "take (ptr_diff ?c ?t) ?t = enc (dims a) []" unfolding t by (simp add: ptr_diff_def)
  ultimately have "SwigType_array_setdim ?t (int n) v = Inr (enc (dims a) [] @ ''a('' @ v @ '').'' @ enc (dims b) r)"
    by (simp only: SwigType_array_setdim_def) simp
  moreover have "ds[n := v] = a @ v # b" using ds by auto
  ultimately show ?thesis by (simp add: enc_def)
qed

lemma array_setdim_out:
  assumes "\<forall>d \<in> set ds. CHR ''.'' \<notin> set d" "\<not> starts_with ''a('' r" "ds \<noteq> []" "n > int (length ds)"
  shows "SwigType_array_setdim (enc (dims ds) r) n v = Inl NullDeref"
proof -
  have "starts_with ''a('' (enc (dims ds) r)" using assms(3) by (cases ds) auto
  then show ?thesis using dim_loop_out[OF assms(1,2,4)] assms(4) by (simp add: SwigType_array_setdim_def)
qed

lemma parmlist_trailing:
  "its \<noteq> [] \<Longrightarrow> \<forall>i \<in> set its. i \<noteq> [] \<and> topfree CHR '','' 0 i \<Longrightarrow>
   parmlist_loop (join '','' its @ '',)'' @ r) (join '','' its @ '',)'' @ r) acc
     = acc @ map (\<lambda>i. (i, 1)) (butlast its) @ [(last its, 0)]"
proof (induction its arbitrary: acc)
  case (Cons i its)
  then have i: "topfree CHR '','' 0 i" "i \<noteq> []" by auto
  have step: "parmlist_loop (i @ CHR '','' # s) (i @ CHR '','' # s) acc = parmlist_loop s s (acc @ [(i, 1)])" for s
    using parmlist_scan[OF i(1), of "i @ CHR '','' # s" "CHR '','' # s" acc] by (simp add: ptr_diff_def)
  show ?case
  proof (cases "its = []")
    case True
    then show ?thesis using step[of "CHR '')'' # r"] by (simp add: parmlist_finish_def ptr_diff_def)
  next
    case False
    then show ?thesis using Cons step[of "join '','' its @ '',)'' @ r"] by (simp add: join_Cons)
  qed
qed simp

section \<open>Theorems\<close>

text \<open>C14: Splitting a type into its elements inverts the encoding. For every list of well-formed
  operators and every well-formed base name, \<^verbatim>\<open>SwigType_split\<close> returns exactly the operators
  (each with the period that closes it) followed by the base name, concatenating the list
  gives the type back, and \<^verbatim>\<open>SwigType_pop\<close> and \<^verbatim>\<open>SwigType_del_element\<close> remove exactly the
  first operator.\<close>

theorem swigtype_split_roundtrip:
  assumes "list_all wf_elem es" "wf_elem b"
  shows "SwigType_split (enc es b) = map (\<lambda>e. e @ ''.'') es @ [b] \<and>
    concat (SwigType_split (enc es b)) = enc es b \<and>
    (\<forall>e. wf_elem e \<longrightarrow> SwigType_pop (enc (e # es) b) = (Some (e @ ''.''), enc es b) \<and>
      SwigType_del_element (enc (e # es) b) = enc es b)"
  using SwigType_split_enc[OF assms] SwigType_pop_enc[OF _ enc_no_dot[OF assms]] SwigType_del_element_enc
  by (simp add: concat_dots)

theorem swigtype_split_roundtrip_witness:
  "SwigType_split ''p.f(p.int,a(3).Foo).q(const).ns::Bar'' = [''p.'', ''f(p.int,a(3).Foo).'', ''q(const).'', ''ns::Bar'']
   \<and> concat (SwigType_split ''p.f(p.int,a(3).Foo).q(const).ns::Bar'') = ''p.f(p.int,a(3).Foo).q(const).ns::Bar''
   \<and> SwigType_pop ''r.p.f(p.int,a(3).Foo).q(const).ns::Bar'' = (Some ''r.'', ''p.f(p.int,a(3).Foo).q(const).ns::Bar'')"
proof -
  have "list_all wf_elem [''p'', ''f(p.int,a(3).Foo)'', ''q(const)'']" "wf_elem ''ns::Bar''" "wf_elem ''r''"
    by (simp_all add: wf_elem_def)
  from swigtype_split_roundtrip[OF this(1,2)] this(3) show ?thesis by fastforce
qed

text \<open>C15: Adding a type operator and deleting it are inverse. For pointers, lvalue and rvalue
  references this holds for every type; for arrays and member pointers it holds whenever the
  parentheses of the dimension or class name nest, and \<^verbatim>\<open>SwigType_parm\<close> then reads back exactly
  the dimension or class name. \<^verbatim>\<open>SwigType_del_pointer\<close> also removes the qualifiers in front of
  the pointer, and every type a constructor has built is recognised by its test.\<close>

theorem swigtype_operators_inverse:
  fixes t :: SwigType
  assumes "balanced 0 p" "CHR ''.'' \<notin> set q"
  shows "SwigType_del_pointer (SwigType_add_pointer t) = Inr t \<and> SwigType_ispointer (SwigType_add_pointer t) \<and>
    SwigType_del_pointer (''q('' @ q @ '').'' @ SwigType_add_pointer t) = Inr t \<and>
    SwigType_ispointer (''q('' @ q @ '').'' @ SwigType_add_pointer t) \<and>
    SwigType_del_reference (SwigType_add_reference t) = Inr t \<and> SwigType_isreference (SwigType_add_reference t) \<and>
    SwigType_del_rvalue_reference (SwigType_add_rvalue_reference t) = Inr t \<and>
    SwigType_isrvalue_reference (SwigType_add_rvalue_reference t) \<and>
    SwigType_del_array (SwigType_add_array t p) = Inr t \<and> SwigType_isarray (SwigType_add_array t p) \<and>
    SwigType_parm (SwigType_add_array t p) = Some p \<and>
    SwigType_del_memberpointer (SwigType_add_memberpointer t p) = Inr t \<and>
    SwigType_ismemberpointer (SwigType_add_memberpointer t p) \<and>
    SwigType_parm (SwigType_add_memberpointer t p) = Some p"
  using del_add_qualified_pointer[OF assms(2), of t] del_add_array[OF assms(1), of t] del_add_memberpointer[OF assms(1), of t]
  by (simp add: SwigType_del_pointer_def SwigType_add_pointer_def SwigType_ispointer_def ptr_diff_def
    SwigType_del_reference_def SwigType_add_reference_def SwigType_isreference_def
    SwigType_del_rvalue_reference_def SwigType_add_rvalue_reference_def SwigType_isrvalue_reference_def)

theorem swigtype_operators_inverse_witness:
  "SwigType_del_array (SwigType_add_array ''p.int'' ''N*(2)'') = Inr ''p.int''
   \<and> SwigType_parm (SwigType_add_array ''p.int'' ''N*(2)'') = Some ''N*(2)''
   \<and> SwigType_del_pointer ''q(const).p.int'' = Inr ''int''"
  using swigtype_operators_inverse[of "''N*(2)''" "''const''" "''p.int''"]
    swigtype_operators_inverse[of "''N*(2)''" "''const''" "''int''"]
  by (simp add: SwigType_add_pointer_def)

text \<open>C16: The parameter list of a function type round-trips. When no parameter type is empty and
  none has a comma outside parentheses, \<^verbatim>\<open>SwigType_function_parms\<close> applied to the type built by
  \<^verbatim>\<open>SwigType_add_function\<close> returns the parameter types in order, and every item of the list
  \<^verbatim>\<open>SwigType_parmlist\<close> returns has exactly one reference.\<close>

theorem swigtype_function_parms_roundtrip:
  assumes "\<forall>p \<in> set ps. p_type p \<noteq> [] \<and> topfree CHR '','' 0 (p_type p)"
  shows "map_sum id (map p_type) (SwigType_function_parms (SwigType_add_function t ps)) = Inr (map p_type ps) \<and>
    SwigType_parmlist (SwigType_add_function t ps) = Inr (Some (map (\<lambda>p. (p_type p, 1)) ps))"
proof -
  have l: "SwigType_parmlist (SwigType_add_function t ps) = Inr (Some (map (\<lambda>p. (p_type p, 1)) ps))"
    using SwigType_parmlist_items[of "''f''" "map p_type ps" "''.'' @ t"] assms
    by (simp add: SwigType_add_function_def parm_types_join o_def)
  then show ?thesis by (simp add: SwigType_function_parms_def)
qed

theorem swigtype_function_parms_roundtrip_witness:
  "SwigType_parmlist (SwigType_add_function ''void''
      [\<lparr>p_type = ''p.f(int,int).int'', p_name = None, p_value = None, p_default = None\<rparr>,
       \<lparr>p_type = ''q(const).char'', p_name = Some ''c'', p_value = None, p_default = None\<rparr>])
   = Inr (Some [(''p.f(int,int).int'', 1), (''q(const).char'', 1)])"
  by (subst swigtype_function_parms_roundtrip[THEN conjunct2]) simp_all



text \<open>C18: Qualifiers are kept in a canonical form. Adding the qualifiers \<open>ws\<close> (in any order, with
  repetitions) to a type qualified by \<open>qs\<close> gives the type qualified by the union of the two sets
  in alphabetical order without repetitions; so the order of additions does not matter and
  adding them again changes nothing.\<close>

theorem swigtype_qualifiers_canonical:
  assumes "\<not> starts_with ''q('' r" "\<forall>w \<in> set qs. wf_qual w" "ws \<noteq> []" "\<forall>w \<in> set ws. wf_qual w"
    and "int (length qs + 2 * length ws) \<le> INT_MAX"
  defines "t \<equiv> with_quals (sorted_list_of_set (set qs \<union> set ws)) r"
  shows "SwigType_add_qualifier (with_quals qs r) (join '' '' ws) = t \<and> SwigType_add_qualifier t (join '' '' ws) = t"
proof
  show "SwigType_add_qualifier (with_quals qs r) (join '' '' ws) = t"
    unfolding t_def using assms by (intro add_qualifier_words) auto
  have "length (sorted_list_of_set (set qs \<union> set ws)) \<le> length qs + length ws"
    by (metis add_mono card_Un_le card_length length_sorted_list_of_set order_trans)
  then have "SwigType_add_qualifier t (join '' '' ws)
      = with_quals (sorted_list_of_set (set (sorted_list_of_set (set qs \<union> set ws)) \<union> set ws)) r"
    unfolding t_def using assms by (intro add_qualifier_words) auto
  also have "set (sorted_list_of_set (set qs \<union> set ws)) \<union> set ws = set qs \<union> set ws" by auto
  finally show "SwigType_add_qualifier t (join '' '' ws) = t" unfolding t_def .
qed

theorem swigtype_qualifiers_canonical_witness:
  "SwigType_add_qualifier ''q(volatile).p.int'' ''volatile const'' = ''q(const volatile).p.int''"
proof -
  have "sorted_list_of_set (set [''volatile''] \<union> set [''volatile'', ''const'']) = [''const'', ''volatile'']"
    unfolding set_append[symmetric] sorted_list_of_set_sort_remdups by simp
  then show ?thesis
    using swigtype_qualifiers_canonical[of "''p.int''" "[''volatile'']" "[''volatile'', ''const'']"]
    by (simp add: with_quals_def wf_qual_def)
qed

text \<open>C19: Stripping qualifiers through the memo table. As long as the static table only holds
  results computed earlier, \<^verbatim>\<open>SwigType_strip_qualifiers\<close> returns the type with every qualifier
  operator removed and all other operators and the base name kept, whether or not the table is
  hit, and keeps the table coherent; \<^verbatim>\<open>SwigType_strip_single_qualifier\<close> removes exactly the
  last qualifier operator.\<close>

theorem swigtype_strip_qualifiers:
  assumes "list_all wf_elem es" "wf_elem b" "\<not> SwigType_isqualifier b"
    and "memo_ok strip_qualifiers_compute memo" "memo_ok strip_single_compute memo1"
  shows "fst (SwigType_strip_qualifiers memo (enc es b)) = enc (filter (\<lambda>e. \<not> SwigType_isqualifier e) es) b \<and>
    memo_ok strip_qualifiers_compute (snd (SwigType_strip_qualifiers memo (enc es b))) \<and>
    memo_ok strip_single_compute (snd (SwigType_strip_single_qualifier memo1 (enc es b))) \<and>
    (\<forall>e1 q e2. es = e1 @ q # e2 \<and> SwigType_isqualifier q \<and> (\<forall>e \<in> set e2. \<not> SwigType_isqualifier e) \<longrightarrow>
       fst (SwigType_strip_single_qualifier memo1 (enc es b)) = enc (e1 @ e2) b) \<and>
    ((\<forall>e \<in> set es. \<not> SwigType_isqualifier e) \<longrightarrow> fst (SwigType_strip_single_qualifier memo1 (enc es b)) = enc es b)"
  using strip_qualifiers_memo[OF assms(4), of "enc es b"] strip_single_memo[OF assms(5), of "enc es b"]
    strip_qualifiers_enc[OF assms(1-3)] strip_single_none[OF assms(1,2)] strip_single_hit[OF _ assms(2)] assms(1)
  by (metis (no_types, lifting))

theorem swigtype_strip_qualifiers_witness:
  "fst (SwigType_strip_qualifiers Map.empty ''r.q(const).p.q(const).int'') = ''r.p.int''
   \<and> fst (SwigType_strip_single_qualifier Map.empty ''r.q(const).p.q(const).int'') = ''r.q(const).p.int''"
proof -
  let ?es = "[''r'', ''q(const)'', ''p'', ''q(const)'']"
  have w: "list_all wf_elem ?es" "wf_elem ''int''" "\<not> SwigType_isqualifier ''int''"
    by (simp_all add: wf_elem_def SwigType_isqualifier_def)
  have m: "memo_ok f Map.empty" for f by (simp add: memo_ok_def)
  note t = swigtype_strip_qualifiers[OF w m m]
  have "?es = [''r'', ''q(const)'', ''p''] @ ''q(const)'' # []" "SwigType_isqualifier ''q(const)''"
    by (simp_all add: SwigType_isqualifier_def)
  with t have "fst (SwigType_strip_single_qualifier Map.empty (enc ?es ''int'')) = enc ([''r'', ''q(const)'', ''p''] @ []) ''int''"
    by (metis empty_iff empty_set)
  with t show ?thesis by (simp add: SwigType_isqualifier_def)
qed

text \<open>C20: The base and the prefix of a type. For a type of well-formed operators over a base name,
  whose template arguments may hold any text with nested angle brackets (periods included), the
  forward scan of \<^verbatim>\<open>SwigType_base\<close> returns the base name, and the backward scan of
  \<^verbatim>\<open>SwigType_prefix\<close> stays inside the text and returns the operators; together they are the
  type.\<close>

theorem swigtype_base_prefix:
  assumes "\<forall>e \<in> set es. wf_op e" "wf_base segs l"
  defines "t \<equiv> enc (map op_text es) (base_text segs l)"
  shows "SwigType_base t = base_text segs l \<and> SwigType_prefix t = Inr (enc (map op_text es) [])
    \<and> enc (map op_text es) [] @ SwigType_base t = t"
proof -
  have "SwigType_base t = base_text segs l"
    unfolding SwigType_base_def t_def using base_loop_enc[OF assms(1,2)] by (cases es) simp_all
  then show ?thesis using SwigType_prefix_enc[OF assms(2), of "map op_text es"] by (simp add: t_def enc_def)
qed

theorem swigtype_base_prefix_witness:
  "SwigType_base ''p.q(const).std::map<(a.b,c<(d)>)>::it'' = ''std::map<(a.b,c<(d)>)>::it''
   \<and> SwigType_prefix ''p.q(const).std::map<(a.b,c<(d)>)>::it'' = Inr ''p.q(const).''"
proof -
  have a: "angbal ''(a.b,c<(d)>)''"
    using angbal_Wrap[OF angbal_plain angbal_plain, of "''(d)''" "'')''"] by (simp add: angbal_Char)
  have "\<forall>e \<in> set [(''p'', None), (''q'', Some ''const'')]. wf_op e"
    "wf_base [(''std::map'', ''(a.b,c<(d)>)'')] ''::it''"
    using a by (simp_all add: wf_op_def wf_base_def plain_def)
  from swigtype_base_prefix[OF this] show ?thesis by (simp add: op_text_def)
qed

text \<open>The parts of a template type. Cutting any type string into template prefix, arguments
  and suffix loses nothing; and on a type built by \<^verbatim>\<open>SwigType_add_template\<close> from a name
  without an angle bracket and arguments whose brackets nest, the three functions return the
  name, the argument list and what follows, and the type is recognised as a template.\<close>

theorem swigtype_template_parts:
  shows "SwigType_templateprefix t @ (case SwigType_templateargs t of Some a \<Rightarrow> a | None \<Rightarrow> []) @ SwigType_templatesuffix t = t \<and>
    (CHR ''<'' \<notin> set pre \<and> angbal (template_args True ps) \<longrightarrow>
      SwigType_templateprefix (SwigType_add_template pre ps @ suf) = pre \<and>
      SwigType_templateargs (SwigType_add_template pre ps @ suf) = Some (''<('' @ template_args True ps @ '')>'') \<and>
      SwigType_templatesuffix (SwigType_add_template pre ps @ suf) = suf \<and>
      SwigType_istemplate (SwigType_add_template pre ps @ suf))"
  using template_parts[of t] template_add[of pre ps suf] by blast

theorem swigtype_template_parts_witness:
  "SwigType_templateprefix ''vector<(p.int)>::iterator'' = ''vector''
   \<and> SwigType_templatesuffix ''vector<(p.int)>::iterator'' = ''::iterator''"
proof -
  let ?ps = "[\<lparr>p_type = ''p.int'', p_name = None, p_value = None, p_default = None\<rparr>]"
  have "angbal (template_args True ?ps)" by (rule angbal_plain) simp
  then show ?thesis
    using swigtype_template_parts[of "[]" "''vector''" ?ps "''::iterator''"]
    by (simp add: SwigType_add_template_def)
qed

text \<open>A parameter list that ends with a comma corrupts reference counts. When the text between
  the last comma and the closing parenthesis is empty, \<^verbatim>\<open>SwigType_parmlist\<close> releases the
  item before the comma a second time: the last item of the list it returns has no reference
  left.\<close>

theorem swigtype_parmlist_trailing_comma:
  assumes "its \<noteq> []" "\<forall>i \<in> set its. i \<noteq> [] \<and> topfree CHR '','' 0 i"
  shows "SwigType_parmlist (''f('' @ join '','' its @ '',).'' @ r)
    = Inr (Some (map (\<lambda>i. (i, 1)) (butlast its) @ [(last its, 0)]))"
  using parmlist_trailing[OF assms, of "''.'' @ r" "[]"] to_paren_name[of "''f''" "join '','' its @ '',).'' @ r"]
  by (simp add: SwigType_parmlist_def)

theorem swigtype_parmlist_trailing_comma_witness:
  "SwigType_parmlist ''f(int,p.char,).void'' = Inr (Some [(''int'', 1), (''p.char'', 0)])"
  using swigtype_parmlist_trailing_comma[of "[''int'', ''p.char'']" "''void''"] by simp

text \<open>Array dimensions are counted and found by the next period, not by the closing
  parenthesis. When no dimension holds a period the count is the number of array operators and
  replacing a dimension in range replaces exactly that one; a dimension that holds a period
  ends the count early, and replacing a dimension past the end follows a null pointer.\<close>

theorem swigtype_array_dimensions:
  assumes "\<forall>d \<in> set ds. CHR ''.'' \<notin> set d" "\<not> starts_with ''a('' r"
  defines "t \<equiv> enc (map (\<lambda>d. ''a('' @ d @ '')'') ds) r"
  shows "SwigType_array_ndim t = length ds \<and>
    (\<forall>n < length ds. SwigType_array_setdim t (int n) v = Inr (enc (map (\<lambda>d. ''a('' @ d @ '')'') (ds[n := v])) r)) \<and>
    (ds \<noteq> [] \<longrightarrow> (\<forall>n > int (length ds). SwigType_array_setdim t n v = Inl NullDeref)) \<and>
    SwigType_array_ndim ''a(x.y).a(2).int'' = 1"
  using array_ndim_enc[OF assms(1,2)] array_setdim_enc[OF assms(1)] array_setdim_out[OF assms(1,2)]
  by (simp add: t_def SwigType_array_ndim.simps)

theorem swigtype_array_dimensions_witness:
  "SwigType_array_ndim ''a(2).a(N).p.int'' = 2
   \<and> SwigType_array_setdim ''a(2).a(N).p.int'' 1 ''3'' = Inr ''a(2).a(3).p.int''
   \<and> SwigType_array_setdim ''a(2).a(N).p.int'' 3 ''3'' = Inl NullDeref"
proof -
  let ?ds = "[''2'', ''N'']"
  have a: "\<forall>d \<in> set ?ds. CHR ''.'' \<notin> set d" "\<not> starts_with ''a('' ''p.int''" by simp_all
  have "1 < length ?ds" "3 > int (length ?ds)" "?ds \<noteq> []" by simp_all
  with swigtype_array_dimensions[OF a, of "''3''"]
  have "SwigType_array_setdim (enc (map (\<lambda>d. ''a('' @ d @ '')'') ?ds) ''p.int'') (int 1) ''3''
      = Inr (enc (map (\<lambda>d. ''a('' @ d @ '')'') (?ds[1 := ''3''])) ''p.int'')"
    "SwigType_array_setdim (enc (map (\<lambda>d. ''a('' @ d @ '')'') ?ds) ''p.int'') 3 ''3'' = Inl NullDeref" by blast+
  with swigtype_array_dimensions[OF a, of "''3''"] show ?thesis by simp
qed

end
