(* ===== verification/Swig_Tokens.thy ===== *)
theory Swig_Tokens
  imports Main
begin

text \<open>
  The token codes of the scanner (\<^verbatim>\<open>Source/Swig/swigscan.h\<close>), shared by the scanner and the evaluator of
  preprocessor expressions. They are plain integers in the code; the operators have codes from 100 on.
\<close>

abbreviation (input) SWIG_MAXTOKENS :: int where "SWIG_MAXTOKENS \<equiv> 200"
abbreviation (input) SWIG_TOKEN_LPAREN :: int where "SWIG_TOKEN_LPAREN \<equiv> 1"
abbreviation (input) SWIG_TOKEN_RPAREN :: int where "SWIG_TOKEN_RPAREN \<equiv> 2"
abbreviation (input) SWIG_TOKEN_SEMI :: int where "SWIG_TOKEN_SEMI \<equiv> 3"
abbreviation (input) SWIG_TOKEN_LBRACE :: int where "SWIG_TOKEN_LBRACE \<equiv> 4"
abbreviation (input) SWIG_TOKEN_RBRACE :: int where "SWIG_TOKEN_RBRACE \<equiv> 5"
abbreviation (input) SWIG_TOKEN_LBRACKET :: int where "SWIG_TOKEN_LBRACKET \<equiv> 6"
abbreviation (input) SWIG_TOKEN_RBRACKET :: int where "SWIG_TOKEN_RBRACKET \<equiv> 7"
abbreviation (input) SWIG_TOKEN_BACKSLASH :: int where "SWIG_TOKEN_BACKSLASH \<equiv> 8"
abbreviation (input) SWIG_TOKEN_ENDLINE :: int where "SWIG_TOKEN_ENDLINE \<equiv> 9"
abbreviation (input) SWIG_TOKEN_STRING :: int where "SWIG_TOKEN_STRING \<equiv> 10"
abbreviation (input) SWIG_TOKEN_POUND :: int where "SWIG_TOKEN_POUND \<equiv> 11"
abbreviation (input) SWIG_TOKEN_COLON :: int where "SWIG_TOKEN_COLON \<equiv> 12"
abbreviation (input) SWIG_TOKEN_DCOLON :: int where "SWIG_TOKEN_DCOLON \<equiv> 13"
abbreviation (input) SWIG_TOKEN_DCOLONSTAR :: int where "SWIG_TOKEN_DCOLONSTAR \<equiv> 14"
abbreviation (input) SWIG_TOKEN_ID :: int where "SWIG_TOKEN_ID \<equiv> 15"
abbreviation (input) SWIG_TOKEN_FLOAT :: int where "SWIG_TOKEN_FLOAT \<equiv> 16"
abbreviation (input) SWIG_TOKEN_DOUBLE :: int where "SWIG_TOKEN_DOUBLE \<equiv> 17"
abbreviation (input) SWIG_TOKEN_INT :: int where "SWIG_TOKEN_INT \<equiv> 18"
abbreviation (input) SWIG_TOKEN_UINT :: int where "SWIG_TOKEN_UINT \<equiv> 19"
abbreviation (input) SWIG_TOKEN_LONG :: int where "SWIG_TOKEN_LONG \<equiv> 20"
abbreviation (input) SWIG_TOKEN_ULONG :: int where "SWIG_TOKEN_ULONG \<equiv> 21"
abbreviation (input) SWIG_TOKEN_CHAR :: int where "SWIG_TOKEN_CHAR \<equiv> 22"
abbreviation (input) SWIG_TOKEN_PERIOD :: int where "SWIG_TOKEN_PERIOD \<equiv> 23"
abbreviation (input) SWIG_TOKEN_AT :: int where "SWIG_TOKEN_AT \<equiv> 24"
abbreviation (input) SWIG_TOKEN_DOLLAR :: int where "SWIG_TOKEN_DOLLAR \<equiv> 25"
abbreviation (input) SWIG_TOKEN_CODEBLOCK :: int where "SWIG_TOKEN_CODEBLOCK \<equiv> 26"
abbreviation (input) SWIG_TOKEN_RSTRING :: int where "SWIG_TOKEN_RSTRING \<equiv> 27"
abbreviation (input) SWIG_TOKEN_LONGLONG :: int where "SWIG_TOKEN_LONGLONG \<equiv> 28"
abbreviation (input) SWIG_TOKEN_ULONGLONG :: int where "SWIG_TOKEN_ULONGLONG \<equiv> 29"
abbreviation (input) SWIG_TOKEN_QUESTION :: int where "SWIG_TOKEN_QUESTION \<equiv> 30"
abbreviation (input) SWIG_TOKEN_COMMENT :: int where "SWIG_TOKEN_COMMENT \<equiv> 31"
abbreviation (input) SWIG_TOKEN_BOOL :: int where "SWIG_TOKEN_BOOL \<equiv> 32"
abbreviation (input) SWIG_TOKEN_WSTRING :: int where "SWIG_TOKEN_WSTRING \<equiv> 33"
abbreviation (input) SWIG_TOKEN_WCHAR :: int where "SWIG_TOKEN_WCHAR \<equiv> 34"
abbreviation (input) SWIG_TOKEN_ILLEGAL :: int where "SWIG_TOKEN_ILLEGAL \<equiv> 99"
abbreviation (input) SWIG_TOKEN_ERROR :: int where "SWIG_TOKEN_ERROR \<equiv> -1"
abbreviation (input) SWIG_TOKEN_COMMA :: int where "SWIG_TOKEN_COMMA \<equiv> 101"
abbreviation (input) SWIG_TOKEN_STAR :: int where "SWIG_TOKEN_STAR \<equiv> 102"
abbreviation (input) SWIG_TOKEN_TIMES :: int where "SWIG_TOKEN_TIMES \<equiv> 102"
abbreviation (input) SWIG_TOKEN_EQUAL :: int where "SWIG_TOKEN_EQUAL \<equiv> 103"
abbreviation (input) SWIG_TOKEN_EQUALTO :: int where "SWIG_TOKEN_EQUALTO \<equiv> 104"
abbreviation (input) SWIG_TOKEN_NOTEQUAL :: int where "SWIG_TOKEN_NOTEQUAL \<equiv> 105"
abbreviation (input) SWIG_TOKEN_PLUS :: int where "SWIG_TOKEN_PLUS \<equiv> 106"
abbreviation (input) SWIG_TOKEN_MINUS :: int where "SWIG_TOKEN_MINUS \<equiv> 107"
abbreviation (input) SWIG_TOKEN_AND :: int where "SWIG_TOKEN_AND \<equiv> 108"
abbreviation (input) SWIG_TOKEN_LAND :: int where "SWIG_TOKEN_LAND \<equiv> 109"
abbreviation (input) SWIG_TOKEN_OR :: int where "SWIG_TOKEN_OR \<equiv> 110"
abbreviation (input) SWIG_TOKEN_LOR :: int where "SWIG_TOKEN_LOR \<equiv> 111"
abbreviation (input) SWIG_TOKEN_XOR :: int where "SWIG_TOKEN_XOR \<equiv> 112"
abbreviation (input) SWIG_TOKEN_LESSTHAN :: int where "SWIG_TOKEN_LESSTHAN \<equiv> 113"
abbreviation (input) SWIG_TOKEN_GREATERTHAN :: int where "SWIG_TOKEN_GREATERTHAN \<equiv> 114"
abbreviation (input) SWIG_TOKEN_LTEQUAL :: int where "SWIG_TOKEN_LTEQUAL \<equiv> 115"
abbreviation (input) SWIG_TOKEN_GTEQUAL :: int where "SWIG_TOKEN_GTEQUAL \<equiv> 116"
abbreviation (input) SWIG_TOKEN_NOT :: int where "SWIG_TOKEN_NOT \<equiv> 117"
abbreviation (input) SWIG_TOKEN_LNOT :: int where "SWIG_TOKEN_LNOT \<equiv> 118"
abbreviation (input) SWIG_TOKEN_SLASH :: int where "SWIG_TOKEN_SLASH \<equiv> 119"
abbreviation (input) SWIG_TOKEN_DIVIDE :: int where "SWIG_TOKEN_DIVIDE \<equiv> 119"
abbreviation (input) SWIG_TOKEN_PERCENT :: int where "SWIG_TOKEN_PERCENT \<equiv> 120"
abbreviation (input) SWIG_TOKEN_MODULO :: int where "SWIG_TOKEN_MODULO \<equiv> 120"
abbreviation (input) SWIG_TOKEN_LSHIFT :: int where "SWIG_TOKEN_LSHIFT \<equiv> 121"
abbreviation (input) SWIG_TOKEN_RSHIFT :: int where "SWIG_TOKEN_RSHIFT \<equiv> 122"
abbreviation (input) SWIG_TOKEN_PLUSPLUS :: int where "SWIG_TOKEN_PLUSPLUS \<equiv> 123"
abbreviation (input) SWIG_TOKEN_MINUSMINUS :: int where "SWIG_TOKEN_MINUSMINUS \<equiv> 124"
abbreviation (input) SWIG_TOKEN_PLUSEQUAL :: int where "SWIG_TOKEN_PLUSEQUAL \<equiv> 125"
abbreviation (input) SWIG_TOKEN_MINUSEQUAL :: int where "SWIG_TOKEN_MINUSEQUAL \<equiv> 126"
abbreviation (input) SWIG_TOKEN_TIMESEQUAL :: int where "SWIG_TOKEN_TIMESEQUAL \<equiv> 127"
abbreviation (input) SWIG_TOKEN_DIVEQUAL :: int where "SWIG_TOKEN_DIVEQUAL \<equiv> 128"
abbreviation (input) SWIG_TOKEN_ANDEQUAL :: int where "SWIG_TOKEN_ANDEQUAL \<equiv> 129"
abbreviation (input) SWIG_TOKEN_OREQUAL :: int where "SWIG_TOKEN_OREQUAL \<equiv> 130"
abbreviation (input) SWIG_TOKEN_XOREQUAL :: int where "SWIG_TOKEN_XOREQUAL \<equiv> 131"
abbreviation (input) SWIG_TOKEN_LSEQUAL :: int where "SWIG_TOKEN_LSEQUAL \<equiv> 132"
abbreviation (input) SWIG_TOKEN_RSEQUAL :: int where "SWIG_TOKEN_RSEQUAL \<equiv> 133"
abbreviation (input) SWIG_TOKEN_MODEQUAL :: int where "SWIG_TOKEN_MODEQUAL \<equiv> 134"
abbreviation (input) SWIG_TOKEN_ARROW :: int where "SWIG_TOKEN_ARROW \<equiv> 135"
abbreviation (input) SWIG_TOKEN_ARROWSTAR :: int where "SWIG_TOKEN_ARROWSTAR \<equiv> 136"

type_synonym token = "int \<times> string"

end
