(* ===== verification/Swig_Scanner.thy ===== *)
theory Swig_Scanner
  imports Doh_String Swig_Tokens
begin

text \<open>
  The scanner (\<^verbatim>\<open>Source/Swig/scanner.c\<close>): a hand-written state machine that turns the texts pushed into it into C++
  tokens. \<open>Scanner\<close> keeps the fields of the struct, followed by the global and static variables the file uses. The
  Strings that are scanned are texts with a position and a line number, the operations of \<open>Doh_String\<close> on them
  (\<open>src_getc\<close>, \<open>src_back\<close>) are exact for well-formed Strings; \<^verbatim>\<open>s->str\<close> is the first of them, the null pointer
  when there is none. The line number and the file of the token text are left out.
\<close>

section \<open>State\<close>

record source =
  src_text :: string
  src_sp :: nat
  src_line :: int
  src_file :: "string option"

text \<open>\<^verbatim>\<open>Getc\<close>, and \<^verbatim>\<open>Seek(str, -1, SEEK_CUR)\<close>, which stops at the beginning.\<close>

definition src_getc :: "source \<Rightarrow> (char \<times> source) option" where
  "src_getc o' =
     (if src_sp o' \<ge> length (src_text o') then None
      else let c = src_text o' ! src_sp o' in
        Some (c, o'\<lparr>src_sp := src_sp o' + 1, src_line := (if c = NL then src_line o' + 1 else src_line o')\<rparr>))"

definition src_back :: "source \<Rightarrow> source" where
  "src_back o' =
     (if src_sp o' = 0 then o'
      else o'\<lparr>src_sp := src_sp o' - 1,
              src_line := (if src_text o' ! (src_sp o' - 1) = NL then src_line o' - 1 else src_line o')\<rparr>)"

text \<open>The pointer to the error message survives the deletion of the message.\<close>

datatype error_ptr = NoError | ErrorText string | ErrorFreed

record Scanner =
  sc_text :: string
  scanobjs :: "source list"
  idstart :: "string option"
  nexttoken :: int
  start_line :: int
  sc_line :: int
  sc_error :: error_ptr
  error_line :: int
  sc_freeze :: int
  brackets :: "int list"
  cparse_cplusplus :: bool
  cparse_file :: "string option"
  cparse_line :: int
  cparse_start_line :: int
  follow_locators :: bool
  locs :: "(string option \<times> int) list"
  expanding_macro :: int
  messages :: "(string option \<times> int \<times> string) list"

section \<open>Template brackets\<close>

definition brackets_push :: "Scanner \<Rightarrow> Scanner" where
  "brackets_push s = s\<lparr>brackets := 0 # brackets s\<rparr>"

definition brackets_clear :: "Scanner \<Rightarrow> Scanner" where
  "brackets_clear s = brackets_push (s\<lparr>brackets := []\<rparr>)"

definition brackets_count :: "Scanner \<Rightarrow> int option" where
  "brackets_count s = (case brackets s of [] \<Rightarrow> None | n # _ \<Rightarrow> Some n)"

text \<open>Writing through the pointer \<^verbatim>\<open>brackets_count\<close> returns.\<close>

definition set_count :: "(int \<Rightarrow> int) \<Rightarrow> Scanner \<Rightarrow> Scanner" where
  "set_count f s = (case brackets s of [] \<Rightarrow> s | n # ns \<Rightarrow> s\<lparr>brackets := f n # ns\<rparr>)"

definition brackets_increment :: "Scanner \<Rightarrow> Scanner" where
  "brackets_increment s = set_count (\<lambda>n. n + 1) s"

definition brackets_decrement :: "Scanner \<Rightarrow> Scanner" where
  "brackets_decrement s = set_count (\<lambda>n. n - 1) s"

definition brackets_reset :: "Scanner \<Rightarrow> Scanner" where
  "brackets_reset s = set_count (\<lambda>n. 0) s"

definition brackets_pop :: "Scanner \<Rightarrow> Scanner" where
  "brackets_pop s = s\<lparr>brackets := tl (brackets s)\<rparr>"

definition brackets_allow_shift :: "Scanner \<Rightarrow> bool" where
  "brackets_allow_shift s = (case brackets_count s of None \<Rightarrow> True | Some n \<Rightarrow> n \<le> 0)"

section \<open>The object\<close>

definition NewScanner :: Scanner where
  \<comment> \<open>with the initial values of the global variables\<close>
  "NewScanner = brackets_push
     \<lparr>sc_text = [], scanobjs = [], idstart = None, nexttoken = -1, start_line = 1, sc_line = 1, sc_error = NoError, error_line = 0,
      sc_freeze = 0, brackets = [], cparse_cplusplus = False, cparse_file = None, cparse_line = 0, cparse_start_line = 0,
      follow_locators = False, locs = [], expanding_macro = 0, messages = []\<rparr>"

text \<open>\<^verbatim>\<open>Delete(s->error)\<close>: a message that was deleted before must not be deleted again.\<close>

definition delete_error :: "Scanner \<Rightarrow> Scanner res" where
  "delete_error s =
     (case sc_error s of
        NoError \<Rightarrow> Inr s
      | ErrorText _ \<Rightarrow> Inr (s\<lparr>sc_error := ErrorFreed\<rparr>)
      | ErrorFreed \<Rightarrow> Inl UseAfterFree)"

definition Scanner_clear :: "Scanner \<Rightarrow> Scanner res" where
  "Scanner_clear s =
     res_bind (delete_error (brackets_clear (s\<lparr>sc_text := [], scanobjs := []\<rparr>))) (\<lambda>s1.
     Inr (s1\<lparr>sc_error := NoError, sc_line := 1, nexttoken := -1, start_line := 0\<rparr>))"

definition Scanner_push :: "Scanner \<Rightarrow> source \<Rightarrow> Scanner" where
  "Scanner_push s txt =
     s\<lparr>scanobjs := txt # (case scanobjs s of [] \<Rightarrow> [] | o' # os \<Rightarrow> o'\<lparr>src_line := sc_line s\<rparr> # os), sc_line := src_line txt\<rparr>"

definition Scanner_pushtoken :: "Scanner \<Rightarrow> int \<Rightarrow> string \<Rightarrow> Scanner res" where
  "Scanner_pushtoken s nt val =
     (if nt \<ge> 0 \<and> nt < SWIG_MAXTOKENS then Inr (s\<lparr>nexttoken := nt, sc_text := val\<rparr>) else Inl AssertFailed)"

definition Scanner_set_location :: "Scanner \<Rightarrow> string option \<Rightarrow> int \<Rightarrow> Scanner" where
  "Scanner_set_location s file n =
     s\<lparr>scanobjs := (case scanobjs s of [] \<Rightarrow> [] | o' # os \<Rightarrow> o'\<lparr>src_line := n, src_file := file\<rparr> # os), sc_line := n\<rparr>"

definition Scanner_file :: "Scanner \<Rightarrow> string option" where
  "Scanner_file s = (case scanobjs s of [] \<Rightarrow> None | o' # os \<Rightarrow> src_file o')"

definition Scanner_line :: "Scanner \<Rightarrow> int" where "Scanner_line s = sc_line s"
definition Scanner_start_line :: "Scanner \<Rightarrow> int" where "Scanner_start_line s = start_line s"
definition Scanner_text :: "Scanner \<Rightarrow> string" where "Scanner_text s = sc_text s"
definition Scanner_errmsg :: "Scanner \<Rightarrow> error_ptr" where "Scanner_errmsg s = sc_error s"
definition Scanner_errline :: "Scanner \<Rightarrow> int" where "Scanner_errline s = error_line s"

definition Scanner_idstart :: "Scanner \<Rightarrow> string option \<Rightarrow> Scanner" where
  "Scanner_idstart s id' = s\<lparr>idstart := id'\<rparr>"

definition set_error :: "Scanner \<Rightarrow> int \<Rightarrow> string \<Rightarrow> Scanner" where
  "set_error s n msg = s\<lparr>error_line := n, sc_error := ErrorText msg\<rparr>"

definition freeze_line :: "Scanner \<Rightarrow> int \<Rightarrow> Scanner" where
  "freeze_line s v = s\<lparr>sc_freeze := v\<rparr>"

definition Scanner_isoperator :: "int \<Rightarrow> int" where
  "Scanner_isoperator tokval = (if tokval \<ge> 100 then 1 else 0)"

section \<open>Characters\<close>

text \<open>The next character of the texts; a zero byte reads as the end, \<open>None\<close>.\<close>

function nextchar :: "Scanner \<Rightarrow> char option \<times> Scanner" where
  "nextchar s =
     (case scanobjs s of
        [] \<Rightarrow> (None, s)
      | o' # os \<Rightarrow>
          (case src_getc o' of
             Some (c, o2) \<Rightarrow>
               (if c = NUL then None else Some c,
                s\<lparr>scanobjs := o2 # os, sc_line := (if c = NL \<and> sc_freeze s = 0 then sc_line s + 1 else sc_line s),
                  sc_text := sc_text s @ [c]\<rparr>)
           | None \<Rightarrow>
               (case os of
                  [] \<Rightarrow> (None, s\<lparr>scanobjs := []\<rparr>)
                | o3 # _ \<Rightarrow> nextchar (s\<lparr>scanobjs := os, sc_line := src_line o3\<rparr>))))"
  by pat_completeness auto
termination
  by (relation "measure (\<lambda>s. length (scanobjs s))") auto

declare nextchar.simps [simp del]

text \<open>The loop tests \<^verbatim>\<open>str[l - 1]\<close>, which is the last character in its first turn and a zero byte afterwards.\<close>

definition retract :: "Scanner \<Rightarrow> nat \<Rightarrow> Scanner res" where
  "retract s n =
     (if n > length (sc_text s) then Inl AssertFailed
      else if n = 0 then Inr s
      else case scanobjs s of
          [] \<Rightarrow> Inl NullDeref
        | o' # os \<Rightarrow>
            Inr (s\<lparr>sc_line := (if last (sc_text s) = NL \<and> sc_freeze s = 0 then sc_line s - 1 else sc_line s),
                   scanobjs := (src_back ^^ n) o' # os, sc_text := take (length (sc_text s) - n) (sc_text s)\<rparr>))"

section \<open>Escapes\<close>

definition drop_last :: "Scanner \<Rightarrow> Scanner" where
  \<comment> \<open>\<^verbatim>\<open>Delitem(s->text, DOH_END)\<close>\<close>
  "drop_last s = s\<lparr>sc_text := butlast (sc_text s)\<rparr>"

definition add_text :: "string \<Rightarrow> Scanner \<Rightarrow> Scanner" where
  "add_text w s = s\<lparr>sc_text := sc_text s @ w\<rparr>"

definition int_max :: int where "int_max = 2147483647"

definition isxdigit :: "char \<Rightarrow> bool" where
  "isxdigit c \<longleftrightarrow> isdigit c \<or> (97 \<le> cc (tolower c) \<and> cc (tolower c) \<le> 102)"

definition hex_value :: "char \<Rightarrow> int" where
  "hex_value c = (if isdigit c then int (cc c) - 48 else 10 + int (cc (tolower c)) - 97)"

text \<open>\<^verbatim>\<open>Putc((char)result, s->text)\<close>\<close>

definition put_result :: "int \<Rightarrow> Scanner \<Rightarrow> Scanner" where
  "put_result r s = add_text [char_of (nat (r mod 256))] s"

text \<open>The characters that are left to read.\<close>

definition src_rest :: "source \<Rightarrow> string" where
  "src_rest o' = drop (src_sp o') (src_text o')"

definition unread :: "Scanner \<Rightarrow> string" where
  "unread s = concat (map src_rest (scanobjs s))"

lemma src_getc_rest:
  "src_getc o' = Some (c, o2) \<Longrightarrow> src_rest o' = c # src_rest o2 \<and> src_sp o2 = Suc (src_sp o') \<and> src_text o2 = src_text o' \<and>
   src_sp o2 \<le> length (src_text o2)"
  using Cons_nth_drop_Suc[of "src_sp o'" "src_text o'"]
  by (auto simp: src_getc_def src_rest_def Let_def split: if_split_asm)

lemma src_getc_None: "src_getc o' = None \<Longrightarrow> src_rest o' = []"
  by (auto simp: src_getc_def src_rest_def Let_def split: if_split_asm)

lemma unread_text [simp]: "unread (s\<lparr>sc_text := w\<rparr>) = unread s"
  by (simp add: unread_def)

text \<open>What one call of \<^verbatim>\<open>nextchar\<close> does: it consumes one character, or there is none left.\<close>

lemma nextchar_unread:
  "nextchar s = (r, s') \<Longrightarrow>
   (unread s = [] \<and> r = None \<and> unread s' = [] \<and> sc_text s' = sc_text s) \<or>
   (\<exists>c. unread s = c # unread s' \<and> sc_text s' = sc_text s @ [c] \<and> r = (if c = NUL then None else Some c) \<and>
        scanobjs s' \<noteq> [])"
proof (induction s rule: nextchar.induct)
  case (1 s)
  show ?case
  proof (cases "scanobjs s")
    case Nil
    with "1.prems" show ?thesis by (simp add: nextchar.simps[of s] unread_def)
  next
    case (Cons o' os)
    show ?thesis
    proof (cases "src_getc o'")
      case None
      show ?thesis
      proof (cases os)
        case Nil
        with "1.prems" Cons None src_getc_None[OF None] show ?thesis by (auto simp: nextchar.simps[of s] unread_def)
      next
        case os: (Cons o3 os')
        let ?s1 = "s\<lparr>scanobjs := os, sc_line := src_line o3\<rparr>"
        have "nextchar ?s1 = (r, s')" using "1.prems" Cons None os by (simp add: nextchar.simps[of s])
        moreover have "unread ?s1 = unread s" using Cons src_getc_None[OF None] by (simp add: unread_def)
        ultimately show ?thesis using "1.IH"[OF Cons None os] by simp
      qed
    next
      case (Some p)
      then obtain c o2 where g: "src_getc o' = Some (c, o2)" by (cases p) auto
      with "1.prems" Cons src_getc_rest[OF g] show ?thesis by (auto simp: nextchar.simps[of s] unread_def)
    qed
  qed
qed

lemma nextchar_Some:
  assumes "nextchar s = (Some c, s')"
  shows "unread s = c # unread s'" "sc_text s' = sc_text s @ [c]" "c \<noteq> NUL" "scanobjs s' \<noteq> []"
  using nextchar_unread[OF assms] by (auto split: if_split_asm)

lemma nextchar_None:
  assumes "nextchar s = (None, s')"
  shows "length (unread s') \<le> length (unread s)" "length (sc_text s) \<le> length (sc_text s')"
  using nextchar_unread[OF assms] by auto

lemma src_back_rest: "length (src_rest (src_back o')) \<le> Suc (length (src_rest o'))"
  by (auto simp: src_back_def src_rest_def)

lemma src_back_pow_rest: "length (src_rest ((src_back ^^ n) o')) \<le> n + length (src_rest o')"
proof (induction n)
  case (Suc n)
  then show ?case using src_back_rest[of "(src_back ^^ n) o'"] by simp
qed simp

lemma retract_Inr:
  assumes "retract s n = Inr s'"
  shows "length (unread s') \<le> n + length (unread s)" "sc_text s' = take (length (sc_text s) - n) (sc_text s)"
  using assms src_back_pow_rest[of n]
  by (auto simp: retract_def unread_def split: if_split_asm list.split_asm)

lemma retract_ok: "n \<le> length (sc_text s) \<Longrightarrow> scanobjs s \<noteq> [] \<Longrightarrow> \<exists>s'. retract s n = Inr s'"
  by (auto simp: retract_def split: list.split)

text \<open>The octal and hexadecimal loops of \<^verbatim>\<open>get_escape\<close>, states 10 and 20.\<close>

function escape_oct :: "int \<Rightarrow> Scanner \<Rightarrow> Scanner res" where
  "escape_oct r s =
     (case nextchar s of
        (None, s1) \<Rightarrow> Inr s1
      | (Some c, s1) \<Rightarrow>
          if \<not> isdigit c then res_bind (retract s1 1) (\<lambda>s2. Inr (put_result r s2))
          else if r * 8 > int_max then Inl Undefined
          else if r * 8 + (int (cc c) - 48) > int_max then Inl Undefined
          else escape_oct (r * 8 + (int (cc c) - 48)) (drop_last s1))"
  by pat_completeness auto
termination
  by (relation "measure (\<lambda>(r, s). length (unread s))") (auto simp: drop_last_def dest!: nextchar_Some(1) sym[of "(_, _)"])

function escape_hex :: "int \<Rightarrow> Scanner \<Rightarrow> Scanner res" where
  "escape_hex r s =
     (case nextchar s of
        (None, s1) \<Rightarrow> Inr s1
      | (Some c, s1) \<Rightarrow>
          if \<not> isxdigit c then res_bind (retract s1 1) (\<lambda>s2. Inr (put_result r s2))
          else if r * 16 > int_max then Inl Undefined
          else if r * 16 + hex_value c > int_max then Inl Undefined
          else escape_hex (r * 16 + hex_value c) (drop_last s1))"
  by pat_completeness auto
termination
  by (relation "measure (\<lambda>(r, s). length (unread s))") (auto simp: drop_last_def dest!: nextchar_Some(1) sym[of "(_, _)"])

declare escape_oct.simps [simp del] escape_hex.simps [simp del]

definition escape_char :: "char \<Rightarrow> string option" where
  "escape_char c =
     (if c = CHR ''n'' then Some [CHR 0x0A]
      else if c = CHR ''r'' then Some [CHR 0x0D]
      else if c = CHR ''t'' then Some [CHR 0x09]
      else if c = CHR ''a'' then Some [CHR 0x07]
      else if c = CHR ''b'' then Some [CHR 0x08]
      else if c = CHR ''f'' then Some [CHR 0x0C]
      else if c = CHR 0x5C then Some [CHR 0x5C]
      else if c = CHR ''v'' then Some [CHR 0x0B]
      else if c = CHR ''e'' then Some [CHR 0x1B]
      else if c = CHR 0x27 then Some [CHR 0x27]
      else if c = CHR 0x22 then Some [CHR 0x22]
      else if c = NL then Some []
      else None)"

definition get_escape :: "Scanner \<Rightarrow> Scanner res" where
  "get_escape s =
     (case nextchar s of
        (None, s1) \<Rightarrow> Inr s1
      | (Some c, s1) \<Rightarrow>
          case escape_char c of
            Some w \<Rightarrow> Inr (add_text w (drop_last s1))
          | None \<Rightarrow>
              if isdigit c then escape_oct (int (cc c) - 48) (drop_last s1)
              else if c = CHR ''x'' then escape_hex 0 (drop_last s1)
              else Inr (add_text [CHR 0x5C, c] (drop_last s1)))"

section \<open>The state machine of \<^verbatim>\<open>look\<close>\<close>

text \<open>
  A constructor for every \<^verbatim>\<open>case\<close> label; \<open>S99\<close> stands for the labels that have no case. The local variables \<^verbatim>\<open>c\<close> and
  \<^verbatim>\<open>str_delimiter\<close> go from state to state. \<open>Ret\<close> is a \<^verbatim>\<open>return\<close>, \<open>Goto\<close> a \<^verbatim>\<open>break\<close> with the new values.
\<close>

datatype lstate =
    S0 | S1000 | S1 | S10 | S11 | S12 | S2 | S20 | S3 | S31 | S32 | S33 | S4 | S40 | S41 | S5 | S50 | S60 | S61
  | S7 | S70 | S71 | S72 | S73 | S74 | S75 | S76 | S77 | S78 | S79 | S8 | S81 | S82 | S820 | S83 | S84 | S85 | S850
  | S860 | S86 | S87 | S870 | S88 | S880 | S9 | S100 | S200 | S210 | S211 | S220 | S230 | S240 | S250 | S900 | S99

datatype look_res = Ret int Scanner | Goto lstate char "string option" Scanner

definition read_or ::
  "Scanner \<Rightarrow> (Scanner \<Rightarrow> look_res res) \<Rightarrow> (char \<Rightarrow> Scanner \<Rightarrow> look_res res) \<Rightarrow> look_res res" where
  \<comment> \<open>\<^verbatim>\<open>if ((c = nextchar(s)) == 0) ... else ...\<close>\<close>
  "read_or s e k = (case nextchar s of (None, s1) \<Rightarrow> e s1 | (Some c, s1) \<Rightarrow> k c s1)"

definition tok :: "int \<Rightarrow> Scanner \<Rightarrow> look_res res" where
  "tok t s = Inr (Ret t s)"

definition goto :: "lstate \<Rightarrow> char \<Rightarrow> string option \<Rightarrow> Scanner \<Rightarrow> look_res res" where
  "goto st c d s = Inr (Goto st c d s)"

definition retract_tok :: "nat \<Rightarrow> int \<Rightarrow> Scanner \<Rightarrow> look_res res" where
  "retract_tok n t s = res_bind (retract s n) (tok t)"

definition retract_goto :: "nat \<Rightarrow> lstate \<Rightarrow> char \<Rightarrow> string option \<Rightarrow> Scanner \<Rightarrow> look_res res" where
  "retract_goto n st c d s = res_bind (retract s n) (goto st c d)"

definition report :: "string option \<Rightarrow> int \<Rightarrow> string \<Rightarrow> Scanner \<Rightarrow> Scanner" where
  \<comment> \<open>\<^verbatim>\<open>Swig_error\<close>, without the line break at the end of the message\<close>
  "report f n msg s = s\<lparr>messages := messages s @ [(f, n, msg)]\<rparr>"

definition tok_error :: "string \<Rightarrow> Scanner \<Rightarrow> look_res res" where
  "tok_error msg s = tok SWIG_TOKEN_ERROR (report (cparse_file s) (cparse_start_line s) msg s)"

definition set_text :: "string \<Rightarrow> Scanner \<Rightarrow> Scanner" where
  "set_text w s = s\<lparr>sc_text := w\<rparr>"

definition mark_start :: "Scanner \<Rightarrow> Scanner" where
  "mark_start s = s\<lparr>start_line := sc_line s\<rparr>"

definition is_e :: "char \<Rightarrow> bool" where "is_e c \<longleftrightarrow> c = CHR ''e'' \<or> c = CHR ''E''"
definition is_f :: "char \<Rightarrow> bool" where "is_f c \<longleftrightarrow> c = CHR ''f'' \<or> c = CHR ''F''"
definition is_l :: "char \<Rightarrow> bool" where "is_l c \<longleftrightarrow> c = CHR ''l'' \<or> c = CHR ''L''"
definition is_u :: "char \<Rightarrow> bool" where "is_u c \<longleftrightarrow> c = CHR ''u'' \<or> c = CHR ''U''"
definition is_p :: "char \<Rightarrow> bool" where "is_p c \<longleftrightarrow> c = CHR ''p'' \<or> c = CHR ''P''"

definition look_0 :: "char \<Rightarrow> string option \<Rightarrow> Scanner \<Rightarrow> look_res res" where
  "look_0 c0 d s = read_or s (tok 0) (\<lambda>c s.
     if c = NL then tok SWIG_TOKEN_ENDLINE s
     else if \<not> isspace c then res_bind (retract s 1) (\<lambda>s. goto S1000 c d (set_text [] s))
     else goto S0 c d s)"

definition ident_start :: "Scanner \<Rightarrow> char \<Rightarrow> bool" where
  "ident_start s c \<longleftrightarrow> isalpha c \<or> c = CHR ''_'' \<or> (case idstart s of None \<Rightarrow> False | Some w \<Rightarrow> c \<in> set w)"

text \<open>The branches of state 1000, cut into three.\<close>

definition look_1000_multi :: "char \<Rightarrow> string option \<Rightarrow> Scanner \<Rightarrow> look_res res" where
  "look_1000_multi c d s =
     (if c = CHR ''/'' then goto S1 c d (mark_start s)
      else if c = CHR '':'' then goto S5 c d s
      else if c = CHR ''0'' then goto S83 c d s
      else if c = CHR 0x22 then goto S2 c d (set_text [] (mark_start s))
      else if c = CHR 0x27 then goto S9 c d (set_text [] (mark_start s))
      else if c = CHR 0x60 then goto S900 c d (set_text [] (mark_start s))
      else if c = CHR ''.'' then goto S100 c d s
      else if isdigit c then goto S8 c d s
      else goto S99 c d s)"

definition look_1000_symbol :: "char \<Rightarrow> string option \<Rightarrow> Scanner \<Rightarrow> look_res res" where
  "look_1000_symbol c d s =
     (if c = CHR ''('' then tok SWIG_TOKEN_LPAREN (brackets_push s)
      else if c = CHR '')'' then tok SWIG_TOKEN_RPAREN (brackets_pop s)
      else if c = CHR '';'' then tok SWIG_TOKEN_SEMI (brackets_clear s)
      else if c = CHR '','' then tok SWIG_TOKEN_COMMA s
      else if c = CHR ''*'' then goto S220 c d s
      else if c = CHR ''}'' then tok SWIG_TOKEN_RBRACE s
      else if c = CHR ''{'' then tok SWIG_TOKEN_LBRACE (brackets_reset s)
      else if c = CHR ''='' then goto S33 c d s
      else if c = CHR ''+'' then goto S200 c d s
      else if c = CHR ''-'' then goto S210 c d s
      else if c = CHR ''&'' then goto S31 c d s
      else if c = CHR ''|'' then goto S32 c d s
      else if c = CHR ''^'' then goto S230 c d s
      else if c = CHR ''<'' then goto S60 c d s
      else if c = CHR ''>'' then goto S61 c d s
      else if c = CHR ''~'' then tok SWIG_TOKEN_NOT s
      else if c = CHR ''!'' then goto S3 c d s
      else if c = CHR 0x5C then tok SWIG_TOKEN_BACKSLASH s
      else if c = CHR ''['' then tok SWIG_TOKEN_LBRACKET s
      else if c = CHR '']'' then tok SWIG_TOKEN_RBRACKET s
      else if c = CHR ''@'' then tok SWIG_TOKEN_AT s
      else if c = CHR ''$'' then goto S75 c d s
      else if c = CHR ''#'' then tok SWIG_TOKEN_POUND s
      else if c = CHR ''?'' then tok SWIG_TOKEN_QUESTION s
      else look_1000_multi c d s)"

definition look_1000 :: "char \<Rightarrow> string option \<Rightarrow> Scanner \<Rightarrow> look_res res" where
  "look_1000 c0 d s = read_or s (tok 0) (\<lambda>c s.
     if c = CHR ''%'' then goto S4 c d s
     else if ident_start s c then goto S7 c d s
     else look_1000_symbol c d s)"

text \<open>Comments.\<close>

definition look_1 :: "char \<Rightarrow> string option \<Rightarrow> Scanner \<Rightarrow> look_res res" where
  "look_1 c0 d s = read_or s (tok 0) (\<lambda>c s.
     if c = CHR ''/'' then goto S10 c d (set_text ''//'' s)
     else if c = CHR ''*'' then goto S11 c d (set_text ''/*'' s)
     else if c = CHR ''='' then tok SWIG_TOKEN_DIVEQUAL s
     else retract_tok 1 SWIG_TOKEN_SLASH s)"

definition look_10 :: "char \<Rightarrow> string option \<Rightarrow> Scanner \<Rightarrow> look_res res" where
  "look_10 c0 d s = read_or s (tok_error ''Unterminated comment'') (\<lambda>c s.
     if c = NL then retract_tok 1 SWIG_TOKEN_COMMENT s
     else goto S10 c d s)"

definition look_11 :: "char \<Rightarrow> string option \<Rightarrow> Scanner \<Rightarrow> look_res res" where
  "look_11 c0 d s = read_or s (tok_error ''Unterminated comment'') (\<lambda>c s.
     if c = CHR ''*'' then goto S12 c d s
     else goto S11 c d s)"

definition look_12 :: "char \<Rightarrow> string option \<Rightarrow> Scanner \<Rightarrow> look_res res" where
  "look_12 c0 d s = read_or s (tok_error ''Unterminated comment'') (\<lambda>c s.
     if c = CHR ''*'' then goto S12 c d s
     else if c = CHR ''/'' then tok SWIG_TOKEN_COMMENT s
     else goto S11 c d s)"

text \<open>Strings; the delimiter of a raw string is read in state 2.\<close>

definition look_2 :: "char \<Rightarrow> string option \<Rightarrow> Scanner \<Rightarrow> look_res res" where
  "look_2 c0 d s = (case d of
     None \<Rightarrow> goto S20 c0 None s
   | Some w \<Rightarrow> read_or s (tok_error ''Unterminated string'') (\<lambda>c s.
       if c = CHR ''('' then goto S20 c (Some w) s
       else goto S2 c (Some (w @ [c])) s))"

function read_end :: "string \<Rightarrow> Scanner \<Rightarrow> char option \<times> string \<times> Scanner" where
  \<comment> \<open>\<^verbatim>\<open>while ((c = nextchar(s)) != 0 && c != '"')\<close>, collecting the characters\<close>
  "read_end e s =
     (case nextchar s of
        (None, s1) \<Rightarrow> (None, e, s1)
      | (Some c, s1) \<Rightarrow> if c = CHR 0x22 then (Some c, e, s1) else read_end (e @ [c]) s1)"
  by pat_completeness auto
termination
  by (relation "measure (\<lambda>(e, s). length (unread s))") (auto dest!: nextchar_Some(1) sym[of "(_, _)"])

declare read_end.simps [simp del]

text \<open>\<^verbatim>\<open>Delslice\<close> on the token text: an empty text is left alone, an end beyond the text moves a negative number of bytes.\<close>

definition text_delslice :: "nat \<Rightarrow> nat \<Rightarrow> string \<Rightarrow> string res" where
  "text_delslice i e w = (if w = [] then Inr [] else if e > length w then Inl OutOfBounds else Inr (take i w @ drop e w))"

definition raw_error :: "string \<Rightarrow> string" where
  "raw_error w =
     ''Unterminated raw string, started with R'' @ [CHR 0x22] @ w @ ''( is not terminated by )'' @ w @ [CHR 0x22]"

definition strip_raw :: "string \<Rightarrow> string \<Rightarrow> string res" where
  \<comment> \<open>the two \<^verbatim>\<open>Delslice\<close>; the lengths are those before the first\<close>
  "strip_raw w txt =
     res_bind (text_delslice (length txt - 2 - length w) (length txt) txt) (text_delslice 0 (length w + 1))"

definition raw_close :: "string \<Rightarrow> Scanner \<Rightarrow> look_res res" where
  \<comment> \<open>after the parenthesis\<close>
  "raw_close w s =
     (case read_end [] s of (r, e, s1) \<Rightarrow>
        if w = e then res_bind (strip_raw w (sc_text s1)) (\<lambda>v. tok SWIG_TOKEN_STRING (set_text v s1))
        else (case r of
                None \<Rightarrow> tok_error (raw_error w) s1
              | Some c \<Rightarrow> retract_goto (length e) S20 c (Some w) s1))"

definition look_20 :: "char \<Rightarrow> string option \<Rightarrow> Scanner \<Rightarrow> look_res res" where
  "look_20 c0 d s = read_or s (tok_error ''Unterminated string'') (\<lambda>c s.
     case d of
       None \<Rightarrow>
         if c = CHR 0x22 then tok SWIG_TOKEN_STRING (drop_last s)
         else if c = CHR 0x5C then res_bind (get_escape (drop_last s)) (goto S20 c None)
         else goto S20 c None s
     | Some w \<Rightarrow> if c = CHR '')'' then raw_close w s else goto S20 c d s)"

text \<open>Operators.\<close>

definition look_3 :: "char \<Rightarrow> string option \<Rightarrow> Scanner \<Rightarrow> look_res res" where
  "look_3 c0 d s = read_or s (tok SWIG_TOKEN_LNOT) (\<lambda>c s.
     if c = CHR ''='' then tok SWIG_TOKEN_NOTEQUAL s
     else retract_tok 1 SWIG_TOKEN_LNOT s)"

definition look_31 :: "char \<Rightarrow> string option \<Rightarrow> Scanner \<Rightarrow> look_res res" where
  "look_31 c0 d s = read_or s (tok SWIG_TOKEN_AND) (\<lambda>c s.
     if c = CHR ''&'' then tok SWIG_TOKEN_LAND s
     else if c = CHR ''='' then tok SWIG_TOKEN_ANDEQUAL s
     else retract_tok 1 SWIG_TOKEN_AND s)"

definition look_32 :: "char \<Rightarrow> string option \<Rightarrow> Scanner \<Rightarrow> look_res res" where
  "look_32 c0 d s = read_or s (tok SWIG_TOKEN_OR) (\<lambda>c s.
     if c = CHR ''|'' then tok SWIG_TOKEN_LOR s
     else if c = CHR ''='' then tok SWIG_TOKEN_OREQUAL s
     else retract_tok 1 SWIG_TOKEN_OR s)"

definition look_33 :: "char \<Rightarrow> string option \<Rightarrow> Scanner \<Rightarrow> look_res res" where
  "look_33 c0 d s = read_or s (tok SWIG_TOKEN_EQUAL) (\<lambda>c s.
     if c = CHR ''='' then tok SWIG_TOKEN_EQUALTO s
     else retract_tok 1 SWIG_TOKEN_EQUAL s)"

text \<open>Directives and code blocks.\<close>

definition look_4 :: "char \<Rightarrow> string option \<Rightarrow> Scanner \<Rightarrow> look_res res" where
  "look_4 c0 d s = read_or s (tok SWIG_TOKEN_PERCENT) (\<lambda>c s.
     if c = CHR ''{'' then goto S40 c d (mark_start (set_text [] s))
     else if (case idstart s of None \<Rightarrow> False | Some w \<Rightarrow> CHR ''%'' \<in> set w) \<and> (isalpha c \<or> c = CHR ''_'') then goto S7 c d s
     else if c = CHR ''='' then tok SWIG_TOKEN_MODEQUAL s
     else if c = CHR ''}'' then Inl (Exited 1)
     else retract_tok 1 SWIG_TOKEN_PERCENT s)"

definition look_40 :: "char \<Rightarrow> string option \<Rightarrow> Scanner \<Rightarrow> look_res res" where
  "look_40 c0 d s = read_or s (tok_error ''Unterminated block'') (\<lambda>c s.
     if c = CHR ''%'' then goto S41 c d s
     else goto S40 c d s)"

definition look_41 :: "char \<Rightarrow> string option \<Rightarrow> Scanner \<Rightarrow> look_res res" where
  "look_41 c0 d s = read_or s (\<lambda>s. tok 0 (set_error s (start_line s) ''Unterminated code block'')) (\<lambda>c s.
     if c = CHR ''}'' then tok SWIG_TOKEN_CODEBLOCK (drop_last (drop_last s))
     else goto S40 c d s)"

definition look_5 :: "char \<Rightarrow> string option \<Rightarrow> Scanner \<Rightarrow> look_res res" where
  "look_5 c0 d s = read_or s (tok SWIG_TOKEN_COLON) (\<lambda>c s.
     if c = CHR '':'' then goto S50 c d s
     else retract_tok 1 SWIG_TOKEN_COLON s)"

definition look_50 :: "char \<Rightarrow> string option \<Rightarrow> Scanner \<Rightarrow> look_res res" where
  "look_50 c0 d s = read_or s (tok SWIG_TOKEN_DCOLON) (\<lambda>c s.
     if c = CHR ''*'' then tok SWIG_TOKEN_DCOLONSTAR s
     else retract_tok 1 SWIG_TOKEN_DCOLON s)"

definition look_60 :: "char \<Rightarrow> string option \<Rightarrow> Scanner \<Rightarrow> look_res res" where
  "look_60 c0 d s = read_or s (\<lambda>s. tok SWIG_TOKEN_LESSTHAN (brackets_increment s)) (\<lambda>c s.
     if c = CHR ''<'' then goto S240 c d s
     else if c = CHR ''='' then tok SWIG_TOKEN_LTEQUAL s
     else res_bind (retract s 1) (\<lambda>s. tok SWIG_TOKEN_LESSTHAN (brackets_increment s)))"

definition look_61 :: "char \<Rightarrow> string option \<Rightarrow> Scanner \<Rightarrow> look_res res" where
  "look_61 c0 d s = read_or s (\<lambda>s. tok SWIG_TOKEN_GREATERTHAN (brackets_decrement s)) (\<lambda>c s.
     if c = CHR ''>'' \<and> brackets_allow_shift s then goto S250 c d s
     else if c = CHR ''='' then tok SWIG_TOKEN_GTEQUAL s
     else res_bind (retract s 1) (\<lambda>s. tok SWIG_TOKEN_GREATERTHAN (brackets_decrement s)))"

text \<open>Identifiers, and the prefixes of wide, unicode and raw strings.\<close>

definition look_7 :: "char \<Rightarrow> string option \<Rightarrow> Scanner \<Rightarrow> look_res res" where
  "look_7 c0 d s = (if c0 = CHR ''R'' then goto S72 c0 d s
   else if c0 = CHR ''L'' then goto S77 c0 d s
   else if c0 \<noteq> CHR ''u'' \<and> c0 \<noteq> CHR ''U'' then goto S70 c0 d s
   else read_or s (goto S76 c0 d) (\<lambda>c s.
     if c = CHR 0x22 then retract_goto 1 S1000 c d s
     else if c = CHR 0x27 then retract_goto 1 S77 c d s
     else if c = CHR ''R'' then goto S73 c d s
     else if c = CHR ''8'' then goto S71 c d s
     else retract_goto 1 S70 c d s))"

definition ident_char :: "char \<Rightarrow> bool" where
  "ident_char c \<longleftrightarrow> isalnum c \<or> c = CHR ''_'' \<or> c = CHR ''$''"

definition look_70 :: "char \<Rightarrow> string option \<Rightarrow> Scanner \<Rightarrow> look_res res" where
  "look_70 c0 d s = read_or s (goto S76 c0 d) (\<lambda>c s.
     if ident_char c then goto S70 c d s
     else retract_goto 1 S76 c d s)"

definition look_71 :: "char \<Rightarrow> string option \<Rightarrow> Scanner \<Rightarrow> look_res res" where
  "look_71 c0 d s = read_or s (goto S76 c0 d) (\<lambda>c s.
     if c = CHR 0x22 then retract_goto 1 S1000 c d s
     else if c = CHR 0x27 then retract_goto 1 S77 c d s
     else if c = CHR ''R'' then goto S74 c d s
     else retract_goto 2 S70 c d s)"

definition maybe_raw :: "nat \<Rightarrow> char \<Rightarrow> string option \<Rightarrow> Scanner \<Rightarrow> look_res res" where
  "maybe_raw n c0 d s = read_or s (goto S76 c0 d) (\<lambda>c s.
     if c = CHR 0x22 then retract_goto 1 S1000 c (Some []) s
     else retract_goto n S70 c d s)"

definition look_72 :: "char \<Rightarrow> string option \<Rightarrow> Scanner \<Rightarrow> look_res res" where
  "look_72 c0 d s = maybe_raw 1 c0 d s"

definition look_73 :: "char \<Rightarrow> string option \<Rightarrow> Scanner \<Rightarrow> look_res res" where
  "look_73 c0 d s = maybe_raw 2 c0 d s"

definition look_74 :: "char \<Rightarrow> string option \<Rightarrow> Scanner \<Rightarrow> look_res res" where
  "look_74 c0 d s = maybe_raw 3 c0 d s"

definition look_75 :: "char \<Rightarrow> string option \<Rightarrow> Scanner \<Rightarrow> look_res res" where
  "look_75 c0 d s = read_or s (tok SWIG_TOKEN_DOLLAR) (\<lambda>c s.
     if isalnum c \<or> c = CHR ''_'' \<or> c = CHR ''*'' \<or> c = CHR ''&'' then goto S70 c d s
     else res_bind (retract s 1) (\<lambda>s.
       if length (sc_text s) = 1 then tok SWIG_TOKEN_DOLLAR s else goto S76 c d s))"

definition look_76 :: "char \<Rightarrow> string option \<Rightarrow> Scanner \<Rightarrow> look_res res" where
  "look_76 c0 d s = (if cparse_cplusplus s \<and> (sc_text s = ''true'' \<or> sc_text s = ''false'') then tok SWIG_TOKEN_BOOL s
   else tok SWIG_TOKEN_ID s)"

definition look_77 :: "char \<Rightarrow> string option \<Rightarrow> Scanner \<Rightarrow> look_res res" where
  "look_77 c0 d s = read_or s (tok SWIG_TOKEN_ID) (\<lambda>c s.
     if c = CHR 0x22 then goto S78 c d (set_text [] (mark_start s))
     else if c = CHR 0x27 then goto S79 c d (set_text [] (mark_start s))
     else if ident_char c then goto S7 c d s
     else retract_tok 1 SWIG_TOKEN_ID s)"

definition look_78 :: "char \<Rightarrow> string option \<Rightarrow> Scanner \<Rightarrow> look_res res" where
  "look_78 c0 d s = read_or s (tok_error ''Unterminated wide string'') (\<lambda>c s.
     if c = CHR 0x22 then tok SWIG_TOKEN_WSTRING (drop_last s)
     else if c = CHR 0x5C then read_or s (tok_error ''Unterminated wide string'') (\<lambda>c s. goto S78 c d s)
     else goto S78 c d s)"

definition look_79 :: "char \<Rightarrow> string option \<Rightarrow> Scanner \<Rightarrow> look_res res" where
  "look_79 c0 d s = read_or s (tok_error ''Unterminated wide character constant'') (\<lambda>c s.
     if c = CHR 0x27 then tok SWIG_TOKEN_WCHAR (drop_last s)
     else if c = CHR 0x5C then read_or s (tok_error ''Unterminated wide character literal'') (\<lambda>c s. goto S79 c d s)
     else goto S79 c d s)"

text \<open>Numbers.\<close>

definition look_8 :: "char \<Rightarrow> string option \<Rightarrow> Scanner \<Rightarrow> look_res res" where
  "look_8 c0 d s = read_or s (tok SWIG_TOKEN_INT) (\<lambda>c s.
     if c = CHR ''.'' then goto S81 c d s
     else if is_e c then goto S82 c d s
     else if is_f c then tok SWIG_TOKEN_FLOAT (drop_last s)
     else if isdigit c then goto S8 c d s
     else if is_l c then goto S87 c d s
     else if is_u c then goto S88 c d s
     else retract_tok 1 SWIG_TOKEN_INT s)"

definition look_81 :: "char \<Rightarrow> string option \<Rightarrow> Scanner \<Rightarrow> look_res res" where
  "look_81 c0 d s = read_or s (tok SWIG_TOKEN_DOUBLE) (\<lambda>c s.
     if isdigit c then goto S81 c d s
     else if is_e c then goto S820 c d s
     else if is_f c then tok SWIG_TOKEN_FLOAT (drop_last s)
     else if is_l c then tok SWIG_TOKEN_DOUBLE (drop_last s)
     else retract_tok 1 SWIG_TOKEN_DOUBLE s)"

definition exponent_error :: string where
  "exponent_error = ''Exponent does not have any digits''"

definition look_82 :: "char \<Rightarrow> string option \<Rightarrow> Scanner \<Rightarrow> look_res res" where
  "look_82 c0 d s = read_or s (tok_error exponent_error) (\<lambda>c s.
     if isdigit c \<or> c = CHR ''-'' \<or> c = CHR ''+'' then goto S86 c d s
     else res_bind (retract s 2) (tok_error exponent_error))"

definition look_820 :: "char \<Rightarrow> string option \<Rightarrow> Scanner \<Rightarrow> look_res res" where
  "look_820 c0 d s = read_or s (tok_error exponent_error) (\<lambda>c s.
     if isdigit c \<or> c = CHR ''-'' \<or> c = CHR ''+'' then goto S86 c d s
     else res_bind (retract s 2) (tok_error exponent_error))"

definition look_83 :: "char \<Rightarrow> string option \<Rightarrow> Scanner \<Rightarrow> look_res res" where
  "look_83 c0 d s = read_or s (tok SWIG_TOKEN_INT) (\<lambda>c s.
     if isdigit c then goto S84 c d s
     else if is_e c then goto S82 c d s
     else if c = CHR ''x'' \<or> c = CHR ''X'' then goto S85 c d s
     else if c = CHR ''b'' \<or> c = CHR ''B'' then goto S850 c d s
     else if c = CHR ''.'' then goto S81 c d s
     else if is_l c then goto S87 c d s
     else if is_u c then goto S88 c d s
     else retract_tok 1 SWIG_TOKEN_INT s)"

definition look_84 :: "char \<Rightarrow> string option \<Rightarrow> Scanner \<Rightarrow> look_res res" where
  "look_84 c0 d s = read_or s (tok SWIG_TOKEN_INT) (\<lambda>c s.
     if isdigit c then goto S84 c d s
     else if c = CHR ''.'' then goto S81 c d s
     else if is_e c then goto S82 c d s
     else if is_l c then goto S87 c d s
     else if is_u c then goto S88 c d s
     else retract_tok 1 SWIG_TOKEN_INT s)"

definition look_85 :: "char \<Rightarrow> string option \<Rightarrow> Scanner \<Rightarrow> look_res res" where
  "look_85 c0 d s = read_or s (tok SWIG_TOKEN_INT) (\<lambda>c s.
     if isxdigit c then goto S85 c d s
     else if c = CHR ''.'' then goto S860 c d s
     else if is_p c then goto S820 c d s
     else if is_l c then goto S87 c d s
     else if is_u c then goto S88 c d s
     else retract_tok 1 SWIG_TOKEN_INT s)"

definition look_850 :: "char \<Rightarrow> string option \<Rightarrow> Scanner \<Rightarrow> look_res res" where
  "look_850 c0 d s = read_or s (tok SWIG_TOKEN_INT) (\<lambda>c s.
     if c = CHR ''0'' \<or> c = CHR ''1'' then goto S850 c d s
     else if is_l c then goto S87 c d s
     else if is_u c then goto S88 c d s
     else retract_tok 1 SWIG_TOKEN_INT s)"

definition hexfloat_error :: string where
  "hexfloat_error = ''Hexadecimal floating literals require an exponent''"

definition look_860 :: "char \<Rightarrow> string option \<Rightarrow> Scanner \<Rightarrow> look_res res" where
  "look_860 c0 d s = read_or s (tok_error hexfloat_error) (\<lambda>c s.
     if isxdigit c then goto S860 c d s
     else if is_p c then goto S820 c d s
     else res_bind (retract s 2) (tok_error hexfloat_error))"

definition look_86 :: "char \<Rightarrow> string option \<Rightarrow> Scanner \<Rightarrow> look_res res" where
  "look_86 c0 d s = read_or s (tok SWIG_TOKEN_DOUBLE) (\<lambda>c s.
     if isdigit c then goto S86 c d s
     else if is_f c then tok SWIG_TOKEN_FLOAT (drop_last s)
     else if is_l c then tok SWIG_TOKEN_DOUBLE (drop_last s)
     else retract_tok 1 SWIG_TOKEN_DOUBLE s)"

definition look_87 :: "char \<Rightarrow> string option \<Rightarrow> Scanner \<Rightarrow> look_res res" where
  "look_87 c0 d s = read_or s (tok SWIG_TOKEN_LONG) (\<lambda>c s.
     if is_u c then tok SWIG_TOKEN_ULONG s
     else if is_l c then goto S870 c d s
     else retract_tok 1 SWIG_TOKEN_LONG s)"

definition look_870 :: "char \<Rightarrow> string option \<Rightarrow> Scanner \<Rightarrow> look_res res" where
  "look_870 c0 d s = read_or s (tok SWIG_TOKEN_LONGLONG) (\<lambda>c s.
     if is_u c then tok SWIG_TOKEN_ULONGLONG s
     else retract_tok 1 SWIG_TOKEN_LONGLONG s)"

definition look_88 :: "char \<Rightarrow> string option \<Rightarrow> Scanner \<Rightarrow> look_res res" where
  "look_88 c0 d s = read_or s (tok SWIG_TOKEN_UINT) (\<lambda>c s.
     if is_l c then goto S880 c d s
     else retract_tok 1 SWIG_TOKEN_UINT s)"

definition look_880 :: "char \<Rightarrow> string option \<Rightarrow> Scanner \<Rightarrow> look_res res" where
  "look_880 c0 d s = read_or s (tok SWIG_TOKEN_ULONG) (\<lambda>c s.
     if is_l c then tok SWIG_TOKEN_ULONGLONG s
     else retract_tok 1 SWIG_TOKEN_ULONG s)"

text \<open>Character constants, the period, and the remaining operators.\<close>

definition look_9 :: "char \<Rightarrow> string option \<Rightarrow> Scanner \<Rightarrow> look_res res" where
  "look_9 c0 d s = read_or s (tok_error ''Unterminated character constant'') (\<lambda>c s.
     if c = CHR 0x27 then tok SWIG_TOKEN_CHAR (drop_last s)
     else if c = CHR 0x5C then res_bind (get_escape (drop_last s)) (goto S9 c d)
     else goto S9 c d s)"

definition look_100 :: "char \<Rightarrow> string option \<Rightarrow> Scanner \<Rightarrow> look_res res" where
  "look_100 c0 d s = read_or s (tok 0) (\<lambda>c s.
     if isdigit c then goto S81 c d s
     else retract_tok 1 SWIG_TOKEN_PERIOD s)"

definition look_200 :: "char \<Rightarrow> string option \<Rightarrow> Scanner \<Rightarrow> look_res res" where
  "look_200 c0 d s = read_or s (tok SWIG_TOKEN_PLUS) (\<lambda>c s.
     if c = CHR ''+'' then tok SWIG_TOKEN_PLUSPLUS s
     else if c = CHR ''='' then tok SWIG_TOKEN_PLUSEQUAL s
     else retract_tok 1 SWIG_TOKEN_PLUS s)"

definition look_210 :: "char \<Rightarrow> string option \<Rightarrow> Scanner \<Rightarrow> look_res res" where
  "look_210 c0 d s = read_or s (tok SWIG_TOKEN_MINUS) (\<lambda>c s.
     if c = CHR ''-'' then tok SWIG_TOKEN_MINUSMINUS s
     else if c = CHR ''='' then tok SWIG_TOKEN_MINUSEQUAL s
     else if c = CHR ''>'' then goto S211 c d s
     else retract_tok 1 SWIG_TOKEN_MINUS s)"

definition look_211 :: "char \<Rightarrow> string option \<Rightarrow> Scanner \<Rightarrow> look_res res" where
  "look_211 c0 d s = read_or s (tok SWIG_TOKEN_ARROW) (\<lambda>c s.
     if c = CHR ''*'' then tok SWIG_TOKEN_ARROWSTAR s
     else retract_tok 1 SWIG_TOKEN_ARROW s)"

definition look_220 :: "char \<Rightarrow> string option \<Rightarrow> Scanner \<Rightarrow> look_res res" where
  "look_220 c0 d s = read_or s (tok SWIG_TOKEN_STAR) (\<lambda>c s.
     if c = CHR ''='' then tok SWIG_TOKEN_TIMESEQUAL s
     else retract_tok 1 SWIG_TOKEN_STAR s)"

definition look_230 :: "char \<Rightarrow> string option \<Rightarrow> Scanner \<Rightarrow> look_res res" where
  "look_230 c0 d s = read_or s (tok SWIG_TOKEN_XOR) (\<lambda>c s.
     if c = CHR ''='' then tok SWIG_TOKEN_XOREQUAL s
     else retract_tok 1 SWIG_TOKEN_XOR s)"

definition look_240 :: "char \<Rightarrow> string option \<Rightarrow> Scanner \<Rightarrow> look_res res" where
  "look_240 c0 d s = read_or s (tok SWIG_TOKEN_LSHIFT) (\<lambda>c s.
     if c = CHR ''='' then tok SWIG_TOKEN_LSEQUAL s
     else retract_tok 1 SWIG_TOKEN_LSHIFT s)"

definition look_250 :: "char \<Rightarrow> string option \<Rightarrow> Scanner \<Rightarrow> look_res res" where
  "look_250 c0 d s = read_or s (tok SWIG_TOKEN_RSHIFT) (\<lambda>c s.
     if c = CHR ''='' then tok SWIG_TOKEN_RSEQUAL s
     else retract_tok 1 SWIG_TOKEN_RSHIFT s)"

definition look_900 :: "char \<Rightarrow> string option \<Rightarrow> Scanner \<Rightarrow> look_res res" where
  "look_900 c0 d s = read_or s (tok_error ''Unterminated character constant'') (\<lambda>c s.
     if c = CHR 0x60 then tok SWIG_TOKEN_RSTRING (drop_last s)
     else goto S900 c d s)"

definition look_99 :: "char \<Rightarrow> string option \<Rightarrow> Scanner \<Rightarrow> look_res res" where
  "look_99 c0 d s = tok SWIG_TOKEN_ILLEGAL s"

text \<open>The \<^verbatim>\<open>switch\<close>.\<close>

primrec look_step :: "lstate \<Rightarrow> char \<Rightarrow> string option \<Rightarrow> Scanner \<Rightarrow> look_res res" where
  "look_step S0 = look_0"
| "look_step S1000 = look_1000"
| "look_step S1 = look_1"
| "look_step S10 = look_10"
| "look_step S11 = look_11"
| "look_step S12 = look_12"
| "look_step S2 = look_2"
| "look_step S20 = look_20"
| "look_step S3 = look_3"
| "look_step S31 = look_31"
| "look_step S32 = look_32"
| "look_step S33 = look_33"
| "look_step S4 = look_4"
| "look_step S40 = look_40"
| "look_step S41 = look_41"
| "look_step S5 = look_5"
| "look_step S50 = look_50"
| "look_step S60 = look_60"
| "look_step S61 = look_61"
| "look_step S7 = look_7"
| "look_step S70 = look_70"
| "look_step S71 = look_71"
| "look_step S72 = look_72"
| "look_step S73 = look_73"
| "look_step S74 = look_74"
| "look_step S75 = look_75"
| "look_step S76 = look_76"
| "look_step S77 = look_77"
| "look_step S78 = look_78"
| "look_step S79 = look_79"
| "look_step S8 = look_8"
| "look_step S81 = look_81"
| "look_step S82 = look_82"
| "look_step S820 = look_820"
| "look_step S83 = look_83"
| "look_step S84 = look_84"
| "look_step S85 = look_85"
| "look_step S850 = look_850"
| "look_step S860 = look_860"
| "look_step S86 = look_86"
| "look_step S87 = look_87"
| "look_step S870 = look_870"
| "look_step S88 = look_88"
| "look_step S880 = look_880"
| "look_step S9 = look_9"
| "look_step S100 = look_100"
| "look_step S200 = look_200"
| "look_step S210 = look_210"
| "look_step S211 = look_211"
| "look_step S220 = look_220"
| "look_step S230 = look_230"
| "look_step S240 = look_240"
| "look_step S250 = look_250"
| "look_step S900 = look_900"
| "look_step S99 = look_99"

section \<open>Every step reads on\<close>

text \<open>
  The measure of the loop: the characters that are left, plus those a state may still put back (\<open>credit\<close>), and for
  the steps that read nothing a rank of the states. \<open>need\<close> is how much token text a state relies on.
\<close>

fun credit :: "lstate \<Rightarrow> nat" where
  "credit S71 = 1" | "credit S73 = 1" | "credit S74 = 2" | "credit S82 = 1" | "credit S820 = 1" | "credit S860 = 1"
| "credit _ = 0"

fun lrank :: "lstate \<Rightarrow> nat" where
  "lrank S7 = 4" | "lrank S0 = 3" | "lrank S71 = 3" | "lrank S72 = 3" | "lrank S73 = 3" | "lrank S74 = 2"
| "lrank S8 = 1" | "lrank S81 = 1" | "lrank S83 = 1" | "lrank S84 = 1" | "lrank S85 = 1"
| "lrank S77 = 2" | "lrank S1000 = 2" | "lrank S70 = 1" | "lrank S75 = 1" | "lrank S2 = 1" | "lrank _ = 0"

fun need :: "lstate \<Rightarrow> nat" where
  "need S71 = 1" | "need S73 = 1" | "need S74 = 2" | "need S82 = 1" | "need S820 = 1" | "need S860 = 1"
| "need _ = 0"

definition pot :: "lstate \<Rightarrow> Scanner \<Rightarrow> nat" where
  "pot st s = length (unread s) + credit st"

definition token_code :: "int \<Rightarrow> bool" where
  "token_code t \<longleftrightarrow> (-1 \<le> t \<and> t \<le> 34) \<or> t = 99 \<or> (101 \<le> t \<and> t \<le> 136)"

definition keep :: "Scanner \<Rightarrow> Scanner \<Rightarrow> bool" where
  "keep s s' \<longleftrightarrow> nexttoken s' = nexttoken s \<and> sc_error s' = sc_error s"

definition holds :: "bool \<Rightarrow> (look_res \<Rightarrow> bool) \<Rightarrow> look_res res \<Rightarrow> bool" where
  "holds b P r = (case r of Inl e \<Rightarrow> b \<longrightarrow> e \<in> {Exited 1, Undefined, OutOfBounds} | Inr x \<Rightarrow> P x)"

definition step_post :: "lstate \<Rightarrow> Scanner \<Rightarrow> look_res \<Rightarrow> bool" where
  "step_post st s x =
     (case x of
        Ret t s' \<Rightarrow> token_code t \<and> nexttoken s' = nexttoken s \<and>
          (sc_error s' = sc_error s \<or> t = 0 \<and> (\<exists>m. sc_error s' = ErrorText m)) \<and>
          length (unread s') \<le> pot st s \<and> ((st = S0 \<or> st = S1000) \<and> t \<noteq> 0 \<longrightarrow> length (unread s') < pot st s)
      | Goto st' c d s' \<Rightarrow> keep s s' \<and> (need st \<le> length (sc_text s) \<longrightarrow> need st' \<le> length (sc_text s')) \<and>
          (pot st' s' < pot st s \<or> pot st' s' = pot st s \<and> lrank st' < lrank st) \<and>
          (st = S1000 \<longrightarrow> pot st' s' < pot st s) \<and> (st = S0 \<longrightarrow> st' = S0 \<or> st' = S1000))"

lemma nextchar_frame:
  "nextchar s = (r, s') \<Longrightarrow> \<exists>os l w. s' = s\<lparr>scanobjs := os, sc_line := l, sc_text := w\<rparr>"
proof (induction s rule: nextchar.induct)
  case (1 s)
  show ?case
  proof (cases "scanobjs s")
    case Nil
    with "1.prems" show ?thesis by (intro exI[of _ "scanobjs s"] exI[of _ "sc_line s"] exI[of _ "sc_text s"])
       (simp add: nextchar.simps[of s])
  next
    case (Cons o' os)
    show ?thesis
    proof (cases "src_getc o'")
      case None
      show ?thesis
      proof (cases os)
        case Nil
        with "1.prems" Cons None have "s' = s\<lparr>scanobjs := []\<rparr>"
          by (simp add: nextchar.simps[of s])
        then have "s' = s\<lparr>scanobjs := [], sc_line := sc_line s, sc_text := sc_text s\<rparr>" by simp
        then show ?thesis by blast
      next
        case os: (Cons o3 os')
        with "1.prems" Cons None have "nextchar (s\<lparr>scanobjs := os, sc_line := src_line o3\<rparr>) = (r, s')"
          by (simp add: nextchar.simps[of s])
        then have "\<exists>os l w. s' = s\<lparr>scanobjs := os, sc_line := src_line o3\<rparr>\<lparr>scanobjs := os, sc_line := l, sc_text := w\<rparr>"
          using "1.IH"[OF Cons None os] by auto
        then show ?thesis by auto
      qed
    next
      case (Some p)
      then obtain c o2 where g: "src_getc o' = Some (c, o2)" by (cases p) auto
      with "1.prems" Cons have "s' = s\<lparr>scanobjs := o2 # os, sc_line := (if c = NL \<and> sc_freeze s = 0 then sc_line s + 1 else sc_line s), sc_text := sc_text s @ [c]\<rparr>"
        by (auto simp: nextchar.simps[of s])
      then show ?thesis by blast
    qed
  qed
qed

lemma nextchar_keep: "nextchar s = (r, s') \<Longrightarrow> keep s s'"
  by (auto dest!: nextchar_frame simp: keep_def)

lemma retract_keep: "retract s n = Inr s' \<Longrightarrow> keep s s'"
  by (auto simp: retract_def keep_def split: if_split_asm list.split_asm)

lemma keep_trans: "keep a b \<Longrightarrow> keep b c \<Longrightarrow> keep a c" by (simp add: keep_def)

lemma keep_refl [simp]: "keep a a" by (simp add: keep_def)

lemma holds_simps [simp]:
  "holds b P (tok t s) = P (Ret t s)" "holds b P (goto st c d s) = P (Goto st c d s)"
  "holds b P (Inl e) = (b \<longrightarrow> e \<in> {Exited 1, Undefined, OutOfBounds})"
  by (auto simp: holds_def tok_def goto_def)

lemma read_orI:
  assumes "\<And>s'. length (unread s') \<le> length (unread s) \<Longrightarrow> length (sc_text s) \<le> length (sc_text s') \<Longrightarrow> keep s s' \<Longrightarrow>
      holds b P (e s')"
    and "\<And>c s'. length (unread s) = Suc (length (unread s')) \<Longrightarrow> length (sc_text s') = Suc (length (sc_text s)) \<Longrightarrow>
      scanobjs s' \<noteq> [] \<Longrightarrow> keep s s' \<Longrightarrow> holds b P (k c s')"
  shows "holds b P (read_or s e k)"
proof (cases "nextchar s")
  case n: (Pair r s')
  show ?thesis
  proof (cases r)
    case None
    with n have "nextchar s = (None, s')" by simp
    then show ?thesis using assms(1)[OF nextchar_None nextchar_keep] n None by (simp add: read_or_def)
  next
    case (Some c)
    with n have g: "nextchar s = (Some c, s')" by simp
    from nextchar_Some[OF g] show ?thesis using assms(2)[of s' c] nextchar_keep[OF g] g by (simp add: read_or_def)
  qed
qed

lemma retractI:
  assumes "b \<Longrightarrow> n \<le> length (sc_text s)" "b \<Longrightarrow> scanobjs s \<noteq> []"
    and "\<And>s'. n \<le> length (sc_text s) \<Longrightarrow> length (unread s') \<le> n + length (unread s) \<Longrightarrow> length (sc_text s') = length (sc_text s) - n \<Longrightarrow> keep s s' \<Longrightarrow>
      holds b P (f s')"
  shows "holds b P (res_bind (retract s n) f)"
proof (cases "retract s n")
  case (Inl e)
  then show ?thesis using retract_ok[of n s] assms(1,2) by auto
next
  case (Inr s')
  have "n \<le> length (sc_text s)" using Inr by (auto simp: retract_def split: if_split_asm)
  with retract_Inr[OF Inr] show ?thesis using Inr assms(3)[of s'] retract_keep[OF Inr] by simp
qed

lemma retract_tokI:
  assumes "b \<Longrightarrow> n \<le> length (sc_text s)" "b \<Longrightarrow> scanobjs s \<noteq> []"
    and "\<And>s'. n \<le> length (sc_text s) \<Longrightarrow> length (unread s') \<le> n + length (unread s) \<Longrightarrow> keep s s' \<Longrightarrow> P (Ret t s')"
  shows "holds b P (retract_tok n t s)"
  unfolding retract_tok_def using assms by (intro retractI) auto

lemma retract_gotoI:
  assumes "b \<Longrightarrow> n \<le> length (sc_text s)" "b \<Longrightarrow> scanobjs s \<noteq> []"
    and "\<And>s'. n \<le> length (sc_text s) \<Longrightarrow> length (unread s') \<le> n + length (unread s) \<Longrightarrow> length (sc_text s') = length (sc_text s) - n \<Longrightarrow> keep s s' \<Longrightarrow>
      P (Goto st c d s')"
  shows "holds b P (retract_goto n st c d s)"
  unfolding retract_goto_def using assms by (intro retractI) auto

lemmas stepI = read_orI retract_tokI retract_gotoI retractI

lemma unread_frame [simp]:
  "unread (drop_last s) = unread s" "unread (set_text w s) = unread s" "unread (mark_start s) = unread s"
  "unread (add_text w s) = unread s" "unread (report f n w s) = unread s" "unread (set_error s n w) = unread s"
  "unread (set_count g s) = unread s" "unread (brackets_push s) = unread s" "unread (brackets_pop s) = unread s"
  "unread (brackets_clear s) = unread s" "unread (brackets_reset s) = unread s"
  "unread (brackets_increment s) = unread s" "unread (brackets_decrement s) = unread s"
  by (simp_all add: drop_last_def set_text_def mark_start_def add_text_def report_def set_error_def set_count_def
    brackets_push_def brackets_pop_def brackets_clear_def brackets_reset_def brackets_increment_def
    brackets_decrement_def unread_def split: list.split)

lemma control_frame [simp]:
  "nexttoken (drop_last s) = nexttoken s" "nexttoken (set_text w s) = nexttoken s" "nexttoken (mark_start s) = nexttoken s"
  "nexttoken (add_text w s) = nexttoken s" "nexttoken (report f n w s) = nexttoken s"
  "nexttoken (set_count g s) = nexttoken s" "nexttoken (brackets_push s) = nexttoken s"
  "nexttoken (brackets_pop s) = nexttoken s" "nexttoken (brackets_clear s) = nexttoken s"
  "nexttoken (brackets_reset s) = nexttoken s" "nexttoken (brackets_increment s) = nexttoken s"
  "nexttoken (brackets_decrement s) = nexttoken s" "nexttoken (set_error s n w) = nexttoken s"
  "sc_error (drop_last s) = sc_error s" "sc_error (set_text w s) = sc_error s" "sc_error (mark_start s) = sc_error s"
  "sc_error (add_text w s) = sc_error s" "sc_error (report f n w s) = sc_error s"
  "sc_error (set_count g s) = sc_error s" "sc_error (brackets_push s) = sc_error s"
  "sc_error (brackets_pop s) = sc_error s" "sc_error (brackets_clear s) = sc_error s"
  "sc_error (brackets_reset s) = sc_error s" "sc_error (brackets_increment s) = sc_error s"
  "sc_error (brackets_decrement s) = sc_error s" "sc_error (set_error s n w) = ErrorText w"
  by (simp_all add: drop_last_def set_text_def mark_start_def add_text_def report_def set_count_def set_error_def
    brackets_push_def brackets_pop_def brackets_clear_def brackets_reset_def brackets_increment_def
    brackets_decrement_def split: list.split)

lemmas step_simps = pot_def token_code_def tok_error_def step_post_def keep_def

lemma text_frame [simp]:
  "sc_text (set_text w s) = w" "sc_text (mark_start s) = sc_text s" "sc_text (drop_last s) = butlast (sc_text s)"
  "scanobjs (set_text w s) = scanobjs s" "scanobjs (mark_start s) = scanobjs s" "scanobjs (drop_last s) = scanobjs s"
  by (simp_all add: set_text_def mark_start_def drop_last_def)

lemmas op_states = look_3_def look_31_def look_32_def look_33_def look_5_def look_50_def look_60_def look_61_def look_200_def
  look_210_def look_211_def look_220_def look_230_def look_240_def look_250_def look_900_def look_99_def look_100_def

lemma op_steps:
  "st \<in> {S3, S31, S32, S33, S5, S50, S60, S61, S200, S210, S211, S220, S230, S240, S250, S900, S99, S100} \<Longrightarrow>
   holds (need st \<le> length (sc_text s)) (step_post st s) (look_step st c d s)"
  by (auto simp: op_states step_simps intro!: stepI)

lemmas ident_states = look_7_def look_70_def look_71_def look_72_def look_73_def look_74_def look_75_def look_76_def
  look_77_def look_78_def look_79_def maybe_raw_def

lemma ident_steps:
  "st \<in> {S7, S70, S71, S72, S73, S74, S75, S76, S77, S78, S79} \<Longrightarrow> 
   holds (need st \<le> length (sc_text s)) (step_post st s) (look_step st c d s)"
  by (auto simp: ident_states step_simps intro!: stepI)

lemmas number_states = look_8_def look_81_def look_82_def look_820_def look_83_def look_84_def look_85_def look_850_def
  look_860_def look_86_def look_87_def look_870_def look_88_def look_880_def

lemma number_8: "holds (need S8 \<le> length (sc_text s)) (step_post S8 s) (look_8 c d s)"
  by (auto simp: look_8_def step_simps intro!: stepI)

lemma number_81: "holds (need S81 \<le> length (sc_text s)) (step_post S81 s) (look_81 c d s)"
  by (auto simp: look_81_def step_simps intro!: stepI)

lemma number_82: "holds (need S82 \<le> length (sc_text s)) (step_post S82 s) (look_82 c d s)"
  by (auto simp: look_82_def step_simps intro!: stepI)

lemma number_820: "holds (need S820 \<le> length (sc_text s)) (step_post S820 s) (look_820 c d s)"
  by (auto simp: look_820_def step_simps intro!: stepI)

lemma number_83: "holds (need S83 \<le> length (sc_text s)) (step_post S83 s) (look_83 c d s)"
  by (auto simp: look_83_def step_simps intro!: stepI)

lemma number_84: "holds (need S84 \<le> length (sc_text s)) (step_post S84 s) (look_84 c d s)"
  by (auto simp: look_84_def step_simps intro!: stepI)

lemma number_85: "holds (need S85 \<le> length (sc_text s)) (step_post S85 s) (look_85 c d s)"
  by (auto simp: look_85_def step_simps intro!: stepI)

lemma number_850: "holds (need S850 \<le> length (sc_text s)) (step_post S850 s) (look_850 c d s)"
  by (auto simp: look_850_def step_simps intro!: stepI)

lemma number_860: "holds (need S860 \<le> length (sc_text s)) (step_post S860 s) (look_860 c d s)"
  by (auto simp: look_860_def step_simps intro!: stepI)

lemma number_86: "holds (need S86 \<le> length (sc_text s)) (step_post S86 s) (look_86 c d s)"
  by (auto simp: look_86_def step_simps intro!: stepI)

lemma number_87: "holds (need S87 \<le> length (sc_text s)) (step_post S87 s) (look_87 c d s)"
  by (auto simp: look_87_def step_simps intro!: stepI)

lemma number_870: "holds (need S870 \<le> length (sc_text s)) (step_post S870 s) (look_870 c d s)"
  by (auto simp: look_870_def step_simps intro!: stepI)

lemma number_88: "holds (need S88 \<le> length (sc_text s)) (step_post S88 s) (look_88 c d s)"
  by (auto simp: look_88_def step_simps intro!: stepI)

lemma number_880: "holds (need S880 \<le> length (sc_text s)) (step_post S880 s) (look_880 c d s)"
  by (auto simp: look_880_def step_simps intro!: stepI)

lemmas number_steps = number_8 number_81 number_82 number_820 number_83 number_84 number_85 number_850 number_860
  number_86 number_87 number_870 number_88 number_880

lemmas comment_states = look_0_def look_1_def look_10_def look_11_def look_12_def look_4_def look_40_def look_41_def

lemma comment_steps:
  "st \<in> {S0, S1, S10, S11, S12, S4, S40, S41} \<Longrightarrow> holds (need st \<le> length (sc_text s)) (step_post st s) (look_step st c d s)"
  by (auto simp: comment_states step_simps intro!: stepI)

lemma start_step: "holds b (step_post S1000 s) (look_step S1000 c d s)"
  by (auto simp: look_1000_def look_1000_symbol_def look_1000_multi_def step_simps intro!: stepI)


text \<open>Escapes and raw strings.\<close>

lemma escape_oct_ok:
  "(\<forall>s'. escape_oct r s = Inr s' \<longrightarrow> length (unread s') \<le> length (unread s) \<and> keep s s') \<and>
   (\<forall>e. escape_oct r s = Inl e \<longrightarrow> e = Undefined)"
proof (induction r s rule: escape_oct.induct)
  case (1 r s)
  show ?case
  proof (cases "nextchar s")
    case n: (Pair x s1)
    show ?thesis
    proof (cases x)
      case None
      with n nextchar_None[of s s1] nextchar_keep[OF n] show ?thesis by (simp add: escape_oct.simps[of r s])
    next
      case (Some c)
      with n have g: "nextchar s = (Some c, s1)" by simp
      note n1 = nextchar_Some[OF g] nextchar_keep[OF g]
      show ?thesis
      proof (cases "isdigit c")
        case False
        obtain s2 where r2: "retract s1 1 = Inr s2" using retract_ok[of 1 s1] n1 by auto
        from retract_Inr[OF r2] retract_keep[OF r2] n1 show ?thesis
          using g False r2 by (auto simp: escape_oct.simps[of r s] put_result_def keep_def)
      next
        case True
        then show ?thesis using g n1 "1.IH"[OF n[symmetric] Some]
          by (auto simp: escape_oct.simps[of r s] keep_def)
      qed
    qed
  qed
qed

lemma escape_hex_ok:
  "(\<forall>s'. escape_hex r s = Inr s' \<longrightarrow> length (unread s') \<le> length (unread s) \<and> keep s s') \<and>
   (\<forall>e. escape_hex r s = Inl e \<longrightarrow> e = Undefined)"
proof (induction r s rule: escape_hex.induct)
  case (1 r s)
  show ?case
  proof (cases "nextchar s")
    case n: (Pair x s1)
    show ?thesis
    proof (cases x)
      case None
      with n nextchar_None[of s s1] nextchar_keep[OF n] show ?thesis by (simp add: escape_hex.simps[of r s])
    next
      case (Some c)
      with n have g: "nextchar s = (Some c, s1)" by simp
      note n1 = nextchar_Some[OF g] nextchar_keep[OF g]
      show ?thesis
      proof (cases "isxdigit c")
        case False
        obtain s2 where r2: "retract s1 1 = Inr s2" using retract_ok[of 1 s1] n1 by auto
        from retract_Inr[OF r2] retract_keep[OF r2] n1 show ?thesis
          using g False r2 by (auto simp: escape_hex.simps[of r s] put_result_def keep_def)
      next
        case True
        then show ?thesis using g n1 "1.IH"[OF n[symmetric] Some]
          by (auto simp: escape_hex.simps[of r s] keep_def)
      qed
    qed
  qed
qed

lemma get_escape_ok:
  "(\<forall>s'. get_escape s = Inr s' \<longrightarrow> length (unread s') \<le> length (unread s) \<and> keep s s') \<and>
   (\<forall>e. get_escape s = Inl e \<longrightarrow> e = Undefined)"
proof (cases "nextchar s")
  case n: (Pair x s1)
  show ?thesis
  proof (cases x)
    case None
    with n nextchar_None[of s s1] nextchar_keep[OF n] show ?thesis by (simp add: get_escape_def)
  next
    case (Some c)
    with n have g: "nextchar s = (Some c, s1)" by simp
    note n1 = nextchar_Some[OF g] nextchar_keep[OF g]
    show ?thesis
      using g n1 escape_oct_ok[of "int (cc c) - 48" "drop_last s1"] escape_hex_ok[of 0 "drop_last s1"]
      by (auto simp: get_escape_def keep_def split: option.split)
  qed
qed

lemma read_end_ok:
  "read_end e s = (r, e', s') \<Longrightarrow>
   \<exists>w. e' = e @ w \<and> length (unread s') + length w + (if r = None then 0 else 1) \<le> length (unread s) \<and> keep s s' \<and>
       (r \<noteq> None \<longrightarrow> scanobjs s' \<noteq> [] \<and> length (sc_text s') = length (sc_text s) + length w + 1)"
proof (induction e s rule: read_end.induct)
  case (1 e s)
  show ?case
  proof (cases "nextchar s")
    case n: (Pair x s1)
    show ?thesis
    proof (cases x)
      case None
      with n nextchar_None[of s s1] nextchar_keep[OF n] "1.prems" show ?thesis by (auto simp: read_end.simps[of e s])
    next
      case (Some c)
      with n have g: "nextchar s = (Some c, s1)" by simp
      note n1 = nextchar_Some[OF g] nextchar_keep[OF g]
      show ?thesis
      proof (cases "c = CHR 0x22")
        case True
        with "1.prems" g n1 show ?thesis by (auto simp: read_end.simps[of e s])
      next
        case False
        with "1.prems" g have "read_end (e @ [c]) s1 = (r, e', s')" by (simp add: read_end.simps[of e s])
        from "1.IH"[OF n[symmetric] Some False this] obtain w where
          "e' = e @ c # w" "length (unread s') + length w + (if r = None then 0 else 1) \<le> length (unread s1)" "keep s1 s'"
          "r \<noteq> None \<longrightarrow> scanobjs s' \<noteq> [] \<and> length (sc_text s') = length (sc_text s1) + length w + 1" by auto
        with n1 show ?thesis by (intro exI[of _ "c # w"]) (auto simp: keep_def)
      qed
    qed
  qed
qed

lemma strip_raw_error: "strip_raw w t = Inl e \<Longrightarrow> e = OutOfBounds"
  by (auto simp: strip_raw_def text_delslice_def res_bind_eq_Inl split: if_split_asm)

lemma raw_close_ok:
  assumes "need S20 \<le> length (sc_text s)" "length (unread s) < length (unread s0)" "keep s0 s"
  shows "holds b (step_post S20 s0) (raw_close w s)"
proof -
  obtain r e s1 where re: "read_end [] s = (r, e, s1)" by (cases "read_end [] s") auto
  from read_end_ok[OF re] have le: "length (unread s1) + length e + (if r = None then 0 else 1) \<le> length (unread s)"
    and k: "keep s s1" and t: "r \<noteq> None \<longrightarrow> scanobjs s1 \<noteq> [] \<and> length (sc_text s1) = length (sc_text s) + length e + 1" by auto
  show ?thesis
  proof (cases "w = e")
    case True
    then show ?thesis using re k assms(2,3) le strip_raw_error[of e "sc_text s1"]
      by (cases "strip_raw e (sc_text s1)") (auto simp: raw_close_def step_simps split: if_split_asm)
  next
    case False
    then show ?thesis using re k assms(2,3) le t
      by (cases r) (auto simp: raw_close_def step_simps intro!: stepI)
  qed
qed

lemma string_step: "holds b (step_post S20 s) (look_20 c d s)"
proof -
  have "holds b (step_post S20 s) (res_bind (get_escape (drop_last s')) (goto S20 x y))"
    if "length (unread s) = Suc (length (unread s'))" "keep s s'" for s' x y
    using get_escape_ok[of "drop_last s'"] that
    by (cases "get_escape (drop_last s')") (auto simp: step_simps)
  then show ?thesis
    by (auto simp: look_20_def intro!: read_orI raw_close_ok split: option.split) (auto simp: step_simps)
qed

lemma char_step: "holds b (step_post S9 s) (look_9 c d s)"
proof -
  have "holds b (step_post S9 s) (res_bind (get_escape (drop_last s')) (goto S9 x y))"
    if "length (unread s) = Suc (length (unread s'))" "keep s s'" for s' x y
    using get_escape_ok[of "drop_last s'"] that
    by (cases "get_escape (drop_last s')") (auto simp: step_simps)
  then show ?thesis
    by (auto simp: look_9_def intro!: read_orI) (auto simp: step_simps)
qed

lemma delimiter_step: "holds b (step_post S2 s) (look_2 c d s)"
  by (auto simp: look_2_def step_simps intro!: stepI split: option.split)

theorem look_step_ok: "holds (need st \<le> length (sc_text s)) (step_post st s) (look_step st c d s)"
  using op_steps[of st s c d] ident_steps[of st s c d] number_steps[of s c d] comment_steps[of st s c d] start_step[of _ s c d]
    string_step[of _ s c d] char_step[of _ s c d] delimiter_step[of _ s c d]
  by (cases st) simp_all

lemma look_step_decreases:
  assumes "look_step st c d s = Inr (Goto st' c' d' s')"
  shows "pot st' s' < pot st s \<or> pot st' s' = pot st s \<and> lrank st' < lrank st"
  using look_step_ok[of st s c d] assms by (simp add: holds_def step_post_def)

section \<open>The loop\<close>

function look_loop :: "lstate \<Rightarrow> char \<Rightarrow> string option \<Rightarrow> Scanner \<Rightarrow> (int \<times> Scanner) res" where
  "look_loop st c d s =
     (case look_step st c d s of
        Inl e \<Rightarrow> Inl e
      | Inr (Ret t s') \<Rightarrow> Inr (t, s')
      | Inr (Goto st' c' d' s') \<Rightarrow> look_loop st' c' d' s')"
  by pat_completeness auto
termination
  by (relation "measures [\<lambda>(st, c, d, s). pot st s, \<lambda>(st, c, d, s). lrank st]")
     (auto dest: look_step_decreases)

declare look_loop.simps [simp del]

definition look :: "Scanner \<Rightarrow> (int \<times> Scanner) res" where
  "look s = look_loop S0 NUL None (s\<lparr>sc_text := [], start_line := sc_line s\<rparr>)"

definition Scanner_token :: "Scanner \<Rightarrow> (int \<times> Scanner) res" where
  "Scanner_token s =
     res_bind (delete_error s) (\<lambda>s1.
       if nexttoken s1 \<ge> 0 then Inr (nexttoken s1, s1\<lparr>nexttoken := -1\<rparr>)
       else look (s1\<lparr>start_line := 0\<rparr>))"

section \<open>Locators\<close>

text \<open>\<^verbatim>\<open>atoi\<close>, whose result is undefined when the number does not fit.\<close>

definition atoi :: "string \<Rightarrow> int res" where
  "atoi w =
     (let w1 = dropWhile isspace w;
          neg = (w1 \<noteq> [] \<and> hd w1 = CHR ''-'');
          w2 = (if w1 \<noteq> [] \<and> (hd w1 = CHR ''-'' \<or> hd w1 = CHR ''+'') then tl w1 else w1);
          v = foldl (\<lambda>a c. a * 10 + (int (cc c) - 48)) 0 (takeWhile isdigit w2);
          r = (if neg then - v else v)
      in if - int_max - 1 \<le> r \<and> r \<le> int_max then Inr r else Inl Undefined)"

definition field_end :: "char \<Rightarrow> bool" where
  "field_end c \<longleftrightarrow> c = CHR ''@'' \<or> c = CHR '',''"

definition push_location :: "string \<Rightarrow> Scanner \<Rightarrow> Scanner res" where
  \<comment> \<open>the locator after its eighth character: a file name, a line number, and the rest\<close>
  "push_location w s =
     (let fn = takeWhile (\<lambda>c. \<not> field_end c) w;
          w1 = drop 1 (dropWhile (\<lambda>c. \<not> field_end c) w);
          n = takeWhile (\<lambda>c. \<not> field_end c) w1
      in res_bind (atoi n) (\<lambda>v.
         Inr (Scanner_set_location
               (s\<lparr>locs := (cparse_file s, cparse_line s) # locs s, cparse_file := Some fn, cparse_line := v\<rparr>) (Some fn) v)))"

definition pop_location :: "Scanner \<Rightarrow> Scanner" where
  "pop_location s =
     (case locs s of
        [] \<Rightarrow> s
      | (f, n) # ls \<Rightarrow> (Scanner_set_location s f n)\<lparr>cparse_file := f, cparse_line := n, locs := ls\<rparr>)"

definition Scanner_locator :: "Scanner \<Rightarrow> string \<Rightarrow> Scanner res" where
  "Scanner_locator s loc =
     (if \<not> follow_locators s then
        let n = (if loc = ''/*@SWIG@*/'' then (if expanding_macro s \<noteq> 0 then expanding_macro s - 1 else expanding_macro s)
                 else expanding_macro s + 1)
        in Inr (freeze_line (s\<lparr>expanding_macro := n\<rparr>) n)
      else if drop 7 loc \<noteq> [] \<and> hd (drop 7 loc) = CHR ''@'' then Inr (pop_location s)
      else push_location (drop 8 loc) s)"

definition Swig_cparse_follow_locators :: "bool \<Rightarrow> Scanner \<Rightarrow> Scanner" where
  "Swig_cparse_follow_locators v s = s\<lparr>follow_locators := v\<rparr>"

section \<open>Skipping\<close>

function skip_line_loop :: "Scanner \<Rightarrow> Scanner" where
  "skip_line_loop s =
     (case nextchar s of
        (None, s1) \<Rightarrow> s1
      | (Some c, s1) \<Rightarrow>
          if c = CHR 0x5C then (case nextchar s1 of (x, s2) \<Rightarrow> skip_line_loop s2)
          else if c = NL then s1
          else skip_line_loop s1)"
  by pat_completeness auto
termination
proof (relation "measure (\<lambda>s. length (unread s))", goal_cases)
  case (2 s x y c x' s2)
  then show ?case using nextchar_Some(1)[of s c y] nextchar_unread[of y x' s2] by auto
next
  case (3 s x y c)
  then show ?case using nextchar_Some(1)[of s c y] by simp
qed simp

declare skip_line_loop.simps [simp del]

definition Scanner_skip_line :: "Scanner \<Rightarrow> Scanner" where
  "Scanner_skip_line s = skip_line_loop (s\<lparr>sc_text := []\<rparr>)"

text \<open>
  The states of the two functions that skip balanced text; \<open>B40\<close> to \<open>B45\<close> only exist in \<^verbatim>\<open>Scanner_skip_balanced\<close>.
  A step gets the brackets, the character, the state and the number of open brackets.
\<close>

datatype bstate = B0 | B10 | B11 | B12 | B13 | B14 | B20 | B21 | B30 | B31 | B40 | B41 | B42 | B43 | B44 | B45

fun raw_step :: "char \<Rightarrow> char \<Rightarrow> char \<Rightarrow> bstate \<Rightarrow> int \<Rightarrow> bstate \<times> int" where
  "raw_step a z c B0 n =
     (if c = a then (B0, n + 1) else if c = z then (B0, n - 1) else if c = CHR ''/'' then (B10, n)
      else if c = CHR 0x22 then (B20, n) else if c = CHR 0x27 then (B30, n) else (B0, n))"
| "raw_step a z c B10 n =
     (if c = CHR ''/'' then (B11, n) else if c = CHR ''*'' then (B12, n) else if c = a then (B0, n + 1) else (B0, n))"
| "raw_step a z c B11 n = (if c = NL then (B0, n) else (B11, n))"
| "raw_step a z c B12 n = (if c = CHR ''*'' then (B14, n) else (B13, n))"
| "raw_step a z c B13 n = (if c = CHR ''*'' then (B14, n) else (B13, n))"
| "raw_step a z c B14 n = (if c = CHR ''*'' then (B14, n) else if c = CHR ''/'' then (B0, n) else (B13, n))"
| "raw_step a z c B20 n = (if c = CHR 0x22 then (B0, n) else if c = CHR 0x5C then (B21, n) else (B20, n))"
| "raw_step a z c B21 n = (B20, n)"
| "raw_step a z c B30 n = (if c = CHR 0x27 then (B0, n) else if c = CHR 0x5C then (B31, n) else (B30, n))"
| "raw_step a z c B31 n = (B30, n)"
| "raw_step a z c st n = (st, n)"

definition in_comment :: "char \<Rightarrow> bstate" where
  "in_comment c = (if c = CHR ''*'' then B14 else B13)"

text \<open>One character of \<^verbatim>\<open>Scanner_skip_balanced\<close>, with the text of the locator that is read.\<close>

fun skip_step :: "char \<Rightarrow> char \<Rightarrow> char \<Rightarrow> bstate \<Rightarrow> int \<Rightarrow> string \<Rightarrow> bstate \<times> int \<times> string" where
  "skip_step a z c B12 n loc =
     (if c = CHR ''*'' then B14 else if c = CHR ''@'' then B40 else B13, n, loc)"
| "skip_step a z c B40 n loc = (if c = CHR ''S'' then B41 else in_comment c, n, loc)"
| "skip_step a z c B41 n loc = (if c = CHR ''W'' then B42 else in_comment c, n, loc)"
| "skip_step a z c B42 n loc = (if c = CHR ''I'' then B43 else in_comment c, n, loc)"
| "skip_step a z c B43 n loc = (if c = CHR ''G'' then (B44, n, ''/*@SWIG'') else (in_comment c, n, loc))"
| "skip_step a z c B44 n loc = (if c = CHR ''*'' then B45 else B44, n, loc @ [c])"
| "skip_step a z c B45 n loc = (if c = CHR ''/'' then (B0, n, loc @ [c]) else (in_comment c, n, loc))"
| "skip_step a z c st n loc = (case raw_step a z c st n of (st', n') \<Rightarrow> (st', n', loc))"

lemma unread_set_location [simp]: "unread (Scanner_set_location s f n) = unread s"
  by (auto simp: Scanner_set_location_def unread_def src_rest_def split: list.split)

lemma unread_other [simp]:
  "unread (s\<lparr>expanding_macro := i\<rparr>) = unread s" "unread (s\<lparr>locs := ls\<rparr>) = unread s" "unread (freeze_line s i) = unread s"
  "unread (s\<lparr>cparse_file := f\<rparr>) = unread s" "unread (s\<lparr>cparse_line := i\<rparr>) = unread s"
  by (simp_all add: unread_def freeze_line_def)

lemma locator_unread: "Scanner_locator s loc = Inr s' \<Longrightarrow> unread s' = unread s"
  by (auto simp: Scanner_locator_def push_location_def pop_location_def Let_def res_bind_eq_Inr split: if_split_asm list.split_asm)

function skip_bal :: "char \<Rightarrow> char \<Rightarrow> bstate \<Rightarrow> int \<Rightarrow> string \<Rightarrow> Scanner \<Rightarrow> (int \<times> Scanner) res" where
  "skip_bal a z st n loc s =
     (if n \<le> 0 then Inr (0, s)
      else case nextchar s of
        (None, s1) \<Rightarrow> Inr (-1, s1)
      | (Some c, s1) \<Rightarrow>
          (case skip_step a z c st n loc of
             (st', n', loc') \<Rightarrow>
               if st = B45 \<and> c = CHR ''/'' then
                 (case Scanner_locator s1 loc' of Inl e \<Rightarrow> Inl e | Inr s2 \<Rightarrow> skip_bal a z st' n' loc' s2)
               else skip_bal a z st' n' loc' s1))"
  by pat_completeness auto
termination
proof (relation "measure (\<lambda>(a, z, st, n, loc, s). length (unread s))", goal_cases)
  case (2 a z st n loc s x s1 c st' y' n' loc' s2)
  then show ?case using nextchar_Some(1)[of s c s1] locator_unread[of s1 loc' s2] by simp
next
  case (3 a z st n loc s x s1 c st' y' n' loc')
  then show ?case using nextchar_Some(1)[of s c s1] by simp
qed simp

declare skip_bal.simps [simp del]

definition Scanner_skip_balanced :: "Scanner \<Rightarrow> char \<Rightarrow> char \<Rightarrow> (int \<times> Scanner) res" where
  "Scanner_skip_balanced s startchar endchar = skip_bal startchar endchar B0 1 [] (s\<lparr>sc_text := [startchar]\<rparr>)"

text \<open>\<^verbatim>\<open>Seek(s->str, position, SEEK_SET)\<close> on a text that is not empty; the loops of \<^verbatim>\<open>String_seek\<close> count the lines.\<close>

definition src_seek :: "nat \<Rightarrow> source \<Rightarrow> source" where
  "src_seek p o' =
     (let q = min p (length (src_text o')); i = src_sp o' in
      o'\<lparr>src_sp := q,
         src_line := (if q > i then src_line o' + count_nl (take (q - i) (drop (i + 1) (src_text o')))
                      else src_line o' - count_nl (take (i - q) (drop q (src_text o'))))\<rparr>)"

function raw_bal :: "char \<Rightarrow> char \<Rightarrow> bstate \<Rightarrow> int \<Rightarrow> Scanner \<Rightarrow> bool \<times> Scanner" where
  "raw_bal a z st n s =
     (if n \<le> 0 then (True, s)
      else case nextchar s of
        (None, s1) \<Rightarrow> (False, s1)
      | (Some c, s1) \<Rightarrow> (case raw_step a z c st n of (st', n') \<Rightarrow> raw_bal a z st' n' s1))"
  by pat_completeness auto
termination
  by (relation "measure (\<lambda>(a, z, st, n, s). length (unread s))") (auto dest!: nextchar_Some(1) sym[of "(_, _)"])

declare raw_bal.simps [simp del]

definition Scanner_get_raw_text_balanced :: "Scanner \<Rightarrow> char \<Rightarrow> char \<Rightarrow> (string option \<times> Scanner) res" where
  "Scanner_get_raw_text_balanced s startchar endchar =
     (case scanobjs s of
        [] \<Rightarrow> Inl NullDeref
      | o' # _ \<Rightarrow>
          (case raw_bal startchar endchar B0 1 (s\<lparr>sc_text := [startchar]\<rparr>) of
             (False, s1) \<Rightarrow> Inr (None, s1\<lparr>sc_text := sc_text s, sc_line := sc_line s\<rparr>)
           | (True, s1) \<Rightarrow>
               Inr (Some (sc_text s1),
                    s1\<lparr>scanobjs := (case scanobjs s1 of [] \<Rightarrow> [] | p # ps \<Rightarrow> src_seek (src_sp o') p # ps),
                       sc_text := sc_text s, sc_line := sc_line s\<rparr>)))"

end
