(* ===== verification/Swig_Scanner_Laws.thy ===== *)
theory Swig_Scanner_Laws
  imports Swig_Scanner
begin

text \<open>
  What the scanner guarantees. Reading tokens always ends; the lexemes that a printer separates by blanks are read back
  as they were (identifiers, integers, string literals and every operator); text between brackets is skipped up to the
  bracket that closes it, by both functions that do so (the locale \<open>bracket_machine\<close> is their common contract); and
  looking ahead leaves the scanner as it was. The last section shows where the code departs from C++.
\<close>

section \<open>The texts are Strings\<close>

definition as_source :: "String \<Rightarrow> source" where
  "as_source s = \<lparr>src_text = contents s, src_sp = nat (str_sp s), src_line = str_line s, src_file = None\<rparr>"

lemma getc_as_source:
  assumes "wf_string s"
  shows "case src_getc (as_source s) of
      None \<Rightarrow> String_getc s = Inr (None, s)
    | Some (c, o') \<Rightarrow> \<exists>s'. String_getc s = Inr (Some c, s') \<and> wf_string s' \<and> as_source s' = o'"
proof (cases "at_pos s")
  case Nil
  then have "src_getc (as_source s) = None" by (simp add: src_getc_def as_source_def at_pos_def)
  with String_getc_spec[OF assms] Nil show ?thesis by simp
next
  case (Cons c rest)
  have i: "nat (str_sp s) < length (contents s)" "contents s ! nat (str_sp s) = c"
    using Cons by (auto simp: at_pos_def) (metis drop_all linorder_not_le list.distinct(1), metis hd_drop_conv_nth list.sel(1) drop_all linorder_not_le list.distinct(1))
  from String_getc_spec[OF assms] Cons obtain s' where s': "String_getc s = Inr (Some c, s')" "wf_string s'"
    "contents s' = contents s" "str_sp s' = str_sp s + 1" "drift s' = drift s" by auto
  have sp: "0 \<le> str_sp s" using wf_stringD(1)[OF assms] .
  then have n: "nat (str_sp s + 1) = Suc (nat (str_sp s))" by simp
  have "str_line s' = str_line s + count_nl [c]"
    using s'(3-5) i sp by (simp add: drift_def n take_Suc_conv_app_nth)
  with s' i n have "src_getc (as_source s) = Some (c, as_source s')"
    by (simp add: src_getc_def as_source_def Let_def)
  with s' show ?thesis by auto
qed

lemma back_as_source:
  assumes "wf_string s" "0 < str_len s"
  shows "\<exists>s'. String_seek s (-1) SEEK_CUR = Inr s' \<and> wf_string s' \<and> as_source s' = src_back (as_source s)"
proof -
  note w = wf_stringD[OF assms(1)]
  have t: "seek_target s (-1) SEEK_CUR = (if str_sp s = 0 then 0 else str_sp s - 1)"
    using w assms(2) by (auto simp: seek_target_def)
  have "seek_target s (-1) SEEK_CUR \<le> str_sp s" using t w(1) by simp
  from String_seek_backward[OF assms this] obtain s' where s': "String_seek s (-1) SEEK_CUR = Inr s'" "wf_string s'"
    "contents s' = contents s" "str_sp s' = seek_target s (-1) SEEK_CUR" "drift s' = drift s" by auto
  have "as_source s' = src_back (as_source s)"
  proof (cases "str_sp s = 0")
    case True
    then show ?thesis using s' t by (simp add: as_source_def src_back_def drift_def)
  next
    case False
    then have sp: "0 < str_sp s" using w(1) by simp
    have n: "nat (str_sp s) = Suc (nat (str_sp s - 1))" using sp by simp
    have l: "nat (str_sp s - 1) < length (contents s)" using w length_contents[OF assms(1)] sp by simp
    have "str_line s = str_line s' + count_nl [contents s ! nat (str_sp s - 1)]"
      using s'(3-5) t False l by (simp add: drift_def n take_Suc_conv_app_nth)
    then show ?thesis using s'(3,4) t False n by (simp add: as_source_def src_back_def)
  qed
  with s' show ?thesis by auto
qed

section \<open>Reading until the end\<close>

definition token_post :: "bool \<Rightarrow> Scanner \<Rightarrow> nat \<Rightarrow> (int \<times> Scanner) res \<Rightarrow> bool" where
  "token_post strict s n r =
     (case r of
        Inl e \<Rightarrow> e \<in> {Exited 1, Undefined, OutOfBounds}
      | Inr (t, s') \<Rightarrow> token_code t \<and> nexttoken s' = nexttoken s \<and>
          (sc_error s' = sc_error s \<or> t = 0 \<and> (\<exists>m. sc_error s' = ErrorText m)) \<and>
          length (unread s') \<le> n \<and> (strict \<and> t \<noteq> 0 \<longrightarrow> length (unread s') < n))"

lemma look_loop_ok:
  "need st \<le> length (sc_text s) \<Longrightarrow> token_post (st = S0 \<or> st = S1000) s (pot st s) (look_loop st c d s)"
proof (induction st c d s rule: look_loop.induct)
  case (1 st c d s)
  have ok: "holds True (step_post st s) (look_step st c d s)"
    using look_step_ok[of st s c d] "1.prems" by simp
  show ?case
  proof (cases "look_step st c d s")
    case (Inl e)
    with ok show ?thesis by (simp add: look_loop.simps[of st] token_post_def)
  next
    case (Inr x)
    show ?thesis
    proof (cases x)
      case (Ret t s')
      with ok Inr show ?thesis by (auto simp: look_loop.simps[of st] token_post_def step_post_def holds_def)
    next
      case (Goto st' c' d' s')
      have post: "step_post st s (Goto st' c' d' s')" using ok Inr Goto by (simp add: holds_def)
      then have "need st' \<le> length (sc_text s')" using "1.prems" by (simp add: step_post_def)
      from "1.IH"[OF Inr Goto this] post Inr Goto show ?thesis
        by (auto simp: look_loop.simps[of st] token_post_def step_post_def keep_def split: sum.split)
    qed
  qed
qed

lemma look_ok: "token_post True s (length (unread s)) (look s)"
  using look_loop_ok[of S0 "s\<lparr>sc_text := [], start_line := sc_line s\<rparr>" NUL None]
  by (auto simp: look_def token_post_def pot_def unread_def split: sum.splits)

lemma delete_error_ok:
  "sc_error s \<noteq> ErrorFreed \<Longrightarrow> \<exists>s'. delete_error s = Inr s' \<and> unread s' = unread s \<and> nexttoken s' = nexttoken s \<and>
     (sc_error s = NoError \<longrightarrow> s' = s)"
  by (cases "sc_error s") (auto simp: delete_error_def unread_def)

text \<open>Reading until the end: the client's loop, with a bound on the calls.\<close>

fun read_tokens :: "nat \<Rightarrow> Scanner \<Rightarrow> (token list \<times> Scanner) res" where
  "read_tokens 0 s = Inl Diverges"
| "read_tokens (Suc n) s =
     res_bind (Scanner_token s) (\<lambda>(t, s').
       if t = 0 then Inr ([], s')
       else res_bind (read_tokens n s') (\<lambda>(ts, s''). Inr ((t, Scanner_text s') # ts, s'')))"





lemma token_clean:
  assumes "sc_error s = NoError" "nexttoken s < 0"
  shows "case Scanner_token s of Inl e \<Rightarrow> e \<in> {Exited 1, Undefined, OutOfBounds}
    | Inr (t, s') \<Rightarrow> t \<noteq> 0 \<longrightarrow> sc_error s' = NoError \<and> nexttoken s' < 0 \<and> length (unread s') < length (unread s)"
proof -
  have "unread (s\<lparr>start_line := 0\<rparr>) = unread s" by (simp add: unread_def)
  then show ?thesis using look_ok[of "s\<lparr>start_line := 0\<rparr>"] assms
    by (auto simp: Scanner_token_def token_post_def delete_error_def split: sum.split_asm prod.split_asm sum.split prod.split)
qed

lemma read_tokens_ends:
  "sc_error s = NoError \<Longrightarrow> nexttoken s < 0 \<Longrightarrow> length (unread s) < n \<Longrightarrow>
   (\<exists>e \<in> {Exited 1, Undefined, OutOfBounds}. read_tokens n s = Inl e) \<or>
   (\<exists>ts s'. read_tokens n s = Inr (ts, s') \<and> length ts \<le> length (unread s))"
proof (induction n arbitrary: s)
  case (Suc n)
  show ?case
  proof (cases "Scanner_token s")
    case (Inl e)
    then show ?thesis using token_clean[OF Suc.prems(1,2)] by auto
  next
    case (Inr p)
    obtain t s' where p: "p = (t, s')" by (cases p)
    show ?thesis
    proof (cases "t = 0")
      case True
      then show ?thesis using Inr p by simp
    next
      case False
      then have s': "sc_error s' = NoError" "nexttoken s' < 0" "length (unread s') < length (unread s)"
        using token_clean[OF Suc.prems(1,2)] Inr p by auto
      then have "length (unread s') < n" using Suc.prems(3) by linarith
      from Suc.IH[OF s'(1,2) this] show ?thesis using Inr p False s'(3) by auto
    qed
  qed
qed simp


text \<open>C38: Reading to the end ends. A client that asks for tokens until it gets zero gets it after at most one call
  more than there are characters left, unless a call stops the process first: every other token takes at
  least one character, also when several characters are put back.\<close>

theorem scanner_reaches_end:
  assumes "sc_error s = NoError" "nexttoken s < 0" "length (unread s) < n"
  shows "(\<exists>e \<in> {Exited 1, Undefined, OutOfBounds}. read_tokens n s = Inl e) \<or>
    (\<exists>ts s'. read_tokens n s = Inr (ts, s') \<and> length ts \<le> length (unread s))"
  using assms by (rule read_tokens_ends)

theorem scanner_reaches_end_witness:
  "let s = Scanner_push NewScanner \<lparr>src_text = ''1.5e+x /* '', src_sp = 0, src_line = 1, src_file = None\<rparr> in
   read_tokens 11 s = Inl (Exited 1) \<or> read_tokens 11 s = Inl Undefined \<or> read_tokens 11 s = Inl OutOfBounds \<or>
   (\<exists>ts s'. read_tokens 11 s = Inr (ts, s'))"
proof -
  let ?s = "Scanner_push NewScanner \<lparr>src_text = ''1.5e+x /* '', src_sp = 0, src_line = 1, src_file = None\<rparr>"
  have "sc_error ?s = NoError" "nexttoken ?s < 0" "length (unread ?s) < 11"
    by (simp_all add: NewScanner_def brackets_push_def Scanner_push_def unread_def src_rest_def)
  from scanner_reaches_end[OF this] show ?thesis by (auto simp del: read_tokens.simps)
qed

section \<open>Running the scanner on a text\<close>

text \<open>
  \<open>reading f l r w t n b s\<close> is the scanner \<open>s\<close> on a single text whose part before the position is \<open>r\<close>, read
  backwards, and whose part after it is \<open>w\<close>; the token text is \<open>t\<close>, the start line \<open>n\<close> and the bracket counts are \<open>b\<close>.
  The simplifier can run the state machine on it.
\<close>

definition reading :: "string option \<Rightarrow> int \<Rightarrow> string \<Rightarrow> string \<Rightarrow> string \<Rightarrow> int \<Rightarrow> int list \<Rightarrow> Scanner \<Rightarrow> Scanner" where
  "reading f l r w t n b s =
     s\<lparr>scanobjs := [\<lparr>src_text = rev r @ w, src_sp = length r, src_line = l, src_file = f\<rparr>],
       sc_text := t, start_line := n, brackets := b\<rparr>"

lemma reading_fields [simp]:
  "sc_text (reading f l r w t n b s) = t" "brackets (reading f l r w t n b s) = b"
  "sc_line (reading f l r w t n b s) = sc_line s" "start_line (reading f l r w t n b s) = n"
  "idstart (reading f l r w t n b s) = idstart s" "nexttoken (reading f l r w t n b s) = nexttoken s"
  "sc_error (reading f l r w t n b s) = sc_error s" "cparse_cplusplus (reading f l r w t n b s) = cparse_cplusplus s"
  "unread (reading f l r w t n b s) = w"
  by (simp_all add: reading_def unread_def src_rest_def)

lemma reading_updates [simp]:
  "(reading f l r w t n b s)\<lparr>sc_text := v\<rparr> = reading f l r w v n b s"
  "(reading f l r w t n b s)\<lparr>brackets := b'\<rparr> = reading f l r w t n b' s"
  "(reading f l r w t n b s)\<lparr>start_line := m\<rparr> = reading f l r w t m b s"
  by (simp_all add: reading_def)

lemma nextchar_reading [simp]:
  "c \<noteq> NUL \<Longrightarrow> c \<noteq> NL \<Longrightarrow>
   nextchar (reading f l r (c # w) t n b s) = (Some c, reading f l (c # r) w (t @ [c]) n b s)"
  unfolding nextchar.simps[of "reading f l r (c # w) t n b s"] by (simp add: reading_def src_getc_def nth_append)

lemma nextchar_reading_end:
  "nextchar (reading f l r [] t n b s) = (None, (reading f l r [] t n b s)\<lparr>scanobjs := []\<rparr>)"
  unfolding nextchar.simps[of "reading f l r [] t n b s"] by (simp add: reading_def src_getc_def)

lemma src_back_reading:
  "c \<noteq> NL \<Longrightarrow> src_back \<lparr>src_text = rev r @ c # w, src_sp = Suc (length r), src_line = l, src_file = f\<rparr> =
     \<lparr>src_text = rev r @ c # w, src_sp = length r, src_line = l, src_file = f\<rparr>"
  by (simp add: src_back_def nth_append)

lemma retract1 [simp]:
  "c \<noteq> NL \<Longrightarrow> t \<noteq> [] \<Longrightarrow> last t \<noteq> NL \<Longrightarrow>
   retract (reading f l (c # r) w t n b s) (Suc 0) = Inr (reading f l r (c # w) (butlast t) n b s)"
  by (simp add: retract_def reading_def src_back_reading butlast_conv_take Suc_le_eq)

lemma retract2 [simp]:
  "a \<noteq> NL \<Longrightarrow> c \<noteq> NL \<Longrightarrow> Suc 0 < length t \<Longrightarrow> last t \<noteq> NL \<Longrightarrow>
   retract (reading f l (c # a # r) w t n b s) 2 = Inr (reading f l r (a # c # w) (butlast (butlast t)) n b s)"
  using src_back_reading[of c "a # r" w l f] src_back_reading[of a r "c # w" l f]
  by (auto simp: retract_def reading_def butlast_conv_take Suc_le_eq numeral_2_eq_2)

lemma retract3 [simp]:
  "a \<noteq> NL \<Longrightarrow> a' \<noteq> NL \<Longrightarrow> c \<noteq> NL \<Longrightarrow> Suc (Suc 0) < length t \<Longrightarrow> last t \<noteq> NL \<Longrightarrow>
   retract (reading f l (c # a' # a # r) w t n b s) 3 =
     Inr (reading f l r (a # a' # c # w) (butlast (butlast (butlast t))) n b s)"
  using src_back_reading[of c "a' # a # r" w l f] src_back_reading[of a' "a # r" "c # w" l f]
    src_back_reading[of a r "a' # c # w" l f]
  by (auto simp: retract_def reading_def butlast_conv_take Suc_le_eq numeral_3_eq_3)

definition plain_start :: "Scanner \<Rightarrow> bool" where
  "plain_start s \<longleftrightarrow> idstart s = None \<or> idstart s = Some ''%''"

lemma ident_start_plain:
  "plain_start s \<Longrightarrow> c \<noteq> CHR ''%'' \<Longrightarrow> ident_start (reading f l r w t n b s) c \<longleftrightarrow> isalpha c \<or> c = CHR ''_''"
  by (auto simp: ident_start_def plain_start_def)

lemmas run_defs = read_or_def tok_def goto_def retract_tok_def retract_goto_def set_text_def mark_start_def drop_last_def
  set_count_def brackets_push_def brackets_pop_def brackets_clear_def brackets_reset_def brackets_increment_def
  brackets_decrement_def brackets_allow_shift_def brackets_count_def

lemmas run_start = look_0_def look_1000_def look_1000_symbol_def look_1000_multi_def

lemmas run_simps = look_loop.simps run_defs run_start ident_start_plain ctype_defs of_char_def

text \<open>Tokens with a fixed spelling.\<close>

definition spelling :: "(int \<times> string) list" where
  "spelling =
    [(SWIG_TOKEN_LPAREN, ''(''), (SWIG_TOKEN_RPAREN, '')''), (SWIG_TOKEN_SEMI, '';''), (SWIG_TOKEN_LBRACE, ''{''),
     (SWIG_TOKEN_RBRACE, ''}''), (SWIG_TOKEN_LBRACKET, ''[''), (SWIG_TOKEN_RBRACKET, '']''),
     (SWIG_TOKEN_BACKSLASH, [CHR 0x5C]), (SWIG_TOKEN_POUND, ''#''), (SWIG_TOKEN_COLON, '':''),
     (SWIG_TOKEN_DCOLON, ''::''), (SWIG_TOKEN_DCOLONSTAR, ''::*''), (SWIG_TOKEN_PERIOD, ''.''), (SWIG_TOKEN_AT, ''@''),
     (SWIG_TOKEN_DOLLAR, ''$''), (SWIG_TOKEN_QUESTION, ''?''), (SWIG_TOKEN_COMMA, '',''), (SWIG_TOKEN_STAR, ''*''),
     (SWIG_TOKEN_EQUAL, ''=''), (SWIG_TOKEN_EQUALTO, ''==''), (SWIG_TOKEN_NOTEQUAL, ''!=''), (SWIG_TOKEN_PLUS, ''+''),
     (SWIG_TOKEN_MINUS, ''-''), (SWIG_TOKEN_AND, ''&''), (SWIG_TOKEN_LAND, ''&&''), (SWIG_TOKEN_OR, ''|''),
     (SWIG_TOKEN_LOR, ''||''), (SWIG_TOKEN_XOR, ''^''), (SWIG_TOKEN_LESSTHAN, ''<''), (SWIG_TOKEN_GREATERTHAN, ''>''),
     (SWIG_TOKEN_LTEQUAL, ''<=''), (SWIG_TOKEN_GTEQUAL, ''>=''), (SWIG_TOKEN_NOT, ''~''), (SWIG_TOKEN_LNOT, ''!''),
     (SWIG_TOKEN_SLASH, ''/''), (SWIG_TOKEN_PERCENT, ''%''), (SWIG_TOKEN_LSHIFT, ''<<''), (SWIG_TOKEN_RSHIFT, ''>>''),
     (SWIG_TOKEN_PLUSPLUS, ''++''), (SWIG_TOKEN_MINUSMINUS, ''--''), (SWIG_TOKEN_PLUSEQUAL, ''+=''),
     (SWIG_TOKEN_MINUSEQUAL, ''-=''), (SWIG_TOKEN_TIMESEQUAL, ''*=''), (SWIG_TOKEN_DIVEQUAL, ''/=''),
     (SWIG_TOKEN_ANDEQUAL, ''&=''), (SWIG_TOKEN_OREQUAL, ''|=''), (SWIG_TOKEN_XOREQUAL, ''^=''),
     (SWIG_TOKEN_LSEQUAL, ''<<=''), (SWIG_TOKEN_RSEQUAL, ''>>=''), (SWIG_TOKEN_MODEQUAL, ''%=''),
     (SWIG_TOKEN_ARROW, ''->''), (SWIG_TOKEN_ARROWSTAR, ''->*'')]"

text \<open>What a token does to the counts of open template brackets.\<close>

definition token_brackets :: "int \<Rightarrow> int list \<Rightarrow> int list" where
  "token_brackets t b =
     (if t = SWIG_TOKEN_LPAREN then 0 # b
      else if t = SWIG_TOKEN_RPAREN then tl b
      else if t = SWIG_TOKEN_SEMI then [0]
      else case b of [] \<Rightarrow> []
         | k # ks \<Rightarrow> (if t = SWIG_TOKEN_LBRACE then 0 else if t = SWIG_TOKEN_LESSTHAN then k + 1
                       else if t = SWIG_TOKEN_GREATERTHAN then k - 1 else k) # ks)"

definition shift_ok :: "int \<Rightarrow> int list \<Rightarrow> bool" where
  "shift_ok t b \<longleftrightarrow> (t = SWIG_TOKEN_RSHIFT \<or> t = SWIG_TOKEN_RSEQUAL \<longrightarrow> (case b of [] \<Rightarrow> True | k # _ \<Rightarrow> k \<le> 0))"

text \<open>
  \<open>scans t w v b s\<close>: between blanks, the text \<open>v\<close> is read as the token \<open>t\<close> with the lexeme \<open>w\<close>, when \<open>b\<close> are the
  counts of open brackets.
\<close>

definition scans :: "int \<Rightarrow> string \<Rightarrow> string \<Rightarrow> int list \<Rightarrow> Scanner \<Rightarrow> bool" where
  "scans t w v b s \<longleftrightarrow> (\<forall>f l r rest.
     look_loop S0 NUL None (reading f l r ('' '' @ v @ '' '' @ rest) [] (sc_line s) b s) =
       Inr (t, reading f l (rev v @ '' '' @ r) ('' '' @ rest) w (sc_line s) (token_brackets t b) s))"

lemma spelled_token:
  assumes "(t, w) \<in> set spelling" "plain_start s" "shift_ok t b"
  shows "scans t w w b s"
  using assms(1)[unfolded spelling_def] assms(2,3)
  by (simp, elim disjE) (simp_all add: scans_def run_simps op_states comment_states number_states ident_states
    token_brackets_def shift_ok_def split: list.split list.split_asm)

lemma ident_char_not: "ident_char c \<Longrightarrow> c \<noteq> NUL \<and> c \<noteq> NL \<and> c \<noteq> CHR '' '' \<and> c \<noteq> CHR 0x22 \<and> c \<noteq> CHR 0x27"
  by (auto simp: ident_char_def ctype_defs of_char_def)

lemma not_ident_char [simp]: "\<not> ident_char CHR '' ''"
  by (simp add: ident_char_def ctype_defs of_char_def)

lemma ident_rest:
  "list_all ident_char w \<Longrightarrow> t \<noteq> [] \<Longrightarrow>
   look_loop S70 c0 d (reading f l r (w @ '' '' @ rest) t n b s) =
   look_loop S76 CHR '' '' d (reading f l (rev w @ r) ('' '' @ rest) (t @ w) n b s)"
proof (induction w arbitrary: c0 r t)
  case Nil
  then show ?case by (simp add: look_loop.simps[of S70] look_70_def run_defs)
next
  case (Cons c w)
  then show ?case using ident_char_not[of c] by (simp add: look_loop.simps[of S70] look_70_def run_defs)
qed

definition ident_token :: "Scanner \<Rightarrow> string \<Rightarrow> int" where
  "ident_token s w = (if cparse_cplusplus s \<and> (w = ''true'' \<or> w = ''false'') then SWIG_TOKEN_BOOL else SWIG_TOKEN_ID)"

lemma ident_end:
  "look_loop S76 c d (reading f l r w t n b s) = Inr (ident_token s t, reading f l r w t n b s)"
  by (simp add: look_loop.simps[of S76] look_76_def run_defs ident_token_def)

lemma ident_any:
  assumes "list_all ident_char w" "t \<noteq> []"
  shows "look_loop S70 c0 d (reading f l r (w @ '' '' @ rest) t n b s) =
     Inr (ident_token s (t @ w), reading f l (rev w @ r) ('' '' @ rest) (t @ w) n b s)"
  by (simp only: ident_rest[OF assms] ident_end)

text \<open>Identifiers that begin like a prefix of a string literal are identifiers none the less.\<close>

lemma raw_prefix:
  assumes "list_all ident_char w" "t \<noteq> []" "last t \<noteq> NL"
  shows "look_loop S72 c0 d (reading f l r (w @ '' '' @ rest) t n b s) =
     Inr (ident_token s (t @ w), reading f l (rev w @ r) ('' '' @ rest) (t @ w) n b s)"
proof (cases w)
  case Nil
  with ident_any[OF assms(1,2)] show ?thesis by (simp add: look_loop.simps[of S72] look_72_def maybe_raw_def run_defs)
next
  case (Cons x w')
  with ident_any[OF assms(1,2)] ident_char_not[of x] assms(1) show ?thesis
    by (simp add: look_loop.simps[of S72] look_72_def maybe_raw_def run_defs)
qed

lemma raw_prefix2:
  assumes "list_all ident_char w" "t \<noteq> []" "last t \<noteq> NL"
  shows "look_loop S73 c0 d (reading f l (CHR ''R'' # r) (w @ '' '' @ rest) (t @ ''R'') n b s) =
     Inr (ident_token s (t @ ''R'' @ w), reading f l (rev w @ CHR ''R'' # r) ('' '' @ rest) (t @ ''R'' @ w) n b s)"
proof -
  have R: "list_all ident_char (CHR ''R'' # w)" using assms(1) by (simp add: ident_char_def ctype_defs of_char_def)
  show ?thesis
  proof (cases w)
    case Nil
    with ident_any[OF R assms(2), of _ d f l r rest] show ?thesis
      by (simp add: look_loop.simps[of S73] look_73_def maybe_raw_def run_defs butlast_append)
  next
    case (Cons x w')
    with ident_any[OF R assms(2), of _ d f l r rest] ident_char_not[of x] assms(1) show ?thesis
      by (simp add: look_loop.simps[of S73] look_73_def maybe_raw_def run_defs butlast_append)
  qed
qed

lemma raw_prefix3:
  assumes "list_all ident_char w" "t \<noteq> []" "last t \<noteq> NL"
  shows "look_loop S74 c0 d (reading f l (CHR ''R'' # CHR ''8'' # r) (w @ '' '' @ rest) (t @ ''8R'') n b s) =
     Inr (ident_token s (t @ ''8R'' @ w), reading f l (rev w @ CHR ''R'' # CHR ''8'' # r) ('' '' @ rest) (t @ ''8R'' @ w) n b s)"
proof -
  have R: "list_all ident_char (CHR ''8'' # CHR ''R'' # w)" using assms(1) by (simp add: ident_char_def ctype_defs of_char_def)
  show ?thesis
  proof (cases w)
    case Nil
    with ident_any[OF R assms(2), of _ d f l r rest] show ?thesis
      by (simp add: look_loop.simps[of S74] look_74_def maybe_raw_def run_defs butlast_append)
  next
    case (Cons x w')
    with ident_any[OF R assms(2), of _ d f l r rest] ident_char_not[of x] assms(1) show ?thesis
      by (simp add: look_loop.simps[of S74] look_74_def maybe_raw_def run_defs butlast_append)
  qed
qed

lemma u8_prefix:
  assumes "list_all ident_char w" "t \<noteq> []" "last t \<noteq> NL"
  shows "look_loop S71 c0 d (reading f l (CHR ''8'' # r) (w @ '' '' @ rest) (t @ ''8'') n b s) =
     Inr (ident_token s (t @ ''8'' @ w), reading f l (rev w @ CHR ''8'' # r) ('' '' @ rest) (t @ ''8'' @ w) n b s)"
proof -
  have R: "list_all ident_char (CHR ''8'' # w)" using assms(1) by (simp add: ident_char_def ctype_defs of_char_def)
  show ?thesis
  proof (cases w)
    case Nil
    with ident_any[OF R assms(2), of _ d f l r rest] show ?thesis
      by (simp add: look_loop.simps[of S71] look_71_def run_defs butlast_append)
  next
    case (Cons x w')
    show ?thesis
    proof (cases "x = CHR ''R''")
      case True
      with Cons raw_prefix3[of w' t] assms show ?thesis
        by (simp add: look_loop.simps[of S71] look_71_def run_defs)
    next
      case False
      with Cons ident_any[OF R assms(2), of _ d f l r rest] ident_char_not[of x] assms(1) show ?thesis
        by (simp add: look_loop.simps[of S71] look_71_def run_defs butlast_append)
    qed
  qed
qed

lemma u_prefix:
  assumes "list_all ident_char w" "t \<noteq> []" "last t \<noteq> NL" "c0 = CHR ''u'' \<or> c0 = CHR ''U''"
  shows "look_loop S7 c0 d (reading f l r (w @ '' '' @ rest) t n b s) =
     Inr (ident_token s (t @ w), reading f l (rev w @ r) ('' '' @ rest) (t @ w) n b s)"
proof (cases w)
  case Nil
  with ident_any[OF assms(1,2), of _ d f l r rest] assms(4) show ?thesis
    by (auto simp: look_loop.simps[of S7] look_7_def run_defs)
next
  case (Cons x w')
  show ?thesis
  proof (cases "x = CHR ''R'' \<or> x = CHR ''8''")
    case True
    with Cons raw_prefix2[of w' t] u8_prefix[of w' t] assms show ?thesis
      by (auto simp: look_loop.simps[of S7] look_7_def run_defs)
  next
    case False
    with Cons ident_any[OF assms(1,2), of _ d f l r rest] ident_char_not[of x] assms(1,4) show ?thesis
      by (auto simp: look_loop.simps[of S7] look_7_def run_defs)
  qed
qed

lemma ident_token_L: "t = v @ ''L'' \<Longrightarrow> ident_token s t = SWIG_TOKEN_ID"
  by (auto simp: ident_token_def dest: arg_cong[of _ _ rev])

lemma ident_from:
  "list_all ident_char w \<Longrightarrow> t = v @ [c0] \<Longrightarrow> c0 \<noteq> NL \<Longrightarrow>
   look_loop S7 c0 d (reading f l r (w @ '' '' @ rest) t n b s) =
     Inr (ident_token s (t @ w), reading f l (rev w @ r) ('' '' @ rest) (t @ w) n b s)"
proof (induction w arbitrary: c0 r t v)
  case Nil
  show ?case
  proof (cases "c0 = CHR ''u'' \<or> c0 = CHR ''U''")
    case True
    then show ?thesis using u_prefix[of "[]" t c0] Nil by simp
  next
    case False
    with Nil raw_prefix[of "[]" t] ident_any[of "[]" t] show ?thesis
      by (cases "c0 = CHR ''L''") (auto simp: butlast_append look_loop.simps[of S7] look_7_def look_loop.simps[of S77] look_77_def run_defs ident_token_L)
  qed
next
  case (Cons x w)
  show ?case
  proof (cases "c0 = CHR ''u'' \<or> c0 = CHR ''U''")
    case True
    then show ?thesis using u_prefix[of "x # w" t c0] Cons.prems by simp
  next
    case notu: False
    show ?thesis
    proof (cases "c0 = CHR ''L''")
      case True
      have "look_loop S7 x d (reading f l (x # r) (w @ '' '' @ rest) (t @ [x]) n b s) =
         Inr (ident_token s ((t @ [x]) @ w), reading f l (rev w @ x # r) ('' '' @ rest) ((t @ [x]) @ w) n b s)"
        using Cons.IH[of "t @ [x]" t x "x # r"] Cons.prems ident_char_not[of x] by simp
      with True Cons.prems ident_char_not[of x] show ?thesis
        by (simp add: look_loop.simps[of S7] look_7_def look_loop.simps[of S77] look_77_def run_defs)
    next
      case False
      with notu Cons.prems raw_prefix[of "x # w" t] ident_any[of "x # w" t] show ?thesis
        by (auto simp: look_loop.simps[of S7] look_7_def run_defs)
    qed
  qed
qed

lemma underscore_not_space: "\<not> isspace CHR ''_''"
  by (simp add: ctype_defs of_char_def)

text \<open>Every identifier.\<close>

definition c_identifier :: "string \<Rightarrow> bool" where
  "c_identifier w \<longleftrightarrow> (case w of [] \<Rightarrow> False | c # cs \<Rightarrow> (isalpha c \<or> c = CHR ''_'') \<and> list_all ident_char cs)"

lemma alpha_not: "isalpha c \<Longrightarrow> c \<noteq> NUL \<and> c \<noteq> NL \<and> c \<noteq> CHR ''%''"
  by (auto simp: ctype_defs of_char_def)

lemma alpha_not_space: "isalpha c \<Longrightarrow> \<not> isspace c"
  by (auto simp: isalpha_def isupper_def islower_def isspace_def)

lemma spell_identifier:
  assumes "c_identifier w" "plain_start s"
  shows "scans (ident_token s w) w w b s"
proof -
  obtain c cs where w: "w = c # cs" "isalpha c \<or> c = CHR ''_''" "list_all ident_char cs"
    using assms(1) by (auto simp: c_identifier_def split: list.split_asm)
  have c: "c \<noteq> NUL" "c \<noteq> NL" "c \<noteq> CHR ''%''" "\<not> isspace c"
    using w(2) alpha_not[of c] alpha_not_space[of c] underscore_not_space by auto
  have sp: "isspace CHR '' ''" by (simp add: ctype_defs of_char_def)
  have tb: "token_brackets (ident_token s w) b = b" by (auto simp: token_brackets_def ident_token_def split: list.split)
  show ?thesis
    using w c sp tb ident_from[of cs "[c]" "[]" c] ident_start_plain[OF assms(2)]
    by (simp add: scans_def look_loop.simps[of S0] look_loop.simps[of S1000] look_0_def look_1000_def run_defs)
qed

text \<open>Integer constants: decimal, octal and hexadecimal.\<close>

definition int_literal :: "string \<Rightarrow> bool" where
  "int_literal w \<longleftrightarrow>
     (case w of [] \<Rightarrow> False
      | c # cs \<Rightarrow> isdigit c \<and>
          (list_all isdigit cs \<or>
           c = CHR ''0'' \<and> (case cs of [] \<Rightarrow> False | x # hs \<Rightarrow> (x = CHR ''x'' \<or> x = CHR ''X'') \<and> list_all isxdigit hs)))"

lemma digit_not:
  assumes "isdigit c"
  shows "c \<noteq> NUL" "c \<noteq> NL" "c \<noteq> CHR ''.''" "c \<noteq> CHR ''%''" "c \<noteq> CHR ''_''" "\<not> is_e c" "\<not> is_f c" "\<not> is_l c" "\<not> is_u c"
    "\<not> isspace c" "\<not> isalpha c"
proof -
  show "\<not> isspace c" "\<not> isalpha c"
    using assms by (auto simp: isalpha_def isupper_def islower_def isspace_def isdigit_def)
qed (use assms in \<open>auto simp: ctype_defs of_char_def is_e_def is_f_def is_l_def is_u_def\<close>)

lemma xdigit_not: "isxdigit c \<Longrightarrow> c \<noteq> NUL \<and> c \<noteq> NL"
  by (auto simp: isxdigit_def ctype_defs of_char_def)

lemma blank_not [simp]:
  "\<not> isdigit CHR '' ''" "\<not> isxdigit CHR '' ''" "\<not> is_e CHR '' ''" "\<not> is_f CHR '' ''" "\<not> is_l CHR '' ''" "\<not> is_u CHR '' ''"
  "\<not> is_p CHR '' ''" "isspace CHR '' ''"
  by (simp_all add: isxdigit_def ctype_defs of_char_def is_e_def is_f_def is_l_def is_u_def is_p_def)

lemma decimal_rest:
  "list_all isdigit w \<Longrightarrow> t \<noteq> [] \<Longrightarrow>
   look_loop S8 c0 d (reading f l r (w @ '' '' @ rest) t n b s) =
   Inr (SWIG_TOKEN_INT, reading f l (rev w @ r) ('' '' @ rest) (t @ w) n b s)"
proof (induction w arbitrary: c0 r t)
  case (Cons c w)
  then show ?case using digit_not[of c] by (simp add: look_loop.simps[of S8] look_8_def run_defs)
qed (simp add: look_loop.simps[of S8] look_8_def run_defs)

lemma octal_rest:
  "list_all isdigit w \<Longrightarrow> t \<noteq> [] \<Longrightarrow>
   look_loop S84 c0 d (reading f l r (w @ '' '' @ rest) t n b s) =
   Inr (SWIG_TOKEN_INT, reading f l (rev w @ r) ('' '' @ rest) (t @ w) n b s)"
proof (induction w arbitrary: c0 r t)
  case (Cons c w)
  then show ?case using digit_not[of c] by (simp add: look_loop.simps[of S84] look_84_def run_defs)
qed (simp add: look_loop.simps[of S84] look_84_def run_defs)

lemma hex_rest:
  "list_all isxdigit w \<Longrightarrow> t \<noteq> [] \<Longrightarrow>
   look_loop S85 c0 d (reading f l r (w @ '' '' @ rest) t n b s) =
   Inr (SWIG_TOKEN_INT, reading f l (rev w @ r) ('' '' @ rest) (t @ w) n b s)"
proof (induction w arbitrary: c0 r t)
  case (Cons c w)
  then show ?case using xdigit_not[of c] by (simp add: look_loop.simps[of S85] look_85_def run_defs)
qed (simp add: look_loop.simps[of S85] look_85_def run_defs)

lemma not_symbol:
  assumes "isdigit c" "c \<noteq> CHR ''0''"
  shows "look_1000_symbol c d s = goto S8 c d s"
proof -
  have "c \<noteq> x" if "\<not> isdigit x" for x using assms that by auto
  then show ?thesis using assms by (simp add: look_1000_symbol_def look_1000_multi_def) (simp add: ctype_defs of_char_def)
qed

lemma zero_symbol: "look_1000_symbol CHR ''0'' d s = goto S83 CHR ''0'' d s"
  by (simp add: look_1000_symbol_def look_1000_multi_def)

lemma spell_int:
  assumes "int_literal w" "plain_start s"
  shows "scans SWIG_TOKEN_INT w w b s"
proof -
  obtain c cs where w: "w = c # cs" "isdigit c" using assms(1) by (auto simp: int_literal_def split: list.split_asm)
  have tb: "token_brackets SWIG_TOKEN_INT b = b" by (auto simp: token_brackets_def split: list.split)
  have start: "look_loop S0 NUL None (reading f l r ('' '' @ w @ '' '' @ rest) [] (sc_line s) b s) =
      look_loop (if c = CHR ''0'' then S83 else S8) c None (reading f l (c # CHR '' '' # r) (cs @ '' '' @ rest) [c] (sc_line s) b s)"
    for f l r rest
    using w(1) digit_not[OF w(2)] not_symbol[OF w(2)] ident_start_plain[OF assms(2), of c] zero_symbol
    by (cases "c = CHR ''0''")
       (simp_all add: look_loop.simps[of S0] look_loop.simps[of S1000] look_0_def look_1000_def run_defs)
  have "look_loop (if c = CHR ''0'' then S83 else S8) c None (reading f l (c # CHR '' '' # r) (cs @ '' '' @ rest) [c] (sc_line s) b s)
     = Inr (SWIG_TOKEN_INT, reading f l (rev w @ '' '' @ r) ('' '' @ rest) w (sc_line s) b s)" for f l r rest
  proof (cases "c = CHR ''0''")
    case False
    then have "list_all isdigit cs" using assms(1) w by (simp add: int_literal_def)
    with False w decimal_rest[of cs "[c]"] show ?thesis by simp
  next
    case True
    show ?thesis
    proof (cases cs)
      case Nil
      with True w(1) show ?thesis by (simp add: look_loop.simps[of S83] look_83_def run_defs)
    next
      case (Cons x hs)
      show ?thesis
      proof (cases "isdigit x")
        case True
        with Cons assms(1) w have "list_all isdigit cs" by (auto simp: int_literal_def ctype_defs of_char_def)
        with Cons True \<open>c = _\<close> w(1) octal_rest[of hs "[c, x]"] digit_not[of x] show ?thesis
          by (simp add: look_loop.simps[of S83] look_83_def run_defs)
      next
        case False
        with Cons assms(1) w have x: "x = CHR ''x'' \<or> x = CHR ''X''" "list_all isxdigit hs" by (auto simp: int_literal_def)
        with Cons False \<open>c = _\<close> w(1) hex_rest[of hs "[c, x]"] show ?thesis
          by (auto simp: look_loop.simps[of S83] look_83_def run_defs is_e_def)
      qed
    qed
  qed
  with start tb show ?thesis by (simp add: scans_def)
qed


text \<open>String literals: what the scanner delivers is the text before it was escaped.\<close>

definition c_escape :: "char \<Rightarrow> string" where
  "c_escape c =
     (if c = CHR 0x22 then [CHR 0x5C, CHR 0x22] else if c = CHR 0x5C then [CHR 0x5C, CHR 0x5C]
      else if c = NL then [CHR 0x5C, CHR ''n''] else [c])"

definition c_quote :: "string \<Rightarrow> string" where
  "c_quote v = [CHR 0x22] @ concat (map c_escape v) @ [CHR 0x22]"

lemma string_rest:
  "NUL \<notin> set v \<Longrightarrow>
   look_loop S20 c0 None (reading f l r (concat (map c_escape v) @ CHR 0x22 # rest) t n b s) =
   Inr (SWIG_TOKEN_STRING, reading f l (CHR 0x22 # rev (concat (map c_escape v)) @ r) rest (t @ v) n b s)"
proof (induction v arbitrary: c0 r t)
  case Nil
  then show ?case by (simp add: look_loop.simps[of S20] look_20_def run_defs)
next
  case (Cons c v)
  then show ?case
    by (auto simp: look_loop.simps[of S20] look_20_def run_defs c_escape_def get_escape_def escape_char_def add_text_def)
qed

lemma spell_string:
  assumes "NUL \<notin> set v" "plain_start s"
  shows "scans SWIG_TOKEN_STRING v (c_quote v) b s"
proof -
  have tb: "token_brackets SWIG_TOKEN_STRING b = b" by (auto simp: token_brackets_def split: list.split)
  have "\<not> isspace CHR 0x22" "\<not> isalpha CHR 0x22" "\<not> isdigit CHR 0x22" by (simp_all add: ctype_defs of_char_def)
  with tb string_rest[OF assms(1)] ident_start_plain[OF assms(2), of "CHR 0x22"] show ?thesis
    by (simp add: scans_def c_quote_def look_loop.simps[of S0] look_loop.simps[of S1000] look_loop.simps[of S2]
      look_0_def look_1000_def look_1000_symbol_def look_1000_multi_def look_2_def run_defs)
qed

section \<open>Printing and scanning token lists\<close>

definition shown :: "token \<Rightarrow> string" where
  "shown t = (if fst t = SWIG_TOKEN_STRING then c_quote (snd t) else snd t)"

definition print_tokens :: "token list \<Rightarrow> string" where
  "print_tokens ts = concat (map (\<lambda>t. '' '' @ shown t) ts) @ '' ''"

definition printable :: "Scanner \<Rightarrow> token \<Rightarrow> bool" where
  "printable s t \<longleftrightarrow> (case t of (k, w) \<Rightarrow>
     (k, w) \<in> set spelling \<or> c_identifier w \<and> k = ident_token s w \<or> k = SWIG_TOKEN_INT \<and> int_literal w \<or>
     k = SWIG_TOKEN_STRING \<and> NUL \<notin> set w)"

fun shifts_ok :: "int list \<Rightarrow> token list \<Rightarrow> bool" where
  \<comment> \<open>no right shift inside what may be a template argument list\<close>
  "shifts_ok b [] \<longleftrightarrow> True"
| "shifts_ok b (t # ts) \<longleftrightarrow> shift_ok (fst t) b \<and> shifts_ok (token_brackets (fst t) b) ts"

lemma not_string_spelling: "(SWIG_TOKEN_STRING, w) \<notin> set spelling"
  by (simp add: spelling_def)

lemma printable_scans:
  assumes "printable s t" "plain_start s" "shift_ok (fst t) b"
  shows "scans (fst t) (snd t) (shown t) b s"
proof (cases t)
  case (Pair k w)
  have "ident_token s w \<noteq> SWIG_TOKEN_STRING" by (simp add: ident_token_def)
  with Pair assms spelled_token[of k w s b] spell_identifier[of w s b] spell_int[of w s b] spell_string[of w s b]
    not_string_spelling[of w]
  show ?thesis by (auto simp: printable_def shown_def)
qed

lemma printable_nonzero: "printable s (k, w) \<Longrightarrow> k \<noteq> 0"
proof -
  have "(0, w) \<notin> set spelling" by (simp add: spelling_def)
  moreover have "ident_token s w \<noteq> 0" by (simp add: ident_token_def)
  ultimately show "printable s (k, w) \<Longrightarrow> k \<noteq> 0" by (auto simp: printable_def)
qed

lemma reading_start: "(reading f l r w t n b s)\<lparr>sc_text := [], start_line := m\<rparr> = reading f l r w [] m b s"
  by (simp add: reading_def)

lemma token_of_reading:
  assumes "scans t w v b s" "sc_error s = NoError" "nexttoken s < 0"
  shows "Scanner_token (reading f l r ('' '' @ v @ '' '' @ rest) u n b s) =
    Inr (t, reading f l (rev v @ '' '' @ r) ('' '' @ rest) w (sc_line s) (token_brackets t b) s)"
  using assms by (simp add: Scanner_token_def delete_error_def look_def scans_def)

lemma end_of_reading:
  assumes "sc_error s = NoError" "nexttoken s < 0"
  shows "\<exists>s'. Scanner_token (reading f l r '' '' u n b s) = Inr (0, s')"
  using assms by (simp add: Scanner_token_def delete_error_def look_def look_loop.simps[of S0] look_0_def run_defs nextchar_reading_end)

lemma read_printed:
  assumes "plain_start s" "sc_error s = NoError" "nexttoken s < 0"
  shows "list_all (printable s) ts \<Longrightarrow> shifts_ok b ts \<Longrightarrow> length ts < k \<Longrightarrow>
    \<exists>s'. read_tokens k (reading f l r (print_tokens ts) u n b s) = Inr (ts, s')"
proof (induction ts arbitrary: k r u n b)
  case Nil
  obtain j where "k = Suc j" using Nil by (cases k) auto
  with end_of_reading[OF assms(2,3), of f l r u n b] show ?case by (auto simp: print_tokens_def)
next
  case (Cons t ts)
  obtain j where k: "k = Suc j" "length ts < j" using Cons.prems by (cases k) auto
  have sc: "scans (fst t) (snd t) (shown t) b s" using printable_scans[of s t b] Cons.prems assms(1) by simp
  obtain rest where rest: "print_tokens ts = '' '' @ rest"
    by (cases ts) (auto simp: print_tokens_def)
  have "print_tokens (t # ts) = '' '' @ shown t @ '' '' @ rest"
    using rest by (simp add: print_tokens_def)
  with token_of_reading[OF sc assms(2,3)]
  have tok: "Scanner_token (reading f l r (print_tokens (t # ts)) u n b s) =
      Inr (fst t, reading f l (rev (shown t) @ '' '' @ r) (print_tokens ts) (snd t) (sc_line s) (token_brackets (fst t) b) s)"
    using rest by simp
  obtain s' where "read_tokens j (reading f l (rev (shown t) @ '' '' @ r) (print_tokens ts) (snd t) (sc_line s) (token_brackets (fst t) b) s)
      = Inr (ts, s')"
    using Cons.IH[of "token_brackets (fst t) b" j "rev (shown t) @ '' '' @ r" "snd t" "sc_line s"] Cons.prems k by auto
  with tok k(1) printable_nonzero[of s "fst t" "snd t"] Cons.prems show ?case by (simp add: Scanner_text_def)
qed


lemma push_reading:
  "scanobjs s = [] \<Longrightarrow>
   Scanner_push s \<lparr>src_text = w, src_sp = 0, src_line = l, src_file = f\<rparr> =
   reading f l [] w (sc_text s) (start_line s) (brackets s) (s\<lparr>sc_line := l\<rparr>)"
  by (simp add: Scanner_push_def reading_def)

text \<open>C35: Printing and scanning are inverse. A list of identifiers, integer constants, string literals and operators,
  printed with blanks between them and the strings escaped, is read back as the same list of tokens with the same
  lexemes, by a scanner that has just been given the text. Identifiers may be any, also those that begin like the
  prefix of a wide, unicode or raw string; strings may hold any characters but the zero byte. The one restriction
  is on right shifts, which the scanner splits when a less-than sign before them at the same nesting of parentheses
  may have opened a template argument list.\<close>

theorem scanner_reads_printed_tokens:
  assumes "plain_start s" "sc_error s = NoError" "nexttoken s < 0" "scanobjs s = []"
    and "list_all (printable s) ts" "shifts_ok (brackets s) ts"
  shows "\<exists>s'. read_tokens (Suc (length ts))
     (Scanner_push s \<lparr>src_text = print_tokens ts, src_sp = 0, src_line = l, src_file = f\<rparr>) = Inr (ts, s')"
proof -
  have "printable (s\<lparr>sc_line := l\<rparr>) = printable s" "plain_start (s\<lparr>sc_line := l\<rparr>) = plain_start s"
    by (auto simp: printable_def ident_token_def plain_start_def fun_eq_iff)
  then show ?thesis
    using read_printed[of "s\<lparr>sc_line := l\<rparr>" ts "brackets s" "Suc (length ts)" f l "[]" "sc_text s" "start_line s"] assms
    by (simp add: push_reading)
qed


lemma fresh_scanner:
  "plain_start NewScanner" "sc_error NewScanner = NoError" "nexttoken NewScanner = -1" "scanobjs NewScanner = []"
  "brackets NewScanner = [0]" "cparse_cplusplus NewScanner = False" "sc_line NewScanner = 1"
  by (simp_all add: NewScanner_def brackets_push_def plain_start_def)

theorem scanner_reads_printed_tokens_witness:
  "\<exists>s'. read_tokens 5
     (Scanner_push NewScanner \<lparr>src_text = '' u8x >>= 0x1f '' @ [CHR 0x22, CHR ''a'', CHR 0x5C, CHR 0x22, CHR 0x22, CHR '' ''],
        src_sp = 0, src_line = 1, src_file = None\<rparr>)
   = Inr ([(SWIG_TOKEN_ID, ''u8x''), (SWIG_TOKEN_RSEQUAL, ''>>=''), (SWIG_TOKEN_INT, ''0x1f''),
           (SWIG_TOKEN_STRING, [CHR ''a'', CHR 0x22])], s')"
proof -
  let ?ts = "[(SWIG_TOKEN_ID, ''u8x''), (SWIG_TOKEN_RSEQUAL, ''>>=''), (SWIG_TOKEN_INT, ''0x1f''),
           (SWIG_TOKEN_STRING, [CHR ''a'', CHR 0x22])]"
  have "list_all (printable NewScanner) ?ts" "shifts_ok (brackets NewScanner) ?ts"
    by (simp_all add: fresh_scanner printable_def spelling_def c_identifier_def ident_token_def int_literal_def ident_char_def
      isxdigit_def ctype_defs of_char_def shift_ok_def token_brackets_def)
  from scanner_reads_printed_tokens[OF fresh_scanner(1,2) _ fresh_scanner(4) this, of 1 None] show ?thesis
    by (simp add: fresh_scanner print_tokens_def shown_def c_quote_def c_escape_def eval_nat_numeral del: read_tokens.simps)
qed

section \<open>Balanced text\<close>

text \<open>
  The two functions that skip balanced text run the same machine. \<open>scan_text step st n w\<close> is that machine on a plain
  text: it gives what was consumed and what is left, and nothing when the text ends or a locator begins.
\<close>

definition locator_state :: "bstate \<Rightarrow> bool" where
  "locator_state st \<longleftrightarrow> st \<in> {B40, B41, B42, B43, B44, B45}"

fun scan_text :: "(char \<Rightarrow> bstate \<Rightarrow> int \<Rightarrow> bstate \<times> int) \<Rightarrow> bstate \<Rightarrow> int \<Rightarrow> string \<Rightarrow> (string \<times> string) option" where
  "scan_text f st n w =
     (if n \<le> 0 then Some ([], w)
      else if locator_state st then None
      else case w of
        [] \<Rightarrow> None
      | c # cs \<Rightarrow> (case f c st n of (st', n') \<Rightarrow> map_option (\<lambda>(u, v). (c # u, v)) (scan_text f st' n' cs)))"

declare scan_text.simps [simp del]

definition skip_core :: "char \<Rightarrow> char \<Rightarrow> char \<Rightarrow> bstate \<Rightarrow> int \<Rightarrow> bstate \<times> int" where
  "skip_core a z c st n = (case skip_step a z c st n [] of (st', n', _) \<Rightarrow> (st', n'))"

lemma skip_step_core:
  "\<not> locator_state st \<Longrightarrow> skip_step a z c st n loc = (fst (skip_core a z c st n), snd (skip_core a z c st n), loc)"
  by (cases st) (auto simp: skip_core_def locator_state_def split: prod.split)

lemma raw_bal_scan:
  "scan_text (raw_step a z) st n w = Some (u, v) \<Longrightarrow> unread s = w \<Longrightarrow> NUL \<notin> set u \<Longrightarrow>
   \<exists>s'. raw_bal a z st n s = (True, s') \<and> unread s' = v \<and> sc_text s' = sc_text s @ u"
proof (induction "raw_step a z" st n w arbitrary: u v s rule: scan_text.induct)
  case (1 st n w)
  show ?case
  proof (cases "n \<le> 0")
    case True
    with 1 show ?thesis by (auto simp: raw_bal.simps[of a z st n s] scan_text.simps[of _ st n])
  next
    case False
    with "1.prems"(1) obtain c cs where w: "w = c # cs" and l: "\<not> locator_state st"
      by (auto simp: scan_text.simps[of _ st n] split: if_split_asm list.split_asm)
    obtain st' n' where f: "raw_step a z c st n = (st', n')" by (cases "raw_step a z c st n")
    with "1.prems"(1) w False l obtain u' where u: "u = c # u'" "scan_text (raw_step a z) st' n' cs = Some (u', v)"
      by (auto simp: scan_text.simps[of _ st n])
    obtain r s1 where n: "nextchar s = (r, s1)" by (cases "nextchar s")
    with nextchar_unread[OF n] "1.prems"(2,3) w u(1) have n: "nextchar s = (Some c, s1)" "unread s1 = cs" "sc_text s1 = sc_text s @ [c]"
      by auto
    have "NUL \<notin> set u'" using "1.prems"(3) u(1) by simp
    from "1.hyps"[OF False l w f[symmetric] u(2) n(2) this] show ?thesis
      using n f False u(1) by (auto simp: raw_bal.simps[of a z st n s])
  qed
qed

lemma skip_bal_scan:
  "scan_text (skip_core a z) st n w = Some (u, v) \<Longrightarrow> unread s = w \<Longrightarrow> NUL \<notin> set u \<Longrightarrow>
   \<exists>s'. skip_bal a z st n loc s = Inr (0, s') \<and> unread s' = v \<and> sc_text s' = sc_text s @ u"
proof (induction "skip_core a z" st n w arbitrary: u v s rule: scan_text.induct)
  case (1 st n w)
  show ?case
  proof (cases "n \<le> 0")
    case True
    with 1 show ?thesis by (auto simp: skip_bal.simps[of a z st n loc s] scan_text.simps[of _ st n])
  next
    case False
    with "1.prems"(1) obtain c cs where w: "w = c # cs" and l: "\<not> locator_state st"
      by (auto simp: scan_text.simps[of _ st n] split: if_split_asm list.split_asm)
    obtain st' n' where f: "skip_core a z c st n = (st', n')" by (cases "skip_core a z c st n")
    with "1.prems"(1) w False l obtain u' where u: "u = c # u'" "scan_text (skip_core a z) st' n' cs = Some (u', v)"
      by (auto simp: scan_text.simps[of _ st n])
    obtain r s1 where n: "nextchar s = (r, s1)" by (cases "nextchar s")
    with nextchar_unread[OF n] "1.prems"(2,3) w u(1) have n: "nextchar s = (Some c, s1)" "unread s1 = cs" "sc_text s1 = sc_text s @ [c]"
      by auto
    have "NUL \<notin> set u'" using "1.prems"(3) u(1) by simp
    moreover have "st \<noteq> B45" using l by (auto simp: locator_state_def)
    moreover have "skip_step a z c st n loc = (st', n', loc)" using skip_step_core[OF l] f by simp
    ultimately show ?thesis
      using "1.hyps"[OF False l w f[symmetric] u(2) n(2)] n False u(1) by (auto simp: skip_bal.simps[of a z st n loc s])
  qed
qed

text \<open>The texts between two brackets: a grammar of code with strings, characters and comments.\<close>

fun quoted_body :: "char \<Rightarrow> string \<Rightarrow> bool" where
  "quoted_body q [] = True"
| "quoted_body q (c # cs) =
     (if c = CHR 0x5C then (case cs of [] \<Rightarrow> False | _ # ds \<Rightarrow> quoted_body q ds) else c \<noteq> q \<and> quoted_body q cs)"

fun comment_body :: "bool \<Rightarrow> string \<Rightarrow> bool" where
  "comment_body star [] = True"
| "comment_body star (c # cs) = (\<not> (star \<and> c = CHR ''/'') \<and> comment_body (c = CHR ''*'') cs)"

inductive code :: "char \<Rightarrow> char \<Rightarrow> string \<Rightarrow> bool" for a z where
  code_nil: "code a z []"
| code_plain: "c \<notin> {a, z, CHR ''/'', CHR 0x22, CHR 0x27} \<Longrightarrow> code a z w \<Longrightarrow> code a z (c # w)"
| code_slash: "c \<notin> {a, z, CHR ''/'', CHR ''*'', CHR 0x22, CHR 0x27} \<Longrightarrow> code a z w \<Longrightarrow> code a z (CHR ''/'' # c # w)"
| code_string: "quoted_body CHR 0x22 v \<Longrightarrow> code a z w \<Longrightarrow> code a z (CHR 0x22 # v @ CHR 0x22 # w)"
| code_char: "quoted_body CHR 0x27 v \<Longrightarrow> code a z w \<Longrightarrow> code a z (CHR 0x27 # v @ CHR 0x27 # w)"
| code_line: "NL \<notin> set v \<Longrightarrow> code a z w \<Longrightarrow> code a z (CHR ''/'' # CHR ''/'' # v @ NL # w)"
| code_comment: "comment_body False v \<Longrightarrow> v = [] \<or> hd v \<noteq> CHR ''@'' \<Longrightarrow> code a z w \<Longrightarrow>
    code a z (CHR ''/'' # CHR ''*'' # v @ CHR ''*'' # CHR ''/'' # w)"
| code_nest: "code a z v \<Longrightarrow> code a z w \<Longrightarrow> code a z (a # v @ z # w)"

definition got :: "string \<Rightarrow> (string \<times> string) option \<Rightarrow> (string \<times> string) option" where
  "got w r = map_option (\<lambda>(u, v). (w @ u, v)) r"

lemma got_got [simp]: "got u (got v r) = got (u @ v) r"
  by (cases r) (auto simp: got_def)

lemma got_simps [simp]: "got [] r = r" "got w (Some (u, v)) = Some (w @ u, v)"
  by (cases r) (auto simp: got_def)

text \<open>The contract of a machine that skips such texts, and what follows from it.\<close>

locale bracket_machine =
  fixes a z :: char and step :: "char \<Rightarrow> bstate \<Rightarrow> int \<Rightarrow> bstate \<times> int"
  assumes brackets: "a \<noteq> z" "a \<notin> {CHR ''/'', CHR ''*'', CHR 0x22, CHR 0x27}" "z \<notin> {CHR ''/'', CHR ''*'', CHR 0x22, CHR 0x27}"
    and step_open: "step a B0 n = (B0, n + 1)" and step_close: "step z B0 n = (B0, n - 1)"
    and step_slash: "step CHR ''/'' B0 n = (B10, n)" and step_quote: "step CHR 0x22 B0 n = (B20, n)"
    and step_apos: "step CHR 0x27 B0 n = (B30, n)"
    and step_plain: "c \<notin> {a, z, CHR ''/'', CHR 0x22, CHR 0x27} \<Longrightarrow> step c B0 n = (B0, n)"
    and step_10: "step c B10 n = (if c = CHR ''/'' then (B11, n) else if c = CHR ''*'' then (B12, n)
                    else if c = a then (B0, n + 1) else (B0, n))"
    and step_11: "step c B11 n = (if c = NL then B0 else B11, n)"
    and step_12: "c \<noteq> CHR ''@'' \<Longrightarrow> step c B12 n = (if c = CHR ''*'' then B14 else B13, n)"
    and step_13: "step c B13 n = (if c = CHR ''*'' then B14 else B13, n)"
    and step_14: "step c B14 n = (if c = CHR ''*'' then B14 else if c = CHR ''/'' then B0 else B13, n)"
    and step_20: "step c B20 n = (if c = CHR 0x22 then B0 else if c = CHR 0x5C then B21 else B20, n)"
    and step_21: "step c B21 n = (B20, n)"
    and step_30: "step c B30 n = (if c = CHR 0x27 then B0 else if c = CHR 0x5C then B31 else B30, n)"
    and step_31: "step c B31 n = (B30, n)"
begin

lemma one_char:
  "0 < n \<Longrightarrow> \<not> locator_state st \<Longrightarrow> step c st n = (st', n') \<Longrightarrow>
   scan_text step st n (c # w) = got [c] (scan_text step st' n' w)"
  by (simp add: scan_text.simps[of step st] got_def)

lemmas not_locator = locator_state_def

lemma skip_string:
  "quoted_body CHR 0x22 v \<Longrightarrow> 0 < n \<Longrightarrow> scan_text step B20 n (v @ CHR 0x22 # w) = got (v @ [CHR 0x22]) (scan_text step B0 n w)"
proof (induction "CHR 0x22" v rule: quoted_body.induct)
  case 1
  then show ?case by (simp add: one_char step_20 not_locator)
next
  case (2 c cs)
  show ?case
  proof (cases "c = CHR 0x5C")
    case True
    with 2 show ?thesis by (cases cs) (auto simp: one_char step_20 step_21 not_locator)
  next
    case False
    with 2 show ?thesis by (simp add: one_char step_20 not_locator split: if_split_asm)
  qed
qed

lemma skip_char:
  "quoted_body CHR 0x27 v \<Longrightarrow> 0 < n \<Longrightarrow> scan_text step B30 n (v @ CHR 0x27 # w) = got (v @ [CHR 0x27]) (scan_text step B0 n w)"
proof (induction "CHR 0x27" v rule: quoted_body.induct)
  case 1
  then show ?case by (simp add: one_char step_30 not_locator)
next
  case (2 c cs)
  show ?case
  proof (cases "c = CHR 0x5C")
    case True
    with 2 show ?thesis by (cases cs) (auto simp: one_char step_30 step_31 not_locator)
  next
    case False
    with 2 show ?thesis by (simp add: one_char step_30 not_locator split: if_split_asm)
  qed
qed

lemma skip_line_comment:
  "NL \<notin> set v \<Longrightarrow> 0 < n \<Longrightarrow> scan_text step B11 n (v @ NL # w) = got (v @ [NL]) (scan_text step B0 n w)"
  by (induction v) (auto simp: one_char step_11 not_locator)

lemma skip_comment:
  "comment_body star v \<Longrightarrow> 0 < n \<Longrightarrow>
   scan_text step (if star then B14 else B13) n (v @ CHR ''*'' # CHR ''/'' # w) = got (v @ ''*/'') (scan_text step B0 n w)"
proof (induction star v rule: comment_body.induct)
  case (1 star)
  then show ?case by (simp add: one_char step_13 step_14 not_locator)
next
  case (2 star c cs)
  then show ?case by (auto simp: one_char step_13 step_14 not_locator split: if_split_asm)
qed

lemma skip_comment_start:
  assumes "comment_body False v" "v = [] \<or> hd v \<noteq> CHR ''@''" "0 < n"
  shows "scan_text step B12 n (v @ CHR ''*'' # CHR ''/'' # w) = got (v @ ''*/'') (scan_text step B0 n w)"
proof (cases v)
  case Nil
  with assms show ?thesis by (simp add: one_char step_12 step_14 not_locator)
next
  case (Cons c cs)
  with assms skip_comment[of "c = CHR ''*''" cs n w] show ?thesis
    by (auto simp: one_char step_12 not_locator)
qed

lemma skip_code:
  "code a z w \<Longrightarrow> 0 < n \<Longrightarrow> scan_text step B0 n (w @ rest) = got w (scan_text step B0 n rest)"
proof (induction arbitrary: n rest rule: code.induct)
  case code_nil
  then show ?case by simp
next
  case (code_nest v w)
  then show ?case
    by (simp add: one_char step_open step_close not_locator)
qed (use brackets in \<open>auto simp: one_char step_plain step_slash step_quote step_apos step_10 skip_string skip_char skip_line_comment
      skip_comment_start not_locator\<close>)

lemma skip_to_close: "code a z w \<Longrightarrow> scan_text step B0 1 (w @ z # rest) = Some (w @ [z], rest)"
  using skip_code[of w 1 "z # rest"] by (simp add: one_char step_close not_locator scan_text.simps[of step B0 0])

end

definition bracket_pair :: "char \<Rightarrow> char \<Rightarrow> bool" where
  "bracket_pair a z \<longleftrightarrow> a \<noteq> z \<and> a \<notin> {CHR ''/'', CHR ''*'', CHR 0x22, CHR 0x27} \<and> z \<notin> {CHR ''/'', CHR ''*'', CHR 0x22, CHR 0x27}"

lemma raw_machine: "bracket_pair a z \<Longrightarrow> bracket_machine a z (raw_step a z)"
  by unfold_locales (auto simp: bracket_pair_def)

lemma skip_machine: "bracket_pair a z \<Longrightarrow> bracket_machine a z (skip_core a z)"
  by unfold_locales (auto simp: bracket_pair_def skip_core_def)

interpretation braces: bracket_machine "CHR ''{''" "CHR ''}''" "raw_step CHR ''{'' CHR ''}''"
  by (rule raw_machine) (simp add: bracket_pair_def)

interpretation skip_braces: bracket_machine "CHR ''{''" "CHR ''}''" "skip_core CHR ''{'' CHR ''}''"
  by (rule skip_machine) (simp add: bracket_pair_def)

section \<open>Looking ahead leaves the scanner as it was\<close>

definition moved :: "source \<Rightarrow> source \<Rightarrow> bool" where
  \<comment> \<open>\<open>p\<close> is \<open>o'\<close> further on\<close>
  "moved o' p \<longleftrightarrow> (\<exists>k. k \<le> length (src_text o') - src_sp o' \<and>
     p = o'\<lparr>src_sp := src_sp o' + k, src_line := src_line o' + count_nl (take k (drop (src_sp o') (src_text o')))\<rparr>)"

lemma moved_refl: "moved o' o'"
  by (auto simp: moved_def intro: exI[of _ 0])

lemma moved_getc:
  assumes "moved o' p" "src_getc p = Some (c, q)" "src_sp o' \<le> length (src_text o')"
  shows "moved o' q"
proof -
  obtain k where k: "k \<le> length (src_text o') - src_sp o'"
    "p = o'\<lparr>src_sp := src_sp o' + k, src_line := src_line o' + count_nl (take k (drop (src_sp o') (src_text o')))\<rparr>"
    using assms(1) by (auto simp: moved_def)
  have l: "src_sp o' + k < length (src_text o')" and c: "c = src_text o' ! (src_sp o' + k)"
    and q: "q = p\<lparr>src_sp := src_sp p + 1, src_line := (if c = NL then src_line p + 1 else src_line p)\<rparr>"
    using assms(2) k(2) by (auto simp: src_getc_def Let_def split: if_split_asm)
  have "take (Suc k) (drop (src_sp o') (src_text o')) = take k (drop (src_sp o') (src_text o')) @ [c]"
    using l c by (simp add: take_Suc_conv_app_nth)
  then show ?thesis using l q k by (auto simp: moved_def intro!: exI[of _ "Suc k"])
qed

lemma seek_back:
  assumes "moved o' p" "src_sp o' \<le> length (src_text o')"
  shows "src_seek (src_sp o') p = o'"
proof -
  obtain k where "p = o'\<lparr>src_sp := src_sp o' + k, src_line := src_line o' + count_nl (take k (drop (src_sp o') (src_text o')))\<rparr>"
    using assms(1) by (auto simp: moved_def)
  then show ?thesis using assms(2) by (simp add: src_seek_def Let_def)
qed

lemma nextchar_sources:
  assumes "nextchar s = (r, s')"
  shows "length (scanobjs s') \<le> length (scanobjs s) \<and>
    (\<forall>c. r = Some c \<and> length (scanobjs s') = length (scanobjs s) \<longrightarrow>
      (\<exists>o' os o2. scanobjs s = o' # os \<and> src_getc o' = Some (c, o2) \<and> scanobjs s' = o2 # os))"
  using assms
proof (induction s rule: nextchar.induct)
  case (1 s)
  show ?case
  proof (cases "scanobjs s")
    case Nil
    with "1.prems" show ?thesis by (auto simp: nextchar.simps[of s])
  next
    case (Cons o' os)
    show ?thesis
    proof (cases "src_getc o'")
      case None
      show ?thesis
      proof (cases os)
        case Nil
        with "1.prems" Cons None show ?thesis by (auto simp: nextchar.simps[of s])
      next
        case os: (Cons o3 os')
        with "1.prems" Cons None have "nextchar (s\<lparr>scanobjs := os, sc_line := src_line o3\<rparr>) = (r, s')"
          by (simp add: nextchar.simps[of s])
        from "1.IH"[OF Cons None os this] Cons show ?thesis by auto
      qed
    next
      case (Some p)
      then obtain c o2 where g: "src_getc o' = Some (c, o2)" by (cases p) auto
      with "1.prems" Cons show ?thesis by (auto simp: nextchar.simps[of s] split: if_split_asm)
    qed
  qed
qed

lemma raw_bal_frame:
  "raw_bal a z st n s = (r, s') \<Longrightarrow>
   (\<exists>os l w. s' = s\<lparr>scanobjs := os, sc_line := l, sc_text := w\<rparr>) \<and> length (scanobjs s') \<le> length (scanobjs s) \<and>
   (\<forall>o' p os. r \<and> scanobjs s = p # os \<and> moved o' p \<and> src_sp o' \<le> length (src_text o') \<and>
      length (scanobjs s') = length (scanobjs s) \<longrightarrow> (\<exists>q. scanobjs s' = q # os \<and> moved o' q))"
proof (induction a z st n s rule: raw_bal.induct)
  case (1 a z st n s)
  show ?case
  proof (cases "n \<le> 0")
    case True
    have "\<exists>os l w. s = s\<lparr>scanobjs := os, sc_line := l, sc_text := w\<rparr>"
      by (rule exI[of _ "scanobjs s"], rule exI[of _ "sc_line s"], rule exI[of _ "sc_text s"]) simp
    moreover have "r" "s' = s" using True "1.prems" by (simp_all add: raw_bal.simps[of a z st n s])
    ultimately show ?thesis by blast
  next
    case False
    obtain x s1 where n: "nextchar s = (x, s1)" by (cases "nextchar s")
    obtain os1 l1 w1 where f1: "s1 = s\<lparr>scanobjs := os1, sc_line := l1, sc_text := w1\<rparr>" using nextchar_frame[OF n] by auto
    note ns = nextchar_sources[OF n]
    show ?thesis
    proof (cases x)
      case None
      with "1.prems" n False have "r = False" "s' = s1" by (auto simp: raw_bal.simps[of a z st n s])
      with f1 ns show ?thesis by blast
    next
      case (Some c)
      obtain st' n' where st: "raw_step a z c st n = (st', n')" by (cases "raw_step a z c st n")
      have rec: "raw_bal a z st' n' s1 = (r, s')" using "1.prems" n False Some st by (simp add: raw_bal.simps[of a z st n s])
      note IH = "1.IH"[OF False n[symmetric] Some st[symmetric] rec]
      then obtain os2 l2 w2 where "s' = s1\<lparr>scanobjs := os2, sc_line := l2, sc_text := w2\<rparr>" by blast
      with f1 have "\<exists>os l w. s' = s\<lparr>scanobjs := os, sc_line := l, sc_text := w\<rparr>" by auto
      moreover have "length (scanobjs s') \<le> length (scanobjs s)" using IH ns by linarith
      moreover have "\<exists>q. scanobjs s' = q # os \<and> moved o' q"
        if a: "r" "scanobjs s = p # os" "moved o' p" "src_sp o' \<le> length (src_text o')" "length (scanobjs s') = length (scanobjs s)"
        for o' p os
      proof -
        have "length (scanobjs s1) = length (scanobjs s)" using a(5) IH ns by linarith
        then obtain o2 where "src_getc p = Some (c, o2)" "scanobjs s1 = o2 # os" using ns Some a(2) by auto
        with a IH moved_getc[OF a(3)] show ?thesis by auto
      qed
      ultimately show ?thesis by blast
    qed
  qed
qed



lemma raw_bal_fails: "raw_bal a z st n s = (False, s') \<Longrightarrow> NUL \<notin> set (unread s) \<Longrightarrow> unread s' = []"
proof (induction a z st n s rule: raw_bal.induct)
  case (1 a z st n s)
  have n0: "\<not> n \<le> 0" using "1.prems"(1) by (auto simp: raw_bal.simps[of a z st n s])
  obtain x s1 where n: "nextchar s = (x, s1)" by (cases "nextchar s")
  show ?case
  proof (cases x)
    case None
    with "1.prems" n n0 nextchar_unread[OF n] show ?thesis by (auto simp: raw_bal.simps[of a z st n s] split: if_split_asm)
  next
    case (Some c)
    obtain st' n' where st: "raw_step a z c st n = (st', n')" by (cases "raw_step a z c st n")
    have "raw_bal a z st' n' s1 = (False, s')" using "1.prems"(1) n n0 Some st by (simp add: raw_bal.simps[of a z st n s])
    moreover have "NUL \<notin> set (unread s1)" using "1.prems"(2) nextchar_unread[OF n] Some by auto
    ultimately show ?thesis using "1.IH"[OF n0 n[symmetric] Some st[symmetric]] by simp
  qed
qed

lemma raw_text_failure_consumes:
  assumes "Scanner_get_raw_text_balanced s a z = Inr (None, s')" "NUL \<notin> set (unread s)"
  shows "unread s' = []"
  using assms raw_bal_fails[of a z B0 1 "s\<lparr>sc_text := [a]\<rparr>"]
  by (auto simp: Scanner_get_raw_text_balanced_def unread_def split: list.split_asm prod.split_asm bool.split_asm)

text \<open>C40: Skipping a block of code stops at the right bracket. When what follows is code, that is a text with properly
  nested brackets in which brackets inside string literals, character constants and comments do not count, and then the
  closing bracket, both \<^verbatim>\<open>Scanner_skip_balanced\<close> and \<^verbatim>\<open>Scanner_get_raw_text_balanced\<close> deliver the text up to exactly that
  bracket, with the opening bracket in front, and skipping leaves what comes after it.\<close>

theorem balanced_text_skipped:
  assumes "bracket_pair a z" "code a z w" "unread s = w @ z # rest" "NUL \<notin> set w" "z \<noteq> NUL"
  shows "(\<exists>s'. Scanner_skip_balanced s a z = Inr (0, s') \<and> Scanner_text s' = a # w @ [z] \<and> unread s' = rest) \<and>
    (scanobjs s \<noteq> [] \<longrightarrow> (\<exists>s'. Scanner_get_raw_text_balanced s a z = Inr (Some (a # w @ [z]), s')))"
proof -
  let ?s = "s\<lparr>sc_text := [a]\<rparr>"
  have u: "unread ?s = w @ z # rest" "NUL \<notin> set (w @ [z])" using assms by simp_all
  have sk: "scan_text (skip_core a z) B0 1 (w @ z # rest) = Some (w @ [z], rest)"
    by (rule bracket_machine.skip_to_close[OF skip_machine[OF assms(1)] assms(2)])
  have rw: "scan_text (raw_step a z) B0 1 (w @ z # rest) = Some (w @ [z], rest)"
    by (rule bracket_machine.skip_to_close[OF raw_machine[OF assms(1)] assms(2)])
  from skip_bal_scan[OF sk u(1) u(2), of "[]"] raw_bal_scan[OF rw u(1) u(2)] show ?thesis
    by (auto simp: Scanner_skip_balanced_def Scanner_get_raw_text_balanced_def Scanner_text_def split: list.split)
qed


theorem balanced_text_skipped_witness:
  "let w = ''f({ return 1; }); /* } */ '' @ [CHR 0x22] @ ''}'' @ [CHR 0x22];
       s = Scanner_push NewScanner \<lparr>src_text = w @ ''} rest'', src_sp = 0, src_line = 1, src_file = None\<rparr> in
   (\<exists>s'. Scanner_skip_balanced s CHR ''{'' CHR ''}'' = Inr (0, s') \<and> Scanner_text s' = ''{'' @ w @ ''}'' \<and> unread s' = '' rest'')"
proof -
  let ?w = "''f({ return 1; }); /* } */ '' @ [CHR 0x22] @ ''}'' @ [CHR 0x22]"
  let ?s = "Scanner_push NewScanner \<lparr>src_text = ?w @ ''} rest'', src_sp = 0, src_line = 1, src_file = None\<rparr>"
  have inner: "code CHR ''{'' CHR ''}'' '' return 1; ''" by (intro code_plain code_nil) simp_all
  have last: "code CHR ''{'' CHR ''}'' ([CHR '' '', CHR 0x22] @ ''}'' @ [CHR 0x22])"
    using code_string[of "''}''" "CHR ''{''" "CHR ''}''", OF _ code_nil] by (auto intro!: code_plain)
  have comment: "code CHR ''{'' CHR ''}'' (''/* } */'' @ [CHR '' '', CHR 0x22] @ ''}'' @ [CHR 0x22])"
    using code_comment[of "'' } ''", OF _ _ last] by simp
  have "code CHR ''{'' CHR ''}'' ('');'' @ '' '' @ ''/* } */'' @ [CHR '' '', CHR 0x22] @ ''}'' @ [CHR 0x22])"
    using comment by (auto intro!: code_plain)
  from code_nest[OF inner this] have "code CHR ''{'' CHR ''}'' ?w" by (auto intro!: code_plain)
  from balanced_text_skipped[OF _ this, of ?s "'' rest''"] show ?thesis
    by (simp add: bracket_pair_def Scanner_push_def unread_def src_rest_def Let_def fresh_scanner)
qed

section \<open>Departures\<close>

lemma raw_string_with_parenthesis:
  "\<exists>s'. look_loop S0 NUL None (reading None 1 [] ([CHR ''R'', CHR 0x22] @ ''(f(x))'' @ [CHR 0x22, CHR '';'']) [] 1 [0] NewScanner) =
     Inr (SWIG_TOKEN_ERROR, s')"
proof -
  have start: "plain_start NewScanner"
    by (simp_all add: NewScanner_def brackets_push_def plain_start_def)
  show ?thesis
    using start
    by (simp add: run_simps look_7_def look_72_def look_2_def look_20_def maybe_raw_def raw_close_def read_end.simps tok_error_def report_def nextchar_reading_end)
qed

lemma raw_string_at_end:
  "look_loop S0 NUL None (reading None 1 [] ([CHR ''R'', CHR 0x22] @ ''x()x'') [] 1 [0] NewScanner) = Inl OutOfBounds"
proof -
  have start: "plain_start NewScanner"
    by (simp_all add: NewScanner_def brackets_push_def plain_start_def)
  show ?thesis
    using start
    by (simp add: run_simps look_7_def look_72_def look_2_def look_20_def maybe_raw_def raw_close_def read_end.simps tok_error_def report_def nextchar_reading_end
      strip_raw_def text_delslice_def)
qed

lemma period_at_end:
  "\<exists>s'. look_loop S0 NUL None (reading None 1 [] ''.'' [] 1 [0] NewScanner) = Inr (0, s')"
proof -
  have start: "plain_start NewScanner"
    by (simp_all add: NewScanner_def brackets_push_def plain_start_def)
  show ?thesis
    using start
    by (simp add: run_simps look_100_def nextchar_reading_end)
qed

lemma error_deleted_twice:
  assumes "sc_error s = ErrorText m" "Scanner_token s = Inr (t, s')" "t \<noteq> 0"
  shows "Scanner_token s' = Inl UseAfterFree"
  using assms look_ok[of "s\<lparr>sc_error := ErrorFreed, start_line := 0\<rparr>"]
  by (auto simp: Scanner_token_def delete_error_def token_post_def split: if_split_asm)

lemma slash_hides_quote:
  "\<exists>s'. Scanner_skip_balanced (reading None 1 [] ''1/'a';}'' [] 1 [0] NewScanner) CHR ''{'' CHR ''}'' = Inr (-1, s')"
  by (simp add: Scanner_skip_balanced_def skip_bal.simps nextchar_reading_end)

end
