(* ===== verification/Cpp_Expr.thy ===== *)
theory Cpp_Expr
  imports Swig_Prelude Swig_Tokens "HOL-Library.Signed_Division"
begin

text \<open>
  The evaluator of preprocessor expressions, \<^verbatim>\<open>Source/Preprocessor/expr.c\<close>: a shift-reduce
  machine on a static stack of 256 slots. The input is the sequence of tokens the scanner
  delivers, each with its text. A \<^verbatim>\<open>long\<close> is an integer of the 64-bit range, and an operation
  that leaves the range is \<open>Undefined\<close>. The string pointer of a slot survives from one
  evaluation to the next, so it is part of the state, and a pointer to a deleted string is a
  value of its own.
\<close>

section \<open>The state\<close>

abbreviation (input) EXPR_TOP :: int where "EXPR_TOP \<equiv> 1"
abbreviation (input) EXPR_VALUE :: int where "EXPR_VALUE \<equiv> 2"
abbreviation (input) EXPR_OP :: int where "EXPR_OP \<equiv> 3"
abbreviation (input) EXPR_GROUP :: int where "EXPR_GROUP \<equiv> 4"
abbreviation (input) EXPR_UMINUS :: int where "EXPR_UMINUS \<equiv> 100"

datatype svalue = SNull | SLive string | SFreed

record exprval =
  ev_op :: int
  ev_value :: int
  ev_svalue :: svalue

record expr_state =
  stack :: "exprval list"
  sp :: nat
  errmsg :: string

definition expr_start :: expr_state where
  \<comment> \<open>the static variables when the program starts\<close>
  "expr_start = \<lparr>stack = replicate 256 \<lparr>ev_op = 0, ev_value = 0, ev_svalue = SNull\<rparr>, sp = 0, errmsg = []\<rparr>"

definition slot :: "expr_state \<Rightarrow> nat \<Rightarrow> exprval res" where
  "slot st i = (if i < length (stack st) then Inr (stack st ! i) else Inl OutOfBounds)"

definition set_slot :: "nat \<Rightarrow> (exprval \<Rightarrow> exprval) \<Rightarrow> expr_state \<Rightarrow> expr_state res" where
  "set_slot i f st =
     (if i < length (stack st) then Inr (st\<lparr>stack := (stack st)[i := f (stack st ! i)]\<rparr>) else Inl OutOfBounds)"

text \<open>The table \<^verbatim>\<open>prec\<close>; the entries \<^verbatim>\<open>init_precedence\<close> does not set are zero.\<close>

definition prec :: "int \<Rightarrow> int" where
  "prec t =
     (if t \<in> {SWIG_TOKEN_NOT, EXPR_UMINUS} then 10
      else if t \<in> {SWIG_TOKEN_STAR, SWIG_TOKEN_SLASH, SWIG_TOKEN_PERCENT} then 20
      else if t \<in> {SWIG_TOKEN_PLUS, SWIG_TOKEN_MINUS} then 30
      else if t \<in> {SWIG_TOKEN_LSHIFT, SWIG_TOKEN_RSHIFT} then 40
      else if t = SWIG_TOKEN_AND then 50
      else if t = SWIG_TOKEN_XOR then 60
      else if t = SWIG_TOKEN_OR then 70
      else if t \<in> {SWIG_TOKEN_EQUALTO, SWIG_TOKEN_NOTEQUAL, SWIG_TOKEN_LESSTHAN, SWIG_TOKEN_GREATERTHAN,
                   SWIG_TOKEN_LTEQUAL, SWIG_TOKEN_GTEQUAL} then 80
      else if t = SWIG_TOKEN_LNOT then 90
      else if t = SWIG_TOKEN_LAND then 100
      else if t = SWIG_TOKEN_LOR then 110
      else 0)"

definition UNARY_OP :: "int \<Rightarrow> bool" where
  "UNARY_OP t \<longleftrightarrow> t = SWIG_TOKEN_NOT \<or> t = SWIG_TOKEN_LNOT \<or> t = EXPR_UMINUS"

section \<open>Arithmetic on long\<close>

definition long_range :: "int \<Rightarrow> bool" where
  "long_range v \<longleftrightarrow> - (2 ^ 63) \<le> v \<and> v < 2 ^ 63"

definition chk_long :: "int \<Rightarrow> int res" where
  "chk_long v = (if long_range v then Inr v else Inl Undefined)"

definition to_int :: "int \<Rightarrow> int" where
  \<comment> \<open>the conversion of a \<^verbatim>\<open>long\<close> to the \<^verbatim>\<open>int\<close> that is returned\<close>
  "to_int v = (v + 2 ^ 31) mod 2 ^ 32 - 2 ^ 31"

definition digit_of :: "char \<Rightarrow> nat" where
  \<comment> \<open>the value of a digit or letter as \<^verbatim>\<open>strtol\<close> reads it, 36 for other characters\<close>
  "digit_of c = (if isdigit c then cc c - 48 else if isupper c then cc c - 55 else if islower c then cc c - 87 else 36)"

fun strtol_digits :: "nat \<Rightarrow> int \<Rightarrow> string \<Rightarrow> int" where
  "strtol_digits b acc [] = acc"
| "strtol_digits b acc (c # cs) =
     (if digit_of c < b then strtol_digits b (acc * int b + int (digit_of c)) cs else acc)"

definition strtol0 :: "string \<Rightarrow> int" where
  \<comment> \<open>\<^verbatim>\<open>strtol(c, 0, 0)\<close>\<close>
  "strtol0 s =
     (let s1 = dropWhile isspace s;
          neg = starts_with ''-'' s1;
          s2 = (if neg \<or> starts_with ''+'' s1 then drop 1 s1 else s1);
          v = (if (starts_with ''0x'' s2 \<or> starts_with ''0X'' s2) \<and> drop 2 s2 \<noteq> [] \<and> digit_of (s2 ! 2) < 16
               then strtol_digits 16 0 (drop 2 s2)
               else if starts_with ''0'' s2 then strtol_digits 8 0 s2
               else strtol_digits 10 0 s2);
          r = (if neg then - v else v)
      in if r < - (2 ^ 63) then - (2 ^ 63) else if r \<ge> 2 ^ 63 then 2 ^ 63 - 1 else r)"

datatype outcome = Value int | Fail string

text \<open>
  The arithmetic of the \<^verbatim>\<open>switch\<close> in \<^verbatim>\<open>reduce_op\<close> on the two operands; a unary operator
  reads the right one only.
\<close>

definition apply_op :: "int \<Rightarrow> int \<Rightarrow> int \<Rightarrow> outcome res" where
  "apply_op t a b =
     (if t = SWIG_TOKEN_STAR then map_sum id Value (chk_long (a * b))
      else if t = SWIG_TOKEN_EQUALTO then Inr (Value (of_bool (a = b)))
      else if t = SWIG_TOKEN_NOTEQUAL then Inr (Value (of_bool (a \<noteq> b)))
      else if t = SWIG_TOKEN_PLUS then map_sum id Value (chk_long (a + b))
      else if t = SWIG_TOKEN_MINUS then map_sum id Value (chk_long (a - b))
      else if t = SWIG_TOKEN_AND then Inr (Value (and a b))
      else if t = SWIG_TOKEN_LAND then Inr (Value (of_bool (a \<noteq> 0 \<and> b \<noteq> 0)))
      else if t = SWIG_TOKEN_OR then Inr (Value (or a b))
      else if t = SWIG_TOKEN_LOR then Inr (Value (of_bool (a \<noteq> 0 \<or> b \<noteq> 0)))
      else if t = SWIG_TOKEN_XOR then Inr (Value (xor a b))
      else if t = SWIG_TOKEN_LESSTHAN then Inr (Value (of_bool (a < b)))
      else if t = SWIG_TOKEN_GREATERTHAN then Inr (Value (of_bool (a > b)))
      else if t = SWIG_TOKEN_LTEQUAL then Inr (Value (of_bool (a \<le> b)))
      else if t = SWIG_TOKEN_GTEQUAL then Inr (Value (of_bool (a \<ge> b)))
      else if t = SWIG_TOKEN_NOT then Inr (Value (not b))
      else if t = SWIG_TOKEN_LNOT then Inr (Value (of_bool (b = 0)))
      else if t = EXPR_UMINUS then map_sum id Value (chk_long (- b))
      else if t = SWIG_TOKEN_SLASH then
        (if b \<noteq> 0 then map_sum id Value (chk_long (a sdiv b)) else Inr (Fail ''Division by zero in expression''))
      else if t = SWIG_TOKEN_PERCENT then
        (if b \<noteq> 0 then (if long_range (a sdiv b) then Inr (Value (a smod b)) else Inl Undefined)
         else Inr (Fail ''Modulo by zero in expression''))
      else if t = SWIG_TOKEN_LSHIFT then
        (if 0 \<le> b \<and> b < 64 \<and> 0 \<le> a then map_sum id Value (chk_long (push_bit (nat b) a)) else Inl Undefined)
      else if t = SWIG_TOKEN_RSHIFT then
        (if 0 \<le> b \<and> b < 64 then Inr (Value (drop_bit (nat b) a)) else Inl Undefined)
      else Inr (Fail ''Syntax error: bad operator''))"

definition strcmp_eq :: "svalue \<Rightarrow> svalue \<Rightarrow> bool res" where
  \<comment> \<open>\<^verbatim>\<open>Strcmp(...) == 0\<close>\<close>
  "strcmp_eq a b =
     (case (a, b) of
        (SLive x, SLive y) \<Rightarrow> Inr (x = y)
      | (SNull, _) \<Rightarrow> Inl NullDeref
      | (_, SNull) \<Rightarrow> Inl NullDeref
      | _ \<Rightarrow> Inl UseAfterFree)"

section \<open>Reducing\<close>

definition set_value :: "nat \<Rightarrow> int \<Rightarrow> expr_state \<Rightarrow> expr_state res" where
  \<comment> \<open>the value is stored, the stack pointer moves to the slot, and the two lines after the \<^verbatim>\<open>switch\<close>\<close>
  "set_value i v st = set_slot i (\<lambda>_. \<lparr>ev_op = EXPR_VALUE, ev_value = v, ev_svalue = SNull\<rparr>) (st\<lparr>sp := i\<rparr>)"

fun store_outcome :: "nat \<Rightarrow> expr_state \<Rightarrow> outcome \<Rightarrow> (bool \<times> expr_state) res" where
  \<comment> \<open>the value replaces the operands, or the message is set and the stack is left\<close>
  "store_outcome i st (Value v) = map_sum id (Pair True) (set_value i v st)"
| "store_outcome i st (Fail m) = Inr (False, st\<lparr>errmsg := m\<rparr>)"

definition reduce_string :: "exprval \<Rightarrow> exprval \<Rightarrow> exprval \<Rightarrow> expr_state \<Rightarrow> (bool \<times> expr_state) res" where
  \<comment> \<open>a binary string expression: \<open>l\<close>, \<open>o'\<close> and \<open>r\<close> are the slots \<^verbatim>\<open>sp - 2\<close>, \<^verbatim>\<open>sp - 1\<close> and \<^verbatim>\<open>sp\<close>\<close>
  "reduce_string l o' r st =
     (if ev_value o' = SWIG_TOKEN_EQUALTO \<or> ev_value o' = SWIG_TOKEN_NOTEQUAL then
        res_bind (strcmp_eq (ev_svalue l) (ev_svalue r)) (\<lambda>eq.
        res_bind (set_slot (sp st) (\<lambda>x. x\<lparr>ev_svalue := SFreed\<rparr>) st) (\<lambda>st1.
        res_bind (set_value (sp st - 2) (of_bool (eq = (ev_value o' = SWIG_TOKEN_EQUALTO))) st1) (\<lambda>st2. Inr (True, st2))))
      else Inr (False, st\<lparr>errmsg := ''Syntax error: bad binary operator for strings''\<rparr>))"

definition reduce_op :: "expr_state \<Rightarrow> (bool \<times> expr_state) res" where
  "reduce_op st =
     (if sp st = 0 then Inl OutOfBounds
      else res_bind (slot st (sp st - 1)) (\<lambda>o'.
      if ev_op o' \<noteq> EXPR_OP then Inl AssertFailed
      else res_bind (slot st (sp st)) (\<lambda>r.
      if ev_op r \<noteq> EXPR_VALUE then Inr (False, st\<lparr>errmsg := ''Right-hand side is not value''\<rparr>)
      else if UNARY_OP (ev_value o') then
        (if ev_svalue r \<noteq> SNull
         then Inr (False, st\<lparr>errmsg := ''Syntax error: attempt to apply unary operator to string''\<rparr>)
         else res_bind (apply_op (ev_value o') 0 (ev_value r)) (store_outcome (sp st - 1) st))
      else if sp st = 1 then Inr (False, st\<lparr>errmsg := ''Missing left-hand side for binary operator''\<rparr>)
      else res_bind (slot st (sp st - 2)) (\<lambda>l.
           if (ev_svalue l = SNull) \<noteq> (ev_svalue r = SNull)
           then Inr (False, st\<lparr>errmsg := ''Can't mix strings and integers in expression''\<rparr>)
           else if ev_svalue r \<noteq> SNull then reduce_string l o' r st
           else res_bind (apply_op (ev_value o') (ev_value l) (ev_value r)) (store_outcome (sp st - 2) st)))))"

lemma set_slot_sp: "set_slot i f st = Inr st' \<Longrightarrow> sp st' = sp st"
  by (auto simp: set_slot_def split: if_splits)

lemma set_value_sp: "set_value i v st = Inr st' \<Longrightarrow> sp st' = i"
  by (auto simp: set_value_def dest: set_slot_sp)

lemma map_sum_Inr: "map_sum id f r = Inr y \<longleftrightarrow> (\<exists>x. r = Inr x \<and> y = f x)"
  by (cases r) auto

lemma map_sum_Inl: "map_sum id f r = Inl e \<longleftrightarrow> r = Inl e"
  by (cases r) auto

lemma reduce_string_sp: "reduce_string l o' r st = Inr (True, st') \<Longrightarrow> sp st' = sp st - 2"
  by (auto simp: reduce_string_def res_bind_eq_Inr dest: set_value_sp split: if_splits)

lemma store_outcome_sp: "store_outcome i st out = Inr (True, st') \<Longrightarrow> sp st' = i"
  by (cases out) (auto simp: map_sum_Inr dest: set_value_sp)

lemma reduce_op_sp: "reduce_op st = Inr (True, st') \<Longrightarrow> sp st' < sp st"
  by (auto simp: reduce_op_def res_bind_eq_Inr split: if_splits dest!: store_outcome_sp reduce_string_sp)

section \<open>The main loop\<close>

definition expr_fail :: "string \<Rightarrow> expr_state \<Rightarrow> (int \<times> bool \<times> expr_state) res" where
  \<comment> \<open>the message is stored, \<^verbatim>\<open>*error = 1; return 0\<close>\<close>
  "expr_fail m st = Inr (0, True, st\<lparr>errmsg := m\<rparr>)"

definition quoted_paren :: string where
  "quoted_paren = [CHR 0x27, CHR '')'', CHR 0x27]"

text \<open>The end of the input: reduce until the stack pointer is zero.\<close>

function expr_end :: "expr_state \<Rightarrow> (int \<times> bool \<times> expr_state) res" where
  "expr_end st =
     (if sp st > 0 then
        res_bind (slot st (sp st - 1)) (\<lambda>o'.
        if ev_op o' = EXPR_OP then
          (case reduce_op st of
             Inl e \<Rightarrow> Inl e
           | Inr (False, st1) \<Rightarrow> Inr (0, True, st1)
           | Inr (True, st1) \<Rightarrow> expr_end st1)
        else if ev_op o' = EXPR_GROUP then expr_fail (''Missing '' @ quoted_paren) st
        else expr_fail ''Syntax error'' st)
      else res_bind (slot st (sp st)) (\<lambda>v. Inr (to_int (ev_value v), False, st)))"
  by pat_completeness auto
termination
  by (relation "measure sp") (auto dest: reduce_op_sp)

declare expr_end.simps [simp del]

text \<open>The reductions before a closing parenthesis; \<open>False\<close> is the jump to \<^verbatim>\<open>reduce_error\<close>.\<close>

function reduce_group :: "expr_state \<Rightarrow> (bool \<times> expr_state) res" where
  "reduce_group st =
     (if sp st > 0 then
        res_bind (slot st (sp st - 1)) (\<lambda>o'.
        if ev_op o' = EXPR_OP then
          (case reduce_op st of
             Inl e \<Rightarrow> Inl e
           | Inr (False, st1) \<Rightarrow> Inr (False, st1)
           | Inr (True, st1) \<Rightarrow> reduce_group st1)
        else Inr (True, st))
      else Inr (True, st))"
  by pat_completeness auto
termination
  by (relation "measure sp") (auto dest: reduce_op_sp)

declare reduce_group.simps [simp del]

text \<open>
  What one step does: go on with the loop, or return. In \<open>Done\<close> the message has been set.
\<close>

datatype step = Continue expr_state | Done "int \<times> bool \<times> expr_state"

definition step_fail :: "string \<Rightarrow> expr_state \<Rightarrow> step res" where
  "step_fail m st = Inr (Done (0, True, st\<lparr>errmsg := m\<rparr>))"

definition is_number :: "int \<Rightarrow> bool" where
  "is_number t \<longleftrightarrow> t = SWIG_TOKEN_INT \<or> t = SWIG_TOKEN_UINT \<or> t = SWIG_TOKEN_LONG \<or> t = SWIG_TOKEN_ULONG"

text \<open>\<^verbatim>\<open>case EXPR_TOP\<close> for a token other than the end of the input.\<close>

definition expr_top :: "int \<Rightarrow> string \<Rightarrow> expr_state \<Rightarrow> step res" where
  "expr_top token txt' st =
     (if is_number token then
        map_sum id Continue (set_slot (sp st) (\<lambda>_. \<lparr>ev_op = EXPR_VALUE, ev_value = strtol0 txt', ev_svalue = SNull\<rparr>) st)
      else if token = SWIG_TOKEN_PLUS then Inr (Continue st)
      else if token = SWIG_TOKEN_MINUS \<or> token = SWIG_TOKEN_LNOT \<or> token = SWIG_TOKEN_NOT then
        res_bind (set_slot (sp st) (\<lambda>x. x\<lparr>ev_value := if token = SWIG_TOKEN_MINUS then EXPR_UMINUS else token,
                                         ev_op := EXPR_OP\<rparr>) st) (\<lambda>st1.
        map_sum id Continue (set_slot (sp st + 1) (\<lambda>x. x\<lparr>ev_op := EXPR_TOP, ev_svalue := SNull\<rparr>) (st1\<lparr>sp := sp st + 1\<rparr>)))
      else if token = SWIG_TOKEN_LPAREN then
        res_bind (set_slot (sp st) (\<lambda>x. x\<lparr>ev_op := EXPR_GROUP\<rparr>) st) (\<lambda>st1.
        map_sum id Continue (set_slot (sp st + 1) (\<lambda>_. \<lparr>ev_op = EXPR_TOP, ev_value = 0, ev_svalue = SNull\<rparr>)
                               (st1\<lparr>sp := sp st + 1\<rparr>)))
      else if token = SWIG_TOKEN_STRING then
        map_sum id Continue (set_slot (sp st) (\<lambda>x. x\<lparr>ev_svalue := SLive txt', ev_op := EXPR_VALUE\<rparr>) st)
      else if token = SWIG_TOKEN_ID then
        map_sum id Continue (set_slot (sp st) (\<lambda>_. \<lparr>ev_op = EXPR_VALUE, ev_value = 0, ev_svalue = SNull\<rparr>) st)
      else if token = SWIG_TOKEN_FLOAT \<or> token = SWIG_TOKEN_DOUBLE then
        step_fail ''Floating point constant in preprocessor expression'' st
      else step_fail ''Syntax error'' st)"

definition is_binary :: "int \<Rightarrow> bool" where
  "is_binary t \<longleftrightarrow> t \<in> {SWIG_TOKEN_STAR, SWIG_TOKEN_EQUALTO, SWIG_TOKEN_NOTEQUAL, SWIG_TOKEN_PLUS, SWIG_TOKEN_MINUS,
     SWIG_TOKEN_AND, SWIG_TOKEN_LAND, SWIG_TOKEN_OR, SWIG_TOKEN_LOR, SWIG_TOKEN_XOR, SWIG_TOKEN_LESSTHAN,
     SWIG_TOKEN_GREATERTHAN, SWIG_TOKEN_LTEQUAL, SWIG_TOKEN_GTEQUAL, SWIG_TOKEN_SLASH, SWIG_TOKEN_PERCENT,
     SWIG_TOKEN_LSHIFT, SWIG_TOKEN_RSHIFT}"

definition push_op :: "int \<Rightarrow> expr_state \<Rightarrow> step res" where
  "push_op token st =
     res_bind (set_slot (sp st + 1) (\<lambda>x. x\<lparr>ev_op := EXPR_OP, ev_value := token\<rparr>) (st\<lparr>sp := sp st + 1\<rparr>)) (\<lambda>st1.
     map_sum id Continue (set_slot (sp st + 2) (\<lambda>x. x\<lparr>ev_op := EXPR_TOP, ev_value := 0\<rparr>) (st1\<lparr>sp := sp st + 2\<rparr>)))"

definition expr_binary :: "int \<Rightarrow> expr_state \<Rightarrow> step res" where
  "expr_binary token st =
     (if sp st = 0 then push_op token st
      else res_bind (slot st (sp st - 1)) (\<lambda>o'.
      if ev_op o' = EXPR_GROUP then push_op token st
      else if ev_op o' \<noteq> EXPR_OP then step_fail ''Syntax error: expected operator'' st
      else if prec (ev_value o') \<le> prec token then
        res_bind (reduce_op st) (\<lambda>(ok, st1). if ok then push_op token st1 else Inr (Done (0, True, st1)))
      else push_op token st))"

definition close_group :: "expr_state \<Rightarrow> step res" where
  "close_group st =
     (if sp st = 0 then step_fail (''Extra '' @ quoted_paren) st
      else res_bind (slot st (sp st - 1)) (\<lambda>g.
        if ev_op g \<noteq> EXPR_GROUP then step_fail (''Extra '' @ quoted_paren) st
        else res_bind (slot st (sp st)) (\<lambda>v.
             map_sum id Continue (set_slot (sp st - 1) (\<lambda>x. x\<lparr>ev_op := EXPR_VALUE, ev_value := ev_value v\<rparr>)
                                   (st\<lparr>sp := sp st - 1\<rparr>)))))"

definition expr_rparen :: "expr_state \<Rightarrow> step res" where
  "expr_rparen st =
     (if sp st = 0 then step_fail (''Extra '' @ quoted_paren) st
      else res_bind (reduce_group st) (\<lambda>(ok, st1). if ok then close_group st1 else Inr (Done (0, True, st1))))"

text \<open>\<^verbatim>\<open>case EXPR_VALUE\<close> for a token other than the end of the input.\<close>

definition expr_value :: "int \<Rightarrow> expr_state \<Rightarrow> step res" where
  "expr_value token st =
     (if is_binary token then expr_binary token st
      else if token = SWIG_TOKEN_RPAREN then expr_rparen st
      else step_fail ''Syntax error: expected operator'' st)"

text \<open>One token: the \<^verbatim>\<open>switch\<close> on the top of the stack.\<close>

definition expr_step :: "token \<Rightarrow> expr_state \<Rightarrow> step res" where
  "expr_step t st =
     res_bind (slot st (sp st)) (\<lambda>s.
       if ev_op s = EXPR_TOP then expr_top (fst t) (snd t) st
       else if ev_op s = EXPR_VALUE then expr_value (fst t) st
       else Inl Aborted)"

definition expr_eof :: "expr_state \<Rightarrow> (int \<times> bool \<times> expr_state) res" where
  "expr_eof st =
     res_bind (slot st (sp st)) (\<lambda>s.
       if ev_op s = EXPR_TOP then expr_fail ''Expected an expression'' st
       else if ev_op s = EXPR_VALUE then expr_end st
       else Inl Aborted)"

definition skipped :: "token \<Rightarrow> bool" where
  \<comment> \<open>the tokens \<^verbatim>\<open>expr_token\<close> reads over\<close>
  "skipped t \<longleftrightarrow> fst t = SWIG_TOKEN_BACKSLASH \<or> fst t = SWIG_TOKEN_ENDLINE \<or> fst t = SWIG_TOKEN_COMMENT"

fun expr_loop :: "token list \<Rightarrow> expr_state \<Rightarrow> (int \<times> bool \<times> expr_state) res" where
  "expr_loop [] st = expr_eof st"
| "expr_loop (t # ts) st =
     (if skipped t then expr_loop ts st
      else if fst t = 0 then expr_eof st
      else case expr_step t st of
             Inl e \<Rightarrow> Inl e
           | Inr (Continue st1) \<Rightarrow> expr_loop ts st1
           | Inr (Done r) \<Rightarrow> Inr r)"

text \<open>The result: the value, the flag \<^verbatim>\<open>*error\<close> and the state left for the next evaluation.\<close>

definition Preprocessor_expr :: "token list \<Rightarrow> expr_state \<Rightarrow> (int \<times> bool \<times> expr_state) res" where
  "Preprocessor_expr ts st =
     res_bind (set_slot 0 (\<lambda>x. x\<lparr>ev_op := EXPR_TOP, ev_value := 0\<rparr>) (st\<lparr>sp := 0\<rparr>)) (expr_loop ts)"

section \<open>Expressions and their printed form\<close>

text \<open>
  The printed form of an expression: operators associate to the left, a left operand is
  enclosed in parentheses when its operator binds weaker than the one after it, and every
  right operand and operand of a unary operator that has an operator is enclosed.
\<close>

datatype cexpr = Num string | Ident | Unop int cexpr | Binop int cexpr cexpr

fun atomic :: "cexpr \<Rightarrow> bool" where
  "atomic (Num w) = True"
| "atomic Ident = True"
| "atomic (Unop u a) = False"
| "atomic (Binop t a b) = False"

fun root :: "cexpr \<Rightarrow> int" where
  "root (Unop u a) = u"
| "root (Binop t a b) = t"
| "root e = 0"

definition paren :: "token list \<Rightarrow> token list" where
  "paren ts = (SWIG_TOKEN_LPAREN, []) # ts @ [(SWIG_TOKEN_RPAREN, [])]"

fun pr :: "cexpr \<Rightarrow> token list" where
  "pr (Num w) = [(SWIG_TOKEN_INT, w)]"
| "pr Ident = [(SWIG_TOKEN_ID, [])]"
| "pr (Unop u a) = (if u = EXPR_UMINUS then SWIG_TOKEN_MINUS else u, []) # (if atomic a then pr a else paren (pr a))"
| "pr (Binop t a b) = (if prec (root a) \<le> prec t then pr a else paren (pr a)) @ (t, []) #
     (if atomic b then pr b else paren (pr b))"

fun wf_expr :: "cexpr \<Rightarrow> bool" where
  "wf_expr (Unop u a) \<longleftrightarrow> UNARY_OP u \<and> wf_expr a"
| "wf_expr (Binop t a b) \<longleftrightarrow> is_binary t \<and> wf_expr a \<and> wf_expr b"
| "wf_expr e \<longleftrightarrow> True"

text \<open>The stack slots the evaluation of the printed form needs above the current one.\<close>

fun height :: "cexpr \<Rightarrow> nat" where
  "height (Unop u a) = 1 + (if atomic a then 0 else 1 + height a)"
| "height (Binop t a b) = max (if prec (root a) \<le> prec t then height a else 1 + height a)
     (2 + (if atomic b then 0 else 1 + height b))"
| "height e = 0"

text \<open>The meaning of an expression: every operand is evaluated.\<close>

fun bind_out :: "outcome res \<Rightarrow> (int \<Rightarrow> outcome res) \<Rightarrow> outcome res" where
  "bind_out (Inr (Value v)) f = f v"
| "bind_out r f = r"

fun sem :: "cexpr \<Rightarrow> outcome res" where
  "sem (Num w) = Inr (Value (strtol0 w))"
| "sem Ident = Inr (Value 0)"
| "sem (Unop u a) = bind_out (sem a) (apply_op u 0)"
| "sem (Binop t a b) = bind_out (sem a) (\<lambda>x. bind_out (sem b) (apply_op t x))"

lemma bind_out_Value: "bind_out r f = Inr (Value v) \<longleftrightarrow> (\<exists>x. r = Inr (Value x) \<and> f x = Inr (Value v))"
  by (cases "(r, f)" rule: bind_out.cases) auto

section \<open>Correctness of the machine\<close>

definition clean :: "expr_state \<Rightarrow> bool" where
  \<comment> \<open>no slot of the static stack has a string\<close>
  "clean st \<longleftrightarrow> length (stack st) = 256 \<and> (\<forall>i < 256. ev_svalue (stack st ! i) = SNull)"

definition agree :: "nat \<Rightarrow> expr_state \<Rightarrow> expr_state \<Rightarrow> bool" where
  "agree k st st0 \<longleftrightarrow> (\<forall>i < k. stack st ! i = stack st0 ! i)"

definition top_at :: "nat \<Rightarrow> expr_state \<Rightarrow> bool" where
  "top_at k st \<longleftrightarrow> sp st = k \<and> k < 256 \<and> ev_op (stack st ! k) = EXPR_TOP"

definition val_at :: "nat \<Rightarrow> int \<Rightarrow> expr_state \<Rightarrow> bool" where
  "val_at k v st \<longleftrightarrow> sp st = k \<and> k < 256 \<and> ev_op (stack st ! k) = EXPR_VALUE \<and> ev_value (stack st ! k) = v"

definition base :: "nat \<Rightarrow> expr_state \<Rightarrow> bool" where
  \<comment> \<open>no operator is waiting below slot \<open>k\<close> in the same group\<close>
  "base k st \<longleftrightarrow> k = 0 \<or> ev_op (stack st ! (k - 1)) = EXPR_GROUP"

definition waiting :: "int \<Rightarrow> nat \<Rightarrow> int \<Rightarrow> expr_state \<Rightarrow> bool" where
  \<comment> \<open>the operator \<open>t\<close> and its operands are on the stack from slot \<open>k\<close> on, and its value is \<open>v\<close>\<close>
  "waiting t k v st \<longleftrightarrow>
     (if UNARY_OP t then sp st = k + 1 \<and> k + 1 < 256 \<and> ev_op (stack st ! k) = EXPR_OP \<and> ev_value (stack st ! k) = t \<and>
        ev_op (stack st ! (k + 1)) = EXPR_VALUE \<and> apply_op t 0 (ev_value (stack st ! (k + 1))) = Inr (Value v)
      else sp st = k + 2 \<and> k + 2 < 256 \<and> ev_op (stack st ! k) = EXPR_VALUE \<and> ev_op (stack st ! (k + 1)) = EXPR_OP \<and>
        ev_value (stack st ! (k + 1)) = t \<and> ev_op (stack st ! (k + 2)) = EXPR_VALUE \<and>
        apply_op t (ev_value (stack st ! k)) (ev_value (stack st ! (k + 2))) = Inr (Value v))"

definition ready :: "cexpr \<Rightarrow> nat \<Rightarrow> int \<Rightarrow> expr_state \<Rightarrow> bool" where
  "ready e k v st \<longleftrightarrow> (if atomic e then val_at k v st else waiting (root e) k v st)"

lemma agree_refl [simp]: "agree k st st"
  by (simp add: agree_def)

lemma agree_trans: "agree k a b \<Longrightarrow> agree j b c \<Longrightarrow> k \<le> j \<Longrightarrow> agree k a c"
  by (simp add: agree_def)

lemma base_agree: "agree k a b \<Longrightarrow> base k b \<Longrightarrow> base k a"
  by (cases k) (auto simp: agree_def base_def)

lemma is_binary_not_unary: "is_binary t \<Longrightarrow> \<not> UNARY_OP t"
  by (auto simp: is_binary_def UNARY_OP_def)

lemma reduce_waiting:
  assumes "waiting t k v st" "clean st"
  shows "\<exists>st'. reduce_op st = Inr (True, st') \<and> val_at k v st' \<and> clean st' \<and> agree k st' st"
  using assms
  by (auto simp: waiting_def clean_def reduce_op_def slot_def set_value_def set_slot_def val_at_def agree_def nth_list_update
      split: if_splits)

lemmas machine_defs = clean_def slot_def set_slot_def val_at_def top_at_def agree_def nth_list_update

lemma push_op_ok:
  assumes "clean st" "sp st = k" "k + 2 < 256"
  shows "\<exists>st'. push_op t st = Inr (Continue st') \<and> top_at (k + 2) st' \<and> clean st' \<and> agree (k + 1) st' st
    \<and> ev_op (stack st' ! (k + 1)) = EXPR_OP \<and> ev_value (stack st' ! (k + 1)) = t"
  using assms by (auto simp: machine_defs push_op_def)

lemma binary_after_ready:
  assumes "ready e k v st" "clean st" "base k st" "k + 2 < 256" "prec (root e) \<le> prec t"
  shows "\<exists>st'. expr_binary t st = Inr (Continue st') \<and> top_at (k + 2) st' \<and> clean st' \<and> agree k st' st
    \<and> ev_op (stack st' ! k) = EXPR_VALUE \<and> ev_value (stack st' ! k) = v
    \<and> ev_op (stack st' ! (k + 1)) = EXPR_OP \<and> ev_value (stack st' ! (k + 1)) = t"
proof -
  have push: "\<exists>st'. push_op t s1 = Inr (Continue st') \<and> top_at (k + 2) st' \<and> clean st' \<and> agree k st' st
      \<and> ev_op (stack st' ! k) = EXPR_VALUE \<and> ev_value (stack st' ! k) = v
      \<and> ev_op (stack st' ! (k + 1)) = EXPR_OP \<and> ev_value (stack st' ! (k + 1)) = t"
    if s1: "val_at k v s1" "clean s1" "agree k s1 st" for s1
  proof -
    obtain st' where "push_op t s1 = Inr (Continue st')" "top_at (k + 2) st'" "clean st'" "agree (k + 1) st' s1"
      "ev_op (stack st' ! (k + 1)) = EXPR_OP" "ev_value (stack st' ! (k + 1)) = t"
      using push_op_ok[of s1 k t] s1 assms(4) by (auto simp: val_at_def)
    then show ?thesis using s1 by (auto simp: agree_def val_at_def)
  qed
  show ?thesis
  proof (cases "atomic e")
    case True
    then have v: "val_at k v st" using assms(1) by (simp add: ready_def)
    then have "expr_binary t st = push_op t st"
      using assms(2,3) by (auto simp: expr_binary_def base_def machine_defs)
    then show ?thesis using push[OF v assms(2)] by simp
  next
    case False
    then have w: "waiting (root e) k v st" using assms(1) by (simp add: ready_def)
    then obtain s1 where s1: "reduce_op st = Inr (True, s1)" "val_at k v s1" "clean s1" "agree k s1 st"
      using reduce_waiting assms(2) by blast
    have "expr_binary t st = push_op t s1"
      using w assms(2,5) s1(1) by (auto simp: expr_binary_def waiting_def machine_defs split: if_splits)
    then show ?thesis using push[OF s1(2-4)] by simp
  qed
qed

lemma group_after_ready:
  assumes "ready e (Suc k) v st" "clean st" "ev_op (stack st ! k) = EXPR_GROUP"
  shows "\<exists>st'. expr_rparen st = Inr (Continue st') \<and> val_at k v st' \<and> clean st' \<and> agree k st' st"
proof -
  have k: "ev_svalue (stack st ! k) = SNull" if "k < 256" using assms(2) that by (simp add: clean_def)
  have close: "reduce_group s1 = Inr (True, s1)"
    "\<exists>st'. close_group s1 = Inr (Continue st') \<and> val_at k v st' \<and> clean st' \<and> agree k st' st"
    if s1: "val_at (Suc k) v s1" "clean s1" "agree (Suc k) s1 st" for s1
    using s1 assms(3) k by (auto simp: reduce_group.simps[of s1] close_group_def machine_defs)
  show ?thesis
  proof (cases "atomic e")
    case True
    then have v: "val_at (Suc k) v st" using assms(1) by (simp add: ready_def)
    then have "sp st \<noteq> 0" by (simp add: val_at_def)
    then show ?thesis unfolding expr_rparen_def using close[OF v assms(2)] by simp
  next
    case False
    then have w: "waiting (root e) (Suc k) v st" using assms(1) by (simp add: ready_def)
    then obtain s1 where s1: "reduce_op st = Inr (True, s1)" "val_at (Suc k) v s1" "clean s1" "agree (Suc k) s1 st"
      using reduce_waiting assms(2) by blast
    have "sp st \<noteq> 0" "reduce_group st = reduce_group s1"
      using w assms(2) s1(1) by (auto simp: reduce_group.simps[of st] waiting_def machine_defs split: if_splits)
    then show ?thesis unfolding expr_rparen_def using close[OF s1(2-4)] by simp
  qed
qed

lemma end_after_ready:
  assumes "ready e 0 v st" "clean st"
  shows "\<exists>st'. expr_eof st = Inr (to_int v, False, st') \<and> clean st'"
proof (cases "atomic e")
  case True
  then show ?thesis using assms by (auto simp: ready_def expr_eof_def expr_end.simps[of st] machine_defs)
next
  case False
  then have w: "waiting (root e) 0 v st" using assms(1) by (simp add: ready_def)
  then obtain s1 where s1: "reduce_op st = Inr (True, s1)" "val_at 0 v s1" "clean s1"
    using reduce_waiting assms(2) by blast
  have "expr_eof st = expr_end s1"
    using w assms(2) s1(1) by (auto simp: expr_eof_def expr_end.simps[of st] waiting_def machine_defs split: if_splits)
  then show ?thesis using s1 by (auto simp: expr_end.simps[of s1] machine_defs)
qed

text \<open>The printed form of \<open>e\<close> is evaluated to \<open>v\<close> wherever an expression may start.\<close>

definition evaluates :: "cexpr \<Rightarrow> int \<Rightarrow> bool" where
  "evaluates e v \<longleftrightarrow> (\<forall>st k ts. clean st \<longrightarrow> top_at k st \<longrightarrow> k + height e < 256 \<longrightarrow> atomic e \<or> base k st \<longrightarrow>
     (\<exists>st'. expr_loop (pr e @ ts) st = expr_loop ts st' \<and> ready e k v st' \<and> clean st' \<and> agree k st' st))"

lemma evaluatesD:
  assumes "evaluates e v" "clean st" "top_at k st" "k + height e < 256" "atomic e \<or> base k st"
  obtains st' where "expr_loop (pr e @ ts) st = expr_loop ts st'" "ready e k v st'" "clean st'" "agree k st' st"
  using assms unfolding evaluates_def by blast

lemma evaluates_paren:
  assumes "evaluates e v" "clean st" "top_at k st" "k + 1 + height e < 256"
  obtains st' where "expr_loop (paren (pr e) @ ts) st = expr_loop ts st'" "val_at k v st'" "clean st'" "agree k st' st"
proof -
  obtain s1 where s1: "expr_step (SWIG_TOKEN_LPAREN, []) st = Inr (Continue s1)" "clean s1" "top_at (Suc k) s1"
    "agree k s1 st" "ev_op (stack s1 ! k) = EXPR_GROUP"
    using assms(2-4) by (auto simp: expr_step_def expr_top_def is_number_def machine_defs)
  then have "base (Suc k) s1" by (simp add: base_def)
  then obtain s2 where s2: "expr_loop (pr e @ (SWIG_TOKEN_RPAREN, []) # ts) s1 = expr_loop ((SWIG_TOKEN_RPAREN, []) # ts) s2"
    "ready e (Suc k) v s2" "clean s2" "agree (Suc k) s2 s1"
    using evaluatesD[OF assms(1) s1(2,3) _ disjI2, of "(SWIG_TOKEN_RPAREN, []) # ts"] assms(4) by (metis Suc_eq_plus1)
  then have g: "ev_op (stack s2 ! k) = EXPR_GROUP" using s1 by (simp add: agree_def)
  then obtain s3 where s3: "expr_rparen s2 = Inr (Continue s3)" "val_at k v s3" "clean s3" "agree k s3 s2"
    using group_after_ready s2 by blast
  have "expr_step (SWIG_TOKEN_RPAREN, []) s2 = expr_rparen s2"
    using s2(2,3) by (auto simp: expr_step_def expr_value_def is_binary_def ready_def waiting_def machine_defs split: if_splits)
  then have "expr_loop (paren (pr e) @ ts) st = expr_loop ts s3"
    using s1(1) s2(1) s3(1) by (simp add: paren_def skipped_def)
  moreover have "agree k s3 st" using s3(4) s2(4) s1(4) by (simp add: agree_def)
  ultimately show ?thesis using that s3 by blast
qed

lemma evaluates_operand:
  assumes "evaluates e v" "clean st" "top_at k st" "k + (if atomic e then 0 else 1 + height e) < 256"
  obtains st' where "expr_loop ((if atomic e then pr e else paren (pr e)) @ ts) st = expr_loop ts st'"
    "val_at k v st'" "clean st'" "agree k st' st"
proof (cases "atomic e")
  case True
  then have "height e = 0" by (cases e) auto
  with True show ?thesis using evaluatesD[OF assms(1-3), of ts] assms(4) that by (auto simp: ready_def)
next
  case False
  then show ?thesis using evaluates_paren[OF assms(1-3), of ts] assms(4) that by auto
qed

lemma evaluates_atom: "atomic e \<Longrightarrow> sem e = Inr (Value v) \<Longrightarrow> evaluates e v"
  unfolding evaluates_def
  by (cases e) (auto simp: ready_def expr_step_def expr_top_def is_number_def skipped_def machine_defs)

lemma evaluates_unop:
  assumes "evaluates a x" "UNARY_OP u" "apply_op u 0 x = Inr (Value v)"
  shows "evaluates (Unop u a) v"
  unfolding evaluates_def
proof (intro allI impI)
  fix st k ts
  assume st: "clean st" "top_at k st" "k + height (Unop u a) < 256"
  let ?t = "if u = EXPR_UMINUS then SWIG_TOKEN_MINUS else u"
  obtain s1 where s1: "expr_step (?t, []) st = Inr (Continue s1)" "clean s1" "top_at (Suc k) s1"
    "agree k s1 st" "ev_op (stack s1 ! k) = EXPR_OP" "ev_value (stack s1 ! k) = u"
    using st assms(2) by (auto simp: expr_step_def expr_top_def is_number_def UNARY_OP_def machine_defs split: if_splits)
  obtain s2 where s2: "expr_loop ((if atomic a then pr a else paren (pr a)) @ ts) s1 = expr_loop ts s2"
    "val_at (Suc k) x s2" "clean s2" "agree (Suc k) s2 s1"
    using evaluates_operand[OF assms(1) s1(2,3), of ts] st(3) by auto
  have "expr_loop (pr (Unop u a) @ ts) st = expr_loop ts s2"
    using s1(1) s2(1) assms(2) by (auto simp: skipped_def UNARY_OP_def)
  moreover have "ready (Unop u a) k v s2" using s1 s2 assms by (auto simp: ready_def waiting_def val_at_def agree_def)
  moreover have "agree k s2 st" using s1 s2 by (simp add: agree_def)
  ultimately show "\<exists>st'. expr_loop (pr (Unop u a) @ ts) st = expr_loop ts st' \<and> ready (Unop u a) k v st' \<and> clean st' \<and> agree k st' st"
    using s2(3) by blast
qed

lemma evaluates_left:
  assumes "evaluates a x" "is_binary t" "clean st" "top_at k st" "base k st" "k + height (Binop t a b) < 256"
  obtains st' where "expr_loop ((if prec (root a) \<le> prec t then pr a else paren (pr a)) @ (t, []) # ts) st = expr_loop ts st'"
    "top_at (k + 2) st'" "clean st'" "agree k st' st" "ev_op (stack st' ! k) = EXPR_VALUE" "ev_value (stack st' ! k) = x"
    "ev_op (stack st' ! (k + 1)) = EXPR_OP" "ev_value (stack st' ! (k + 1)) = t"
proof -
  let ?a = "if prec (root a) \<le> prec t then pr a else paren (pr a)"
  obtain s1 e where s1: "expr_loop (?a @ (t, []) # ts) st = expr_loop ((t, []) # ts) s1"
    "ready e k x s1" "prec (root e) \<le> prec t" "clean s1" "agree k s1 st"
  proof (cases "prec (root a) \<le> prec t")
    case True
    then have "k + height a < 256" using assms(6) by (simp add: max_def split: if_splits)
    then obtain s1 where "expr_loop (pr a @ (t, []) # ts) st = expr_loop ((t, []) # ts) s1" "ready a k x s1" "clean s1" "agree k s1 st"
      using evaluatesD[OF assms(1,3,4) _ disjI2[OF assms(5)]] by blast
    then show ?thesis using that[of s1 a] True by simp
  next
    case False
    have "prec 0 \<le> prec t" using assms(2) by (auto simp: prec_def is_binary_def)
    moreover have "k + 1 + height a < 256" using assms(6) False by (simp add: max_def split: if_splits)
    then obtain s1 where "expr_loop (paren (pr a) @ (t, []) # ts) st = expr_loop ((t, []) # ts) s1" "val_at k x s1" "clean s1" "agree k s1 st"
      using evaluates_paren[OF assms(1,3,4)] by blast
    ultimately show ?thesis using that[of s1 Ident] False by (simp add: ready_def)
  qed
  have k2: "k + 2 < 256" using assms(6) by (simp add: max_def split: if_splits)
  obtain s2 where s2: "expr_binary t s1 = Inr (Continue s2)" "top_at (k + 2) s2" "clean s2" "agree k s2 s1"
    "ev_op (stack s2 ! k) = EXPR_VALUE" "ev_value (stack s2 ! k) = x"
    "ev_op (stack s2 ! (k + 1)) = EXPR_OP" "ev_value (stack s2 ! (k + 1)) = t"
    using binary_after_ready[OF s1(2,4) base_agree[OF s1(5) assms(5)] k2 s1(3)] by blast
  have "expr_step (t, []) s1 = expr_binary t s1"
    using s1(2,4) assms(2) by (auto simp: expr_step_def expr_value_def ready_def waiting_def machine_defs split: if_splits)
  moreover have "\<not> skipped (t, [])" "t \<noteq> 0" using assms(2) by (auto simp: skipped_def is_binary_def)
  ultimately have "expr_loop (?a @ (t, []) # ts) st = expr_loop ts s2" using s1(1) s2(1) by simp
  moreover have "agree k s2 st" using s2(4) s1(5) by (simp add: agree_def)
  ultimately show ?thesis using that s2 by blast
qed

lemma evaluates_binop:
  assumes "evaluates a x" "evaluates b y" "is_binary t" "apply_op t x y = Inr (Value v)"
  shows "evaluates (Binop t a b) v"
  unfolding evaluates_def
proof (intro allI impI)
  fix st k ts
  assume st: "clean st" "top_at k st" "k + height (Binop t a b) < 256" "atomic (Binop t a b) \<or> base k st"
  let ?b = "if atomic b then pr b else paren (pr b)"
  have right: "k + 2 + (if atomic b then 0 else 1 + height b) < 256" using st(3) by (simp add: max_def split: if_splits)
  obtain s1 where s1: "expr_loop (pr (Binop t a b) @ ts) st = expr_loop (?b @ ts) s1" "top_at (k + 2) s1" "clean s1"
    "agree k s1 st" "ev_op (stack s1 ! k) = EXPR_VALUE" "ev_value (stack s1 ! k) = x"
    "ev_op (stack s1 ! (k + 1)) = EXPR_OP" "ev_value (stack s1 ! (k + 1)) = t"
    using evaluates_left[OF assms(1,3) st(1,2) _ st(3), of "?b @ ts"] st(4) by auto
  obtain s2 where s2: "expr_loop (?b @ ts) s1 = expr_loop ts s2" "val_at (k + 2) y s2" "clean s2" "agree (k + 2) s2 s1"
    using evaluates_operand[OF assms(2) s1(3,2) right, of ts] by blast
  have "ready (Binop t a b) k v s2"
    using s1 s2 assms is_binary_not_unary[OF assms(3)] by (auto simp: ready_def waiting_def val_at_def agree_def)
  moreover have "agree k s2 st" using s1 s2 by (simp add: agree_def)
  ultimately show "\<exists>st'. expr_loop (pr (Binop t a b) @ ts) st = expr_loop ts st' \<and> ready (Binop t a b) k v st' \<and> clean st' \<and> agree k st' st"
    using s1(1) s2(1,3) by auto
qed

lemma evaluates_sem: "wf_expr e \<Longrightarrow> sem e = Inr (Value v) \<Longrightarrow> evaluates e v"
proof (induction e arbitrary: v)
  case (Unop u a)
  then show ?case by (auto simp: bind_out_Value intro: evaluates_unop)
next
  case (Binop t a b)
  then show ?case by (auto simp: bind_out_Value intro: evaluates_binop)
qed (auto intro: evaluates_atom)

lemma clean_start: "clean expr_start"
  by (simp add: clean_def expr_start_def)

section \<open>Safety\<close>

definition sane :: "expr_state \<Rightarrow> bool" where
  \<comment> \<open>what holds whenever the \<^verbatim>\<open>switch\<close> looks at the top of the stack\<close>
  "sane st \<longleftrightarrow> length (stack st) = 256 \<and> sp st < 256 \<and> ev_op (stack st ! sp st) \<in> {EXPR_TOP, EXPR_VALUE}"

definition mild :: "fatal \<Rightarrow> bool" where
  "mild f \<longleftrightarrow> f = Undefined \<or> f = UseAfterFree"

lemma apply_op_mild: "apply_op t a b = Inl f \<Longrightarrow> mild f"
  by (auto simp: apply_op_def map_sum_Inl chk_long_def mild_def split: if_splits)

lemma strcmp_eq_mild: "strcmp_eq a b = Inl f \<Longrightarrow> a \<noteq> SNull \<Longrightarrow> b \<noteq> SNull \<Longrightarrow> mild f"
  by (cases a; cases b) (auto simp: strcmp_eq_def mild_def)

lemma slot_sane: "sane st \<Longrightarrow> i \<le> sp st \<Longrightarrow> slot st i = Inr (stack st ! i)"
  by (simp add: slot_def sane_def)

lemma set_value_ok:
  "length (stack st) = 256 \<Longrightarrow> i < 256 \<Longrightarrow> \<exists>st'. set_value i v st = Inr st' \<and> sane st' \<and> sp st' = i"
  by (simp add: set_value_def set_slot_def sane_def)

lemma sane_errmsg [simp]: "sane (st\<lparr>errmsg := m\<rparr>) = sane st"
  by (simp add: sane_def)

definition safe_red :: "expr_state \<Rightarrow> (bool \<times> expr_state) res \<Rightarrow> bool" where
  "safe_red st r \<longleftrightarrow> (case r of Inl f \<Rightarrow> mild f | Inr (ok, st') \<Rightarrow> sane st' \<and> sp st' \<le> sp st)"

lemma store_outcome_ok: "sane st \<Longrightarrow> i \<le> sp st \<Longrightarrow> safe_red st (store_outcome i st out)"
proof (cases out)
  case (Value v)
  assume st: "sane st" "i \<le> sp st"
  then obtain st' where "set_value i v st = Inr st'" "sane st'" "sp st' = i"
    using set_value_ok[of st i v] by (auto simp: sane_def)
  then show ?thesis using Value st by (simp add: safe_red_def)
qed (simp add: safe_red_def)

lemma reduce_string_ok:
  assumes "sane st" "ev_svalue l \<noteq> SNull" "ev_svalue r \<noteq> SNull"
  shows "safe_red st (reduce_string l o' r st)"
proof (cases "strcmp_eq (ev_svalue l) (ev_svalue r)")
  case (Inl f)
  then show ?thesis using assms strcmp_eq_mild[OF Inl] by (auto simp: reduce_string_def safe_red_def)
next
  case (Inr eq)
  let ?s = "st\<lparr>stack := (stack st)[sp st := (stack st ! sp st)\<lparr>ev_svalue := SFreed\<rparr>]\<rparr>"
  have "set_slot (sp st) (\<lambda>x. x\<lparr>ev_svalue := SFreed\<rparr>) st = Inr ?s" using assms(1) by (simp add: set_slot_def sane_def)
  moreover obtain s' where "set_value (sp st - 2) (of_bool (eq = (ev_value o' = SWIG_TOKEN_EQUALTO))) ?s = Inr s'"
      "sane s'" "sp s' = sp st - 2"
    using set_value_ok[of ?s "sp st - 2" "of_bool (eq = (ev_value o' = SWIG_TOKEN_EQUALTO))"] assms(1)
    unfolding sane_def by force
  ultimately show ?thesis using Inr assms(1) by (simp add: reduce_string_def safe_red_def)
qed

lemma reduce_op_ok:
  assumes "sane st" "0 < sp st" "ev_op (stack st ! (sp st - 1)) = EXPR_OP"
  shows "safe_red st (reduce_op st)"
proof -
  have arith: "safe_red st (res_bind (apply_op t a b) (store_outcome i st))" if "i \<le> sp st" for t a b i
    using store_outcome_ok[OF assms(1) that] apply_op_mild[of t a b] by (cases "apply_op t a b") (auto simp: safe_red_def)
  have msg: "safe_red st (Inr (False, st\<lparr>errmsg := m\<rparr>))" for m
    using assms(1) by (simp add: safe_red_def)
  show ?thesis
    using assms(2,3) arith[of "sp st - 1"] arith[of "sp st - 2"] arith[of 0] reduce_string_ok[OF assms(1)] msg
    by (simp add: reduce_op_def slot_sane[OF assms(1)])
qed

lemma expr_end_mild: "sane st \<Longrightarrow> expr_end st = Inl f \<Longrightarrow> mild f"
proof (induction st rule: expr_end.induct)
  case (1 st)
  have s: "slot st (sp st - 1) = Inr (stack st ! (sp st - 1))" "slot st (sp st) = Inr (stack st ! sp st)"
    using slot_sane[OF 1(2)] by simp_all
  show ?case
  proof (cases "sp st > 0 \<and> ev_op (stack st ! (sp st - 1)) = EXPR_OP")
    case True
    then have "safe_red st (reduce_op st)" using reduce_op_ok[OF 1(2)] by simp
    then show ?thesis using 1(1)[of "stack st ! (sp st - 1)"] 1(3) True s
      by (auto simp: expr_end.simps[of st] safe_red_def split: sum.splits bool.splits prod.splits)
  next
    case False
    then show ?thesis using 1(3) s by (auto simp: expr_end.simps[of st] expr_fail_def split: if_splits)
  qed
qed

lemma reduce_group_ok: "sane st \<Longrightarrow> safe_red st (reduce_group st)"
proof (induction st rule: reduce_group.induct)
  case (1 st)
  have s: "slot st (sp st - 1) = Inr (stack st ! (sp st - 1))" using slot_sane[OF 1(2)] by simp
  show ?case
  proof (cases "sp st > 0 \<and> ev_op (stack st ! (sp st - 1)) = EXPR_OP")
    case True
    then have r: "safe_red st (reduce_op st)" using reduce_op_ok[OF 1(2)] by simp
    show ?thesis
    proof (cases "reduce_op st")
      case (Inl f)
      then show ?thesis using True r s by (simp add: reduce_group.simps[of st] safe_red_def)
    next
      case (Inr p)
      obtain ok st1 where p: "p = (ok, st1)" by (cases p)
      then have st1: "sane st1" "sp st1 \<le> sp st" using r Inr by (auto simp: safe_red_def)
      show ?thesis
      proof (cases ok)
        case True': True
        have "safe_red st1 (reduce_group st1)" using 1(1)[of "stack st ! (sp st - 1)" p ok st1] True True' Inr p st1 by simp
        then show ?thesis using True True' s Inr p st1
          by (auto simp: reduce_group.simps[of st] safe_red_def split: sum.splits)
      next
        case False
        then show ?thesis using True s Inr p st1 by (simp add: reduce_group.simps[of st] safe_red_def)
      qed
    qed
  next
    case False
    then show ?thesis using 1(2) s by (auto simp: reduce_group.simps[of st] safe_red_def)
  qed
qed

lemma set_slot_ok:
  "length (stack st) = 256 \<Longrightarrow> i < 256 \<Longrightarrow> set_slot i f st = Inr (st\<lparr>stack := (stack st)[i := f (stack st ! i)]\<rparr>)"
  by (simp add: set_slot_def)

text \<open>A step raises the stack pointer by at most two.\<close>

definition safe_step :: "expr_state \<Rightarrow> step res \<Rightarrow> bool" where
  "safe_step st r \<longleftrightarrow> (case r of Inl f \<Rightarrow> mild f | Inr (Continue st') \<Rightarrow> sane st' \<and> sp st' \<le> sp st + 2 | Inr (Done x) \<Rightarrow> True)"

lemma step_fail_safe: "safe_step st (step_fail m st')"
  by (simp add: safe_step_def step_fail_def)

lemma push_op_safe: "sane s1 \<Longrightarrow> sp s1 \<le> sp st \<Longrightarrow> sp st + 2 < 256 \<Longrightarrow> safe_step st (push_op t s1)"
  by (simp add: push_op_def set_slot_ok sane_def safe_step_def)

lemma expr_top_safe: "sane st \<Longrightarrow> sp st + 2 < 256 \<Longrightarrow> safe_step st (expr_top t w st)"
  unfolding expr_top_def
  by (auto simp: set_slot_ok sane_def safe_step_def step_fail_def)

lemma expr_binary_safe:
  assumes "sane st" "sp st + 2 < 256"
  shows "safe_step st (expr_binary t st)"
proof -
  have r: "safe_step st (res_bind (reduce_op st) (\<lambda>(ok, st1). if ok then push_op t st1 else Inr (Done (0, True, st1))))"
    if "0 < sp st" "ev_op (stack st ! (sp st - 1)) = EXPR_OP"
    using reduce_op_ok[OF assms(1) that] push_op_safe[OF _ _ assms(2)]
    by (cases "reduce_op st") (auto simp: safe_red_def safe_step_def)
  show ?thesis
    using r push_op_safe[OF assms(1) order_refl assms(2)] step_fail_safe[of st _ st]
    by (auto simp: expr_binary_def slot_sane[OF assms(1)])
qed

lemma close_group_safe: "sane s1 \<Longrightarrow> sp s1 \<le> sp st \<Longrightarrow> safe_step st (close_group s1)"
  unfolding close_group_def
  by (auto simp: slot_def set_slot_ok sane_def safe_step_def step_fail_def)

lemma expr_step_safe:
  assumes "sane st" "sp st + 2 < 256"
  shows "safe_step st (expr_step t st)"
proof -
  have "safe_step st (expr_rparen st)"
    using reduce_group_ok[OF assms(1)] close_group_safe[of _ st] step_fail_safe[of st _ st]
    by (cases "reduce_group st") (auto simp: expr_rparen_def safe_red_def safe_step_def)
  then show ?thesis
    using assms expr_top_safe[OF assms] expr_binary_safe[OF assms] step_fail_safe[of st _ st]
    by (auto simp: expr_step_def expr_value_def slot_sane[OF assms(1)] sane_def)
qed

lemma expr_eof_mild: "sane st \<Longrightarrow> expr_eof st = Inl f \<Longrightarrow> mild f"
  using expr_end_mild[of st f] by (auto simp: expr_eof_def slot_sane expr_fail_def sane_def split: if_splits)

lemma expr_loop_mild:
  "sane st \<Longrightarrow> sp st + 2 * length ts < 255 \<Longrightarrow> expr_loop ts st = Inl f \<Longrightarrow> mild f"
proof (induction ts arbitrary: st)
  case (Cons t ts)
  have "safe_step st (expr_step t st)" using expr_step_safe Cons.prems by simp
  then show ?case using Cons expr_eof_mild[of st f]
    by (auto simp: safe_step_def split: if_splits sum.splits step.splits)
qed (simp add: expr_eof_mild)

lemma expr_loop_parens:
  "length (stack st) = 256 \<Longrightarrow> top_at k st \<Longrightarrow> 256 \<le> k + n \<Longrightarrow>
   expr_loop (replicate n (SWIG_TOKEN_LPAREN, []) @ ts) st = Inl OutOfBounds"
proof (induction n arbitrary: k st)
  case 0
  then show ?case by (simp add: top_at_def)
next
  case (Suc n)
  show ?case
  proof (cases "k = 255")
    case True
    then show ?thesis using Suc.prems
      by (simp add: skipped_def expr_step_def expr_top_def is_number_def machine_defs)
  next
    case False
    then obtain s1 where "expr_step (SWIG_TOKEN_LPAREN, []) st = Inr (Continue s1)" "length (stack s1) = 256" "top_at (Suc k) s1"
      using Suc.prems by (auto simp: expr_step_def expr_top_def is_number_def machine_defs)
    then show ?thesis using Suc by (simp add: skipped_def)
  qed
qed

section \<open>Theorems\<close>

text \<open>Abbreviations for the concrete evaluations below.\<close>

definition lit :: "string \<Rightarrow> token" where
  "lit w = (SWIG_TOKEN_INT, w)"

definition value_of :: "token list \<Rightarrow> int option" where
  "value_of ts = (case Preprocessor_expr ts expr_start of Inr (v, False, _) \<Rightarrow> Some v | _ \<Rightarrow> None)"

definition after :: "token list \<Rightarrow> expr_state \<Rightarrow> expr_state" where
  "after ts st = (case Preprocessor_expr ts st of Inr (_, _, st') \<Rightarrow> st' | Inl _ \<Rightarrow> st)"

definition cmp_strings :: "token list" where
  "cmp_strings = [(SWIG_TOKEN_STRING, ''a''), (SWIG_TOKEN_EQUALTO, []), (SWIG_TOKEN_STRING, ''b'')]"

text \<open>The evaluator computes the value of an expression. For every expression over integer
  literals, undefined names, the three unary and the eighteen binary operators, printed so that
  operators group to the left and compound right operands stand in parentheses, whose meaning
  is defined (no division by zero, no overflow) and whose nesting fits the stack, evaluation
  from a stack without left-over strings ends without an error and returns the meaning
  converted to \<^verbatim>\<open>int\<close>, and the stack again holds no strings.\<close>

theorem expr_evaluates_printed:
  assumes "wf_expr e" "sem e = Inr (Value v)" "height e < 256" "clean st"
  shows "\<exists>st'. Preprocessor_expr (pr e) st = Inr (to_int v, False, st') \<and> clean st'"
proof -
  obtain s0 where s0: "set_slot 0 (\<lambda>x. x\<lparr>ev_op := EXPR_TOP, ev_value := 0\<rparr>) (st\<lparr>sp := 0\<rparr>) = Inr s0" "clean s0" "top_at 0 s0"
    using assms(4) by (auto simp: set_slot_ok clean_def top_at_def nth_list_update)
  have "base 0 s0" by (simp add: base_def)
  then obtain s1 where "expr_loop (pr e @ []) s0 = expr_loop [] s1" "ready e 0 v s1" "clean s1"
    using evaluatesD[OF evaluates_sem[OF assms(1,2)] s0(2,3)] assms(3) by (metis add_0)
  then show ?thesis using end_after_ready[of e v s1] s0(1) by (simp add: Preprocessor_expr_def)
qed

theorem expr_evaluates_printed_witness:
  "\<exists>st'. Preprocessor_expr
      [(SWIG_TOKEN_INT, ''0x10''), (SWIG_TOKEN_STAR, []), (SWIG_TOKEN_INT, ''3''), (SWIG_TOKEN_MINUS, []),
       (SWIG_TOKEN_LPAREN, []), (SWIG_TOKEN_MINUS, []), (SWIG_TOKEN_INT, ''010''), (SWIG_TOKEN_RPAREN, [])] expr_start
    = Inr (56, False, st') \<and> clean st'"
proof -
  let ?e = "Binop SWIG_TOKEN_MINUS (Binop SWIG_TOKEN_STAR (Num ''0x10'') (Num ''3'')) (Unop EXPR_UMINUS (Num ''010''))"
  have "strtol0 ''0x10'' = 16" "strtol0 ''3'' = 3" "strtol0 ''010'' = 8"
    by (simp_all add: strtol0_def Let_def ctype_defs digit_of_def of_char_def)
  then have "wf_expr ?e" "sem ?e = Inr (Value 56)" "height ?e < 256"
    by (simp_all add: is_binary_def UNARY_OP_def apply_op_def chk_long_def long_range_def prec_def)
  from expr_evaluates_printed[OF this clean_start] show ?thesis
    by (simp add: prec_def paren_def to_int_def)
qed

text \<open>C21: The evaluator is safe on every short input. Whatever tokens it is given, well formed or
  not, and whatever strings earlier evaluations left on the stack, an input of fewer than 128
  tokens never fails an assertion, never reaches the internal error, never follows a null pointer and
  never leaves the stack: it returns a value or a syntax error, unless the arithmetic itself is
  undefined or a left-over string is used.\<close>

theorem expr_safe:
  assumes "length (stack st) = 256" "length ts < 128"
  shows "(\<exists>r. Preprocessor_expr ts st = Inr r) \<or> Preprocessor_expr ts st = Inl Undefined \<or>
    Preprocessor_expr ts st = Inl UseAfterFree"
proof -
  obtain s0 where "set_slot 0 (\<lambda>x. x\<lparr>ev_op := EXPR_TOP, ev_value := 0\<rparr>) (st\<lparr>sp := 0\<rparr>) = Inr s0" "sane s0" "sp s0 = 0"
    using assms(1) by (auto simp: set_slot_ok sane_def)
  then show ?thesis using expr_loop_mild[of s0 ts] assms(2)
    by (cases "expr_loop ts s0") (auto simp: Preprocessor_expr_def mild_def)
qed

theorem expr_safe_witness:
  "let r = Preprocessor_expr [(SWIG_TOKEN_RPAREN, []), (SWIG_TOKEN_STAR, []), (SWIG_TOKEN_STRING, ''a'')] expr_start
   in (\<exists>x. r = Inr x) \<or> r = Inl Undefined \<or> r = Inl UseAfterFree"
  unfolding Let_def by (rule expr_safe) (simp_all add: expr_start_def)

text \<open>The stack is not bounds checked: 256 opening parentheses in a row write past its end,
  whatever follows.\<close>

theorem expr_stack_overflow:
  assumes "length (stack st) = 256" "256 \<le> n"
  shows "Preprocessor_expr (replicate n (SWIG_TOKEN_LPAREN, []) @ ts) st = Inl OutOfBounds"
proof -
  obtain s0 where "set_slot 0 (\<lambda>x. x\<lparr>ev_op := EXPR_TOP, ev_value := 0\<rparr>) (st\<lparr>sp := 0\<rparr>) = Inr s0"
    "length (stack s0) = 256" "top_at 0 s0" using assms(1) by (auto simp: set_slot_ok top_at_def)
  then show ?thesis using expr_loop_parens[of s0 0 n ts] assms(2) by (simp add: Preprocessor_expr_def)
qed

theorem expr_stack_overflow_witness:
  "Preprocessor_expr (replicate 300 (SWIG_TOKEN_LPAREN, [])) expr_start = Inl OutOfBounds"
  using expr_stack_overflow[of expr_start 300 "[]"] by (simp add: expr_start_def)

text \<open>Where the evaluator departs from C. An operator reduces only the operator directly
  below it, so \<^verbatim>\<open>8 - 2*3 - 1\<close> is 3 and not 1 and \<^verbatim>\<open>8 - -2 - 1\<close> is 11 and not 9; logical negation binds
  weaker than the comparisons, so \<^verbatim>\<open>!2 == 1\<close> is 1; \<^verbatim>\<open>&\<close> binds tighter than \<^verbatim>\<open>==\<close>, so
  \<^verbatim>\<open>1 & 3 == 1\<close> is 1; the logical operators evaluate both operands, so
  \<^verbatim>\<open>0 && 1/0\<close> is an error; and the value is cut to 32 bits, so \<^verbatim>\<open>#if 0x100000000\<close> is false.\<close>

theorem expr_departs_from_c:
  "value_of [lit ''8'', (SWIG_TOKEN_MINUS, []), lit ''2'', (SWIG_TOKEN_STAR, []), lit ''3'', (SWIG_TOKEN_MINUS, []), lit ''1''] = Some 3 \<and>
   value_of [lit ''8'', (SWIG_TOKEN_MINUS, []), (SWIG_TOKEN_MINUS, []), lit ''2'', (SWIG_TOKEN_MINUS, []), lit ''1''] = Some 11 \<and>
   value_of [(SWIG_TOKEN_LNOT, []), lit ''2'', (SWIG_TOKEN_EQUALTO, []), lit ''1''] = Some 1 \<and>
   value_of [lit ''1'', (SWIG_TOKEN_AND, []), lit ''3'', (SWIG_TOKEN_EQUALTO, []), lit ''1''] = Some 1 \<and>
   value_of [lit ''0'', (SWIG_TOKEN_LAND, []), lit ''1'', (SWIG_TOKEN_SLASH, []), lit ''0''] = None \<and>
   value_of [lit ''0x100000000''] = Some 0"
  by code_simp

text \<open>A string comparison poisons the stack for later evaluations. The slot of the right operand keeps the
  pointer to the deleted string, and a parenthesised integer in the same slot is then taken for a
  string: after \<^verbatim>\<open>"a" == "b"\<close> the evaluation of \<^verbatim>\<open>1 == (1)\<close> fails with a message
  about mixing strings and integers, and two such slots make \<^verbatim>\<open>1 || (1) == (1)\<close> compare two
  deleted strings.\<close>

theorem expr_stale_strings:
  "(case Preprocessor_expr (lit ''1'' # (SWIG_TOKEN_EQUALTO, []) # paren [lit ''1'']) (after cmp_strings expr_start) of
      Inr (_, error, st) \<Rightarrow> error \<and> errmsg st = ''Can't mix strings and integers in expression'' | Inl _ \<Rightarrow> False) \<and>
   Preprocessor_expr (lit ''1'' # (SWIG_TOKEN_LOR, []) # paren [lit ''1''] @ (SWIG_TOKEN_EQUALTO, []) # paren [lit ''1''])
     (after cmp_strings (after (paren (paren cmp_strings)) expr_start)) = Inl UseAfterFree"
  by code_simp

end
