(* ===== verification/Cpp_Eval.thy ===== *)
theory Cpp_Eval
  imports Cpp_Expr Swig_Scanner_Laws
begin

text \<open>
  The scanner and the evaluator of \<^verbatim>\<open>Source/Preprocessor/expr.c\<close> together: \<^verbatim>\<open>Preprocessor_expr\<close> on a text. The evaluator
  asks for one token at a time, and may stop before the end of the text.
\<close>

section \<open>The evaluator on the tokens of the scanner\<close>

text \<open>
  The loop of \<^verbatim>\<open>Preprocessor_expr\<close> with \<^verbatim>\<open>expr_token\<close> reading from the scanner. The fuel is the number of tokens that may be
  read; every token but the end of the input takes a character of the text.
\<close>

fun expr_run :: "nat \<Rightarrow> Scanner \<Rightarrow> expr_state \<Rightarrow> ((int \<times> bool \<times> expr_state) \<times> Scanner) res" where
  "expr_run 0 scan st = Inl Diverges"
| "expr_run (Suc k) scan st =
     res_bind (Scanner_token scan) (\<lambda>(t, scan1).
       let tk = (t, Scanner_text scan1) in
       if skipped tk then expr_run k scan1 st
       else if t = 0 then res_bind (expr_eof st) (\<lambda>r. Inr (r, scan1))
       else case expr_step tk st of
              Inl e \<Rightarrow> Inl e
            | Inr (Continue st1) \<Rightarrow> expr_run k scan1 st1
            | Inr (Done r) \<Rightarrow> Inr (r, scan1))"

definition Preprocessor_expr_text ::
  "Scanner \<Rightarrow> source \<Rightarrow> expr_state \<Rightarrow> ((int \<times> bool \<times> expr_state) \<times> Scanner) res" where
  "Preprocessor_expr_text scan txt st =
     res_bind (Scanner_clear scan) (\<lambda>scan1.
     res_bind (set_slot 0 (\<lambda>x. x\<lparr>ev_op := EXPR_TOP, ev_value := 0\<rparr>) (st\<lparr>sp := 0\<rparr>)) (\<lambda>st1.
     expr_run (Suc (length (src_text txt))) (Scanner_push scan1 (src_seek 0 txt)) st1))"

lemma expr_run_tokens:
  "read_tokens k scan = Inr (ts, scan') \<Longrightarrow> expr_loop ts st = Inr r \<Longrightarrow> \<exists>scan''. expr_run k scan st = Inr (r, scan'')"
proof (induction k arbitrary: scan ts st)
  case (Suc k)
  obtain t s1 where t: "Scanner_token scan = Inr (t, s1)" using Suc.prems(1) by (auto simp: res_bind_eq_Inr)
  show ?case
  proof (cases "t = 0")
    case True
    then show ?thesis using t Suc.prems by (auto simp: Let_def skipped_def)
  next
    case False
    then obtain ts' where ts: "ts = (t, Scanner_text s1) # ts'" "read_tokens k s1 = Inr (ts', scan')"
      using t Suc.prems(1) by (auto simp: res_bind_eq_Inr)
    let ?tk = "(t, Scanner_text s1)"
    show ?thesis
    proof (cases "skipped ?tk")
      case True
      then show ?thesis using t ts Suc.IH[OF ts(2)] Suc.prems(2) by (simp add: Let_def)
    next
      case nskip: False
      obtain x where x: "expr_step ?tk st = Inr x" using Suc.prems(2) ts(1) nskip False by (auto split: sum.split_asm)
      show ?thesis
        using t ts Suc.IH[OF ts(2)] Suc.prems(2) nskip False x by (cases x) (auto simp: Let_def)
    qed
  qed
qed simp

text \<open>The lexemes of the operators do not matter to the evaluator.\<close>

definition lexeme :: "token \<Rightarrow> token" where
  "lexeme t = (case t of (k, w) \<Rightarrow>
     if k = SWIG_TOKEN_INT then (k, w) else if k = SWIG_TOKEN_ID then (k, ''X'')
     else (case map_of spelling k of Some v \<Rightarrow> (k, v) | None \<Rightarrow> (k, w)))"

definition expr_text :: "cexpr \<Rightarrow> string" where
  "expr_text e = print_tokens (map lexeme (pr e))"

lemma lexeme_fst [simp]: "fst (lexeme t) = fst t"
  by (auto simp: lexeme_def split: prod.split option.split)

lemma expr_top_text: "\<not> is_number k \<Longrightarrow> k \<noteq> SWIG_TOKEN_STRING \<Longrightarrow> expr_top k v st = expr_top k w st"
  by (simp add: expr_top_def)

lemma lexeme_int: "fst t = SWIG_TOKEN_INT \<Longrightarrow> lexeme t = t"
  by (cases t) (simp add: lexeme_def)

lemma lexeme_step:
  assumes "fst t \<noteq> SWIG_TOKEN_STRING" "is_number (fst t) \<Longrightarrow> fst t = SWIG_TOKEN_INT"
  shows "expr_step (lexeme t) st = expr_step t st"
proof (cases "is_number (fst t)")
  case True
  with assms(2) lexeme_int show ?thesis by simp
next
  case False
  with expr_top_text[OF False assms(1), of "snd (lexeme t)" _ "snd t"] show ?thesis
    by (auto simp: expr_step_def res_bind_def split: sum.split)
qed

definition expr_code :: "int \<Rightarrow> bool" where
  "expr_code k \<longleftrightarrow> k = SWIG_TOKEN_INT \<or> k = SWIG_TOKEN_ID \<or> k = SWIG_TOKEN_LPAREN \<or> k = SWIG_TOKEN_RPAREN \<or> is_binary k \<or> UNARY_OP k \<or> k = SWIG_TOKEN_MINUS"

lemma expr_loop_lexeme: "list_all (\<lambda>t. expr_code (fst t)) ts \<Longrightarrow> expr_loop (map lexeme ts) st = expr_loop ts st"
proof (induction ts arbitrary: st)
  case (Cons t ts)
  have "fst t \<noteq> SWIG_TOKEN_STRING" "is_number (fst t) \<Longrightarrow> fst t = SWIG_TOKEN_INT"
    using Cons.prems by (auto simp: expr_code_def is_number_def is_binary_def UNARY_OP_def)
  from lexeme_step[OF this] Cons show ?case by (simp add: skipped_def split: sum.split step.split)
qed simp

fun literals_ok :: "cexpr \<Rightarrow> bool" where
  "literals_ok (Num w) \<longleftrightarrow> int_literal w"
| "literals_ok Ident \<longleftrightarrow> True"
| "literals_ok (Unop u a) \<longleftrightarrow> literals_ok a"
| "literals_ok (Binop t a b) \<longleftrightarrow> literals_ok a \<and> literals_ok b"

lemma expr_codes: "wf_expr e \<Longrightarrow> list_all (\<lambda>t. expr_code (fst t)) (pr e)"
  by (induction e) (auto simp: expr_code_def paren_def UNARY_OP_def)

lemma map_of_spelling: "is_binary k \<or> UNARY_OP k \<and> k \<noteq> EXPR_UMINUS \<or> k = SWIG_TOKEN_MINUS \<or> k = SWIG_TOKEN_LPAREN \<or> k = SWIG_TOKEN_RPAREN \<Longrightarrow>
   \<exists>v. map_of spelling k = Some v"
  by (auto simp: is_binary_def UNARY_OP_def spelling_def)

lemma printable_lexeme:
  assumes "expr_code (fst t)" "fst t \<noteq> EXPR_UMINUS" "fst t = SWIG_TOKEN_INT \<Longrightarrow> int_literal (snd t)"
  shows "printable s (lexeme t)"
proof -
  obtain k w where t: "t = (k, w)" by (cases t)
  have X: "c_identifier ''X''" "ident_token s ''X'' = SWIG_TOKEN_ID"
    by (simp_all add: c_identifier_def ident_token_def ctype_defs of_char_def)
  show ?thesis
  proof (cases "k = SWIG_TOKEN_INT \<or> k = SWIG_TOKEN_ID")
    case True
    with X t assms(3) show ?thesis by (auto simp: printable_def lexeme_def)
  next
    case False
    with assms t have "is_binary k \<or> UNARY_OP k \<and> k \<noteq> EXPR_UMINUS \<or> k = SWIG_TOKEN_MINUS \<or> k = SWIG_TOKEN_LPAREN \<or> k = SWIG_TOKEN_RPAREN"
      by (auto simp: expr_code_def)
    from map_of_spelling[OF this] obtain v where v: "map_of spelling k = Some v" by blast
    with False t map_of_SomeD[OF v] show ?thesis by (simp add: printable_def lexeme_def)
  qed
qed

lemma printable_expr:
  "wf_expr e \<Longrightarrow> literals_ok e \<Longrightarrow> list_all (\<lambda>t. printable s (lexeme t)) (pr e)"
proof (induction e)
  case (Num w)
  then show ?case by (auto simp: expr_code_def intro!: printable_lexeme)
next
  case Ident
  then show ?case by (auto simp: expr_code_def intro!: printable_lexeme)
next
  case (Unop u a)
  then show ?case by (auto simp: paren_def expr_code_def UNARY_OP_def intro!: printable_lexeme)
next
  case (Binop t a b)
  then show ?case by (auto simp: paren_def expr_code_def is_binary_def intro!: printable_lexeme)
qed

lemma clear_scanner:
  assumes "sc_error s \<noteq> ErrorFreed"
  shows "\<exists>s'. Scanner_clear s = Inr s' \<and> scanobjs s' = [] \<and> sc_error s' = NoError \<and> nexttoken s' = -1 \<and> brackets s' = [0] \<and>
    idstart s' = idstart s \<and> cparse_cplusplus s' = cparse_cplusplus s"
  using assms by (cases "sc_error s")
    (auto simp: Scanner_clear_def delete_error_def brackets_clear_def brackets_push_def)

lemma print_tokens_longer: "length ts < length (print_tokens ts)"
  by (induction ts) (auto simp: print_tokens_def)




lemma shift_inside_comparison:
  "\<exists>s'. read_tokens 8 (reading None 1 [] '' 1 < 8 >> 1 '' [] 1 [0] NewScanner) =
     Inr ([(SWIG_TOKEN_INT, ''1''), (SWIG_TOKEN_LESSTHAN, ''<''), (SWIG_TOKEN_INT, ''8''), (SWIG_TOKEN_GREATERTHAN, ''>''),
           (SWIG_TOKEN_GREATERTHAN, ''>''), (SWIG_TOKEN_INT, ''1'')], s')"
proof -
  have start: "sc_error NewScanner = NoError" "nexttoken NewScanner = -1" "sc_line NewScanner = 1" "plain_start NewScanner"
    by (simp_all add: NewScanner_def brackets_push_def plain_start_def)
  show ?thesis
    using start
    by (simp add: eval_nat_numeral Scanner_token_def delete_error_def look_def run_simps op_states number_states
      Scanner_text_def nextchar_reading_end)
qed


end
