(* ===== verification/Doxy_Tokenizer.thy ===== *)
theory Doxy_Tokenizer
  imports Swig_Prelude
begin

text \<open>
  The tokenizer of \<^verbatim>\<open>Source/Doxygen/doxyparser.cxx\<close>: the command tables of
  \<^verbatim>\<open>doxycommands.h\<close>, the state of the class \<^verbatim>\<open>DoxygenParser\<close> and the member functions that
  turn the text of a comment into tokens. A position in a line is a natural number or \<open>None\<close>
  for \<^verbatim>\<open>std::string::npos\<close>; an access at \<^verbatim>\<open>npos\<close> is \<open>OutOfBounds\<close>. The warnings are collected in
  the state with their number and line.
\<close>

section \<open>std::string\<close>

definition find_first_of :: "string \<Rightarrow> string \<Rightarrow> nat \<Rightarrow> nat option" where
  \<comment> \<open>\<^verbatim>\<open>s.find_first_of(cs, pos)\<close>\<close>
  "find_first_of cs s pos =
     (let i = pos + length (takeWhile (\<lambda>c. c \<notin> set cs) (drop pos s)) in if i < length s then Some i else None)"

definition find_first_not_of :: "string \<Rightarrow> string \<Rightarrow> nat \<Rightarrow> nat option" where
  "find_first_not_of cs s pos =
     (let i = pos + length (takeWhile (\<lambda>c. c \<in> set cs) (drop pos s)) in if i < length s then Some i else None)"

definition substr_to :: "string \<Rightarrow> nat \<Rightarrow> nat option \<Rightarrow> string" where
  \<comment> \<open>\<^verbatim>\<open>s.substr(pos, e - pos)\<close> for a position in the string; \<^verbatim>\<open>npos - pos\<close> reaches its end\<close>
  "substr_to s pos e = (case e of None \<Rightarrow> drop pos s | Some i \<Rightarrow> take (i - pos) (drop pos s))"

abbreviation (input) TAB :: char where "TAB \<equiv> CHR 0x09"
abbreviation (input) QUOTE :: char where "QUOTE \<equiv> CHR 0x22"
abbreviation (input) BACKSLASH :: char where "BACKSLASH \<equiv> CHR 0x5C"
abbreviation (input) BLANKS :: string where "BLANKS \<equiv> [CHR '' '', TAB]"

definition trim :: "string \<Rightarrow> string" where
  "trim s = rev (dropWhile (\<lambda>c. c \<in> set BLANKS) (rev (dropWhile (\<lambda>c. c \<in> set BLANKS) s)))"

definition stringToLower :: "string \<Rightarrow> string" where
  "stringToLower s = map tolower s"

section \<open>Command tables\<close>

datatype DoxyCommandEnum =
  NONE | SIMPLECOMMAND | COMMANDWORD | COMMANDLINE | COMMANDPARAGRAPH | COMMANDENDCOMMAND
  | COMMANDWORDPARAGRAPH | COMMANDWORDLINE | COMMANDWORDOWORDWORD | COMMANDOWORD | COMMANDERRORTHROW
  | COMMANDUNIQUE | COMMAND_HTML | COMMAND_HTML_ENTITY | COMMAND_ALIAS | COMMAND_IGNORE
  | END_LINE | PARAGRAPH_END | PLAINSTRING | COMMAND

definition sectionIndicators :: "string list" where
  "sectionIndicators = [
    ''attention'', ''author'', ''authors'', ''brief'', ''bug'', ''cond'', ''date'',
    ''deprecated'', ''details'', ''else'', ''elseif'', ''endcond'', ''endif'',
    ''exception'', ''if'', ''ifnot'', ''invariant'', ''note'', ''par'', ''param'',
    ''tparam'', ''post'', ''pre'', ''remarks'', ''remark'', ''result'', ''return'',
    ''returns'', ''retval'', ''sa'', ''see'', ''since'', ''test'', ''throw'', ''throws'',
    ''todo'', ''version'', ''warning'', ''xrefitem'']"

definition simpleCommands :: "string list" where
  "simpleCommands = [
    ''n'', ''$'', ''@'', [BACKSLASH], ''&'', ''~'', ''<'', ''>'', ''#'', ''%'', [QUOTE], ''.'', ''::'',
    ''endcond'',
    ''callgraph'', ''callergraph'', ''showinitializer'', ''hideinitializer'', ''internal'',
    ''nosubgrouping'', ''public'', ''publicsection'', ''private'', ''privatesection'',
    ''protected'', ''protectedsection'', ''tableofcontents'']"

definition commandWords :: "string list" where
  "commandWords = [
    ''a'', ''b'', ''c'', ''e'', ''em'', ''p'', ''def'', ''enum'', ''package'', ''relates'',
    ''namespace'', ''relatesalso'', ''anchor'', ''dontinclude'', ''include'',
    ''includelineno'', ''copydoc'', ''copybrief'', ''copydetails'', ''verbinclude'',
    ''htmlinclude'', ''extends'', ''implements'', ''memberof'', ''related'', ''relatedalso'',
    ''cite'']"

definition commandLines :: "string list" where
  "commandLines = [
    ''addindex'', ''fn'', ''name'', ''line'', ''var'', ''skipline'', ''typedef'', ''skip'',
    ''until'', ''property'']"

definition commandParagraph :: "string list" where
  "commandParagraph = [
    ''partofdescription'', ''result'', ''return'', ''returns'', ''remarks'', ''remark'',
    ''since'', ''test'', ''sa'', ''see'', ''pre'', ''post'', ''details'', ''invariant'',
    ''deprecated'', ''date'', ''note'', ''warning'', ''version'', ''todo'', ''bug'',
    ''attention'', ''brief'', ''author'', ''authors'', ''copyright'', ''short'']"

definition commandEndCommands :: "string list" where
  "commandEndCommands = [''htmlonly'', ''latexonly'', ''manonly'', ''xmlonly'', ''link'', ''rtfonly'']"

definition commandWordParagraphs :: "string list" where
  "commandWordParagraphs = [''param'', ''tparam'', ''throw'', ''throws'', ''retval'', ''exception'', ''example'']"

definition commandWordLines :: "string list" where
  "commandWordLines = [
    ''page'', ''subsection'', ''subsubsection'', ''section'', ''paragraph'', ''defgroup'',
    ''snippet'', ''mainpage'']"

definition commandWordOWordOWords :: "string list" where
  "commandWordOWordOWords = [''category'', ''class'', ''protocol'', ''interface'', ''struct'', ''union'']"

definition commandOWords :: "string list" where
  "commandOWords = [''dir'', ''file'', ''cond'']"

definition commandErrorThrowings :: "string list" where
  "commandErrorThrowings = [
    ''annotatedclassstd::list'', ''classhierarchy'', ''define'', ''functionindex'', ''header'',
    ''headerfilestd::list'', ''inherit'', ''l'', ''postheader'', ''endcode'', ''enddot'', ''endmsc'', ''endhtmlonly'',
    ''endlatexonly'', ''endmanonly'', ''endlink'', ''endverbatim'', ''endxmlonly'', ''f]'', ''f}'', ''endif'', ''else'',
    ''endrtfonly'']"

definition commandUniques :: "string list" where
  "commandUniques = [
    ''xrefitem'', ''arg'', ''ingroup'', ''par'', ''headerfile'', ''overload'', ''weakgroup'', ''ref'', ''subpage'', ''dotfile'',
    ''image'', ''addtogroup'', ''li'',
    ''if'', ''ifnot'', ''elseif'', ''else'', ''mscfile'', ''code'', ''verbatim'', ''f{'', ''f['', ''f$'', ''dot'', ''msc'']"

definition commandHtml :: "string list" where
  "commandHtml = [
    ''<a'', ''<b'', ''<blockquote'', ''<body'', ''<br'', ''<center'', ''<caption'', ''<code'', ''<dd'', ''<dfn'',
    ''<div'', ''<dl'', ''<dt'', ''<em'', ''<form'', ''<hr'', ''<h1'', ''<h2'', ''<h3'', ''<i'', ''<input'', ''<img'',
    ''<li'', ''<meta'', ''<multicol'', ''<ol'', ''<p'', ''<pre'', ''<small'', ''<span'', ''<strong'',
    ''<sub'', ''<sup'', ''<table'', ''<td'', ''<th'', ''<tr'', ''<tt'', ''<kbd'', ''<ul'', ''<var'']"

definition commandHtmlEntities :: "string list" where
  "commandHtmlEntities = [
    ''&copy'', ''&trade'', ''&reg'', ''&lt'', ''&gt'', ''&amp'', ''&apos'', ''&quot'', ''&lsquo'', ''&rsquo'',
    ''&ldquo'', ''&rdquo'', ''&ndash'', ''&mdash'', ''&nbsp'', ''&times'', ''&minus'', ''&sdot'', ''&sim'',
    ''&le'', ''&ge'', ''&larr'', ''&rarr'']"

text \<open>The map \<^verbatim>\<open>fillTables\<close> builds: a name entered twice keeps the later kind.\<close>

definition doxygenCommands :: "string \<Rightarrow> DoxyCommandEnum option" where
  "doxygenCommands c =
     (if c \<in> set commandHtmlEntities then Some COMMAND_HTML_ENTITY
      else if c \<in> set commandHtml then Some COMMAND_HTML
      else if c \<in> set commandUniques then Some COMMANDUNIQUE
      else if c \<in> set commandErrorThrowings then Some COMMANDERRORTHROW
      else if c \<in> set commandOWords then Some COMMANDOWORD
      else if c \<in> set commandWordOWordOWords then Some COMMANDWORDOWORDWORD
      else if c \<in> set commandWordLines then Some COMMANDWORDLINE
      else if c \<in> set commandWordParagraphs then Some COMMANDWORDPARAGRAPH
      else if c \<in> set commandEndCommands then Some COMMANDENDCOMMAND
      else if c \<in> set commandParagraph then Some COMMANDPARAGRAPH
      else if c \<in> set commandLines then Some COMMANDLINE
      else if c \<in> set commandWords then Some COMMANDWORD
      else if c \<in> set simpleCommands then Some SIMPLECOMMAND
      else None)"

definition isSectionIndicator :: "string \<Rightarrow> bool" where
  "isSectionIndicator s \<longleftrightarrow> stringToLower s \<in> set sectionIndicators"

section \<open>The parser object\<close>

record Token =
  m_tokenType :: DoxyCommandEnum
  m_tokenString :: string

record DoxygenParser =
  m_tokenList :: "Token list"
  m_tokenListIt :: nat
  m_isVerbatimText :: bool
  m_isInQuotedString :: bool
  m_node :: "string \<rightharpoonup> string"
  m_fileLineNo :: int
  warnings :: "(int \<times> int \<times> string) list"

definition push_token :: "DoxyCommandEnum \<Rightarrow> string \<Rightarrow> DoxygenParser \<Rightarrow> DoxygenParser" where
  "push_token ty s st = st\<lparr>m_tokenList := m_tokenList st @ [\<lparr>m_tokenType = ty, m_tokenString = s\<rparr>]\<rparr>"

definition printListError :: "int \<Rightarrow> string \<Rightarrow> DoxygenParser \<Rightarrow> DoxygenParser" where
  "printListError w msg st =
     (let curLine = m_fileLineNo st +
            int (length (filter (\<lambda>t. m_tokenType t = END_LINE) (take (m_tokenListIt st) (m_tokenList st))))
      in st\<lparr>warnings := warnings st @ [(w, curLine, msg)]\<rparr>)"

section \<open>Features and command kinds\<close>

definition getIgnoreFeature :: "DoxygenParser \<Rightarrow> string \<Rightarrow> string option \<Rightarrow> string option" where
  "getIgnoreFeature st theCommand argument =
     m_node st (''feature:doxygen:ignore:'' @ theCommand @ (case argument of None \<Rightarrow> [] | Some a \<Rightarrow> CHR '':'' # a))"

definition getIgnoreFeatureEndCommand :: "DoxygenParser \<Rightarrow> string \<Rightarrow> string" where
  "getIgnoreFeatureEndCommand st theCommand =
     (case getIgnoreFeature st theCommand (Some ''range'') of
        None \<Rightarrow> []
      | Some p \<Rightarrow> if starts_with ''end'' p
                  then (if starts_with '':'' (drop 3 p) then drop 4 p
                        else if drop 3 p = [] then ''end'' @ theCommand else [])
                  else [])"

definition commandBelongs :: "string \<Rightarrow> DoxygenParser \<Rightarrow> DoxyCommandEnum \<times> DoxygenParser" where
  "commandBelongs theCommand st =
     (case doxygenCommands (stringToLower theCommand) of
        Some k \<Rightarrow> (k, st)
      | None \<Rightarrow>
          if m_node st (''feature:doxygen:alias:'' @ theCommand) \<noteq> None then (COMMAND_ALIAS, st)
          else case getIgnoreFeature st theCommand None of
                 Some ignore \<Rightarrow>
                   let st1 = (if ignore \<noteq> ''1''
                              then st\<lparr>warnings := warnings st @ [(206, m_fileLineNo st,
                                     ''Feature \"doxygen:ignore\" value ignored for Doxygen command \"'' @ theCommand @ ''\".'')]\<rparr>
                              else st);
                       endCommand = getIgnoreFeatureEndCommand st1 theCommand
                   in (COMMAND_IGNORE,
                       if endCommand \<noteq> [] then st1\<lparr>m_node := (m_node st1)(''feature:doxygen:ignore:'' @ endCommand \<mapsto> ''1'')\<rparr>
                       else st1)
               | None \<Rightarrow> (NONE, st))"

section \<open>The tokenizer\<close>

definition addDoxyCommand :: "string \<Rightarrow> DoxygenParser \<Rightarrow> bool \<times> DoxygenParser" where
  "addDoxyCommand cmd st =
     (let (k, st1) = commandBelongs cmd st in
      if k \<noteq> NONE then (True, push_token COMMAND cmd st1)
      else (False,
            if starts_with ''<'' cmd \<or> starts_with ''&'' cmd then st1
            else (printListError 560 (''Unknown Doxygen command: '' @ cmd @ ''.'')
                    (st1\<lparr>m_tokenListIt := length (m_tokenList st1)\<rparr>))\<lparr>m_tokenListIt := m_tokenListIt st1\<rparr>))"

abbreviation (input) DOXYGEN_WORD_CHARS :: string where
  "DOXYGEN_WORD_CHARS \<equiv> ''abcdefghijklmnopqrstuvwxyzABCDEFGHIJKLMNOPQRSTUVWXYZ0123456789$[]{}''"

definition processVerbatimText :: "nat \<Rightarrow> string \<Rightarrow> DoxygenParser \<Rightarrow> nat option \<times> DoxygenParser" where
  "processVerbatimText pos line st =
     (if line ! pos = BACKSLASH \<or> line ! pos = CHR ''@'' then
        let endOfWordPos = find_first_not_of DOXYGEN_WORD_CHARS line (pos + 1);
            cmd = substr_to line (pos + 1) endOfWordPos
        in (endOfWordPos,
            if cmd \<in> {''endhtmlonly'', ''endverbatim'', ''f$'', ''f}'', ''f]''}
            then snd (addDoxyCommand cmd (st\<lparr>m_isVerbatimText := False\<rparr>))
            else push_token PLAINSTRING (substr_to line pos endOfWordPos) st)
      else
        let startOfPossibleEndCmd = find_first_of [BACKSLASH, CHR ''@''] line pos
        in (startOfPossibleEndCmd, push_token PLAINSTRING (substr_to line pos startOfPossibleEndCmd) st))"

definition processEscapedChars :: "nat \<Rightarrow> string \<Rightarrow> DoxygenParser \<Rightarrow> (nat \<times> DoxygenParser) option" where
  \<comment> \<open>\<open>None\<close> is the result \<^verbatim>\<open>false\<close>\<close>
  "processEscapedChars pos line st =
     (if pos + 1 < length line then
        (if line ! (pos + 1) \<in> {CHR '' '', CHR 0x27, TAB, CHR 0x0A} then
           Some (pos + 1, push_token PLAINSTRING [line ! pos] st)
         else if line ! (pos + 1) \<in> {CHR ''$'', CHR ''@'', BACKSLASH, CHR ''&'', CHR ''~'', CHR ''<'', CHR ''>'', CHR ''#'',
                                     CHR ''%'', QUOTE, CHR ''.''} then
           Some (pos + 2, snd (addDoxyCommand [line ! (pos + 1)] st))
         else if pos + 2 < length line \<and> line ! (pos + 1) = CHR '':'' \<and> line ! (pos + 2) = CHR '':'' then
           Some (pos + 3, snd (addDoxyCommand ''::'' st))
         else None)
      else None)"

definition processWordCommands :: "nat \<Rightarrow> string \<Rightarrow> DoxygenParser \<Rightarrow> nat option \<times> DoxygenParser" where
  "processWordCommands pos line st =
     (let endOfWordPos = find_first_not_of DOXYGEN_WORD_CHARS line (pos + 1);
          cmd = substr_to line (pos + 1) endOfWordPos;
          st1 = snd (addDoxyCommand cmd st)
      in if cmd \<in> {''htmlonly'', ''verbatim'', ''f$'', ''f{'', ''f[''}
         then (endOfWordPos, st1\<lparr>m_isVerbatimText := True\<rparr>)
         else (case endOfWordPos of None \<Rightarrow> None | Some e \<Rightarrow> find_first_not_of BLANKS line e, st1))"

definition at_end :: "DoxygenParser \<Rightarrow> DoxygenParser" where
  \<comment> \<open>\<^verbatim>\<open>m_tokenListIt = m_tokenList.end()\<close>\<close>
  "at_end st = st\<lparr>m_tokenListIt := length (m_tokenList st)\<rparr>"

definition html_tag_args :: "bool \<Rightarrow> string \<Rightarrow> nat \<Rightarrow> string \<Rightarrow> DoxygenParser \<Rightarrow> nat option \<times> DoxygenParser" where
  \<comment> \<open>a tag with arguments: \<open>pos\<close> is the character after the name\<close>
  "html_tag_args isEndHtmlTag cmd pos line st =
     (let st1 = (if isEndHtmlTag then printListError 563 (''Doxygen HTML error for tag '' @ cmd @
                     '': Illegal end HTML tag without '' @ [CHR 0x27, CHR ''>'', CHR 0x27] @ '' found.'') (at_end st) else st);
          endHtmlPos = find_first_of ''>'' line pos;
          st2 = (if endHtmlPos = None then printListError 563 (''Doxygen HTML error for tag '' @ cmd @
                     '': HTML tag without '' @ [CHR 0x27, CHR ''>'', CHR 0x27] @ '' found.'') (at_end st1) else st1)
      in (map_option Suc endHtmlPos, push_token PLAINSTRING (substr_to line pos endHtmlPos) st2))"

definition html_tag :: "bool \<Rightarrow> nat \<Rightarrow> string \<Rightarrow> DoxygenParser \<Rightarrow> (nat option \<times> DoxygenParser) res" where
  \<comment> \<open>\<open>pos\<close> is the first character of the tag name\<close>
  "html_tag isEndHtmlTag pos line st =
     (let endHtmlPos = find_first_of [TAB, CHR '' '', CHR ''>''] line pos;
          cmd = substr_to line pos endHtmlPos;
          (known, st1) = (if cmd \<noteq> [] then addDoxyCommand (CHR ''<'' # cmd) st else (False, st))
      in if known then
           (case endHtmlPos of
              None \<Rightarrow> Inl OutOfBounds
            | Some e \<Rightarrow> if line ! e \<noteq> CHR ''>'' then Inr (html_tag_args isEndHtmlTag cmd e line st1)
                        else Inr (Some (e + 1), push_token PLAINSTRING (if isEndHtmlTag then ''/'' else []) st1))
         else Inr (endHtmlPos, push_token PLAINSTRING cmd (snd (addDoxyCommand ''&lt'' st1))))"

definition processHtmlTags :: "nat \<Rightarrow> string \<Rightarrow> DoxygenParser \<Rightarrow> (nat option \<times> DoxygenParser) res" where
  "processHtmlTags pos line st =
     (if length line > pos + 1 \<and> line ! (pos + 1) = CHR ''/'' then html_tag True (pos + 2) line st
      else html_tag False (pos + 1) line st)"

definition processHtmlEntities :: "nat \<Rightarrow> string \<Rightarrow> DoxygenParser \<Rightarrow> nat option \<times> DoxygenParser" where
  "processHtmlEntities pos line st =
     (case find_first_not_of ''abcdefghijklmnopqrstuvwxyz'' line (pos + 1) of
        None \<Rightarrow> (None, st)
      | Some e \<Rightarrow>
          if line ! e = CHR '';'' \<and> e - pos > 1 then (Some (e + 1), snd (addDoxyCommand (substr_to line pos (Some e)) st))
          else (Some e, push_token PLAINSTRING (substr_to line (pos + 1) (Some e)) (snd (addDoxyCommand ''&amp'' st))))"

definition processNormalComment :: "nat \<Rightarrow> string \<Rightarrow> DoxygenParser \<Rightarrow> (nat option \<times> DoxygenParser) res" where
  "processNormalComment pos line st =
     (if line ! pos = BACKSLASH \<or> line ! pos = CHR ''@'' then
        Inr (case processEscapedChars pos line st of
               Some (p, st1) \<Rightarrow> (Some p, st1)
             | None \<Rightarrow> processWordCommands pos line st)
      else if line ! pos = CHR '' '' \<or> line ! pos = TAB then
        let startOfNextWordPos = find_first_not_of BLANKS line (pos + 1)
        in Inr (startOfNextWordPos, push_token PLAINSTRING (substr_to line pos startOfNextWordPos) st)
      else if line ! pos = CHR ''<'' then processHtmlTags pos line st
      else if line ! pos = CHR ''>'' then Inr (Some (pos + 1), snd (addDoxyCommand ''&gt'' st))
      else if line ! pos = CHR ''&'' then Inr (processHtmlEntities pos line st)
      else if line ! pos = QUOTE then
        Inr (Some (pos + 1), push_token PLAINSTRING [QUOTE] (st\<lparr>m_isInQuotedString := True\<rparr>))
      else Inr (Some pos, printListError 565 (''Unknown special character in Doxygen comment: '' @ [line ! pos] @ ''.'') (at_end st)))"

definition plain_text :: "string \<Rightarrow> DoxygenParser \<Rightarrow> DoxygenParser" where
  \<comment> \<open>plain text: a final punctuation mark becomes a token of its own, unless it ends an ellipsis\<close>
  "plain_text w st =
     (if w \<noteq> [] \<and> last w \<in> {CHR ''.'', CHR '','', CHR '':''} \<and>
         \<not> (length w > 1 \<and> w ! (length w - 2) = CHR ''.'')
      then push_token PLAINSTRING [last w] (push_token PLAINSTRING (butlast w) st)
      else push_token PLAINSTRING w st)"

definition special_char :: "nat \<Rightarrow> string \<Rightarrow> DoxygenParser \<Rightarrow> (nat option \<times> DoxygenParser) res" where
  \<comment> \<open>what happens at a character that may start a command, tag or entity\<close>
  "special_char pos line st =
     (if m_isVerbatimText st then Inr (processVerbatimText pos line st)
      else if m_isInQuotedString st then
        Inr (Some (pos + 1), push_token PLAINSTRING [line ! pos]
                               (if line ! pos = QUOTE then st\<lparr>m_isInQuotedString := False\<rparr> else st))
      else processNormalComment pos line st)"

abbreviation (input) SPECIAL :: string where
  "SPECIAL \<equiv> [BACKSLASH, CHR ''@'', CHR ''<'', CHR ''>'', CHR ''&'', QUOTE, CHR '' '', TAB]"

lemma find_first_of_Some:
  assumes "find_first_of cs s pos = Some i"
  shows "pos \<le> i" "i < length s" "s ! i \<in> set cs"
proof -
  let ?n = "length (takeWhile (\<lambda>c. c \<notin> set cs) (drop pos s))"
  have i: "i = pos + ?n" "i < length s" using assms by (auto simp: find_first_of_def Let_def split: if_splits)
  then show "pos \<le> i" "i < length s" by auto
  have "?n < length (drop pos s)" using i by simp
  then have "\<not> (\<lambda>c. c \<notin> set cs) (drop pos s ! ?n)" by (rule nth_length_takeWhile)
  then show "s ! i \<in> set cs" using i by (simp add: add.commute)
qed

lemma find_first_not_of_Some:
  assumes "find_first_not_of cs s pos = Some i"
  shows "pos \<le> i" "i < length s" "s ! i \<notin> set cs"
proof -
  let ?n = "length (takeWhile (\<lambda>c. c \<in> set cs) (drop pos s))"
  have i: "i = pos + ?n" "i < length s" using assms by (auto simp: find_first_not_of_def Let_def split: if_splits)
  then show "pos \<le> i" "i < length s" by auto
  have "?n < length (drop pos s)" using i by simp
  then have "\<not> (\<lambda>c. c \<in> set cs) (drop pos s ! ?n)" by (rule nth_length_takeWhile)
  then show "s ! i \<notin> set cs" using i by (simp add: add.commute)
qed

lemma find_first_of_strict:
  "find_first_of cs s pos = Some i \<Longrightarrow> pos < length s \<Longrightarrow> s ! pos \<notin> set cs \<Longrightarrow> pos < i"
  using find_first_of_Some[of cs s pos i] by (cases "i = pos") auto

lemma processVerbatimText_progress: "processVerbatimText pos line st = (Some q, st') \<Longrightarrow> pos < length line \<Longrightarrow> pos < q"
  using find_first_of_strict[of "[BACKSLASH, CHR ''@'']" line pos q]
  by (auto simp: processVerbatimText_def Let_def split: if_splits dest!: find_first_not_of_Some(1))

lemma processEscapedChars_progress: "processEscapedChars pos line st = Some (q, st') \<Longrightarrow> pos < q"
  by (auto simp: processEscapedChars_def split: if_splits)

lemma processWordCommands_progress: "processWordCommands pos line st = (Some q, st') \<Longrightarrow> pos < q"
  by (auto simp: processWordCommands_def Let_def split: if_splits option.splits dest!: find_first_not_of_Some(1))

lemma html_tag_args_progress: "html_tag_args b cmd pos line st = (Some q, st') \<Longrightarrow> pos < q"
  by (auto simp: html_tag_args_def Let_def split: if_splits dest!: find_first_of_Some(1))

lemma html_tag_progress: "html_tag b pos line st = Inr (Some q, st') \<Longrightarrow> pos \<le> q"
  by (auto simp: html_tag_def Let_def split: if_splits option.splits prod.splits
      dest!: find_first_of_Some(1) html_tag_args_progress)

lemma processHtmlTags_progress: "processHtmlTags pos line st = Inr (Some q, st') \<Longrightarrow> pos < q"
  by (auto simp: processHtmlTags_def split: if_splits dest: html_tag_progress)

lemma processHtmlEntities_progress: "processHtmlEntities pos line st = (Some q, st') \<Longrightarrow> pos < q"
  by (auto simp: processHtmlEntities_def split: if_splits option.splits dest!: find_first_not_of_Some(1))

lemma processNormalComment_progress:
  "processNormalComment pos line st = Inr (Some q, st') \<Longrightarrow> line ! pos \<in> set SPECIAL \<Longrightarrow> pos < q"
  by (auto simp: processNormalComment_def Let_def split: if_splits option.splits
      dest!: find_first_not_of_Some(1) processWordCommands_progress processEscapedChars_progress
             processHtmlTags_progress processHtmlEntities_progress)

lemma special_char_progress:
  assumes "special_char pos line st = Inr (Some q, st')" "find_first_of SPECIAL line p0 = Some pos"
  shows "pos < q"
  using assms(1) find_first_of_Some[OF assms(2)]
  by (auto simp: special_char_def split: if_splits
      dest: processVerbatimText_progress processNormalComment_progress)

text \<open>The loop over the words of a line; it ends when the position is \<^verbatim>\<open>npos\<close>.\<close>

function (sequential) tokenize_words :: "string \<Rightarrow> nat option \<Rightarrow> DoxygenParser \<Rightarrow> DoxygenParser res" where
  "tokenize_words line None st = Inr st"
| "tokenize_words line (Some pos) st =
     (let e = find_first_of SPECIAL line pos;
          st1 = (if e \<noteq> Some pos then plain_text (substr_to line pos e) st else st)
      in case e of
           None \<Rightarrow> Inr st1
         | Some p \<Rightarrow> (case special_char p line st1 of
                        Inl f \<Rightarrow> Inl f
                      | Inr (q, st2) \<Rightarrow> tokenize_words line q st2))"
  by pat_completeness auto
termination
proof (relation "measure (\<lambda>(line, pos, st). case pos of None \<Rightarrow> 0 | Some p \<Rightarrow> Suc (length line) - p)")
  fix line pos st e st1 p r q st2
  assume a: "e = find_first_of SPECIAL line pos" "e = Some p" "special_char p line st1 = Inr r" "(q, st2) = r"
  then have "pos \<le> p" "p < length line" using find_first_of_Some[of SPECIAL line pos p] by auto
  moreover have "\<forall>q'. q = Some q' \<longrightarrow> p < q'" using a special_char_progress[of p line st1 _ st2 pos] by auto
  ultimately show "((line, q, st2), line, Some pos, st)
      \<in> measure (\<lambda>(line, pos, st). case pos of None \<Rightarrow> 0 | Some p \<Rightarrow> Suc (length line) - p)"
    by (auto split: option.splits)
qed simp

declare tokenize_words.simps [simp del]

definition isStartOfDoxyCommentChar :: "char \<Rightarrow> bool" where
  \<comment> \<open>\<^verbatim>\<open>strchr\<close> also finds the terminator\<close>
  "isStartOfDoxyCommentChar c \<longleftrightarrow> c \<in> {CHR ''*'', CHR ''/'', CHR ''!'', CHR 0x00}"

abbreviation (input) end_line :: "DoxygenParser \<Rightarrow> DoxygenParser" where
  "end_line st \<equiv> push_token END_LINE [CHR 0x0A] st"

text \<open>
  The start of a line: \<open>None\<close> when nothing is left after the comment decoration, else the
  blanks kept in front of the first word and the position of that word.
\<close>

definition line_start :: "string \<Rightarrow> (string option \<times> nat) option" where
  "line_start line =
     (case find_first_not_of BLANKS line 0 of
        None \<Rightarrow> None
      | Some p0 \<Rightarrow>
          let pos = p0 + length (takeWhile isStartOfDoxyCommentChar (drop p0 line));
              found = (pos > p0)
          in if pos = length line then None
             else let pos1 = (if found \<and> line ! pos = CHR '' '' then pos + 1 else pos)
             in if pos1 = length line then None
             else if found then
               (case find_first_not_of BLANKS line pos1 of
                  None \<Rightarrow> None
                | Some w \<Rightarrow> Some (if w > pos1 then Some (substr_to line pos1 (Some w)) else None, w))
             else Some (Some (take pos1 line), pos1))"

text \<open>One iteration of the loop over the lines.\<close>

definition tokenize_line :: "string \<Rightarrow> DoxygenParser \<Rightarrow> DoxygenParser res" where
  "tokenize_line line st =
     (case line_start line of
        None \<Rightarrow> Inr (end_line st)
      | Some (indent, pos) \<Rightarrow>
          map_sum id end_line (tokenize_words line (Some pos)
            (case indent of None \<Rightarrow> st | Some s \<Rightarrow> push_token PLAINSTRING s st)))"

fun tokenize_lines :: "string list \<Rightarrow> DoxygenParser \<Rightarrow> DoxygenParser res" where
  "tokenize_lines [] st = Inr st"
| "tokenize_lines (l # ls) st = res_bind (tokenize_line l st) (tokenize_lines ls)"

function (sequential) split :: "string \<Rightarrow> char \<Rightarrow> string list" where
  "split s sep =
     takeWhile (\<lambda>c. c \<noteq> sep) s #
     (case dropWhile (\<lambda>c. c \<noteq> sep) s of [] \<Rightarrow> [] | _ # r \<Rightarrow> split r sep)"
  by pat_completeness auto
termination
proof (relation "measure (\<lambda>(s, sep). length s)")
  fix s :: string and sep x r
  assume "dropWhile (\<lambda>c. c \<noteq> sep) s = x # r"
  then have "length (x # r) \<le> length s" by (metis length_dropWhile_le)
  then show "((r, sep), s, sep) \<in> measure (\<lambda>(s, sep). length s)" by simp
qed simp

declare split.simps [simp del]

definition comment_lines :: "string \<Rightarrow> string list" where
  "comment_lines c =
     (let lines = split c CHR 0x0A
      in if c \<noteq> [] \<and> last c = CHR '' '' \<and> trim (last lines) = [] then butlast lines else lines)"

definition tokenizeDoxygenComment :: "string \<Rightarrow> int \<Rightarrow> DoxygenParser \<Rightarrow> DoxygenParser res" where
  "tokenizeDoxygenComment doxygenComment fileLine st =
     map_sum id (\<lambda>s. s\<lparr>m_tokenListIt := 0\<rparr>)
       (tokenize_lines (comment_lines doxygenComment)
          (st\<lparr>m_isVerbatimText := False, m_isInQuotedString := False, m_tokenList := [], m_fileLineNo := fileLine\<rparr>))"

section \<open>What the tokenizer appends\<close>

definition grows :: "DoxygenParser \<Rightarrow> DoxygenParser \<Rightarrow> bool" where
  \<comment> \<open>words and commands are appended, nothing else of the list changes\<close>
  "grows st st' \<longleftrightarrow> (\<exists>ts. m_tokenList st' = m_tokenList st @ ts \<and>
     (\<forall>t \<in> set ts. m_tokenType t = PLAINSTRING \<or> m_tokenType t = COMMAND))"

lemma grows_refl [simp, intro]: "grows st st"
  by (simp add: grows_def)

lemma grows_trans [trans]: "grows a b \<Longrightarrow> grows b c \<Longrightarrow> grows a c"
  by (fastforce simp: grows_def)

lemma grows_cong: "m_tokenList a = m_tokenList a' \<Longrightarrow> m_tokenList b = m_tokenList b' \<Longrightarrow> grows a b = grows a' b'"
  by (simp add: grows_def)

lemma push_token_list [simp]: "m_tokenList (push_token ty s st) = m_tokenList st @ [\<lparr>m_tokenType = ty, m_tokenString = s\<rparr>]"
  by (simp add: push_token_def)

lemma printListError_list [simp]: "m_tokenList (printListError w m st) = m_tokenList st"
  by (simp add: printListError_def Let_def)

lemma at_end_list [simp]: "m_tokenList (at_end st) = m_tokenList st"
  by (simp add: at_end_def)

lemma commandBelongs_list [simp]: "m_tokenList (snd (commandBelongs c st)) = m_tokenList st"
  by (auto simp: commandBelongs_def Let_def split: option.splits)

lemma addDoxyCommand_list:
  "m_tokenList (snd (addDoxyCommand c st)) = m_tokenList st @
     (if fst (addDoxyCommand c st) then [\<lparr>m_tokenType = COMMAND, m_tokenString = c\<rparr>] else [])"
proof -
  obtain k s where c: "commandBelongs c st = (k, s)" by (cases "commandBelongs c st")
  then have "m_tokenList s = m_tokenList st" using commandBelongs_list[of c st] by simp
  then show ?thesis by (simp add: addDoxyCommand_def c)
qed

lemma addDoxyCommand_grows: "m_tokenList st = m_tokenList st0 \<Longrightarrow> grows st0 (snd (addDoxyCommand c st))"
  by (auto simp: grows_def addDoxyCommand_list)

lemma grows_push: "grows st st1 \<Longrightarrow> ty = PLAINSTRING \<or> ty = COMMAND \<Longrightarrow> grows st (push_token ty s st1)"
  by (fastforce simp: grows_def)

lemma plain_text_grows: "grows st (plain_text w st)"
  by (auto simp: plain_text_def intro!: grows_push)

lemma processVerbatimText_grows: "grows st (snd (processVerbatimText pos line st))"
  by (auto simp: processVerbatimText_def Let_def intro!: grows_push addDoxyCommand_grows)

lemma processEscapedChars_grows: "processEscapedChars pos line st = Some (q, st') \<Longrightarrow> grows st st'"
  by (auto simp: processEscapedChars_def split: if_splits intro!: grows_push addDoxyCommand_grows)

lemma processWordCommands_grows: "grows st (snd (processWordCommands pos line st))"
  using addDoxyCommand_grows[OF refl, of st]
  by (auto simp: processWordCommands_def Let_def grows_def split: option.splits)

lemma html_tag_args_grows: "grows st (snd (html_tag_args b cmd pos line st))"
  by (auto simp: html_tag_args_def Let_def grows_def)

lemma html_tag_grows: "html_tag b pos line st = Inr (q, st') \<Longrightarrow> grows st st'"
proof -
  assume p: "html_tag b pos line st = Inr (q, st')"
  have st1: "grows st st1" if "(if cmd \<noteq> [] then addDoxyCommand (CHR ''<'' # cmd) st else (False, st)) = (k, st1)" for k st1 cmd
    using that addDoxyCommand_grows[OF refl, of st "CHR ''<'' # cmd"] by (auto split: if_splits)
  show ?thesis
    using p st1 html_tag_args_grows addDoxyCommand_grows[OF refl]
    by (auto simp: html_tag_def Let_def split: if_splits option.splits prod.splits intro!: grows_push)
       (metis grows_trans snd_conv)+
qed

lemma processHtmlTags_grows: "processHtmlTags pos line st = Inr (q, st') \<Longrightarrow> grows st st'"
  by (auto simp: processHtmlTags_def split: if_splits dest: html_tag_grows)

lemma processHtmlEntities_grows: "grows st (snd (processHtmlEntities pos line st))"
  by (auto simp: processHtmlEntities_def split: option.splits intro!: grows_push addDoxyCommand_grows)

lemma processNormalComment_grows: "processNormalComment pos line st = Inr (q, st') \<Longrightarrow> grows st st'"
  using processWordCommands_grows[of st pos line] processHtmlEntities_grows[of st pos line]
  by (auto simp: processNormalComment_def Let_def split: if_splits option.splits
      dest: processEscapedChars_grows processHtmlTags_grows intro!: grows_push addDoxyCommand_grows)
     (auto simp: grows_def)

lemma special_char_grows: "special_char pos line st = Inr (q, st') \<Longrightarrow> grows st st'"
  using processVerbatimText_grows[of st pos line]
  by (auto simp: special_char_def split: if_splits dest: processNormalComment_grows) (auto simp: grows_def)

lemma tokenize_words_grows: "tokenize_words line pos st = Inr st' \<Longrightarrow> grows st st'"
proof (induction line pos st rule: tokenize_words.induct)
  case (2 line pos st)
  define e where "e = find_first_of SPECIAL line pos"
  define st1 where "st1 = (if e \<noteq> Some pos then plain_text (substr_to line pos e) st else st)"
  have g: "grows st st1" by (simp add: st1_def plain_text_grows)
  have eq: "tokenize_words line (Some pos) st = (case e of None \<Rightarrow> Inr st1 | Some p \<Rightarrow> (case special_char p line st1 of
      Inl f \<Rightarrow> Inl f | Inr (q, st2) \<Rightarrow> tokenize_words line q st2))"
    unfolding e_def st1_def by (simp only: tokenize_words.simps Let_def)
  show ?case
  proof (cases e)
    case None
    then show ?thesis using 2(2) g eq by simp
  next
    case (Some p)
    then obtain q st2 where "special_char p line st1 = Inr (q, st2)" "tokenize_words line q st2 = Inr st'"
      using 2(2) eq by (auto split: sum.splits)
    then show ?thesis using 2(1)[OF e_def st1_def Some _ refl] g by (blast intro: grows_trans special_char_grows)
  qed
qed (simp add: tokenize_words.simps)

section \<open>Totality\<close>

fun tags_closed :: "string \<Rightarrow> bool" where
  \<comment> \<open>after every \<^verbatim>\<open><\<close> the line has a blank or a \<^verbatim>\<open>>\<close>\<close>
  "tags_closed [] \<longleftrightarrow> True"
| "tags_closed (c # cs) \<longleftrightarrow> (c = CHR ''<'' \<longrightarrow> (\<exists>d \<in> set cs. d \<in> {TAB, CHR '' '', CHR ''>''})) \<and> tags_closed cs"

lemma tags_closedD:
  "tags_closed line \<Longrightarrow> i < length line \<Longrightarrow> line ! i = CHR ''<'' \<Longrightarrow>
   \<exists>j. i < j \<and> j < length line \<and> line ! j \<in> {TAB, CHR '' '', CHR ''>''}"
proof (induction line arbitrary: i)
  case (Cons c cs)
  show ?case
  proof (cases i)
    case 0
    then obtain d where "d \<in> set cs" "d \<in> {TAB, CHR '' '', CHR ''>''}" using Cons by auto
    then obtain j where "j < length cs" "cs ! j \<in> {TAB, CHR '' '', CHR ''>''}" by (metis in_set_conv_nth)
    then show ?thesis using 0 by (intro exI[of _ "Suc j"]) simp
  next
    case (Suc k)
    then obtain j where "k < j" "j < length cs" "cs ! j \<in> {TAB, CHR '' '', CHR ''>''}" using Cons by auto
    then show ?thesis using Suc by (intro exI[of _ "Suc j"]) simp
  qed
qed simp

lemma find_first_of_None:
  assumes "find_first_of cs s pos = None" "pos \<le> j" "j < length s"
  shows "s ! j \<notin> set cs"
proof -
  let ?n = "length (takeWhile (\<lambda>c. c \<notin> set cs) (drop pos s))"
  have "length (drop pos s) \<le> ?n" using assms by (auto simp: find_first_of_def Let_def split: if_splits)
  then have "takeWhile (\<lambda>c. c \<notin> set cs) (drop pos s) = drop pos s"
    by (metis length_takeWhile_le le_antisym takeWhile_eq_take take_all)
  then have "\<forall>c \<in> set (drop pos s). c \<notin> set cs" by (simp add: takeWhile_eq_all_conv)
  moreover have "s ! j \<in> set (drop pos s)" using assms(2,3) by (auto simp: in_set_conv_nth intro!: exI[of _ "j - pos"])
  ultimately show ?thesis by blast
qed

lemma html_tag_total:
  assumes "pos \<le> j" "j < length line" "line ! j \<in> {TAB, CHR '' '', CHR ''>''}"
  shows "\<exists>r. html_tag b pos line st = Inr r"
proof -
  obtain e where "find_first_of [TAB, CHR '' '', CHR ''>''] line pos = Some e"
    using find_first_of_None[OF _ assms(1,2), of "[TAB, CHR '' '', CHR ''>'']"] assms(3) by fastforce
  then show ?thesis by (auto simp: html_tag_def Let_def split: prod.splits)
qed

lemma processHtmlTags_total:
  assumes "tags_closed line" "pos < length line" "line ! pos = CHR ''<''"
  shows "\<exists>r. processHtmlTags pos line st = Inr r"
proof -
  obtain j where j: "pos < j" "j < length line" "line ! j \<in> {TAB, CHR '' '', CHR ''>''}"
    using tags_closedD[OF assms] by blast
  show ?thesis
  proof (cases "length line > pos + 1 \<and> line ! (pos + 1) = CHR ''/''")
    case True
    then have "pos + 2 \<le> j" using j by (cases "j = pos + 1") auto
    then show ?thesis using html_tag_total[OF _ j(2,3)] True by (simp add: processHtmlTags_def)
  next
    case False
    then show ?thesis using html_tag_total[OF _ j(2,3), of "pos + 1"] j(1) by (simp add: processHtmlTags_def if_not_P)
  qed
qed

lemma special_char_total:
  assumes "tags_closed line" "pos < length line"
  shows "\<exists>r. special_char pos line st = Inr r"
  using processHtmlTags_total[OF assms] by (auto simp: special_char_def processNormalComment_def Let_def)

lemma tokenize_words_total: "tags_closed line \<Longrightarrow> \<exists>st'. tokenize_words line pos st = Inr st'"
proof (induction line pos st rule: tokenize_words.induct)
  case (2 line pos st)
  define e where "e = find_first_of SPECIAL line pos"
  define st1 where "st1 = (if e \<noteq> Some pos then plain_text (substr_to line pos e) st else st)"
  have eq: "tokenize_words line (Some pos) st = (case e of None \<Rightarrow> Inr st1 | Some p \<Rightarrow> (case special_char p line st1 of
      Inl f \<Rightarrow> Inl f | Inr (q, st2) \<Rightarrow> tokenize_words line q st2))"
    unfolding e_def st1_def by (simp only: tokenize_words.simps Let_def)
  show ?case
  proof (cases e)
    case (Some p)
    then have "p < length line" using find_first_of_Some(2)[of SPECIAL line pos p] by (simp add: e_def)
    then obtain q st2 where s: "special_char p line st1 = Inr (q, st2)" using special_char_total[OF 2(2)] by force
    then show ?thesis using 2(1)[OF e_def st1_def Some s refl 2(2)] eq Some by simp
  qed (simp add: eq)
qed (simp add: tokenize_words.simps)

lemma tokenize_line_grows:
  assumes "tokenize_line line st = Inr st'"
  shows "\<exists>st1. grows st st1 \<and> m_tokenList st' = m_tokenList st1 @ [\<lparr>m_tokenType = END_LINE, m_tokenString = [CHR 0x0A]\<rparr>]"
proof (cases "line_start line")
  case None
  then show ?thesis using assms by (force simp: tokenize_line_def)
next
  case (Some ip)
  obtain indent pos where ip: "ip = (indent, pos)" by (cases ip)
  define s where "s = (case indent of None \<Rightarrow> st | Some x \<Rightarrow> push_token PLAINSTRING x st)"
  have g: "grows st s" by (cases indent) (auto simp: s_def intro: grows_push)
  obtain s1 where "tokenize_words line (Some pos) s = Inr s1" "st' = end_line s1"
    using assms Some ip by (cases "tokenize_words line (Some pos) s") (auto simp: tokenize_line_def s_def)
  then show ?thesis using tokenize_words_grows g grows_trans by (intro exI[of _ s1]) auto
qed

lemma tokenize_line_spec:
  assumes "tags_closed line"
  shows "\<exists>st' st1. tokenize_line line st = Inr st' \<and> grows st st1 \<and>
    m_tokenList st' = m_tokenList st1 @ [\<lparr>m_tokenType = END_LINE, m_tokenString = [CHR 0x0A]\<rparr>]"
proof -
  have "\<exists>st'. tokenize_line line st = Inr st'"
  proof (cases "line_start line")
    case (Some ip)
    obtain indent pos where ip: "ip = (indent, pos)" by (cases ip)
    obtain s1 where "tokenize_words line (Some pos) (case indent of None \<Rightarrow> st | Some x \<Rightarrow> push_token PLAINSTRING x st) = Inr s1"
      using tokenize_words_total[OF assms] by blast
    then show ?thesis using Some ip by (simp add: tokenize_line_def)
  qed (simp add: tokenize_line_def)
  then show ?thesis using tokenize_line_grows by blast
qed

definition wf_tokens :: "Token list \<Rightarrow> bool" where
  \<comment> \<open>what the parser relies on: three kinds of token, and an end of line last\<close>
  "wf_tokens ts \<longleftrightarrow> (\<forall>t \<in> set ts. m_tokenType t \<in> {PLAINSTRING, COMMAND, END_LINE}) \<and>
     (ts \<noteq> [] \<longrightarrow> m_tokenType (last ts) = END_LINE)"

abbreviation (input) line_ends :: "Token list \<Rightarrow> nat" where
  "line_ends ts \<equiv> length (filter (\<lambda>t. m_tokenType t = END_LINE) ts)"

lemma tokenize_lines_spec:
  assumes "\<forall>l \<in> set ls. tags_closed l" "wf_tokens (m_tokenList st)"
  shows "\<exists>st'. tokenize_lines ls st = Inr st' \<and> wf_tokens (m_tokenList st') \<and>
    line_ends (m_tokenList st') = line_ends (m_tokenList st) + length ls"
  using assms
proof (induction ls arbitrary: st)
  case (Cons l ls)
  then obtain st' st1 where l: "tokenize_line l st = Inr st'" "grows st st1"
    "m_tokenList st' = m_tokenList st1 @ [\<lparr>m_tokenType = END_LINE, m_tokenString = [CHR 0x0A]\<rparr>]"
    using tokenize_line_spec[of l st] by auto
  obtain ts where ts: "m_tokenList st1 = m_tokenList st @ ts" "\<forall>t \<in> set ts. m_tokenType t = PLAINSTRING \<or> m_tokenType t = COMMAND"
    using l(2) by (auto simp: grows_def)
  have "filter (\<lambda>t. m_tokenType t = END_LINE) ts = []" using ts(2) by (auto simp: filter_empty_conv)
  moreover have "wf_tokens (m_tokenList st')" using Cons.prems(2) l(3) ts by (auto simp: wf_tokens_def)
  ultimately show ?case using Cons l(1,3) ts(1) by fastforce
qed simp

lemma tokenize_lines_wf: "tokenize_lines ls st = Inr st' \<Longrightarrow> wf_tokens (m_tokenList st) \<Longrightarrow> wf_tokens (m_tokenList st')"
proof (induction ls arbitrary: st)
  case (Cons l ls)
  then obtain s where l: "tokenize_line l st = Inr s" "tokenize_lines ls s = Inr st'" by (auto simp: res_bind_eq_Inr)
  then obtain st1 where "grows st st1" "m_tokenList s = m_tokenList st1 @ [\<lparr>m_tokenType = END_LINE, m_tokenString = [CHR 0x0A]\<rparr>]"
    using tokenize_line_grows by blast
  then have "wf_tokens (m_tokenList s)" using Cons.prems(2) by (auto simp: grows_def wf_tokens_def)
  then show ?case using Cons.IH l(2) by blast
qed simp

lemma special_char_Inl: "special_char pos line st = Inl f \<Longrightarrow> f = OutOfBounds"
  by (auto simp: special_char_def processNormalComment_def processHtmlTags_def html_tag_def Let_def
      split: if_splits option.splits prod.splits)

lemma tokenize_words_Inl: "tokenize_words line pos st = Inl f \<Longrightarrow> f = OutOfBounds"
proof (induction line pos st rule: tokenize_words.induct)
  case (2 line pos st)
  define e where "e = find_first_of SPECIAL line pos"
  define st1 where "st1 = (if e \<noteq> Some pos then plain_text (substr_to line pos e) st else st)"
  have eq: "tokenize_words line (Some pos) st = (case e of None \<Rightarrow> Inr st1 | Some p \<Rightarrow> (case special_char p line st1 of
      Inl f \<Rightarrow> Inl f | Inr (q, st2) \<Rightarrow> tokenize_words line q st2))"
    unfolding e_def st1_def by (simp only: tokenize_words.simps Let_def)
  then obtain p where p: "e = Some p" using 2(2) by (cases e) auto
  show ?case
  proof (cases "special_char p line st1")
    case (Inl g)
    then show ?thesis using 2(2) eq p special_char_Inl by simp
  next
    case (Inr r)
    obtain q st2 where r: "r = (q, st2)" by (cases r)
    then have "tokenize_words line q st2 = Inl f" using 2(2) eq p Inr by simp
    then show ?thesis using 2(1)[OF e_def st1_def p Inr] r by blast
  qed
qed (simp add: tokenize_words.simps)

lemma tokenize_lines_Inl: "tokenize_lines ls st = Inl f \<Longrightarrow> f = OutOfBounds"
proof (induction ls arbitrary: st)
  case (Cons l ls)
  have "tokenize_line l st = Inl f \<Longrightarrow> f = OutOfBounds"
    by (auto simp: tokenize_line_def map_sum_def split: option.splits sum.splits dest: tokenize_words_Inl)
  then show ?case using Cons by (auto simp: res_bind_eq_Inl)
qed simp

section \<open>The text of plain comments\<close>

definition tok_text :: "DoxygenParser \<Rightarrow> string" where
  "tok_text st = concat (map m_tokenString (m_tokenList st))"

definition mode_plain :: "DoxygenParser \<Rightarrow> bool" where
  "mode_plain st \<longleftrightarrow> \<not> m_isVerbatimText st \<and> \<not> m_isInQuotedString st"

lemma push_token_text [simp]: "tok_text (push_token ty s st) = tok_text st @ s"
  by (simp add: tok_text_def)

lemma push_token_mode [simp]: "mode_plain (push_token ty s st) = mode_plain st"
  by (simp add: mode_plain_def push_token_def)

lemma plain_text_text [simp]: "tok_text (plain_text w st) = tok_text st @ w"
  by (simp add: plain_text_def)

lemma plain_text_mode [simp]: "mode_plain (plain_text w st) = mode_plain st"
  by (simp add: plain_text_def)

lemma find_first_not_of_drop:
  "find_first_not_of cs s pos = Some i \<Longrightarrow> drop i s = dropWhile (\<lambda>c. c \<in> set cs) (drop pos s)"
  "find_first_not_of cs s pos = None \<Longrightarrow> dropWhile (\<lambda>c. c \<in> set cs) (drop pos s) = []"
proof -
  let ?n = "length (takeWhile (\<lambda>c. c \<in> set cs) (drop pos s))"
  have d: "dropWhile (\<lambda>c. c \<in> set cs) (drop pos s) = drop (?n + pos) s" by (simp add: dropWhile_eq_drop)
  show "find_first_not_of cs s pos = Some i \<Longrightarrow> drop i s = dropWhile (\<lambda>c. c \<in> set cs) (drop pos s)"
    using d by (auto simp: find_first_not_of_def Let_def add.commute split: if_splits)
  show "find_first_not_of cs s pos = None \<Longrightarrow> dropWhile (\<lambda>c. c \<in> set cs) (drop pos s) = []"
    unfolding d by (auto simp: find_first_not_of_def Let_def add.commute split: if_splits)
qed

lemma substr_to_drop: "pos \<le> i \<Longrightarrow> i \<le> length s \<Longrightarrow> substr_to s pos (Some i) @ drop i s = drop pos s"
  by (simp add: substr_to_def) (metis append_take_drop_id drop_drop le_add_diff_inverse2)

abbreviation (input) COMMANDS :: "char set" where
  "COMMANDS \<equiv> {BACKSLASH, CHR ''@'', CHR ''<'', CHR ''>'', CHR ''&'', QUOTE}"

definition plain_tokens :: "Token list \<Rightarrow> bool" where
  \<comment> \<open>text and line ends only\<close>
  "plain_tokens ts \<longleftrightarrow> (\<forall>t \<in> set ts. m_tokenType t = PLAINSTRING \<or> m_tokenType t = END_LINE \<and> m_tokenString t = [CHR 0x0A])"

definition quiet :: "DoxygenParser \<Rightarrow> bool" where
  "quiet st \<longleftrightarrow> mode_plain st \<and> plain_tokens (m_tokenList st)"

lemma quiet_simps [simp]:
  "quiet (push_token PLAINSTRING s st) = quiet st" "quiet (push_token END_LINE [CHR 0x0A] st) = quiet st"
  "quiet (plain_text w st) = quiet st"
  by (auto simp: quiet_def plain_tokens_def plain_text_def)

lemma tokenize_words_text:
  "set line \<inter> COMMANDS = {} \<Longrightarrow> quiet st \<Longrightarrow> (\<forall>p. pos = Some p \<longrightarrow> p \<le> length line) \<Longrightarrow>
   \<exists>st'. tokenize_words line pos st = Inr st' \<and> quiet st' \<and>
     tok_text st' = tok_text st @ (case pos of None \<Rightarrow> [] | Some p \<Rightarrow> drop p line)"
proof (induction line pos st rule: tokenize_words.induct)
  case (2 line pos st)
  define e where "e = find_first_of SPECIAL line pos"
  define st1 where "st1 = (if e \<noteq> Some pos then plain_text (substr_to line pos e) st else st)"
  have eq: "tokenize_words line (Some pos) st = (case e of None \<Rightarrow> Inr st1 | Some p \<Rightarrow> (case special_char p line st1 of
      Inl f \<Rightarrow> Inl f | Inr (q, st2) \<Rightarrow> tokenize_words line q st2))"
    unfolding e_def st1_def by (simp only: tokenize_words.simps Let_def)
  have m1: "quiet st1" using 2(3) by (simp add: st1_def)
  show ?case
  proof (cases e)
    case None
    then have "tok_text st1 = tok_text st @ drop pos line" by (simp add: st1_def substr_to_def)
    then show ?thesis using m1 None eq by simp
  next
    case (Some p)
    then have p: "pos \<le> p" "p < length line" "line ! p \<in> set SPECIAL"
      using find_first_of_Some[of SPECIAL line pos p] by (simp_all add: e_def)
    have "line ! p \<in> set line" using p(2) by simp
    then have "line ! p \<notin> COMMANDS" using 2(2) disjoint_iff by metis
    then have blank: "line ! p = CHR '' '' \<or> line ! p = TAB" using p(3) by simp
    define q where "q = find_first_not_of BLANKS line (p + 1)"
    define st2 where "st2 = push_token PLAINSTRING (substr_to line p q) st1"
    have s: "special_char p line st1 = Inr (q, st2)"
      using m1 blank by (auto simp: special_char_def quiet_def mode_plain_def processNormalComment_def Let_def q_def st2_def)
    have t1: "tok_text st1 = tok_text st @ substr_to line pos (Some p)"
      using Some by (auto simp: st1_def substr_to_def)
    have qb: "p \<le> q' \<and> q' \<le> length line" if "q = Some q'" for q'
      using find_first_not_of_Some[of BLANKS line "p + 1" q'] that by (simp add: q_def)
    have t2: "tok_text st2 @ (case q of None \<Rightarrow> [] | Some r \<Rightarrow> drop r line) = tok_text st @ drop pos line"
    proof -
      have a: "substr_to line pos (Some p) @ drop p line = drop pos line" using substr_to_drop p by simp
      have "substr_to line p q @ (case q of None \<Rightarrow> [] | Some r \<Rightarrow> drop r line) = drop p line"
      proof (cases q)
        case None
        then show ?thesis by (simp add: substr_to_def)
      next
        case (Some q')
        then show ?thesis using substr_to_drop[of p q' line] qb[OF Some] by simp
      qed
      then show ?thesis unfolding st2_def push_token_text t1 using a by simp
    qed
    have "quiet st2" using m1 by (simp add: st2_def)
    then obtain st' where "tokenize_words line q st2 = Inr st'" "quiet st'"
      "tok_text st' = tok_text st2 @ (case q of None \<Rightarrow> [] | Some r \<Rightarrow> drop r line)"
      using 2(1)[OF e_def st1_def Some s refl 2(2)] qb by blast
    then show ?thesis using t2 eq Some s by simp
  qed
qed (simp add: tokenize_words.simps)

text \<open>What is left of a line without its comment decoration.\<close>

definition line_text :: "string \<Rightarrow> string" where
  "line_text line =
     (let r = dropWhile (\<lambda>c. c \<in> set BLANKS) line; s = dropWhile isStartOfDoxyCommentChar r;
          s1 = (if starts_with '' '' s then drop 1 s else s)
      in if s = [] then []
         else if s = r then line
         else if dropWhile (\<lambda>c. c \<in> set BLANKS) s1 = [] then [] else s1)"

lemma line_start_text:
  "case line_start line of
     None \<Rightarrow> line_text line = []
   | Some (indent, pos) \<Rightarrow> pos \<le> length line \<and> (case indent of None \<Rightarrow> [] | Some i \<Rightarrow> i) @ drop pos line = line_text line"
proof (cases "find_first_not_of BLANKS line 0")
  case None
  then have d: "dropWhile (\<lambda>c. c \<in> set BLANKS) line = []" using find_first_not_of_drop(2)[OF None] by simp
  show ?thesis unfolding line_text_def Let_def d using None by (simp only: line_start_def option.case) simp
next
  case (Some p0)
  define r where "r = drop p0 line"
  have r: "dropWhile (\<lambda>c. c \<in> set BLANKS) line = r" using find_first_not_of_drop(1)[OF Some] by (simp add: r_def)
  have p0: "p0 < length line" using find_first_not_of_Some(2)[OF Some] .
  define n where "n = length (takeWhile isStartOfDoxyCommentChar r)"
  define s where "s = dropWhile isStartOfDoxyCommentChar r"
  have s: "s = drop (p0 + n) line" by (simp add: s_def n_def r_def dropWhile_eq_drop add.commute)
  have n: "p0 + n \<le> length line" using p0 length_takeWhile_le[of isStartOfDoxyCommentChar r] by (simp add: n_def r_def)
  define pos1 where "pos1 = (if n > 0 \<and> line ! (p0 + n) = CHR '' '' then p0 + n + 1 else p0 + n)"
  have "length s = length r - n" "n \<le> length r" using s n by (simp_all add: r_def)
  then have sr: "s = r \<longleftrightarrow> n = 0" using s p0 by (metis add_0_right diff_diff_cancel diff_self_eq_0 r_def)
  have hd_s: "starts_with '' '' s \<longleftrightarrow> line ! (p0 + n) = CHR '' ''" if "p0 + n < length line"
    unfolding s Cons_nth_drop_Suc[OF that, symmetric] by auto
  show ?thesis
  proof (cases "p0 + n = length line")
    case True
    then have "line_start line = None" unfolding line_start_def Some option.case r_def[symmetric] n_def[symmetric] Let_def by simp
    moreover have "s = []" using s True by simp
    then have "line_text line = []" unfolding line_text_def r s_def[symmetric] Let_def by simp
    ultimately show ?thesis by simp
  next
    case False
    then have lt: "p0 + n < length line" using n by simp
    have ls: "line_start line = (if pos1 = length line then None else if n > 0 then
        (case find_first_not_of BLANKS line pos1 of None \<Rightarrow> None
         | Some w \<Rightarrow> Some (if w > pos1 then Some (substr_to line pos1 (Some w)) else None, w))
        else Some (Some (take pos1 line), pos1))"
      unfolding line_start_def Some option.case r_def[symmetric] n_def[symmetric] Let_def pos1_def using False by simp
    have lt_text: "line_text line = (if n = 0 then line
        else if dropWhile (\<lambda>c. c \<in> set BLANKS) (drop pos1 line) = [] then [] else drop pos1 line)"
    proof -
      have "s \<noteq> []" using s lt by simp
      moreover have "n > 0 \<Longrightarrow> (if starts_with '' '' s then drop 1 s else s) = drop pos1 line"
        using hd_s[OF lt] by (simp add: pos1_def s)
      ultimately show ?thesis unfolding line_text_def r s_def[symmetric] Let_def sr by (cases "n = 0") (simp_all only: if_True if_False simp_thms neq0_conv)
    qed
    have pos1: "pos1 \<le> length line" using lt by (simp add: pos1_def)
    show ?thesis
    proof (cases "n > 0")
      case True
      show ?thesis
      proof (cases "find_first_not_of BLANKS line pos1")
        case None
        then have "dropWhile (\<lambda>c. c \<in> set BLANKS) (drop pos1 line) = []" by (rule find_first_not_of_drop(2))
        then show ?thesis unfolding ls lt_text None using True by simp
      next
        case (Some w)
        then have w: "pos1 \<le> w" "w < length line" "drop w line \<noteq> []"
          using find_first_not_of_Some[OF Some] by auto
        have "dropWhile (\<lambda>c. c \<in> set BLANKS) (drop pos1 line) \<noteq> []"
          unfolding find_first_not_of_drop(1)[OF Some, symmetric] by (rule w(3))
        then show ?thesis unfolding ls lt_text Some option.case using True w substr_to_drop[of pos1 w line]
          by (simp split: if_splits)
      qed
    next
      case False
      then show ?thesis using ls lt_text pos1 lt by (auto simp: pos1_def)
    qed
  qed
qed

lemma tokenize_line_text:
  assumes "set line \<inter> COMMANDS = {}" "quiet st"
  shows "\<exists>st'. tokenize_line line st = Inr st' \<and> quiet st' \<and> tok_text st' = tok_text st @ line_text line @ [CHR 0x0A]"
proof (cases "line_start line")
  case None
  then show ?thesis using assms line_start_text[of line] by (simp add: tokenize_line_def)
next
  case (Some ip)
  obtain indent pos where ip: "ip = (indent, pos)" by (cases ip)
  define s where "s = (case indent of None \<Rightarrow> st | Some x \<Rightarrow> push_token PLAINSTRING x st)"
  have s: "quiet s" "tok_text s = tok_text st @ (case indent of None \<Rightarrow> [] | Some i \<Rightarrow> i)"
    using assms(2) by (auto simp: s_def split: option.splits)
  have t: "pos \<le> length line" "(case indent of None \<Rightarrow> [] | Some i \<Rightarrow> i) @ drop pos line = line_text line"
    using line_start_text[of line] Some ip by auto
  obtain s1 where "tokenize_words line (Some pos) s = Inr s1" "quiet s1" "tok_text s1 = tok_text s @ drop pos line"
    using tokenize_words_text[OF assms(1) s(1), of "Some pos"] t(1) by auto
  then show ?thesis using Some ip s(2) t(2)[symmetric] by (simp add: tokenize_line_def s_def)
qed

lemma tokenize_lines_text:
  "\<forall>l \<in> set ls. set l \<inter> COMMANDS = {} \<Longrightarrow> quiet st \<Longrightarrow>
   \<exists>st'. tokenize_lines ls st = Inr st' \<and> quiet st' \<and> tok_text st' = tok_text st @ concat (map (\<lambda>l. line_text l @ [CHR 0x0A]) ls)"
proof (induction ls arbitrary: st)
  case (Cons l ls)
  then obtain st1 where "tokenize_line l st = Inr st1" "quiet st1" "tok_text st1 = tok_text st @ line_text l @ [CHR 0x0A]"
    using tokenize_line_text[of l st] by auto
  then show ?case using Cons by fastforce
qed simp

text \<open>The tokens of a plain line: words that spell its text, and the end of the line.\<close>

abbreviation (input) END_TOKEN :: Token where
  "END_TOKEN \<equiv> \<lparr>m_tokenType = END_LINE, m_tokenString = [CHR 0x0A]\<rparr>"

lemma tokenize_line_segment:
  assumes "set line \<inter> COMMANDS = {}" "quiet st"
  shows "\<exists>st' ws. tokenize_line line st = Inr st' \<and> quiet st' \<and> m_tokenList st' = m_tokenList st @ ws @ [END_TOKEN] \<and>
    (\<forall>t \<in> set ws. m_tokenType t = PLAINSTRING) \<and> concat (map m_tokenString ws) = line_text line"
proof -
  obtain st' where l: "tokenize_line line st = Inr st'" "quiet st'" "tok_text st' = tok_text st @ line_text line @ [CHR 0x0A]"
    using tokenize_line_text[OF assms] by blast
  then obtain st1 where "grows st st1" "m_tokenList st' = m_tokenList st1 @ [END_TOKEN]" using tokenize_line_grows by blast
  then obtain ws where ws: "m_tokenList st' = m_tokenList st @ ws @ [END_TOKEN]"
    "\<forall>t \<in> set ws. m_tokenType t = PLAINSTRING \<or> m_tokenType t = COMMAND" by (auto simp: grows_def)
  then have "\<forall>t \<in> set ws. m_tokenType t = PLAINSTRING" using l(2) by (fastforce simp: quiet_def plain_tokens_def)
  then show ?thesis using l ws(1) by (auto simp: tok_text_def)
qed

lemma tokenize_lines_segments:
  "\<forall>l \<in> set ls. set l \<inter> COMMANDS = {} \<Longrightarrow> quiet st \<Longrightarrow>
   \<exists>st' wss. tokenize_lines ls st = Inr st' \<and> quiet st' \<and> m_tokenList st' = m_tokenList st @ concat (map (\<lambda>ws. ws @ [END_TOKEN]) wss) \<and>
     (\<forall>ws \<in> set wss. \<forall>t \<in> set ws. m_tokenType t = PLAINSTRING) \<and> map (\<lambda>ws. concat (map m_tokenString ws)) wss = map line_text ls"
proof (induction ls arbitrary: st)
  case (Cons l ls)
  then obtain st1 ws where a: "tokenize_line l st = Inr st1" "quiet st1" "m_tokenList st1 = m_tokenList st @ ws @ [END_TOKEN]"
    "\<forall>t \<in> set ws. m_tokenType t = PLAINSTRING" "concat (map m_tokenString ws) = line_text l"
    using tokenize_line_segment[of l st] by auto
  moreover obtain st' wss where "tokenize_lines ls st1 = Inr st'" "quiet st'"
    "m_tokenList st' = m_tokenList st1 @ concat (map (\<lambda>ws. ws @ [END_TOKEN]) wss)"
    "\<forall>ws \<in> set wss. \<forall>t \<in> set ws. m_tokenType t = PLAINSTRING" "map (\<lambda>ws. concat (map m_tokenString ws)) wss = map line_text ls"
    using Cons a(2) by (metis list.set_intros(2))
  ultimately show ?case by (intro exI[of _ st'] exI[of _ "ws # wss"]) simp
qed simp

section \<open>Lost text and the read past the line\<close>

lemma find_first_of_at:
  "set pre \<inter> set cs = {} \<Longrightarrow> c \<in> set cs \<Longrightarrow> find_first_of cs (pre @ c # r) 0 = Some (length pre)"
  by (subst find_first_of_def) (auto simp: Let_def takeWhile_append2 disjoint_iff)

lemma tokenize_words_first:
  fixes st :: DoxygenParser
  assumes "set pre \<inter> set SPECIAL = {}" "c \<in> set SPECIAL"
  defines "st1 \<equiv> (if pre = [] then st else plain_text pre st)"
  shows "tokenize_words (pre @ c # r) (Some 0) st =
    (case special_char (length pre) (pre @ c # r) st1 of Inl f \<Rightarrow> Inl f | Inr (q, st2) \<Rightarrow> tokenize_words (pre @ c # r) q st2)"
proof -
  have e: "find_first_of SPECIAL (pre @ c # r) 0 = Some (length pre)" using assms(1,2) by (rule find_first_of_at)
  have "(if Some (length pre) \<noteq> Some 0 then plain_text (substr_to (pre @ c # r) 0 (Some (length pre))) st else st) = st1"
    by (simp add: st1_def substr_to_def)
  then show ?thesis by (simp only: tokenize_words.simps Let_def e option.case)
qed

lemma find_first_not_of_all: "set r \<subseteq> set cs \<Longrightarrow> find_first_not_of cs (pre @ c # r) (length pre + 1) = None"
proof -
  assume "set r \<subseteq> set cs"
  then have "takeWhile (\<lambda>c. c \<in> set cs) r = r" by (auto simp: takeWhile_eq_all_conv)
  then show ?thesis by (simp del: takeWhile_eq_all_conv add: find_first_not_of_def)
qed

lemma html_command_shape:
  "\<forall>t \<in> set commandHtml. t \<noteq> [] \<and> hd t = CHR ''<'' \<and> tl t \<noteq> [] \<and> hd (tl t) \<noteq> CHR ''/'' \<and>
     \<not> list_ex (\<lambda>c. c = TAB \<or> c = CHR '' '' \<or> c = CHR ''>'') t \<and> doxygenCommands (stringToLower t) = Some COMMAND_HTML"
  by code_simp

section \<open>Theorems\<close>



text \<open>No text of a plain comment is lost. When no line holds a character that may start a
  command, tag, entity or quotation, the token strings joined together are exactly the lines without their comment
  decoration (leading blanks, stars, slashes, exclamation marks and one blank), each with its line end.\<close>

theorem tokenizer_keeps_text:
  assumes "\<forall>l \<in> set (comment_lines c). set l \<inter> COMMANDS = {}"
  shows "\<exists>st'. tokenizeDoxygenComment c n st = Inr st' \<and>
    tok_text st' = concat (map (\<lambda>l. line_text l @ [CHR 0x0A]) (comment_lines c))"
proof -
  let ?st = "st\<lparr>m_isVerbatimText := False, m_isInQuotedString := False, m_tokenList := [], m_fileLineNo := n\<rparr>"
  have "quiet ?st" "tok_text ?st = []" by (simp_all add: quiet_def plain_tokens_def mode_plain_def tok_text_def)
  then obtain s where "tokenize_lines (comment_lines c) ?st = Inr s"
    "tok_text s = concat (map (\<lambda>l. line_text l @ [CHR 0x0A]) (comment_lines c))"
    using tokenize_lines_text[OF assms, of ?st] by auto
  then show ?thesis by (simp add: tokenizeDoxygenComment_def tok_text_def)
qed

theorem tokenizer_keeps_text_witness:
  "\<exists>st'. tokenizeDoxygenComment ('' *  Hello, world.'' @ [CHR 0x0A] @ ''plain'') 1
      \<lparr>m_tokenList = [], m_tokenListIt = 0, m_isVerbatimText = False, m_isInQuotedString = False, m_node = Map.empty,
       m_fileLineNo = 0, warnings = []\<rparr> = Inr st' \<and> tok_text st' = '' Hello, world.'' @ [CHR 0x0A] @ ''plain'' @ [CHR 0x0A]"
proof -
  let ?c = "'' *  Hello, world.'' @ [CHR 0x0A] @ ''plain''"
  have l: "comment_lines ?c = ['' *  Hello, world.'', ''plain'']" by (simp add: comment_lines_def split.simps)
  have t: "line_text '' *  Hello, world.'' = '' Hello, world.''" "line_text ''plain'' = ''plain''"
    by (simp_all add: line_text_def isStartOfDoxyCommentChar_def)
  have "\<forall>l \<in> set (comment_lines ?c). set l \<inter> COMMANDS = {}" unfolding l by simp
  from tokenizer_keeps_text[OF this] show ?thesis unfolding l by (simp add: t)
qed

text \<open>Text after an ampersand is lost at the end of a line. When a line ends with an ampersand followed only by
  small letters (or by nothing), the ampersand and the letters are dropped: no token and no
  warning is produced for them.\<close>

theorem tokenizer_loses_ampersand:
  assumes "set pre \<inter> set SPECIAL = {}" "set ls \<subseteq> set ''abcdefghijklmnopqrstuvwxyz''" "mode_plain st"
  shows "tokenize_words (pre @ CHR ''&'' # ls) (Some 0) st = Inr (if pre = [] then st else plain_text pre st)"
proof -
  define st1 where "st1 = (if pre = [] then st else plain_text pre st)"
  have m: "mode_plain st1" using assms(3) by (simp add: st1_def)
  have c: "(pre @ CHR ''&'' # ls) ! length pre = CHR ''&''" by simp
  have "special_char (length pre) (pre @ CHR ''&'' # ls) st1 = Inr (None, st1)"
    using m find_first_not_of_all[OF assms(2), of pre "CHR ''&''"] c
    by (simp add: special_char_def mode_plain_def processNormalComment_def processHtmlEntities_def)
  then show ?thesis
    using tokenize_words_first[OF assms(1), of "CHR ''&''" ls st] by (simp add: st1_def tokenize_words.simps(1))
qed

theorem tokenizer_loses_ampersand_witness:
  "let st = \<lparr>m_tokenList = [], m_tokenListIt = 0, m_isVerbatimText = False, m_isInQuotedString = False, m_node = Map.empty,
       m_fileLineNo = 0, warnings = []\<rparr>
   in tokenize_words ''R&d'' (Some 0) st = Inr (push_token PLAINSTRING ''R'' st)"
  using tokenizer_loses_ampersand[of "''R''" "''d''" "\<lparr>m_tokenList = [], m_tokenListIt = 0, m_isVerbatimText = False,
      m_isInQuotedString = False, m_node = Map.empty, m_fileLineNo = 0, warnings = []\<rparr>"]
  by (simp add: mode_plain_def plain_text_def)

text \<open>A known tag that ends the line without a \<^verbatim>\<open>>\<close> is read past its end: the code looks at the
  character at \<^verbatim>\<open>npos\<close>, for every tag of the table and every text before it.\<close>

theorem tokenizer_reads_past_tag:
  assumes "set pre \<inter> set SPECIAL = {}" "tag \<in> set commandHtml" "mode_plain st"
  shows "tokenize_words (pre @ tag) (Some 0) st = Inl OutOfBounds"
proof -
  obtain c r where tag: "tag = CHR ''<'' # c # r" "c \<noteq> CHR ''/''" "doxygenCommands (stringToLower tag) = Some COMMAND_HTML"
    and free: "\<not> list_ex (\<lambda>c. c = TAB \<or> c = CHR '' '' \<or> c = CHR ''>'') tag"
  proof -
    have "tag \<noteq> []" "hd tag = CHR ''<''" "tl tag \<noteq> []" "hd (tl tag) \<noteq> CHR ''/''"
      "\<not> list_ex (\<lambda>c. c = TAB \<or> c = CHR '' '' \<or> c = CHR ''>'') tag" "doxygenCommands (stringToLower tag) = Some COMMAND_HTML"
      using html_command_shape assms(2) by blast+
    then show ?thesis using that[of "hd (tl tag)" "tl (tl tag)"] by (cases tag) simp_all
  qed
  define st1 where "st1 = (if pre = [] then st else plain_text pre st)"
  let ?line = "pre @ CHR ''<'' # c # r"
  have m: "mode_plain st1" using assms(3) by (simp add: st1_def)
  have "takeWhile (\<lambda>x. x \<notin> set [TAB, CHR '' '', CHR ''>'']) (c # r) = c # r"
    using free by (simp add: tag takeWhile_eq_all_conv list_ex_iff)
  then have f: "find_first_of [TAB, CHR '' '', CHR ''>''] ?line (length pre + 1) = None"
    by (simp add: find_first_of_def Let_def)
  have k: "fst (addDoxyCommand (CHR ''<'' # c # r) st1)"
    using tag by (simp add: addDoxyCommand_def commandBelongs_def)
  have "html_tag False (length pre + 1) ?line st1 = Inl OutOfBounds"
    using k f by (cases "addDoxyCommand (CHR ''<'' # c # r) st1") (simp add: html_tag_def substr_to_def Let_def)
  then have "special_char (length pre) ?line st1 = Inl OutOfBounds"
    using m tag(2) by (simp add: special_char_def mode_plain_def processNormalComment_def processHtmlTags_def nth_append)
  then show ?thesis
    using tokenize_words_first[OF assms(1), of "CHR ''<''" "c # r" st] tag(1) by (simp add: st1_def)
qed

theorem tokenizer_reads_past_tag_witness:
  "tokenize_words ''bold:<b'' (Some 0) \<lparr>m_tokenList = [], m_tokenListIt = 0, m_isVerbatimText = False,
      m_isInQuotedString = False, m_node = Map.empty, m_fileLineNo = 0, warnings = []\<rparr> = Inl OutOfBounds"
  using tokenizer_reads_past_tag[of "''bold:''" "''<b''" "\<lparr>m_tokenList = [], m_tokenListIt = 0, m_isVerbatimText = False,
      m_isInQuotedString = False, m_node = Map.empty, m_fileLineNo = 0, warnings = []\<rparr>"]
  by (simp add: commandHtml_def mode_plain_def)

end
