(* ===== verification/Doxy_Parser.thy ===== *)
theory Doxy_Parser
  imports Doxy_Tokenizer
begin

text \<open>
  The parser of \<^verbatim>\<open>Source/Doxygen/doxyparser.cxx\<close>: from the token list to the tree of
  \<^verbatim>\<open>DoxygenEntity\<close> nodes. An iterator is an index into the token list, and dereferencing it at or
  after the end is \<open>OutOfBounds\<close>. The recursion of \<^verbatim>\<open>parse\<close> through the commands is opened: a
  command takes the recursive call as an argument, and \<open>parse_loop\<close> ties the knot with fuel; a
  theorem shows that the fuel of \<open>createTree\<close> is always enough.
\<close>

section \<open>Entities\<close>

datatype DoxygenEntity =
  DoxygenEntity (typeOfEntity: string) (data: string) (isLeaf: bool) (entityList: "DoxygenEntity list")

text \<open>The three constructors of the class.\<close>

definition entity0 :: "string \<Rightarrow> DoxygenEntity" where
  "entity0 typeEnt = DoxygenEntity typeEnt [] True []"

definition entity1 :: "string \<Rightarrow> string \<Rightarrow> DoxygenEntity" where
  "entity1 typeEnt param1 = DoxygenEntity typeEnt param1 True []"

definition entityN :: "string \<Rightarrow> DoxygenEntity list \<Rightarrow> DoxygenEntity" where
  "entityN typeEnt entList = DoxygenEntity typeEnt [] False entList"

abbreviation (input) plain_string :: "string \<Rightarrow> DoxygenEntity" where
  "plain_string s \<equiv> entity1 ''plainstd::string'' s"

abbreviation (input) plain_endl :: DoxygenEntity where
  "plain_endl \<equiv> entity0 ''plainstd::endl''"

type_synonym parsed = "(DoxygenEntity list \<times> DoxygenParser) res"

section \<open>Reading tokens\<close>

abbreviation (input) rest :: "DoxygenParser \<Rightarrow> Token list" where
  \<comment> \<open>the tokens from the iterator on\<close>
  "rest st \<equiv> drop (m_tokenListIt st) (m_tokenList st)"

definition advance :: "nat \<Rightarrow> DoxygenParser \<Rightarrow> DoxygenParser" where
  "advance n st = st\<lparr>m_tokenListIt := m_tokenListIt st + n\<rparr>"

definition isEndOfLine :: "DoxygenParser \<Rightarrow> bool" where
  "isEndOfLine st = (case rest st of [] \<Rightarrow> False | t # _ \<Rightarrow> m_tokenType t = END_LINE)"

definition skipWhitespaceTokens :: "DoxygenParser \<Rightarrow> DoxygenParser" where
  "skipWhitespaceTokens st =
     advance (length (takeWhile (\<lambda>t. m_tokenType t = END_LINE \<or> trim (m_tokenString t) = []) (rest st))) st"

definition getNextToken :: "DoxygenParser \<Rightarrow> string \<times> DoxygenParser" where
  "getNextToken st =
     (case rest st of
        [] \<Rightarrow> ([], st)
      | t # _ \<Rightarrow> if m_tokenType t = PLAINSTRING then (m_tokenString t, advance 1 st) else ([], st))"

text \<open>The two loops of \<^verbatim>\<open>getNextWord\<close>: the word and the number of tokens read.\<close>

fun quoted_word :: "string \<Rightarrow> Token list \<Rightarrow> string \<times> nat" where
  "quoted_word w [] = (w, 0)"
| "quoted_word w (t # ts) =
     (if m_tokenType t \<noteq> PLAINSTRING then (w, 0)
      else if m_tokenString t = [] then (w, 1)
      else if m_tokenString t = [QUOTE] then (w @ [QUOTE], 1)
      else let (w', n) = quoted_word (w @ m_tokenString t) ts in (w', Suc n))"

fun next_word :: "Token list \<Rightarrow> string \<times> nat" where
  "next_word [] = ([], 0)"
| "next_word (t # ts) =
     (if m_tokenType t \<noteq> PLAINSTRING then ([], 0)
      else if m_tokenString t = [QUOTE] then (let (w, n) = quoted_word [QUOTE] ts in (w, Suc n))
      else if trim (m_tokenString t) \<noteq> [] then (trim (m_tokenString t), 1)
      else let (w, n) = next_word ts in (w, Suc n))"

definition getNextWord :: "DoxygenParser \<Rightarrow> string \<times> DoxygenParser" where
  "getNextWord st = (let (w, n) = next_word (rest st) in (w, advance n st))"

definition getOneLine :: "DoxygenParser \<Rightarrow> nat" where
  "getOneLine st = m_tokenListIt st + length (takeWhile (\<lambda>t. m_tokenType t \<noteq> END_LINE) (rest st))"

definition getStringTilCommand :: "DoxygenParser \<Rightarrow> (string \<times> DoxygenParser) res" where
  "getStringTilCommand st =
     (if rest st = [] then Inr ([], st)
      else let ws = takeWhile (\<lambda>t. m_tokenType t = PLAINSTRING) (rest st)
           in if ws = rest st then Inl OutOfBounds
              else Inr (concat (map m_tokenString ws), advance (length ws) st))"

fun til_end_command :: "string \<Rightarrow> Token list \<Rightarrow> string \<times> nat \<times> bool" where
  \<comment> \<open>the text, the number of tokens read, and whether the command was found\<close>
  "til_end_command c [] = ([], 0, False)"
| "til_end_command c (t # ts) =
     (if m_tokenType t \<noteq> PLAINSTRING \<and> m_tokenType t \<noteq> END_LINE \<and> m_tokenString t = c then ([], 1, True)
      else let (s, n, b) = til_end_command c ts
           in ((if m_tokenType t = PLAINSTRING then m_tokenString t
                else if m_tokenType t = END_LINE then [CHR 0x0A] else []) @ s, Suc n, b))"

definition getStringTilEndCommand :: "string \<Rightarrow> DoxygenParser \<Rightarrow> string \<times> DoxygenParser" where
  "getStringTilEndCommand theCommand st =
     (if rest st = [] then ([], st)
      else let (s, n, found) = til_end_command theCommand (rest st); st1 = advance n st
           in (s, if found then st1 else printListError 562 (''Expected Doxygen command: '' @ theCommand @ ''.'') st1))"

fun paragraph_length :: "Token list \<Rightarrow> nat" where
  "paragraph_length [] = 0"
| "paragraph_length (t # ts) =
     (if m_tokenType t = END_LINE then
        (case ts of
           [] \<Rightarrow> 1
         | u # us \<Rightarrow> if m_tokenType u = END_LINE then 2 else Suc (paragraph_length ts))
      else if m_tokenType t = COMMAND then
        (if isSectionIndicator (m_tokenString t) then 0 else Suc (paragraph_length ts))
      else if m_tokenType t = PLAINSTRING then Suc (paragraph_length ts)
      else length (t # ts))"

definition getEndOfParagraph :: "DoxygenParser \<Rightarrow> nat" where
  "getEndOfParagraph st = m_tokenListIt st + paragraph_length (rest st)"

fun section_length :: "string \<Rightarrow> Token list \<Rightarrow> nat res" where
  "section_length c [] = Inr 0"
| "section_length c (t # ts) =
     (if m_tokenType t = COMMAND then
        (if c = m_tokenString t then Inr 0 else map_sum id Suc (section_length c ts))
      else if m_tokenType t = PLAINSTRING then map_sum id Suc (section_length c ts)
      else if m_tokenType t = END_LINE then
        (case ts of
           [] \<Rightarrow> Inl OutOfBounds
         | u # us \<Rightarrow> if m_tokenType u = END_LINE then Inr 2 else map_sum id Suc (section_length c ts))
      else Inl Diverges)"

definition getEndOfSection :: "string \<Rightarrow> DoxygenParser \<Rightarrow> nat res" where
  "getEndOfSection theCommand st = map_sum id (\<lambda>n. m_tokenListIt st + n) (section_length theCommand (rest st))"

text \<open>\<^verbatim>\<open>getEndCommand\<close> moves on before it looks, so it also looks at the end of the list.\<close>

fun end_command_offset :: "string \<Rightarrow> Token list \<Rightarrow> nat res" where
  "end_command_offset c [] = Inr 0"
| "end_command_offset c [t] = Inl OutOfBounds"
| "end_command_offset c (t # u # us) =
     (if m_tokenType u = COMMAND \<and> c = m_tokenString u then Inr 1
      else map_sum id Suc (end_command_offset c (u # us)))"

definition getEndCommand :: "string \<Rightarrow> DoxygenParser \<Rightarrow> nat res" where
  "getEndCommand theCommand st = map_sum id (\<lambda>n. m_tokenListIt st + n) (end_command_offset theCommand (rest st))"

definition skipEndOfLine :: "DoxygenParser \<Rightarrow> DoxygenParser" where
  "skipEndOfLine st = (if isEndOfLine st then advance 1 st else st)"

section \<open>Commands by kind\<close>

text \<open>Every command returns the list with its entity appended. The argument \<open>parse\<close> is the recursive call
  \<^verbatim>\<open>parse(end, tokList)\<close>.\<close>

type_synonym parser = "nat \<Rightarrow> DoxygenParser \<Rightarrow> parsed"

definition command_error :: "string \<Rightarrow> string \<Rightarrow> DoxygenParser \<Rightarrow> DoxygenParser" where
  "command_error theCommand what st = printListError 564 (''Error parsing Doxygen command '' @ theCommand @ '': '' @ what) st"

definition addCommandWord :: "string \<Rightarrow> DoxygenEntity list \<Rightarrow> DoxygenParser \<Rightarrow> parsed" where
  "addCommandWord theCommand l st =
     (let (l1, st1) = (if isEndOfLine st then (l @ [plain_endl], skipWhitespaceTokens st) else (l, st));
          (name, st2) = getNextWord st1
      in if name \<noteq> [] then Inr (l1 @ [entityN theCommand [plain_string name]], st2)
         else Inr (l1, command_error theCommand ''No word followed the command. Command ignored.'' st2))"

definition addCommandLine :: "parser \<Rightarrow> string \<Rightarrow> DoxygenEntity list \<Rightarrow> DoxygenParser \<Rightarrow> parsed" where
  "addCommandLine parse theCommand l st =
     res_bind (parse (getOneLine st) st) (\<lambda>(aNewList, st1). Inr (l @ [entityN theCommand aNewList], skipEndOfLine st1))"

definition addCommandParagraph :: "parser \<Rightarrow> string \<Rightarrow> DoxygenEntity list \<Rightarrow> DoxygenParser \<Rightarrow> parsed" where
  "addCommandParagraph parse theCommand l st =
     res_bind (parse (getEndOfParagraph st) st) (\<lambda>(aNewList, st1). Inr (l @ [entityN theCommand aNewList], st1))"

definition addCommandEndCommand :: "parser \<Rightarrow> string \<Rightarrow> DoxygenEntity list \<Rightarrow> DoxygenParser \<Rightarrow> parsed" where
  "addCommandEndCommand parse theCommand l st =
     res_bind (getEndCommand (''end'' @ theCommand) st) (\<lambda>endCommand.
       if endCommand = length (m_tokenList st)
       then Inr (l, printListError 562 (''Expected Doxygen command: end'' @ theCommand @ ''.'') st)
       else res_bind (parse endCommand st) (\<lambda>(aNewList, st1). Inr (l @ [entityN theCommand aNewList], advance 1 st1)))"

definition addCommandWordParagraph :: "parser \<Rightarrow> string \<Rightarrow> DoxygenEntity list \<Rightarrow> DoxygenParser \<Rightarrow> parsed" where
  "addCommandWordParagraph parse theCommand l st =
     (let (name, st1) = getNextWord st in
      if name = [] then Inr (l, command_error theCommand ''No word followed the command. Command ignored.'' st1)
      else res_bind (parse (getEndOfParagraph st1) st1) (\<lambda>(aNewList, st2).
             Inr (l @ [entityN theCommand (plain_string name # aNewList)], st2)))"

definition addCommandWordLine :: "parser \<Rightarrow> string \<Rightarrow> DoxygenEntity list \<Rightarrow> DoxygenParser \<Rightarrow> parsed" where
  "addCommandWordLine parse theCommand l st =
     (let (name, st1) = getNextWord st in
      if name = [] then Inr (l, command_error theCommand ''No word followed the command. Command ignored.'' st1)
      else res_bind (parse (getOneLine st1) st1) (\<lambda>(aNewList, st2).
             Inr (l @ [entityN theCommand (plain_string name # aNewList)], st2)))"

definition opt_string :: "string \<Rightarrow> DoxygenEntity list" where
  \<comment> \<open>\<^verbatim>\<open>if (!s.empty()) aNewList.push_back(DoxygenEntity("plainstd::string", s))\<close>\<close>
  "opt_string s = (if s \<noteq> [] then [plain_string s] else [])"

definition addCommandWordOWordOWord :: "string \<Rightarrow> DoxygenEntity list \<Rightarrow> DoxygenParser \<Rightarrow> parsed" where
  "addCommandWordOWordOWord theCommand l st =
     (let (name, st1) = getNextWord st in
      if name = [] then Inr (l, command_error theCommand ''No word followed the command. Command ignored.'' st1)
      else let (headerfile, st2) = getNextWord st1; (headername, st3) = getNextWord st2
           in Inr (l @ [entityN theCommand (plain_string name # opt_string headerfile @ opt_string headername)], st3))"

definition addCommandOWord :: "string \<Rightarrow> DoxygenEntity list \<Rightarrow> DoxygenParser \<Rightarrow> parsed" where
  "addCommandOWord theCommand l st =
     (let (name, st1) = getNextWord st in Inr (l @ [entityN theCommand [plain_string name]], st1))"

definition addCommandErrorThrow :: "string \<Rightarrow> DoxygenEntity list \<Rightarrow> DoxygenParser \<Rightarrow> parsed" where
  "addCommandErrorThrow theCommand l st =
     (let st1 = command_error theCommand ''Unexpectedly encountered this command.'' st
      in Inr (l, st1\<lparr>m_tokenListIt := getOneLine st1\<rparr>))"

definition addCommandHtml :: "string \<Rightarrow> DoxygenEntity list \<Rightarrow> DoxygenParser \<Rightarrow> parsed" where
  "addCommandHtml theCommand l st =
     (let (htmlTagArgs, st1) = getNextToken st in Inr (l @ [entity1 theCommand htmlTagArgs], st1))"

definition addCommandHtmlEntity :: "string \<Rightarrow> DoxygenEntity list \<Rightarrow> DoxygenParser \<Rightarrow> parsed" where
  "addCommandHtmlEntity theCommand l st = Inr (l @ [entityN theCommand []], st)"

definition addSimpleCommand :: "string \<Rightarrow> DoxygenEntity list \<Rightarrow> DoxygenParser \<Rightarrow> parsed" where
  "addSimpleCommand theCommand l st = Inr (l @ [entity0 theCommand], st)"

section \<open>Unique commands\<close>

definition ignored :: "string \<Rightarrow> string \<Rightarrow> DoxygenEntity list \<Rightarrow> DoxygenParser \<Rightarrow> parsed" where
  \<comment> \<open>the message for a missing argument, and the early return\<close>
  "ignored theCommand what l st = Inr (l, command_error theCommand (what @ '' followed the command. Command ignored.'') st)"

definition unique_section :: "parser \<Rightarrow> string \<Rightarrow> DoxygenEntity list \<Rightarrow> DoxygenParser \<Rightarrow> parsed" where
  \<comment> \<open>\<^verbatim>\<open>\arg\<close> and \<^verbatim>\<open>\li\<close>\<close>
  "unique_section parse theCommand l st =
     res_bind (getEndOfSection theCommand st) (\<lambda>e.
     res_bind (parse e st) (\<lambda>(aNewList, st1). Inr (l @ [entityN theCommand aNewList], st1)))"

definition unique_xrefitem :: "parser \<Rightarrow> string \<Rightarrow> DoxygenEntity list \<Rightarrow> DoxygenParser \<Rightarrow> parsed" where
  "unique_xrefitem parse theCommand l st =
     (let (key, st1) = getNextWord st in
      if key = [] then ignored theCommand ''No key'' l st1
      else let (heading, st2) = getNextWord st1; (title, st3) = getNextWord st2 in
      if title = [] then ignored theCommand ''No title'' l st3
      else res_bind (parse (getEndOfParagraph st3) st3) (\<lambda>(aNewList, st4).
             Inr (l @ [entityN theCommand (plain_string key # plain_string heading # plain_string title # aNewList)], st4)))"

definition unique_ingroup :: "string \<Rightarrow> DoxygenEntity list \<Rightarrow> DoxygenParser \<Rightarrow> parsed" where
  "unique_ingroup theCommand l st =
     (let (a, st1) = getNextWord st; (b, st2) = getNextWord st1; (c, st3) = getNextWord st2
      in Inr (l @ [entityN theCommand (plain_string a # opt_string b @ opt_string c)], st3))"

definition unique_par :: "parser \<Rightarrow> string \<Rightarrow> DoxygenEntity list \<Rightarrow> DoxygenParser \<Rightarrow> parsed" where
  "unique_par parse theCommand l st =
     res_bind (parse (getOneLine st) st) (\<lambda>(aNewList, st1).
     res_bind (parse (getEndOfParagraph st1) st1) (\<lambda>(aNewList2, st2).
       Inr (l @ [entityN theCommand (aNewList @ aNewList2)], st2)))"

definition unique_headerfile :: "string \<Rightarrow> DoxygenEntity list \<Rightarrow> DoxygenParser \<Rightarrow> parsed" where
  "unique_headerfile theCommand l st =
     (let (a, st1) = getNextWord st; (b, st2) = getNextWord st1
      in Inr (l @ [entityN theCommand (plain_string a # opt_string b)], st2))"

definition unique_overload :: "parser \<Rightarrow> string \<Rightarrow> DoxygenEntity list \<Rightarrow> DoxygenParser \<Rightarrow> parsed" where
  "unique_overload parse theCommand l st =
     (if getOneLine st \<noteq> m_tokenListIt st
      then res_bind (parse (getOneLine st) st) (\<lambda>(aNewList, st1). Inr (l @ [entityN theCommand aNewList], st1))
      else Inr (l @ [entity0 theCommand], st))"

definition name_title :: "parser \<Rightarrow> string \<Rightarrow> string \<Rightarrow> DoxygenEntity list \<Rightarrow> DoxygenParser \<Rightarrow> parsed" where
  \<comment> \<open>the end of \<^verbatim>\<open>\weakgroup\<close> and \<^verbatim>\<open>\addtogroup\<close>: a title up to the end of the line\<close>
  "name_title parse theCommand name l st =
     (if getOneLine st \<noteq> m_tokenListIt st
      then res_bind (parse (getOneLine st) st) (\<lambda>(aNewList, st1). Inr (l @ [entityN theCommand (plain_string name # aNewList)], st1))
      else Inr (l @ [entityN theCommand [plain_string name]], st))"

definition unique_weakgroup :: "parser \<Rightarrow> string \<Rightarrow> DoxygenEntity list \<Rightarrow> DoxygenParser \<Rightarrow> parsed" where
  "unique_weakgroup parse theCommand l st =
     (let (name, st1) = getNextWord st in
      if name = [] then ignored theCommand ''No word'' l st1 else name_title parse theCommand name l st1)"

definition unique_ref :: "string \<Rightarrow> DoxygenEntity list \<Rightarrow> DoxygenParser \<Rightarrow> parsed" where
  "unique_ref theCommand l st =
     (let (name, st1) = getNextWord st in
      if name = [] then ignored theCommand ''No key'' l st1
      else let (refTitle, st2) = getNextWord st1 in
      if length refTitle > 1 \<and> starts_with [QUOTE] refTitle
      then Inr (l @ [entityN theCommand [plain_string name, plain_string (take (length refTitle - 2) (drop 1 refTitle))]], st2)
      else Inr (l @ [entityN theCommand [plain_string name]], st2\<lparr>m_tokenListIt := m_tokenListIt st1\<rparr>))"

definition word_oword :: "string \<Rightarrow> string \<Rightarrow> DoxygenEntity list \<Rightarrow> DoxygenParser \<Rightarrow> parsed" where
  \<comment> \<open>\<^verbatim>\<open>\subpage\<close>, \<^verbatim>\<open>\dotfile\<close> and \<^verbatim>\<open>\mscfile\<close>: a word and an optional word; \<open>what\<close> is in the message\<close>
  "word_oword what theCommand l st =
     (let (name, st1) = getNextWord st in
      if name = [] then ignored theCommand what l st1
      else let (s, st2) = getNextWord st1 in Inr (l @ [entityN theCommand (plain_string name # opt_string s)], st2))"

definition unique_verbatim :: "string \<Rightarrow> DoxygenEntity list \<Rightarrow> DoxygenParser \<Rightarrow> parsed" where
  \<comment> \<open>\<^verbatim>\<open>\code\<close>, \<^verbatim>\<open>\verbatim\<close>, \<^verbatim>\<open>\dot\<close>, \<^verbatim>\<open>\msc\<close> and the formulas\<close>
  "unique_verbatim theCommand l st =
     (let endCommand = (if theCommand = ''f['' then ''f]'' else if theCommand = ''f{'' then ''f}''
                        else if theCommand = ''f$'' then ''f$'' else ''end'' @ theCommand);
          (content, st1) = getStringTilEndCommand endCommand st
      in Inr (l @ [entityN theCommand [plain_string content]], st1))"

definition unique_image :: "string \<Rightarrow> DoxygenEntity list \<Rightarrow> DoxygenParser \<Rightarrow> parsed" where
  "unique_image theCommand l st =
     (let (format, st1) = getNextWord st in
      if format = [] then ignored theCommand ''No format'' l st1
      else let (file, st2) = getNextWord st1 in
      if file = [] then ignored theCommand ''No name'' l st2
      else let (caption, st3) = getNextWord st2; (sz, st4) = getNextWord st3
           in Inr (l @ [entityN theCommand (plain_string format # plain_string file # opt_string caption @ opt_string sz)], st4))"

definition unique_addtogroup :: "parser \<Rightarrow> string \<Rightarrow> DoxygenEntity list \<Rightarrow> DoxygenParser \<Rightarrow> parsed" where
  "unique_addtogroup parse theCommand l st =
     (let (name, st1) = getNextWord st in
      if name = [] then Inr (l, command_error theCommand ''There should be at least one word following the command. Command ignored.'' st1)
      else map_sum id (\<lambda>(l', st2). (l', skipEndOfLine st2)) (name_title parse theCommand name l st1))"

text \<open>The search for the end of a conditional block: its offset, and whether it is the \<^verbatim>\<open>endif\<close>.\<close>

fun if_end :: "int \<Rightarrow> Token list \<Rightarrow> (nat \<times> bool) option" where
  "if_end n [] = None"
| "if_end n (t # ts) =
     (if m_tokenType t = COMMAND then
        let n1 = (if m_tokenString t = ''if'' \<or> m_tokenString t = ''ifnot'' then n + 1
                  else if m_tokenString t = ''endif'' then n - 1 else n)
        in if n1 = 1 \<and> (m_tokenString t = ''else'' \<or> m_tokenString t = ''elseif'') then Some (0, False)
           else if n1 = 0 then Some (0, True)
           else map_option (\<lambda>(k, b). (Suc k, b)) (if_end n1 ts)
      else map_option (\<lambda>(k, b). (Suc k, b)) (if_end n ts))"

definition if_block :: "parser \<Rightarrow> string \<Rightarrow> DoxygenEntity list \<Rightarrow> DoxygenEntity list \<Rightarrow> DoxygenParser \<Rightarrow> parsed" where
  \<comment> \<open>\<open>cond\<close>: the condition as an entity, or nothing for \<^verbatim>\<open>\else\<close>\<close>
  "if_block parse theCommand cond l st =
     (case if_end 1 (rest st) of
        None \<Rightarrow> Inr (l, printListError 562 ''Expected Doxygen command: endif.'' st)
      | Some (k, skipEndif) \<Rightarrow>
          res_bind (parse (m_tokenListIt st + k) st) (\<lambda>(aNewList, st1).
            Inr (l @ [entityN theCommand (cond @ aNewList)], if skipEndif then advance 1 st1 else st1)))"

definition unique_if :: "parser \<Rightarrow> string \<Rightarrow> DoxygenEntity list \<Rightarrow> DoxygenParser \<Rightarrow> parsed" where
  "unique_if parse theCommand l st =
     (if theCommand = ''else'' then if_block parse theCommand [] l st
      else let (cond, st1) = getNextWord st in
           if cond = [] then ignored theCommand ''No word'' l st1
           else if_block parse theCommand [plain_string cond] l st1)"

definition addCommandUnique :: "parser \<Rightarrow> string \<Rightarrow> DoxygenEntity list \<Rightarrow> DoxygenParser \<Rightarrow> parsed" where
  "addCommandUnique parse theCommand l st =
     (if theCommand = ''arg'' \<or> theCommand = ''li'' then unique_section parse theCommand l st
      else if theCommand = ''xrefitem'' then unique_xrefitem parse theCommand l st
      else if theCommand = ''ingroup'' then unique_ingroup theCommand l st
      else if theCommand = ''par'' then unique_par parse theCommand l st
      else if theCommand = ''headerfile'' then unique_headerfile theCommand l st
      else if theCommand = ''overload'' then unique_overload parse theCommand l st
      else if theCommand = ''weakgroup'' then unique_weakgroup parse theCommand l st
      else if theCommand = ''ref'' then unique_ref theCommand l st
      else if theCommand = ''subpage'' then word_oword ''No name'' theCommand l st
      else if theCommand \<in> {''code'', ''verbatim'', ''dot'', ''msc'', ''f['', ''f{'', ''f$''} then unique_verbatim theCommand l st
      else if theCommand = ''dotfile'' \<or> theCommand = ''mscfile'' then word_oword ''No file'' theCommand l st
      else if theCommand = ''image'' then unique_image theCommand l st
      else if theCommand = ''addtogroup'' then unique_addtogroup parse theCommand l st
      else if theCommand \<in> {''if'', ''ifnot'', ''else'', ''elseif''} then unique_if parse theCommand l st
      else Inr (l, st))"

section \<open>Aliases and ignored commands\<close>

definition aliasCommand :: "string \<Rightarrow> DoxygenEntity list \<Rightarrow> DoxygenParser \<Rightarrow> parsed" where
  "aliasCommand theCommand l st =
     (case m_node st (''feature:doxygen:alias:'' @ theCommand) of
        None \<Rightarrow> Inr (l, st)
      | Some a \<Rightarrow> Inr (l @ [plain_string a], st))"

definition swig_error :: "string \<Rightarrow> DoxygenParser \<Rightarrow> DoxygenParser" where
  \<comment> \<open>\<^verbatim>\<open>Swig_error\<close>, recorded with number 0\<close>
  "swig_error msg st = st\<lparr>warnings := warnings st @ [(0, m_fileLineNo st, msg)]\<rparr>"

definition drop_blank :: "DoxygenEntity list \<Rightarrow> DoxygenEntity list" where
  \<comment> \<open>a last entity of blanks only is erased\<close>
  "drop_blank l =
     (if l \<noteq> [] \<and> typeOfEntity (last l) = ''plainstd::string'' \<and> set (data (last l)) \<subseteq> set BLANKS then butlast l else l)"

definition ignoreCommand :: "parser \<Rightarrow> string \<Rightarrow> DoxygenEntity list \<Rightarrow> DoxygenParser \<Rightarrow> parsed" where
  "ignoreCommand parse theCommand l st =
     (let endCommand = getIgnoreFeatureEndCommand st theCommand in
      if endCommand \<noteq> [] then
        res_bind (getEndCommand endCommand st) (\<lambda>itEnd.
          if itEnd = length (m_tokenList st)
          then Inr (l, printListError 562 (''Expected Doxygen command: '' @ endCommand @ ''.'') st)
          else case getIgnoreFeature st theCommand (Some ''contents'') of
                 None \<Rightarrow> Inr (drop_blank l, st\<lparr>m_tokenListIt := itEnd + 1\<rparr>)
               | Some contents \<Rightarrow>
                   if contents = ''parse'' then
                     res_bind (parse itEnd st) (\<lambda>(aNewList, st1). Inr (drop_blank l @ aNewList, st1\<lparr>m_tokenListIt := itEnd + 1\<rparr>))
                   else Inr (drop_blank l, swig_error (''Invalid \"doxygen:ignore\" feature \"contents\" attribute \"'' @ contents @ ''\".'') st))
      else case getIgnoreFeature st theCommand (Some ''range'') of
             None \<Rightarrow> Inr (l, st)
           | Some rng \<Rightarrow>
               if rng = ''line'' then Inr (l, skipEndOfLine (st\<lparr>m_tokenListIt := getOneLine st\<rparr>))
               else Inr (l, swig_error (''Invalid \"doxygen:ignore\" feature \"range\" attribute \"'' @ rng @ ''\".'') st))"

section \<open>The recursive parser\<close>

definition dispatch :: "parser \<Rightarrow> DoxyCommandEnum \<Rightarrow> string \<Rightarrow> DoxygenEntity list \<Rightarrow> DoxygenParser \<Rightarrow> parsed" where
  \<comment> \<open>the \<^verbatim>\<open>switch\<close> of \<^verbatim>\<open>addCommand\<close>\<close>
  "dispatch parse kind commandString l st =
     (let theCommand = stringToLower commandString in
      case kind of
        SIMPLECOMMAND \<Rightarrow> addSimpleCommand theCommand l st
      | COMMANDWORD \<Rightarrow> addCommandWord theCommand l st
      | COMMANDLINE \<Rightarrow> addCommandLine parse theCommand l st
      | COMMANDPARAGRAPH \<Rightarrow> addCommandParagraph parse theCommand l st
      | COMMANDENDCOMMAND \<Rightarrow> addCommandEndCommand parse theCommand l st
      | COMMANDWORDPARAGRAPH \<Rightarrow> addCommandWordParagraph parse theCommand l st
      | COMMANDWORDLINE \<Rightarrow> addCommandWordLine parse theCommand l st
      | COMMANDWORDOWORDWORD \<Rightarrow> addCommandWordOWordOWord theCommand l st
      | COMMANDOWORD \<Rightarrow> addCommandOWord theCommand l st
      | COMMANDERRORTHROW \<Rightarrow> addCommandErrorThrow theCommand l st
      | COMMANDUNIQUE \<Rightarrow> addCommandUnique parse theCommand l st
      | COMMAND_HTML \<Rightarrow> addCommandHtml theCommand l st
      | COMMAND_HTML_ENTITY \<Rightarrow> addCommandHtmlEntity theCommand l st
      | COMMAND_ALIAS \<Rightarrow> aliasCommand commandString l st
      | COMMAND_IGNORE \<Rightarrow> ignoreCommand parse commandString l st
      | _ \<Rightarrow> Inr (l, st))"

definition addCommand :: "parser \<Rightarrow> string \<Rightarrow> DoxygenEntity list \<Rightarrow> DoxygenParser \<Rightarrow> parsed" where
  "addCommand parse commandString l st =
     (if stringToLower commandString = ''plainstd::string''
      then map_sum id (\<lambda>(s, st1). (l @ [plain_string s], st1)) (getStringTilCommand st)
      else let (kind, st1) = commandBelongs commandString st in dispatch parse kind commandString l st1)"

text \<open>One iteration of the loop of \<^verbatim>\<open>parse\<close>, before the test for an unexpected end.\<close>

definition parse_token :: "parser \<Rightarrow> bool \<Rightarrow> DoxygenEntity list \<Rightarrow> DoxygenParser \<Rightarrow> parsed" where
  "parse_token parse root l st =
     (case rest st of
        [] \<Rightarrow> Inl OutOfBounds
      | t # _ \<Rightarrow>
          if m_tokenType t = END_LINE then Inr (l @ [plain_endl], advance 1 st)
          else if m_tokenType t = COMMAND then addCommand parse (m_tokenString t) l (advance 1 st)
          else if m_tokenType t = PLAINSTRING
               then addCommand parse (if root then ''partofdescription'' else ''plainstd::string'') l st
          else Inr (l, st))"

fun parse_loop :: "nat \<Rightarrow> bool \<Rightarrow> DoxygenEntity list \<Rightarrow> nat \<Rightarrow> DoxygenParser \<Rightarrow> parsed" where
  "parse_loop 0 root l e st = Inl Diverges"
| "parse_loop (Suc n) root l e st =
     (if m_tokenListIt st = e then Inr (l, st)
      else res_bind (parse_token (parse_loop n False []) root l st) (\<lambda>(l1, st1).
        if e \<noteq> length (m_tokenList st1) \<and> m_tokenListIt st1 = length (m_tokenList st1)
        then Inr (l1, printListError 561 ''Unexpected end of Doxygen comment encountered.'' st1)
        else parse_loop n root l1 e st1))"

definition createTree :: "string \<Rightarrow> int \<Rightarrow> DoxygenParser \<Rightarrow> parsed" where
  "createTree documentation line st =
     res_bind (tokenizeDoxygenComment documentation line st) (\<lambda>st1.
       parse_loop (length (m_tokenList st1) + 3) True [] (length (m_tokenList st1)) st1)"

section \<open>Progress and termination\<close>

definition adv :: "DoxygenParser \<Rightarrow> parsed \<Rightarrow> bool" where
  \<comment> \<open>the run ends, keeps the tokens and does not move the iterator back\<close>
  "adv st r \<longleftrightarrow> (case r of Inl f \<Rightarrow> f = OutOfBounds
     | Inr (l, st') \<Rightarrow> m_tokenListIt st \<le> m_tokenListIt st' \<and> m_tokenList st' = m_tokenList st)"

definition adv_strict :: "DoxygenParser \<Rightarrow> parsed \<Rightarrow> bool" where
  "adv_strict st r \<longleftrightarrow> (case r of Inl f \<Rightarrow> f = OutOfBounds
     | Inr (l, st') \<Rightarrow> m_tokenListIt st < m_tokenListIt st' \<and> m_tokenList st' = m_tokenList st)"

lemma advance_simps [simp]:
  "m_tokenListIt (advance n st) = m_tokenListIt st + n" "m_tokenList (advance n st) = m_tokenList st"
  by (simp_all add: advance_def)

lemma printListError_it [simp]: "m_tokenListIt (printListError w m st) = m_tokenListIt st"
  by (simp add: printListError_def Let_def)

lemma command_error_simps [simp]:
  "m_tokenListIt (command_error c w st) = m_tokenListIt st" "m_tokenList (command_error c w st) = m_tokenList st"
  by (simp_all add: command_error_def)

lemma swig_error_simps [simp]:
  "m_tokenListIt (swig_error m st) = m_tokenListIt st" "m_tokenList (swig_error m st) = m_tokenList st"
  by (simp_all add: swig_error_def)

lemma commandBelongs_it [simp]: "m_tokenListIt (snd (commandBelongs c st)) = m_tokenListIt st"
  by (auto simp: commandBelongs_def Let_def split: option.splits)

lemma skipEndOfLine_simps [simp]:
  "m_tokenListIt st \<le> m_tokenListIt (skipEndOfLine st)" "m_tokenList (skipEndOfLine st) = m_tokenList st"
  by (simp_all add: skipEndOfLine_def)

lemma getOneLine_ge [simp]: "m_tokenListIt st \<le> getOneLine st"
  by (simp add: getOneLine_def)

lemma getNextWord_simps [simp]:
  "m_tokenListIt st \<le> m_tokenListIt (snd (getNextWord st))" "m_tokenList (snd (getNextWord st)) = m_tokenList st"
  by (simp_all add: getNextWord_def split: prod.splits)

lemma getNextToken_simps [simp]:
  "m_tokenListIt st \<le> m_tokenListIt (snd (getNextToken st))" "m_tokenList (snd (getNextToken st)) = m_tokenList st"
  by (simp_all add: getNextToken_def split: list.splits)

lemma getStringTilEndCommand_simps [simp]:
  "m_tokenListIt st \<le> m_tokenListIt (snd (getStringTilEndCommand c st))"
  "m_tokenList (snd (getStringTilEndCommand c st)) = m_tokenList st"
  by (simp_all add: getStringTilEndCommand_def Let_def split: prod.splits)

lemma adv_Inr [simp]:
  "adv st (Inr (l, st')) \<longleftrightarrow> m_tokenListIt st \<le> m_tokenListIt st' \<and> m_tokenList st' = m_tokenList st"
  by (simp add: adv_def)

lemma adv_Inl [simp]: "adv st (Inl f) \<longleftrightarrow> f = OutOfBounds"
  by (simp add: adv_def)

text \<open>A parse followed by the construction of the entity.\<close>

lemma adv_bind:
  assumes "adv st1 (prs e st1)" "m_tokenListIt st \<le> m_tokenListIt st1" "m_tokenList st1 = m_tokenList st"
    and "\<And>l st2. m_tokenListIt st1 \<le> m_tokenListIt st2 \<Longrightarrow> m_tokenList st2 = m_tokenList st1 \<Longrightarrow> adv st2 (k (l, st2))"
  shows "adv st (res_bind (prs e st1) k)"
proof (cases "prs e st1")
  case (Inr p)
  obtain l st2 where p: "p = (l, st2)" by (cases p)
  then have "m_tokenListIt st1 \<le> m_tokenListIt st2" "m_tokenList st2 = m_tokenList st1" using assms(1) Inr by auto
  then show ?thesis using assms(2,3) assms(4)[of st2 l] Inr p
    by (cases "k (l, st2)") (auto simp: adv_def split: prod.splits)
qed (use assms(1) in simp)

lemma adv_trans: "adv st1 r \<Longrightarrow> m_tokenListIt st \<le> m_tokenListIt st1 \<Longrightarrow> m_tokenList st1 = m_tokenList st \<Longrightarrow> adv st r"
  by (auto simp: adv_def split: sum.splits prod.splits)

lemma getNextWord_adv:
  assumes "\<And>w st1. m_tokenListIt st \<le> m_tokenListIt st1 \<Longrightarrow> m_tokenList st1 = m_tokenList st \<Longrightarrow> adv st1 (k w st1)"
  shows "adv st (case getNextWord st of (w, st1) \<Rightarrow> k w st1)"
  using getNextWord_simps[of st] assms[of "snd (getNextWord st)" "fst (getNextWord st)"]
  by (auto simp: case_prod_beta intro: adv_trans)

lemma getEndCommand_ge: "getEndCommand c st = Inr n \<Longrightarrow> m_tokenListIt st \<le> n"
  by (auto simp: getEndCommand_def map_sum_def split: sum.splits)

lemma getEndCommand_Inl: "getEndCommand c st = Inl f \<Longrightarrow> f = OutOfBounds"
proof -
  have "end_command_offset c ts = Inl f \<Longrightarrow> f = OutOfBounds" for ts
    by (induction c ts rule: end_command_offset.induct) (auto simp: map_sum_def split: if_splits sum.splits)
  then show "getEndCommand c st = Inl f \<Longrightarrow> f = OutOfBounds"
    by (auto simp: getEndCommand_def map_sum_def split: sum.splits)
qed

definition kinds :: "Token list \<Rightarrow> bool" where
  "kinds ts \<longleftrightarrow> (\<forall>t \<in> set ts. m_tokenType t \<in> {PLAINSTRING, COMMAND, END_LINE})"

lemma map_sum_Inl_iff: "map_sum id f r = Inl e \<longleftrightarrow> r = Inl e"
  by (cases r) auto

lemma section_length_ends: "kinds ts \<Longrightarrow> section_length c ts = Inl f \<Longrightarrow> f = OutOfBounds"
proof (induction ts)
  case (Cons t ts)
  then have t: "m_tokenType t \<in> {PLAINSTRING, COMMAND, END_LINE}" and IH: "section_length c ts = Inl f \<Longrightarrow> f = OutOfBounds"
    by (auto simp: kinds_def)
  show ?case
  proof (cases "m_tokenType t = END_LINE")
    case True
    then show ?thesis using Cons.prems(2) IH
      by (cases ts) (simp_all only: section_length.simps map_sum_Inl_iff if_True if_False list.case split: if_splits, auto)
  next
    case False
    then show ?thesis using Cons.prems(2) t IH by (auto simp: map_sum_Inl_iff split: if_splits)
  qed
qed simp

lemma kinds_rest: "kinds (m_tokenList st) \<Longrightarrow> kinds (rest st)"
  by (auto simp: kinds_def dest: in_set_dropD)

lemma getEndOfSection_ends: "kinds (m_tokenList st) \<Longrightarrow> getEndOfSection c st = Inl f \<Longrightarrow> f = OutOfBounds"
  using section_length_ends[OF kinds_rest, of st c f] by (simp add: getEndOfSection_def map_sum_Inl_iff)

text \<open>The commands that do not call the parser.\<close>

lemma simple_commands_adv:
  "adv st (addSimpleCommand c l st)" "adv st (addCommandWord c l st)" "adv st (addCommandWordOWordOWord c l st)"
  "adv st (addCommandOWord c l st)" "adv st (addCommandErrorThrow c l st)" "adv st (addCommandHtml c l st)"
  "adv st (addCommandHtmlEntity c l st)" "adv st (aliasCommand c l st)"
proof -
  have w: "adv s (case getNextWord s of (name, st2) \<Rightarrow>
      if name \<noteq> [] then Inr (l1 @ [entityN c [plain_string name]], st2)
      else Inr (l1, command_error c ''No word followed the command. Command ignored.'' st2))" for s l1
    by (rule getNextWord_adv) simp
  have "adv st (case getNextWord (skipWhitespaceTokens st) of (name, st2) \<Rightarrow>
      if name \<noteq> [] then Inr (l1 @ [entityN c [plain_string name]], st2)
      else Inr (l1, command_error c ''No word followed the command. Command ignored.'' st2))" for l1
    by (rule adv_trans[OF w]) (simp_all add: skipWhitespaceTokens_def)
  then show "adv st (addCommandWord c l st)"
    unfolding addCommandWord_def Let_def using w[of st] by simp
  show "adv st (addCommandWordOWordOWord c l st)"
    unfolding addCommandWordOWordOWord_def Let_def by (rule getNextWord_adv) (auto intro!: getNextWord_adv)
  show "adv st (addCommandOWord c l st)"
    unfolding addCommandOWord_def Let_def by (rule getNextWord_adv) auto
  show "adv st (addCommandHtml c l st)"
    using getNextToken_simps[of st] by (simp add: addCommandHtml_def case_prod_beta)
qed (auto simp: addSimpleCommand_def addCommandErrorThrow_def addCommandHtmlEntity_def aliasCommand_def Let_def getOneLine_def
    split: option.splits)

lemma unique_ingroup_adv: "adv st (unique_ingroup c l st)"
  unfolding unique_ingroup_def Let_def by (rule getNextWord_adv) (auto intro!: getNextWord_adv)

lemma unique_headerfile_adv: "adv st (unique_headerfile c l st)"
  unfolding unique_headerfile_def Let_def by (rule getNextWord_adv) (auto intro!: getNextWord_adv)

lemma unique_ref_adv: "adv st (unique_ref c l st)"
  unfolding unique_ref_def Let_def ignored_def
proof (rule getNextWord_adv)
  fix w :: string and st1 :: DoxygenParser
  show "adv st1 (if w = [] then Inr (l, command_error c (''No key'' @ '' followed the command. Command ignored.'') st1)
      else case getNextWord st1 of (refTitle, st2) \<Rightarrow>
        if length refTitle > 1 \<and> starts_with [QUOTE] refTitle
        then Inr (l @ [entityN c [plain_string w, plain_string (take (length refTitle - 2) (drop 1 refTitle))]], st2)
        else Inr (l @ [entityN c [plain_string w]], st2\<lparr>m_tokenListIt := m_tokenListIt st1\<rparr>))"
    using getNextWord_simps[of st1] by (auto simp: case_prod_beta)
qed

lemma word_oword_adv: "adv st (word_oword w c l st)"
  unfolding word_oword_def Let_def ignored_def by (rule getNextWord_adv) (auto intro!: getNextWord_adv)

lemma unique_verbatim_adv: "adv st (unique_verbatim c l st)"
  by (simp add: unique_verbatim_def Let_def case_prod_beta)

lemma unique_image_adv: "adv st (unique_image c l st)"
  unfolding unique_image_def Let_def ignored_def by (rule getNextWord_adv) (auto intro!: getNextWord_adv)

lemma getStringTilCommand_adv: "adv st (map_sum id (\<lambda>(s, st1). (l @ [plain_string s], st1)) (getStringTilCommand st))"
  by (simp add: getStringTilCommand_def Let_def)

lemma getStringTilCommand_strict:
  "rest st = t # ts \<Longrightarrow> m_tokenType t = PLAINSTRING \<Longrightarrow>
   adv_strict st (map_sum id (\<lambda>(s, st1). (l @ [plain_string s], st1)) (getStringTilCommand st))"
  by (simp add: getStringTilCommand_def Let_def adv_strict_def)

lemma lower_names: "stringToLower ''plainstd::string'' = ''plainstd::string''" "stringToLower ''partofdescription'' = ''partofdescription''"
  by code_simp+

lemma description_kind: "doxygenCommands ''partofdescription'' = Some COMMANDPARAGRAPH"
  by code_simp

lemma addCommand_description: "addCommand prs ''partofdescription'' l st = addCommandParagraph prs ''partofdescription'' l st"
  by (simp add: addCommand_def lower_names commandBelongs_def description_kind dispatch_def Let_def)

text \<open>Fuel \<open>n\<close> is enough from the position of the iterator on.\<close>

definition enough :: "nat \<Rightarrow> DoxygenParser \<Rightarrow> bool" where
  "enough n st \<longleftrightarrow> kinds (m_tokenList st) \<and> 0 < n \<and> length (m_tokenList st) + 1 \<le> m_tokenListIt st + n"

lemma enough_mono: "enough n st \<Longrightarrow> m_tokenListIt st \<le> m_tokenListIt st1 \<Longrightarrow> m_tokenList st1 = m_tokenList st \<Longrightarrow> enough n st1"
  by (simp add: enough_def)

text \<open>The interface of the recursive call, and what every command does with it.\<close>

locale recursive_call =
  fixes prs :: parser and n :: nat
  assumes call: "enough n st \<Longrightarrow> adv st (prs e st)"
    and call_strict: "enough n st \<Longrightarrow> m_tokenListIt st \<noteq> e \<Longrightarrow> adv_strict st (prs e st)"
begin

lemma bind_call:
  assumes "enough n st" "m_tokenListIt st \<le> m_tokenListIt st1" "m_tokenList st1 = m_tokenList st"
    and "\<And>l st2. m_tokenListIt st1 \<le> m_tokenListIt st2 \<Longrightarrow> m_tokenList st2 = m_tokenList st1 \<Longrightarrow> adv st2 (c (l, st2))"
  shows "adv st (res_bind (prs e st1) c)"
  using call[OF enough_mono[OF assms(1-3)]] assms(2-4) by (rule adv_bind)

lemma addCommandLine_adv: "enough n st \<Longrightarrow> adv st (addCommandLine prs c l st)"
  unfolding addCommandLine_def by (rule bind_call) auto

lemma addCommandParagraph_adv: "enough n st \<Longrightarrow> adv st (addCommandParagraph prs c l st)"
  unfolding addCommandParagraph_def by (rule bind_call) auto

lemma addCommandEndCommand_adv: "enough n st \<Longrightarrow> adv st (addCommandEndCommand prs c l st)"
  unfolding addCommandEndCommand_def
  by (cases "getEndCommand (''end'' @ c) st") (auto dest: getEndCommand_Inl intro!: bind_call)

lemma addCommandWordParagraph_adv: "enough n st \<Longrightarrow> adv st (addCommandWordParagraph prs c l st)"
  unfolding addCommandWordParagraph_def Let_def
  by (rule getNextWord_adv) (auto intro!: bind_call dest: enough_mono)

lemma addCommandWordLine_adv: "enough n st \<Longrightarrow> adv st (addCommandWordLine prs c l st)"
  unfolding addCommandWordLine_def Let_def
  by (rule getNextWord_adv) (auto intro!: bind_call dest: enough_mono)

lemma unique_section_adv: "enough n st \<Longrightarrow> adv st (unique_section prs c l st)"
  unfolding unique_section_def using getEndOfSection_ends[of st c "projl (getEndOfSection c st)"]
  by (cases "getEndOfSection c st") (auto simp: enough_def intro!: bind_call)

lemma unique_xrefitem_adv: "enough n st \<Longrightarrow> adv st (unique_xrefitem prs c l st)"
  unfolding unique_xrefitem_def Let_def ignored_def
  by (rule getNextWord_adv) (auto simp: enough_def intro!: getNextWord_adv bind_call)

lemma unique_par_adv: "enough n st \<Longrightarrow> adv st (unique_par prs c l st)"
  unfolding unique_par_def by (auto intro!: bind_call dest: enough_mono)

lemma unique_overload_adv: "enough n st \<Longrightarrow> adv st (unique_overload prs c l st)"
  unfolding unique_overload_def by (auto intro!: bind_call)

lemma name_title_adv: "enough n st \<Longrightarrow> adv st (name_title prs c nm l st)"
  unfolding name_title_def by (auto intro!: bind_call)

lemma unique_weakgroup_adv: "enough n st \<Longrightarrow> adv st (unique_weakgroup prs c l st)"
  unfolding unique_weakgroup_def Let_def ignored_def
  by (rule getNextWord_adv) (auto intro!: name_title_adv dest: enough_mono)

lemma unique_addtogroup_adv: "enough n st \<Longrightarrow> adv st (unique_addtogroup prs c l st)"
  unfolding unique_addtogroup_def Let_def
proof (rule getNextWord_adv)
  fix nm :: string and st1 :: DoxygenParser
  assume e: "enough n st" and s: "m_tokenListIt st \<le> m_tokenListIt st1" "m_tokenList st1 = m_tokenList st"
  have "adv st1 (name_title prs c nm l st1)" using name_title_adv enough_mono[OF e s] .
  then have "adv st1 (map_sum id (\<lambda>(l', st2). (l', skipEndOfLine st2)) (name_title prs c nm l st1))"
    by (cases "name_title prs c nm l st1") (auto simp: adv_def split: prod.splits intro: order_trans)
  then show "adv st1 (if nm = [] then Inr (l, command_error c ''There should be at least one word following the command. Command ignored.'' st1)
      else map_sum id (\<lambda>(l', st2). (l', skipEndOfLine st2)) (name_title prs c nm l st1))" by simp
qed

lemma if_block_adv: "enough n st \<Longrightarrow> adv st (if_block prs c cond l st)"
  unfolding if_block_def by (auto intro!: bind_call split: option.split)

lemma unique_if_adv: "enough n st \<Longrightarrow> adv st (unique_if prs c l st)"
  unfolding unique_if_def Let_def ignored_def
  by (auto intro!: getNextWord_adv if_block_adv dest: enough_mono)

lemma ignoreCommand_adv: "enough n st \<Longrightarrow> adv st (ignoreCommand prs c l st)"
proof -
  assume e: "enough n st"
  have line: "adv st (Inr (l, skipEndOfLine (st\<lparr>m_tokenListIt := getOneLine st\<rparr>)))"
    by (simp add: skipEndOfLine_def le_SucI)
  have parse: "adv st (res_bind (prs i st) (\<lambda>(a, st1). Inr (x @ a, st1\<lparr>m_tokenListIt := i + 1\<rparr>)))" if "m_tokenListIt st \<le> i" for i x
    using call[OF e, of i] that by (cases "prs i st") (auto simp: adv_def split: prod.splits)
  show ?thesis
    unfolding ignoreCommand_def Let_def using line parse
    by (cases "getEndCommand (getIgnoreFeatureEndCommand st c) st")
       (auto split: option.split dest: getEndCommand_Inl dest!: getEndCommand_ge)
qed

lemma addCommandUnique_adv: "enough n st \<Longrightarrow> adv st (addCommandUnique prs c l st)"
  using unique_section_adv unique_xrefitem_adv unique_par_adv unique_overload_adv unique_weakgroup_adv
    unique_addtogroup_adv unique_if_adv
  by (simp add: addCommandUnique_def unique_ingroup_adv unique_headerfile_adv unique_ref_adv word_oword_adv
      unique_verbatim_adv unique_image_adv)

lemma dispatch_adv: "enough n st \<Longrightarrow> adv st (dispatch prs k c l st)"
  using addCommandLine_adv addCommandParagraph_adv addCommandEndCommand_adv addCommandWordParagraph_adv
    addCommandWordLine_adv addCommandUnique_adv ignoreCommand_adv
  by (simp add: dispatch_def simple_commands_adv Let_def split: DoxyCommandEnum.split)

lemma addCommand_adv:
  assumes "enough n st"
  shows "adv st (addCommand prs c l st)"
proof -
  have "enough n (snd (commandBelongs c st))" using assms by (simp add: enough_def)
  then have "adv (snd (commandBelongs c st)) (dispatch prs (fst (commandBelongs c st)) c l (snd (commandBelongs c st)))"
    by (rule dispatch_adv)
  then have "adv st (dispatch prs (fst (commandBelongs c st)) c l (snd (commandBelongs c st)))"
    by (rule adv_trans) simp_all
  then show ?thesis using getStringTilCommand_adv[of st l] by (simp add: addCommand_def case_prod_beta)
qed

lemma parse_token_adv:
  assumes "m_tokenListIt st < length (m_tokenList st)" "enough n (advance 1 st)" "root \<Longrightarrow> enough n st"
  shows "adv_strict st (parse_token prs root l st)"
proof -
  obtain t ts where r: "rest st = t # ts" using assms(1) by (cases "rest st") auto
  have "t \<in> set (m_tokenList st)" using r by (metis in_set_dropD list.set_intros(1))
  then have t: "m_tokenType t \<in> {PLAINSTRING, COMMAND, END_LINE}" using assms(2) by (auto simp: enough_def kinds_def)
  consider "m_tokenType t = END_LINE" | "m_tokenType t = COMMAND" | "m_tokenType t = PLAINSTRING" "root"
    | "m_tokenType t = PLAINSTRING" "\<not> root" using t by auto
  then show ?thesis
  proof cases
    case 1
    then show ?thesis by (simp add: parse_token_def r adv_strict_def)
  next
    case 2
    have "adv (advance 1 st) (addCommand prs (m_tokenString t) l (advance 1 st))" using addCommand_adv assms(2) .
    then show ?thesis using 2 by (auto simp: parse_token_def r adv_def adv_strict_def split: sum.splits prod.splits)
  next
    case 3
    have "getEndOfParagraph st \<noteq> m_tokenListIt st" using r 3 by (simp add: getEndOfParagraph_def)
    then have "adv_strict st (prs (getEndOfParagraph st) st)" using call_strict assms(3) 3 by simp
    then have "adv_strict st (addCommandParagraph prs ''partofdescription'' l st)"
      by (cases "prs (getEndOfParagraph st) st") (auto simp: addCommandParagraph_def adv_strict_def)
    then show ?thesis using 3 by (simp add: parse_token_def r addCommand_description)
  next
    case 4
    then show ?thesis using getStringTilCommand_strict[OF r] by (simp add: parse_token_def r addCommand_def lower_names)
  qed
qed

end

lemma parse_loop_Suc:
  "parse_loop (Suc n) root l e st =
     (if m_tokenListIt st = e then Inr (l, st)
      else res_bind (parse_token (parse_loop n False []) root l st) (\<lambda>(l1, st1).
        if e \<noteq> length (m_tokenList st1) \<and> m_tokenListIt st1 = length (m_tokenList st1)
        then Inr (l1, printListError 561 ''Unexpected end of Doxygen comment encountered.'' st1)
        else parse_loop n root l1 e st1))"
  by simp

text \<open>One step of the loop, when the recursive call and the rest of the loop are fine.\<close>

lemma parse_loop_step:
  assumes call: "recursive_call (parse_loop n False []) n"
    and loop: "\<And>l st. m_tokenListIt st0 < length (m_tokenList st0) \<Longrightarrow> m_tokenListIt st0 < m_tokenListIt st \<Longrightarrow> m_tokenList st = m_tokenList st0 \<Longrightarrow> adv st (parse_loop n root l e st)"
    and en: "enough (if root then n else Suc n) st0" and ne: "m_tokenListIt st0 \<noteq> e"
  shows "adv_strict st0 (parse_loop (Suc n) root l e st0)"
proof (cases "m_tokenListIt st0 < length (m_tokenList st0)")
  case True
  have "adv_strict st0 (parse_token (parse_loop n False []) root l st0)"
    using True en by (intro recursive_call.parse_token_adv[OF call]) (auto simp: enough_def split: if_splits)
  then show ?thesis
  proof (cases "parse_token (parse_loop n False []) root l st0")
    case (Inl f)
    then show ?thesis using \<open>adv_strict st0 _\<close> ne by (simp add: adv_strict_def)
  next
    case (Inr p)
    obtain l1 st1 where p: "p = (l1, st1)" by (cases p)
    then have s: "m_tokenListIt st0 < m_tokenListIt st1" "m_tokenList st1 = m_tokenList st0"
      using \<open>adv_strict st0 _\<close> Inr by (auto simp: adv_strict_def)
    then have "adv st1 (parse_loop n root l1 e st1)" using loop True by blast
    then have "adv_strict st0 (parse_loop n root l1 e st1)" using s
      by (auto simp: adv_def adv_strict_def split: sum.splits prod.splits)
    then show ?thesis using ne Inr p s by (simp add: adv_strict_def)
  qed
next
  case False
  then show ?thesis using ne by (simp add: parse_token_def adv_strict_def)
qed

lemma adv_strict_adv: "adv_strict st r \<Longrightarrow> adv st r"
  by (auto simp: adv_strict_def adv_def split: sum.splits prod.splits)

lemma parse_loop_Suc_call:
  assumes IH: "\<And>l e st. enough n st \<Longrightarrow> adv st (parse_loop n False l e st)"
    and call: "recursive_call (parse_loop n False []) n" and en: "enough (Suc n) st"
  shows "adv st (parse_loop (Suc n) False l e st) \<and> (m_tokenListIt st \<noteq> e \<longrightarrow> adv_strict st (parse_loop (Suc n) False l e st))"
proof (cases "m_tokenListIt st = e")
  case False
  have "adv_strict st (parse_loop (Suc n) False l e st)"
    using en False by (intro parse_loop_step[OF call] IH) (auto simp: enough_def)
  then show ?thesis using adv_strict_adv by blast
qed simp

lemma parse_loop_calls:
  "(enough n st \<longrightarrow> adv st (parse_loop n False l e st)) \<and> recursive_call (parse_loop n False []) n"
proof (induction n arbitrary: l e st)
  case 0
  show ?case unfolding recursive_call_def by (simp add: enough_def)
next
  case (Suc n)
  have IH: "\<And>l e st. enough n st \<Longrightarrow> adv st (parse_loop n False l e st)" and call: "recursive_call (parse_loop n False []) n"
    using Suc by blast+
  note s = parse_loop_Suc_call[OF IH call]
  show ?case unfolding recursive_call_def using s by blast
qed

interpretation loop_call: recursive_call "parse_loop n False []" n for n
  using parse_loop_calls by blast

lemma parse_loop_root: "enough n st \<Longrightarrow> adv st (parse_loop (Suc n) True l e st)"
proof (induction n arbitrary: l st)
  case (Suc n)
  show ?case
  proof (cases "m_tokenListIt st = e")
    case False
    have "adv_strict st (parse_loop (Suc (Suc n)) True l e st)"
    proof (rule parse_loop_step[OF _ _ _ False])
      show "recursive_call (parse_loop (Suc n) False []) (Suc n)" using parse_loop_calls by blast
      show "enough (if True then Suc n else Suc (Suc n)) st" using Suc.prems by simp
      show "adv st1 (parse_loop (Suc n) True l1 e st1)"
        if "m_tokenListIt st < length (m_tokenList st)" "m_tokenListIt st < m_tokenListIt st1" "m_tokenList st1 = m_tokenList st"
        for l1 st1 using Suc.prems that by (intro Suc.IH) (auto simp: enough_def)
    qed
    then show ?thesis by (rule adv_strict_adv)
  qed simp
qed (simp add: enough_def)

lemma parse_loop_end:
  "parse_loop n True l e st = Inr (l', st') \<Longrightarrow> e = length (m_tokenList st') \<Longrightarrow> m_tokenListIt st' = e"
proof (induction n arbitrary: l st)
  case (Suc n)
  show ?case
  proof (cases "m_tokenListIt st = e")
    case False
    then obtain l1 st1 where "parse_token (parse_loop n False []) True l st = Inr (l1, st1)"
      and "(if e \<noteq> length (m_tokenList st1) \<and> m_tokenListIt st1 = length (m_tokenList st1)
            then Inr (l1, printListError 561 ''Unexpected end of Doxygen comment encountered.'' st1)
            else parse_loop n True l1 e st1) = Inr (l', st')"
      using Suc.prems(1) by (auto simp: res_bind_eq_Inr)
    then show ?thesis using Suc.IH Suc.prems(2) by (auto split: if_splits)
  qed (use Suc.prems in simp)
qed simp

section \<open>Memory safety\<close>

text \<open>
  A tame token list ends with an end of line and has no command that searches for its end with
  \<^verbatim>\<open>getEndCommand\<close> or \<^verbatim>\<open>getEndOfSection\<close> or steps over an end it may have missed.
\<close>

definition tame_token :: "Token \<Rightarrow> bool" where
  "tame_token t \<longleftrightarrow> (m_tokenType t = COMMAND \<longrightarrow>
     doxygenCommands (stringToLower (m_tokenString t)) \<notin> {None, Some COMMANDENDCOMMAND} \<and>
     stringToLower (m_tokenString t) \<notin> {''arg'', ''li'', ''if'', ''ifnot'', ''else'', ''elseif''})"

definition tame :: "DoxygenParser \<Rightarrow> bool" where
  "tame st \<longleftrightarrow> wf_tokens (m_tokenList st) \<and> (\<forall>t \<in> set (m_tokenList st). tame_token t) \<and>
     m_tokenListIt st \<le> length (m_tokenList st)"

definition within :: "DoxygenParser \<Rightarrow> parsed \<Rightarrow> bool" where
  "within st r \<longleftrightarrow> (case r of Inl f \<Rightarrow> f \<noteq> OutOfBounds | Inr (l, st') \<Rightarrow> tame st' \<and> m_tokenList st' = m_tokenList st)"

lemma within_Inr [simp]: "within st (Inr (l, st')) \<longleftrightarrow> tame st' \<and> m_tokenList st' = m_tokenList st"
  by (simp add: within_def)

lemma within_bind:
  assumes "within st1 r" "m_tokenList st1 = m_tokenList st"
    and "\<And>l st2. tame st2 \<Longrightarrow> m_tokenList st2 = m_tokenList st1 \<Longrightarrow> within st2 (k (l, st2))"
  shows "within st (res_bind r k)"
proof (cases r)
  case (Inr p)
  obtain l st2 where p: "p = (l, st2)" by (cases p)
  then have "tame st2" "m_tokenList st2 = m_tokenList st1" using assms(1) Inr by auto
  then show ?thesis using assms(2) assms(3)[of st2 l] Inr p by (auto simp: within_def split: sum.splits prod.splits)
qed (use assms(1) in \<open>simp add: within_def\<close>)

lemma within_trans: "within st1 r \<Longrightarrow> m_tokenList st1 = m_tokenList st \<Longrightarrow> within st r"
  by (auto simp: within_def split: sum.splits prod.splits)

lemma tame_cong: "tame st \<Longrightarrow> m_tokenList st1 = m_tokenList st \<Longrightarrow> m_tokenListIt st1 = m_tokenListIt st \<Longrightarrow> tame st1"
  by (simp add: tame_def)

lemma tame_command_error [simp]: "tame (command_error c w st) = tame st"
  by (simp add: tame_def)

lemma tame_printListError [simp]: "tame (printListError w m st) = tame st"
  by (simp add: tame_def)

lemma tame_commandBelongs [simp]: "tame (snd (commandBelongs c st)) = tame st"
  by (simp add: tame_def)

lemma tame_at: "tame st \<Longrightarrow> i \<le> length (m_tokenList st) \<Longrightarrow> tame (st\<lparr>m_tokenListIt := i\<rparr>)"
  by (simp add: tame_def)

lemma tame_advance: "tame st \<Longrightarrow> m_tokenListIt st + n \<le> length (m_tokenList st) \<Longrightarrow> tame (advance n st)"
  by (simp add: tame_def)

lemma rest_less: "rest st = t # ts \<Longrightarrow> m_tokenListIt st < length (m_tokenList st)"
  by (metis drop_all list.discI not_le)

lemma rest_le: "tame st \<Longrightarrow> n \<le> length (rest st) \<Longrightarrow> m_tokenListIt st + n \<le> length (m_tokenList st)"
  by (auto simp: tame_def)

lemma quoted_word_le: "snd (quoted_word w ts) \<le> length ts"
  by (induction w ts rule: quoted_word.induct) (auto split: prod.splits)

lemma next_word_le: "snd (next_word ts) \<le> length ts"
proof (induction ts rule: next_word.induct)
  case (2 t ts)
  then show ?case using quoted_word_le[of "[QUOTE]" ts] by (auto split: prod.splits)
qed simp

lemma tame_getNextWord: "tame st \<Longrightarrow> tame (snd (getNextWord st))"
  using next_word_le[of "rest st"] by (auto simp: getNextWord_def tame_def split: prod.splits)

lemma getNextWord_within:
  assumes "tame st" "\<And>w st1. tame st1 \<Longrightarrow> m_tokenList st1 = m_tokenList st \<Longrightarrow> within st1 (k w st1)"
  shows "within st (case getNextWord st of (w, st1) \<Rightarrow> k w st1)"
  using tame_getNextWord[OF assms(1)] assms(2)[of "snd (getNextWord st)" "fst (getNextWord st)"]
  by (auto simp: case_prod_beta intro: within_trans)

lemma getOneLine_le: "tame st \<Longrightarrow> getOneLine st \<le> length (m_tokenList st)"
  unfolding getOneLine_def by (rule rest_le[OF _ length_takeWhile_le])

lemma paragraph_length_le: "paragraph_length ts \<le> length ts"
proof (induction ts)
  case (Cons t ts)
  then show ?case by (cases ts) auto
qed simp

lemma getEndOfParagraph_bounds:
  "m_tokenListIt st \<le> getEndOfParagraph st" "tame st \<Longrightarrow> getEndOfParagraph st \<le> length (m_tokenList st)"
  using rest_le[OF _ paragraph_length_le] by (simp_all add: getEndOfParagraph_def)

lemma tame_skipEndOfLine: "tame st \<Longrightarrow> tame (skipEndOfLine st)"
  by (auto simp: skipEndOfLine_def isEndOfLine_def tame_def Suc_le_eq dest: rest_less split: list.splits)

lemma til_end_command_le: "fst (snd (til_end_command c ts)) \<le> length ts"
  by (induction ts) (auto split: prod.splits)

lemma tame_getStringTilEndCommand: "tame st \<Longrightarrow> tame (snd (getStringTilEndCommand c st))"
  using til_end_command_le[of c "rest st"]
  by (auto simp: getStringTilEndCommand_def Let_def tame_def split: prod.splits)

lemma skipWhitespace_le:
  "m_tokenListIt st \<le> length (m_tokenList st) \<Longrightarrow> m_tokenListIt (skipWhitespaceTokens st) \<le> length (m_tokenList st)"
  using length_takeWhile_le[of "\<lambda>t. m_tokenType t = END_LINE \<or> trim (m_tokenString t) = []" "rest st"]
  by (simp add: skipWhitespaceTokens_def)

lemma simple_commands_within:
  assumes "tame st"
  shows "within st (addSimpleCommand c l st)" "within st (addCommandWord c l st)" "within st (addCommandWordOWordOWord c l st)"
  "within st (addCommandOWord c l st)" "within st (addCommandErrorThrow c l st)" "within st (addCommandHtml c l st)"
  "within st (addCommandHtmlEntity c l st)"
proof -
  have w: "within s (case getNextWord s of (name, st2) \<Rightarrow>
      if name \<noteq> [] then Inr (l1 @ [entityN c [plain_string name]], st2)
      else Inr (l1, command_error c ''No word followed the command. Command ignored.'' st2))" if "tame s" for s l1
    by (rule getNextWord_within[OF that]) simp
  have "tame (skipWhitespaceTokens st)" using assms skipWhitespace_le[of st] by (simp add: tame_def skipWhitespaceTokens_def)
  then have "within st (case getNextWord (skipWhitespaceTokens st) of (name, st2) \<Rightarrow>
      if name \<noteq> [] then Inr (l1 @ [entityN c [plain_string name]], st2)
      else Inr (l1, command_error c ''No word followed the command. Command ignored.'' st2))" for l1
    by (intro within_trans[OF w]) (simp_all add: skipWhitespaceTokens_def)
  then show "within st (addCommandWord c l st)"
    unfolding addCommandWord_def Let_def using w[OF assms] by simp
  show "within st (addCommandWordOWordOWord c l st)"
    unfolding addCommandWordOWordOWord_def Let_def
    by (rule getNextWord_within[OF assms]) (auto intro!: getNextWord_within)
  show "within st (addCommandOWord c l st)"
    unfolding addCommandOWord_def Let_def by (rule getNextWord_within[OF assms]) auto
  show "within st (addCommandErrorThrow c l st)"
    using getOneLine_le[of "command_error c ''Unexpectedly encountered this command.'' st"] assms
    by (simp add: addCommandErrorThrow_def Let_def tame_at)
  show "within st (addCommandHtml c l st)" using assms
    by (auto simp: addCommandHtml_def getNextToken_def tame_def Suc_le_eq dest: rest_less split: list.splits)
qed (use assms in \<open>simp_all add: addSimpleCommand_def addCommandHtmlEntity_def\<close>)

lemma unique_simple_within:
  assumes "tame st"
  shows "within st (unique_ingroup c l st)" "within st (unique_headerfile c l st)" "within st (word_oword w c l st)"
    "within st (unique_image c l st)" "within st (unique_verbatim c l st)"
proof -
  show "within st (unique_ingroup c l st)" unfolding unique_ingroup_def Let_def
    by (rule getNextWord_within[OF assms]) (auto intro!: getNextWord_within)
  show "within st (unique_headerfile c l st)" unfolding unique_headerfile_def Let_def
    by (rule getNextWord_within[OF assms]) (auto intro!: getNextWord_within)
  show "within st (word_oword w c l st)" unfolding word_oword_def Let_def ignored_def
    by (rule getNextWord_within[OF assms]) (auto intro!: getNextWord_within)
  show "within st (unique_image c l st)" unfolding unique_image_def Let_def ignored_def
    by (rule getNextWord_within[OF assms]) (auto intro!: getNextWord_within)
  show "within st (unique_verbatim c l st)"
    using tame_getStringTilEndCommand[OF assms] by (simp add: unique_verbatim_def Let_def case_prod_beta)
qed

lemma unique_ref_within: "tame st \<Longrightarrow> within st (unique_ref c l st)"
  unfolding unique_ref_def Let_def ignored_def
proof (rule getNextWord_within)
  fix w :: string and st1 :: DoxygenParser
  assume "tame st1"
  then show "within st1 (if w = [] then Inr (l, command_error c (''No key'' @ '' followed the command. Command ignored.'') st1)
      else case getNextWord st1 of (refTitle, st2) \<Rightarrow>
        if length refTitle > 1 \<and> starts_with [QUOTE] refTitle
        then Inr (l @ [entityN c [plain_string w, plain_string (take (length refTitle - 2) (drop 1 refTitle))]], st2)
        else Inr (l @ [entityN c [plain_string w]], st2\<lparr>m_tokenListIt := m_tokenListIt st1\<rparr>))"
    using tame_getNextWord[of st1] by (auto simp: case_prod_beta intro: tame_cong)
qed

lemma getStringTilCommand_within:
  assumes "tame st"
  shows "within st (map_sum id (\<lambda>(s, st1). (l @ [plain_string s], st1)) (getStringTilCommand st))"
proof (cases "rest st")
  case (Cons t ts)
  have "last (rest st) = last (m_tokenList st)" using rest_less[OF Cons] by simp
  then have "m_tokenType (last (rest st)) = END_LINE" using assms Cons by (auto simp: tame_def wf_tokens_def)
  moreover have "last (rest st) \<in> set (rest st)" using Cons by simp
  ultimately have "\<not> (\<forall>t \<in> set (rest st). m_tokenType t = PLAINSTRING)" by force
  then have "takeWhile (\<lambda>t. m_tokenType t = PLAINSTRING) (rest st) \<noteq> rest st" unfolding takeWhile_eq_all_conv .
  moreover have "tame (advance (length (takeWhile (\<lambda>t. m_tokenType t = PLAINSTRING) (rest st))) st)"
    by (rule tame_advance[OF assms rest_le[OF assms length_takeWhile_le]])
  moreover have "rest st \<noteq> []" using Cons by simp
  ultimately show ?thesis unfolding getStringTilCommand_def Let_def by (simp only: if_False) simp
qed (use assms in \<open>simp add: getStringTilCommand_def\<close>)

text \<open>The second contract of the recursive call: it stays inside the list.\<close>

locale safe_call =
  fixes prs :: parser
  assumes call: "tame st \<Longrightarrow> m_tokenListIt st \<le> e \<Longrightarrow> e \<le> length (m_tokenList st) \<Longrightarrow> within st (prs e st)"
begin

lemma line_call: "tame st \<Longrightarrow> within st (prs (getOneLine st) st)"
  by (rule call) (simp_all add: getOneLine_le)

lemma paragraph_call: "tame st \<Longrightarrow> within st (prs (getEndOfParagraph st) st)"
  by (rule call) (simp_all add: getEndOfParagraph_bounds)

lemma addCommandLine_within: "tame st \<Longrightarrow> within st (addCommandLine prs c l st)"
  unfolding addCommandLine_def by (rule within_bind[OF line_call]) (simp_all add: tame_skipEndOfLine)

lemma addCommandParagraph_within: "tame st \<Longrightarrow> within st (addCommandParagraph prs c l st)"
  unfolding addCommandParagraph_def by (rule within_bind[OF paragraph_call]) simp_all

lemma addCommandWordParagraph_within: "tame st \<Longrightarrow> within st (addCommandWordParagraph prs c l st)"
  unfolding addCommandWordParagraph_def Let_def
  by (rule getNextWord_within) (auto intro!: within_bind[OF paragraph_call])

lemma addCommandWordLine_within: "tame st \<Longrightarrow> within st (addCommandWordLine prs c l st)"
  unfolding addCommandWordLine_def Let_def
  by (rule getNextWord_within) (auto intro!: within_bind[OF line_call])

lemma unique_xrefitem_within: "tame st \<Longrightarrow> within st (unique_xrefitem prs c l st)"
  unfolding unique_xrefitem_def Let_def ignored_def
  by (rule getNextWord_within) (auto intro!: getNextWord_within within_bind[OF paragraph_call])

lemma unique_par_within: "tame st \<Longrightarrow> within st (unique_par prs c l st)"
  unfolding unique_par_def
  by (rule within_bind[OF line_call]) (auto intro!: within_bind[OF paragraph_call])

lemma unique_overload_within: "tame st \<Longrightarrow> within st (unique_overload prs c l st)"
  unfolding unique_overload_def by (auto intro!: within_bind[OF line_call])

lemma name_title_within: "tame st \<Longrightarrow> within st (name_title prs c nm l st)"
  unfolding name_title_def by (auto intro!: within_bind[OF line_call])

lemma unique_weakgroup_within: "tame st \<Longrightarrow> within st (unique_weakgroup prs c l st)"
  unfolding unique_weakgroup_def Let_def ignored_def
  by (rule getNextWord_within) (auto intro!: name_title_within)

lemma unique_addtogroup_within: "tame st \<Longrightarrow> within st (unique_addtogroup prs c l st)"
  unfolding unique_addtogroup_def Let_def
proof (rule getNextWord_within)
  fix nm :: string and st1 :: DoxygenParser
  assume "tame st1"
  then have "within st1 (name_title prs c nm l st1)" by (rule name_title_within)
  then have "within st1 (map_sum id (\<lambda>(l', st2). (l', skipEndOfLine st2)) (name_title prs c nm l st1))"
    by (cases "name_title prs c nm l st1") (auto simp: within_def tame_skipEndOfLine split: prod.splits)
  then show "within st1 (if nm = [] then Inr (l, command_error c ''There should be at least one word following the command. Command ignored.'' st1)
      else map_sum id (\<lambda>(l', st2). (l', skipEndOfLine st2)) (name_title prs c nm l st1))" using \<open>tame st1\<close> by simp
qed

lemma addCommandUnique_within:
  "tame st \<Longrightarrow> c \<notin> {''arg'', ''li'', ''if'', ''ifnot'', ''else'', ''elseif''} \<Longrightarrow> within st (addCommandUnique prs c l st)"
  using unique_xrefitem_within unique_par_within unique_overload_within unique_weakgroup_within unique_addtogroup_within
  by (simp add: addCommandUnique_def unique_simple_within unique_ref_within)

lemma addCommand_within:
  assumes "tame st" "doxygenCommands (stringToLower c) = Some k" "k \<noteq> COMMANDENDCOMMAND"
    and "stringToLower c \<notin> {''arg'', ''li'', ''if'', ''ifnot'', ''else'', ''elseif''}"
  shows "within st (addCommand prs c l st)"
proof -
  have "k \<noteq> COMMAND_ALIAS" "k \<noteq> COMMAND_IGNORE" using assms(2) by (auto simp: doxygenCommands_def split: if_splits)
  then have "within st (dispatch prs k c l st)"
    using assms(1,3) addCommandLine_within addCommandParagraph_within addCommandWordParagraph_within
      addCommandWordLine_within addCommandUnique_within[OF assms(1,4)]
    by (cases k) (simp_all add: dispatch_def simple_commands_within Let_def)
  then show ?thesis using getStringTilCommand_within[OF assms(1)] assms(2) by (simp add: addCommand_def commandBelongs_def)
qed

lemma parse_token_within:
  assumes "tame st" "m_tokenListIt st < length (m_tokenList st)"
  shows "within st (parse_token prs root l st)"
proof -
  obtain t ts where r: "rest st = t # ts" using assms(2) by (cases "rest st") auto
  have "t \<in> set (m_tokenList st)" using r by (metis in_set_dropD list.set_intros(1))
  then have t: "tame_token t" using assms(1) by (simp add: tame_def)
  have "tame (advance 1 st)" using assms by (simp add: tame_advance)
  then have "within (advance 1 st) (addCommand prs (m_tokenString t) l (advance 1 st))" if "m_tokenType t = COMMAND"
    using t that addCommand_within[of "advance 1 st" "m_tokenString t"] by (auto simp: tame_token_def)
  then have "within st (addCommand prs (m_tokenString t) l (advance 1 st))" if "m_tokenType t = COMMAND"
    using within_trans that by auto
  then show ?thesis
    using assms(1) \<open>tame (advance 1 st)\<close> getStringTilCommand_within[OF assms(1)] addCommandParagraph_within[OF assms(1)]
    by (simp add: parse_token_def r addCommand_description) (simp add: addCommand_def lower_names)
qed

end

lemma parse_loop_within:
  "tame st \<Longrightarrow> e \<le> length (m_tokenList st) \<Longrightarrow> m_tokenListIt st = length (m_tokenList st) \<longrightarrow> e = length (m_tokenList st) \<Longrightarrow>
   within st (parse_loop n root l e st)"
proof (induction n arbitrary: root l e st)
  case 0
  then show ?case by (simp add: within_def)
next
  case (Suc n)
  have call: "safe_call (parse_loop n False [])"
  proof
    fix st e
    assume "tame st" "m_tokenListIt st \<le> e" "e \<le> length (m_tokenList st)"
    then show "within st (parse_loop n False [] e st)" by (intro Suc.IH) auto
  qed
  show ?case
  proof (cases "m_tokenListIt st = e")
    case True
    then show ?thesis using Suc.prems by simp
  next
    case False
    then have "m_tokenListIt st < length (m_tokenList st)" using Suc.prems by (auto simp: tame_def)
    then have t: "within st (parse_token (parse_loop n False []) root l st)"
      using safe_call.parse_token_within[OF call] Suc.prems(1) by blast
    have "within st (res_bind (parse_token (parse_loop n False []) root l st) (\<lambda>(l1, st1).
        if e \<noteq> length (m_tokenList st1) \<and> m_tokenListIt st1 = length (m_tokenList st1)
        then Inr (l1, printListError 561 ''Unexpected end of Doxygen comment encountered.'' st1)
        else parse_loop n root l1 e st1))"
      using Suc.prems(2) by (intro within_bind[OF t]) (auto intro!: Suc.IH)
    then show ?thesis using False by simp
  qed
qed

interpretation loop_safe: safe_call "parse_loop n False []" for n
  by unfold_locales (rule parse_loop_within, auto)

lemma tokenize_comment_wf:
  "tokenizeDoxygenComment c n st = Inr st1 \<Longrightarrow> wf_tokens (m_tokenList st1) \<and> m_tokenListIt st1 = 0"
  unfolding tokenizeDoxygenComment_def
  by (auto simp: map_sum_def wf_tokens_def[of "[]"] split: sum.splits dest!: tokenize_lines_wf)

section \<open>The text of the tree\<close>

fun flat :: "DoxygenEntity \<Rightarrow> string" where
  \<comment> \<open>the text of an entity, an end of line as a newline\<close>
  "flat (DoxygenEntity t d leaf es) = (if t = ''plainstd::endl'' then [CHR 0x0A] else d) @ concat (map flat es)"

abbreviation (input) flats :: "DoxygenEntity list \<Rightarrow> string" where
  "flats l \<equiv> concat (map flat l)"

abbreviation (input) texts :: "Token list \<Rightarrow> string" where
  "texts ts \<equiv> concat (map m_tokenString ts)"

text \<open>The trees of plain comments: line ends, and paragraphs of texts and line ends that close with a line end.\<close>

definition plain_entity :: "DoxygenEntity \<Rightarrow> bool" where
  "plain_entity e \<longleftrightarrow> e = plain_endl \<or> (\<exists>s. e = plain_string s)"

definition closed_para :: "DoxygenEntity list \<Rightarrow> bool" where
  "closed_para l \<longleftrightarrow> l \<noteq> [] \<and> list_all plain_entity l \<and> last l = plain_endl"

definition plain_root :: "DoxygenEntity \<Rightarrow> bool" where
  "plain_root x \<longleftrightarrow> x = plain_endl \<or> (\<exists>l. x = entityN ''partofdescription'' l \<and> closed_para l)"

text \<open>A reader of such a comment gathers a value from the texts (\<open>str\<close>) and the line ends (\<open>nl\<close>), and does not see
  where a text is cut into tokens. What it reads from the tokens it also reads from the tree.\<close>

definition read_token :: "('a \<Rightarrow> string \<Rightarrow> 'a) \<Rightarrow> ('a \<Rightarrow> 'a) \<Rightarrow> 'a \<Rightarrow> Token \<Rightarrow> 'a" where
  "read_token str nl a t = (if m_tokenType t = END_LINE then nl a else str a (m_tokenString t))"

definition read_entity :: "('a \<Rightarrow> string \<Rightarrow> 'a) \<Rightarrow> ('a \<Rightarrow> 'a) \<Rightarrow> 'a \<Rightarrow> DoxygenEntity \<Rightarrow> 'a" where
  "read_entity str nl a e = (if typeOfEntity e = ''plainstd::endl'' then nl a else str a (data e))"

definition read_root :: "('a \<Rightarrow> string \<Rightarrow> 'a) \<Rightarrow> ('a \<Rightarrow> 'a) \<Rightarrow> 'a \<Rightarrow> DoxygenEntity \<Rightarrow> 'a" where
  "read_root str nl a x = foldl (read_entity str nl) a (if isLeaf x then [x] else entityList x)"

lemma read_entity_simps [simp]:
  "read_entity str nl a plain_endl = nl a" "read_entity str nl a (plain_string s) = str a s"
  by (simp_all add: read_entity_def entity0_def entity1_def)

lemma read_root_simps [simp]:
  "read_root str nl a plain_endl = nl a" "read_root str nl a (entityN t l) = foldl (read_entity str nl) a l"
  by (simp_all add: read_root_def entity0_def entityN_def read_entity_def)

lemma fold_split: "i \<le> j \<Longrightarrow> j \<le> e \<Longrightarrow>
  foldl f (foldl f a (take (j - i) (drop i ts))) (take (e - j) (drop j ts)) = foldl f a (take (e - i) (drop i ts))"
proof -
  assume "i \<le> j" "j \<le> e"
  then have "take (e - i) (drop i ts) = take (j - i) (drop i ts) @ take (e - j) (drop j ts)"
    using take_add[of "j - i" "e - j" "drop i ts"] by simp
  then show ?thesis by simp
qed

lemma paragraph_plain:
  "plain_tokens ts \<Longrightarrow> ts \<noteq> [] \<Longrightarrow> m_tokenType (last ts) = END_LINE \<Longrightarrow>
   0 < paragraph_length ts \<and> m_tokenType (ts ! (paragraph_length ts - 1)) = END_LINE"
proof (induction ts)
  case (Cons t ts)
  show ?case
  proof (cases ts)
    case Nil
    then show ?thesis using Cons by simp
  next
    case (Cons u us)
    then have IH: "0 < paragraph_length ts \<and> m_tokenType (ts ! (paragraph_length ts - 1)) = END_LINE"
      using Cons.IH Cons.prems by (auto simp: plain_tokens_def)
    have "m_tokenType t = PLAINSTRING \<or> m_tokenType t = END_LINE" using Cons.prems(1) by (auto simp: plain_tokens_def)
    then show ?thesis using IH Cons by (auto simp del: paragraph_length.simps simp: paragraph_length.simps(2)[of t "u # us"] nth_Cons')
  qed
qed simp

locale text_reader =
  fixes str :: "'a \<Rightarrow> string \<Rightarrow> 'a" and nl :: "'a \<Rightarrow> 'a"
  assumes str_append: "str (str a s) t = str a (s @ t)" and str_nil: "str a [] = a"
begin

abbreviation (input) toks :: "'a \<Rightarrow> Token list \<Rightarrow> 'a" where
  "toks \<equiv> foldl (read_token str nl)"

abbreviation (input) ents :: "'a \<Rightarrow> DoxygenEntity list \<Rightarrow> 'a" where
  "ents \<equiv> foldl (read_entity str nl)"

lemma toks_strings: "\<forall>t \<in> set ws. m_tokenType t = PLAINSTRING \<Longrightarrow> toks a ws = str a (texts ws)"
proof (induction ws arbitrary: a)
  case (Cons w ws)
  have "toks a (w # ws) = toks (str a (m_tokenString w)) ws" using Cons.prems by (simp add: read_token_def)
  also have "\<dots> = str (str a (m_tokenString w)) (texts ws)" using Cons.prems by (intro Cons.IH) simp
  finally show ?case by (simp add: str_append)
qed (simp add: str_nil)

lemma toks_lines:
  "\<forall>ws \<in> set wss. \<forall>t \<in> set ws. m_tokenType t = PLAINSTRING \<Longrightarrow>
   toks a (concat (map (\<lambda>ws. ws @ [END_TOKEN]) wss)) = foldl (\<lambda>a s. nl (str a s)) a (map texts wss)"
  by (induction wss arbitrary: a) (simp_all add: toks_strings read_token_def)

text \<open>Inside a paragraph: from a position to the end \<open>e\<close> of a line.\<close>

lemma parse_loop_plain:
  "plain_tokens (m_tokenList st) \<Longrightarrow> m_tokenListIt st \<le> e \<Longrightarrow> 0 < e \<Longrightarrow> e \<le> length (m_tokenList st) \<Longrightarrow>
   m_tokenType (m_tokenList st ! (e - 1)) = END_LINE \<Longrightarrow> e - m_tokenListIt st < n \<Longrightarrow>
   \<exists>l' st'. parse_loop n False l e st = Inr (l @ l', st') \<and> m_tokenListIt st' = e \<and> m_tokenList st' = m_tokenList st \<and>
     list_all plain_entity l' \<and> (m_tokenListIt st < e \<longrightarrow> l' \<noteq> [] \<and> last l' = plain_endl) \<and>
     (\<forall>a. ents a l' = toks a (take (e - m_tokenListIt st) (drop (m_tokenListIt st) (m_tokenList st))))"
proof (induction n arbitrary: l st)
  case (Suc n)
  let ?i = "m_tokenListIt st" and ?T = "m_tokenList st"
  show ?case
  proof (cases "?i = e")
    case False
    then have i: "?i < e" using Suc.prems by simp
    then obtain t ts where r: "rest st = t # ts" using Suc.prems(4) by (cases "rest st") auto
    have tmem: "t \<in> set ?T" using r by (metis in_set_dropD list.set_intros(1))
    obtain j x st1 where j: "?i < j" "j \<le> e" "m_tokenListIt st1 = j" "m_tokenList st1 = ?T"
      "parse_token (parse_loop n False []) False l st = Inr (l @ [x], st1)" "plain_entity x" "j = e \<longrightarrow> x = plain_endl"
      "\<And>a. read_entity str nl a x = toks a (take (j - ?i) (drop ?i ?T))"
    proof (cases "m_tokenType t = END_LINE")
      case True
      then show ?thesis using that[of "?i + 1" "advance 1 st" plain_endl] i r
        by (simp add: parse_token_def plain_entity_def read_token_def)
    next
      case False
      then have p: "m_tokenType t = PLAINSTRING" using Suc.prems(1) tmem by (auto simp: plain_tokens_def)
      define ws where "ws = takeWhile (\<lambda>t. m_tokenType t = PLAINSTRING) (rest st)"
      have E: "rest st ! (e - 1 - ?i) = ?T ! (e - 1)" "e - 1 - ?i < length (rest st)" using i Suc.prems(4) by auto
      have wsp: "\<forall>t \<in> set ws. m_tokenType t = PLAINSTRING" unfolding ws_def by (auto dest: set_takeWhileD)
      have len: "length ws \<le> e - 1 - ?i"
      proof (rule ccontr)
        assume "\<not> length ws \<le> e - 1 - ?i"
        then have a: "e - 1 - ?i < length ws" by simp
        then have "m_tokenType (ws ! (e - 1 - ?i)) = PLAINSTRING" using wsp by simp
        moreover have "ws ! (e - 1 - ?i) = rest st ! (e - 1 - ?i)" using a unfolding ws_def by (rule takeWhile_nth)
        ultimately show False using E Suc.prems(5) by simp
      qed
      have "ws = take (length ws) (rest st)" unfolding ws_def by (rule takeWhile_eq_take)
      moreover have "ws \<noteq> []" using p r by (simp add: ws_def)
      moreover have "ws \<noteq> rest st" using len E(2) by auto
      ultimately have ne: "ws \<noteq> []" "ws \<noteq> rest st" "ws = take (length ws) (rest st)" by auto
      have g: "getStringTilCommand st = Inr (texts ws, advance (length ws) st)"
        unfolding getStringTilCommand_def Let_def ws_def[symmetric] using ne(2) r by simp
      have "parse_token (parse_loop n False []) False l st = Inr (l @ [plain_string (texts ws)], advance (length ws) st)"
        using r p g by (simp add: parse_token_def addCommand_def lower_names)
      moreover have "str a (texts ws) = toks a (take (?i + length ws - ?i) (drop ?i ?T))" for a
        using toks_strings[OF wsp] ne(3) by (simp only: diff_add_inverse)
      moreover have "?i < ?i + length ws" "?i + length ws \<le> e" "?i + length ws \<noteq> e" using ne(1) len i by auto
      moreover have "plain_entity (plain_string (texts ws))" by (auto simp: plain_entity_def)
      ultimately show ?thesis using that[of "?i + length ws" "advance (length ws) st" "plain_string (texts ws)"]
        by (simp only: advance_simps read_entity_simps simp_thms)
    qed
    have "\<not> (e \<noteq> length (m_tokenList st1) \<and> m_tokenListIt st1 = length (m_tokenList st1))" using j Suc.prems(4) by auto
    then have step: "parse_loop (Suc n) False l e st = parse_loop n False (l @ [x]) e st1" using False j(5) by auto
    have fuel: "e - j < n" using j(1,2) Suc.prems(6) by linarith
    then obtain l' st' where c: "parse_loop n False (l @ [x]) e st1 = Inr ((l @ [x]) @ l', st')" "m_tokenListIt st' = e"
      "m_tokenList st' = ?T" "list_all plain_entity l'" "j < e \<longrightarrow> l' \<noteq> [] \<and> last l' = plain_endl"
      "\<And>a. ents a l' = toks a (take (e - j) (drop j ?T))"
      using Suc.IH[of st1 "l @ [x]"] Suc.prems(1-5) j by auto
    have "last (x # l') = plain_endl"
    proof (cases "j = e")
      case True
      then have "parse_loop n False (l @ [x]) e st1 = Inr (l @ [x], st1)" using j(3) fuel by (cases n) auto
      then show ?thesis using c(1) True j(7) by simp
    qed (use j(2) c(5) in simp)
    then show ?thesis using step j(6) c fold_split[of ?i j e "read_token str nl" _ ?T] j(1,2,8)
      by (intro exI[of _ "x # l'"] exI[of _ st']) (simp del: parse_loop.simps)
  qed simp
qed simp

lemma parse_root_plain:
  "plain_tokens (m_tokenList st) \<Longrightarrow> wf_tokens (m_tokenList st) \<Longrightarrow> m_tokenListIt st \<le> length (m_tokenList st) \<Longrightarrow>
   length (m_tokenList st) - m_tokenListIt st + 1 < n \<Longrightarrow>
   \<exists>l' st'. parse_loop n True l (length (m_tokenList st)) st = Inr (l @ l', st') \<and> list_all plain_root l' \<and>
     (\<forall>a. foldl (read_root str nl) a l' = toks a (drop (m_tokenListIt st) (m_tokenList st)))"
proof (induction n arbitrary: l st)
  case (Suc n)
  let ?i = "m_tokenListIt st" and ?T = "m_tokenList st"
  show ?case
  proof (cases "?i = length ?T")
    case False
    then have i: "?i < length ?T" using Suc.prems by simp
    then obtain t ts where r: "rest st = t # ts" by (cases "rest st") auto
    have tmem: "t \<in> set ?T" using r by (metis in_set_dropD list.set_intros(1))
    obtain j x st1 where j: "?i < j" "j \<le> length ?T" "m_tokenListIt st1 = j" "m_tokenList st1 = ?T"
      "parse_token (parse_loop n False []) True l st = Inr (l @ [x], st1)" "plain_root x"
      "\<And>a. read_root str nl a x = toks a (take (j - ?i) (drop ?i ?T))"
    proof (cases "m_tokenType t = END_LINE")
      case True
      then show ?thesis using that[of "?i + 1" "advance 1 st" plain_endl] i r
        by (simp add: parse_token_def plain_root_def read_token_def)
    next
      case False
      then have p: "m_tokenType t = PLAINSTRING" using Suc.prems(1) tmem by (auto simp: plain_tokens_def)
      define e where "e = ?i + paragraph_length (rest st)"
      have "plain_tokens (rest st)" using Suc.prems(1) by (auto simp: plain_tokens_def dest: in_set_dropD)
      moreover have "m_tokenType (last (rest st)) = END_LINE" using Suc.prems(2) i by (auto simp: wf_tokens_def)
      ultimately have pl: "0 < paragraph_length (rest st)" "m_tokenType (rest st ! (paragraph_length (rest st) - 1)) = END_LINE"
        using paragraph_plain[of "rest st"] r by auto
      have le: "paragraph_length (rest st) \<le> length ?T - ?i" using paragraph_length_le[of "rest st"] by simp
      have e: "?i < e" "e \<le> length ?T" "m_tokenType (?T ! (e - 1)) = END_LINE" using pl le i by (auto simp: e_def)
      have "e - ?i < n" using e i Suc.prems(4) by linarith
      then obtain l' st' where c: "parse_loop n False [] e st = Inr ([] @ l', st')" "m_tokenListIt st' = e" "m_tokenList st' = ?T"
        "list_all plain_entity l'" "l' \<noteq> []" "last l' = plain_endl" "\<And>a. ents a l' = toks a (take (e - ?i) (drop ?i ?T))"
        using parse_loop_plain[of st e n "[]"] e Suc.prems by auto
      have "parse_token (parse_loop n False []) True l st = addCommandParagraph (parse_loop n False []) ''partofdescription'' l st"
        using r p by (simp add: parse_token_def addCommand_description)
      also have "\<dots> = Inr (l @ [entityN ''partofdescription'' l'], st')"
        using c(1) unfolding addCommandParagraph_def getEndOfParagraph_def e_def[symmetric] by simp
      finally have q: "parse_token (parse_loop n False []) True l st = Inr (l @ [entityN ''partofdescription'' l'], st')" .
      have "plain_root (entityN ''partofdescription'' l')" using c by (auto simp: plain_root_def closed_para_def)
      from that[of e st', OF e(1,2) c(2,3) q this] c(7) show ?thesis by (simp only: read_root_simps)
    qed
    have "parse_loop (Suc n) True l (length ?T) st = parse_loop n True (l @ [x]) (length ?T) st1" using False j(4,5) by simp
    moreover have "length ?T - j + 1 < n" using j(1,2) Suc.prems(4) by linarith
    moreover obtain l' st' where "parse_loop n True (l @ [x]) (length ?T) st1 = Inr ((l @ [x]) @ l', st')" "list_all plain_root l'"
      "\<And>a. foldl (read_root str nl) a l' = toks a (drop j ?T)"
      using Suc.IH[of st1 "l @ [x]"] Suc.prems(1,2) j calculation(2) by auto
    moreover have "toks (toks a (take (j - ?i) (drop ?i ?T))) (drop j ?T) = toks a (drop ?i ?T)" for a
      using fold_split[of ?i j "length ?T" "read_token str nl" a ?T] j(1,2) by simp
    ultimately show ?thesis using j(6,7) by (intro exI[of _ "x # l'"] exI[of _ st']) (simp del: parse_loop.simps)
  qed (auto intro: exI[of _ "[]"])
qed simp

text \<open>Together with the tokenizer: what a reader reads line by line it reads from the tree.\<close>

lemma createTree_plain:
  assumes "\<forall>l \<in> set (comment_lines c). set l \<inter> COMMANDS = {}"
  shows "\<exists>l st'. createTree c n st = Inr (l, st') \<and> list_all plain_root l \<and>
    (\<forall>a. foldl (read_root str nl) a l = foldl (\<lambda>a s. nl (str a s)) a (map line_text (comment_lines c)))"
proof -
  let ?st = "st\<lparr>m_isVerbatimText := False, m_isInQuotedString := False, m_tokenList := [], m_fileLineNo := n\<rparr>"
  have "quiet ?st" "m_tokenList ?st = []" by (simp_all add: quiet_def plain_tokens_def mode_plain_def)
  then obtain s wss where s: "tokenize_lines (comment_lines c) ?st = Inr s" "quiet s"
    "m_tokenList s = concat (map (\<lambda>ws. ws @ [END_TOKEN]) wss)" "\<forall>ws \<in> set wss. \<forall>t \<in> set ws. m_tokenType t = PLAINSTRING"
    "map texts wss = map line_text (comment_lines c)"
    using tokenize_lines_segments[OF assms, of ?st] by auto
  define st1 where "st1 = s\<lparr>m_tokenListIt := 0\<rparr>"
  have t: "tokenizeDoxygenComment c n st = Inr st1" using s(1) by (simp add: tokenizeDoxygenComment_def st1_def)
  have "plain_tokens (m_tokenList st1)" using s(2) by (simp add: quiet_def st1_def)
  then obtain l st' where "createTree c n st = Inr ([] @ l, st')" "list_all plain_root l"
    "\<forall>a. foldl (read_root str nl) a l = toks a (m_tokenList st1)"
    using parse_root_plain[of st1 "length (m_tokenList st1) + 3" "[]"] tokenize_comment_wf[OF t]
    by (auto simp: createTree_def t simp del: parse_loop.simps)
  then show ?thesis using toks_lines[OF s(4)] s(3,5) by (auto simp: st1_def)
qed

end

interpretation plain_text_reader: text_reader "\<lambda>a s. a @ s" "\<lambda>a. a @ [CHR 0x0A]"
  by unfold_locales simp_all

lemma flat_leaves [simp]: "flat plain_endl = [CHR 0x0A]" "flat (plain_string s) = s"
  by (simp_all add: entity0_def entity1_def)

lemma read_plain: "list_all plain_entity l \<Longrightarrow> foldl (read_entity (\<lambda>a s. a @ s) (\<lambda>a. a @ [CHR 0x0A])) a l = a @ flats l"
  by (induction l arbitrary: a) (auto simp: plain_entity_def)

lemma read_flat: "list_all plain_root l \<Longrightarrow> foldl (read_root (\<lambda>a s. a @ s) (\<lambda>a. a @ [CHR 0x0A])) a l = a @ flats l"
proof (induction l arbitrary: a)
  case (Cons x l)
  have "read_root (\<lambda>a s. a @ s) (\<lambda>a. a @ [CHR 0x0A]) a x = a @ flat x"
    using Cons.prems by (auto simp: plain_root_def closed_para_def read_plain) (simp add: entityN_def)
  then show ?case using Cons by simp
qed simp

section \<open>Properties\<close>

abbreviation doxy_start :: DoxygenParser where
  "doxy_start \<equiv> \<lparr>m_tokenList = [], m_tokenListIt = 0, m_isVerbatimText = False, m_isInQuotedString = False,
     m_node = Map.empty, m_fileLineNo = 0, warnings = []\<rparr>"

lemma createTree_adv:
  assumes "tokenizeDoxygenComment c n st = Inr st1"
  shows "adv st1 (createTree c n st)"
proof -
  have w: "wf_tokens (m_tokenList st1)" "m_tokenListIt st1 = 0" using tokenize_comment_wf[OF assms] by auto
  then have "enough (length (m_tokenList st1) + 2) st1" by (simp add: enough_def kinds_def wf_tokens_def)
  moreover have "length (m_tokenList st1) + 3 = Suc (length (m_tokenList st1) + 2)" by simp
  ultimately show ?thesis using parse_loop_root by (simp only: createTree_def assms res_bind_simps)
qed

lemma createTree_end:
  assumes "createTree c n st = Inr (l, st')"
  shows "m_tokenListIt st' = length (m_tokenList st')"
proof (cases "tokenizeDoxygenComment c n st")
  case (Inr st1)
  then have "m_tokenList st' = m_tokenList st1" using createTree_adv[OF Inr] assms by (simp add: adv_def)
  then show ?thesis using assms Inr by (auto simp: createTree_def simp del: parse_loop.simps dest: parse_loop_end)
qed (use assms in \<open>simp add: createTree_def\<close>)

text \<open>C23: The parser ends on every comment: it either reaches the end of the token list, or it is one of the runs in
  which the code follows an iterator to the end of a list. It never runs out of the fuel of the model, which
  is the number of tokens and three.\<close>

theorem parser_terminates:
  "case createTree c n st of Inl f \<Rightarrow> f = OutOfBounds | Inr (l, st') \<Rightarrow> m_tokenListIt st' = length (m_tokenList st')"
proof (cases "tokenizeDoxygenComment c n st")
  case (Inl f)
  then have "f = OutOfBounds" by (auto simp: tokenizeDoxygenComment_def map_sum_def split: sum.splits dest: tokenize_lines_Inl)
  then show ?thesis using Inl by (simp add: createTree_def)
next
  case (Inr st1)
  then show ?thesis using createTree_adv[OF Inr] createTree_end[of c n st]
    by (simp add: adv_def split: sum.splits prod.splits)
qed

text \<open>C24: A comment that the tokenizer accepts and whose commands are all known and are none of those that look for
  an end command, a section or a conditional block is parsed without a read past the end of the token list, and the
  token list is read to its end and kept as it was.\<close>

theorem parser_safe:
  assumes "tokenizeDoxygenComment c n st = Inr st1" "\<forall>t \<in> set (m_tokenList st1). tame_token t"
  shows "\<exists>l st'. createTree c n st = Inr (l, st') \<and> m_tokenList st' = m_tokenList st1 \<and>
    m_tokenListIt st' = length (m_tokenList st1)"
proof -
  have "tame st1" using tokenize_comment_wf[OF assms(1)] assms(2) by (simp add: tame_def)
  then have "within st1 (createTree c n st)"
    using parse_loop_within[of st1 "length (m_tokenList st1)"] by (simp add: createTree_def assms(1) del: parse_loop.simps)
  then show ?thesis using createTree_adv[OF assms(1)] createTree_end[of c n st]
    by (auto simp: within_def adv_def split: sum.splits)
qed

theorem parser_safe_witness:
  "\<exists>l st'. createTree ''* @param x the <b>y</b>'' 7 doxy_start = Inr (l, st') \<and> m_tokenListIt st' = 12"
proof -
  define c where "c = ''* @param x the <b>y</b>''"
  define r where "r = tokenizeDoxygenComment c 7 doxy_start"
  have e: "(case r of Inl f \<Rightarrow> False | Inr s \<Rightarrow> list_all tame_token (m_tokenList s) \<and> length (m_tokenList s) = 12)"
    unfolding r_def c_def by code_simp
  then obtain s where s: "r = Inr s" "list_all tame_token (m_tokenList s)" "length (m_tokenList s) = 12" by (cases r) auto
  then show ?thesis using parser_safe[of c 7 doxy_start s] unfolding r_def c_def by (auto simp: list_all_iff)
qed

text \<open>No text is lost or made up between the comment and the tree: for a comment without command characters the
  texts of the entities, with a newline for each end of line, are the lines of the comment without their
  decoration.\<close>

theorem parser_keeps_text:
  assumes "\<forall>l \<in> set (comment_lines c). set l \<inter> COMMANDS = {}"
  shows "\<exists>l st'. createTree c n st = Inr (l, st') \<and>
    concat (map flat l) = concat (map (\<lambda>l. line_text l @ [CHR 0x0A]) (comment_lines c))"
proof -
  have f: "foldl (\<lambda>a s. a @ s @ [CHR 0x0A]) a ls = a @ concat (map (\<lambda>l. l @ [CHR 0x0A]) ls)" for a ls
    by (induction ls arbitrary: a) simp_all
  obtain l st' where "createTree c n st = Inr (l, st')" "list_all plain_root l"
    "foldl (read_root (\<lambda>a s. a @ s) (\<lambda>a. a @ [CHR 0x0A])) [] l = foldl (\<lambda>a s. (a @ s) @ [CHR 0x0A]) [] (map line_text (comment_lines c))"
    using plain_text_reader.createTree_plain[OF assms] by blast
  then show ?thesis using read_flat[of l "[]"] by (auto simp: f comp_def)
qed

theorem parser_keeps_text_witness:
  "\<exists>l st'. createTree ('' *  Hello, world.'' @ [CHR 0x0A] @ ''plain'') 1 doxy_start = Inr (l, st') \<and>
    concat (map flat l) = '' Hello, world.'' @ [CHR 0x0A] @ ''plain'' @ [CHR 0x0A]"
proof -
  let ?c = "'' *  Hello, world.'' @ [CHR 0x0A] @ ''plain''"
  have l: "comment_lines ?c = ['' *  Hello, world.'', ''plain'']" by (simp add: comment_lines_def split.simps)
  have t: "line_text '' *  Hello, world.'' = '' Hello, world.''" "line_text ''plain'' = ''plain''"
    by (simp_all add: line_text_def isStartOfDoxyCommentChar_def)
  show ?thesis using parser_keeps_text[of ?c 1 doxy_start] unfolding l by (simp add: t)
qed

definition overrun :: "parsed \<Rightarrow> bool" where
  "overrun r = (case r of Inl f \<Rightarrow> f = OutOfBounds | Inr _ \<Rightarrow> False)"

lemma end_command_offset_missing:
  "ts \<noteq> [] \<Longrightarrow> \<forall>t \<in> set (tl ts). \<not> (m_tokenType t = COMMAND \<and> m_tokenString t = c) \<Longrightarrow> end_command_offset c ts = Inl OutOfBounds"
  by (induction c ts rule: end_command_offset.induct) auto

text \<open>The search for an end command looks at the token after the one it has moved past, so a command whose end
  command is missing makes the code read the end of the token list instead of giving its warning.\<close>

theorem parser_end_command_overrun:
  assumes "m_tokenListIt st < length (m_tokenList st)"
    "\<forall>t \<in> set (drop (Suc (m_tokenListIt st)) (m_tokenList st)). \<not> (m_tokenType t = COMMAND \<and> m_tokenString t = ''end'' @ c)"
  shows "addCommandEndCommand prs c l st = Inl OutOfBounds"
proof -
  have "end_command_offset (''end'' @ c) (rest st) = Inl OutOfBounds"
    using assms by (intro end_command_offset_missing) (auto simp: drop_Suc tl_drop)
  then show ?thesis by (simp add: addCommandEndCommand_def getEndCommand_def)
qed

theorem parser_end_command_overrun_witness:
  "addCommandEndCommand (parse_loop 9 False []) ''link'' []
     (doxy_start\<lparr>m_tokenList := [\<lparr>m_tokenType = PLAINSTRING, m_tokenString = ''foo''\<rparr>, \<lparr>m_tokenType = END_LINE, m_tokenString = [CHR 0x0A]\<rparr>]\<rparr>) =
   Inl OutOfBounds"
  by (rule parser_end_command_overrun) simp_all

text \<open>Comments on which the parser reads the end of the token list: an argument item in the last paragraph (the
  search for the end of the section looks behind the last line end), a link whose contents take the end
  command with them, and a link that is never closed.\<close>

theorem parser_overruns:
  "createTree ''* @arg x the value'' 1 doxy_start = Inl OutOfBounds \<and>
   createTree ''* @link @brief foo @endlink bar'' 1 doxy_start = Inl OutOfBounds \<and>
   createTree ''* @link foo'' 1 doxy_start = Inl OutOfBounds"
proof -
  have "overrun (createTree ''* @arg x the value'' 1 doxy_start)" "overrun (createTree ''* @link @brief foo @endlink bar'' 1 doxy_start)"
    "overrun (createTree ''* @link foo'' 1 doxy_start)" by code_simp+
  then show ?thesis by (simp add: overrun_def split: sum.splits)
qed

end
