(* ===== verification/Doxy_Translator.thy ===== *)
theory Doxy_Translator
  imports Doxy_Parser
begin

text \<open>
  What the two translators of Doxygen comments share (\<^verbatim>\<open>Source/Doxygen/doxytranslator.cxx\<close> and the
  walks of \<^verbatim>\<open>pydoc.cxx\<close> and \<^verbatim>\<open>javadoc.cxx\<close>): the node whose comment is translated, the services of
  the rest of the program that the translators call, the tree walk, and the indentation of the result.

  The handlers change the tree they translate (they remove the entities they have used) and the
  state of the translator, and the walk visits every entity a second time and throws the text away, so tree and
  state are threaded through. The walk is recursive; \<open>tree_translate\<close> takes the height of the tree as fuel, and the
  locale \<open>tree_translator\<close> shows that the height is always enough.
\<close>

section \<open>Nodes\<close>

text \<open>A parse tree node as far as the translators look at it: its string attributes, its parameters, and the line
  of its comment; the nodes its attributes \<^verbatim>\<open>sym:overloaded\<close> and \<^verbatim>\<open>defaultargs\<close> refer to are addresses.\<close>

record Node =
  attrs :: "string \<rightharpoonup> string"
  parms :: "(string \<rightharpoonup> string) list"
  doc_line :: int
  sym_overloaded :: "nat option"
  defaultargs :: "nat option"

definition Swig_is_generated_overload :: "Node \<Rightarrow> bool" where
  "Swig_is_generated_overload n \<longleftrightarrow> sym_overloaded n \<noteq> None \<and> defaultargs n \<noteq> None \<and> sym_overloaded n = defaultargs n"

definition GetFlag :: "(string \<rightharpoonup> string) \<Rightarrow> string \<Rightarrow> bool" where
  "GetFlag n name = (case n name of None \<Rightarrow> False | Some v \<Rightarrow> v \<noteq> ''0'')"

definition getDoxygenComment :: "Node \<Rightarrow> string option" where
  "getDoxygenComment node = attrs node ''doxygen''"

definition hasDocumentation :: "Node \<Rightarrow> bool" where
  "hasDocumentation node \<longleftrightarrow> getDoxygenComment node \<noteq> None"

text \<open>The services: the lookup of the typemaps \<^verbatim>\<open>doctype\<close> and \<^verbatim>\<open>jstype\<close>, the C spelling of a type,
  whether a type is a wrapped class, and the last component of a scoped name.\<close>

record services =
  doctype_lookup :: "(string \<rightharpoonup> string) \<Rightarrow> string \<Rightarrow> string option"
  jstype_lookup :: "string \<Rightarrow> string option"
  SwigType_str :: "string \<Rightarrow> string"
  classLookup :: "string \<Rightarrow> bool"
  Swig_scopename_last :: "string \<Rightarrow> string"

section \<open>Strings\<close>

fun replace_all :: "string \<Rightarrow> string \<Rightarrow> string \<Rightarrow> string" where
  \<comment> \<open>what \<^verbatim>\<open>Replaceall\<close> makes of a text, for a token that is not empty\<close>
  "replace_all token rep [] = []"
| "replace_all token rep (c # s) =
     (if token \<noteq> [] \<and> take (length token) (c # s) = token
      then rep @ replace_all token rep (drop (length token - 1) s)
      else c # replace_all token rep s)"

definition extraIndentation :: "string \<Rightarrow> string option \<Rightarrow> string" where
  "extraIndentation comment indentationString =
     (case indentationString of
        None \<Rightarrow> comment
      | Some ind \<Rightarrow>
          let trailing_newline = (comment \<noteq> [] \<and> last comment = CHR 0x0A);
              c = replace_all [CHR 0x0A] (CHR 0x0A # ind) (ind @ comment)
          in if trailing_newline then take (length c - 2) c else c)"

definition getDocumentation :: "(Node \<Rightarrow> 's \<Rightarrow> (string \<times> 's) res) \<Rightarrow> Node \<Rightarrow> string option \<Rightarrow> 's \<Rightarrow> (string \<times> 's) res" where
  \<comment> \<open>the first argument is the virtual function \<^verbatim>\<open>makeDocumentation\<close>\<close>
  "getDocumentation makeDoc node indentationString st =
     (if \<not> hasDocumentation node then Inr ([], st)
      else map_sum id (\<lambda>(d, st1). (extraIndentation d indentationString, st1)) (makeDoc node st))"

definition find_last_not_of :: "char list \<Rightarrow> string \<Rightarrow> nat option" where
  "find_last_not_of cs s =
     (let n = length (dropWhile (\<lambda>c. c \<in> set cs) (rev s)) in if n = 0 then None else Some (n - 1))"

section \<open>The walk\<close>

definition with_list :: "DoxygenEntity \<Rightarrow> DoxygenEntity list \<Rightarrow> DoxygenEntity" where
  "with_list e es = DoxygenEntity (typeOfEntity e) (data e) (isLeaf e) es"

definition pop_front :: "DoxygenEntity \<Rightarrow> DoxygenEntity res" where
  \<comment> \<open>on an empty list the behaviour is undefined\<close>
  "pop_front e = (case entityList e of [] \<Rightarrow> Inl Undefined | _ # es \<Rightarrow> Inr (with_list e es))"

type_synonym 's subtree = "DoxygenEntity \<Rightarrow> 's \<Rightarrow> (string \<times> DoxygenEntity \<times> 's) res"

type_synonym ('a, 's) child = "'s subtree \<Rightarrow> DoxygenEntity \<Rightarrow> 'a \<Rightarrow> 's \<Rightarrow> ('a \<times> DoxygenEntity \<times> 's) res"

text \<open>The loop over the children: each is translated with the handlers, and then its subtree once more.\<close>

fun tree_loop :: "('a, 's) child \<Rightarrow> 's subtree \<Rightarrow> DoxygenEntity list \<Rightarrow> 'a \<Rightarrow> 's \<Rightarrow> ('a \<times> DoxygenEntity list \<times> 's) res" where
  "tree_loop child sub [] a s = Inr (a, [], s)"
| "tree_loop child sub (p # ps) a s =
     res_bind (child sub p a s) (\<lambda>(a1, p1, s1).
     res_bind (sub p1 s1) (\<lambda>(_, p2, s2).
     res_bind (tree_loop child sub ps a1 s2) (\<lambda>(a2, ps2, s3). Inr (a2, p2 # ps2, s3))))"

fun tree_translate :: "('a, 's) child \<Rightarrow> 'a \<Rightarrow> ('a \<Rightarrow> string) \<Rightarrow> nat \<Rightarrow> 's subtree" where
  "tree_translate child a0 out 0 e s = Inl Diverges"
| "tree_translate child a0 out (Suc n) e s =
     (if isLeaf e then Inr ([], e, s)
      else res_bind (tree_loop child (tree_translate child a0 out n) (entityList e) a0 s) (\<lambda>(a, es, s1).
        Inr (out a, with_list e es, s1)))"

fun height :: "DoxygenEntity \<Rightarrow> nat" where
  "height (DoxygenEntity t d leaf es) = Suc (foldr max (map height es) 0)"

fun all_types :: "(string \<Rightarrow> bool) \<Rightarrow> DoxygenEntity \<Rightarrow> bool" where
  "all_types P (DoxygenEntity t d leaf es) \<longleftrightarrow> P t \<and> list_all (all_types P) es"

section \<open>Heights\<close>

abbreviation (input) heights :: "DoxygenEntity list \<Rightarrow> nat" where
  "heights es \<equiv> foldr max (map height es) 0"

lemma height_eq: "height e = Suc (heights (entityList e))"
  by (cases e) simp

lemma all_types_eq: "all_types P e \<longleftrightarrow> P (typeOfEntity e) \<and> list_all (all_types P) (entityList e)"
  by (cases e) simp

lemma with_list_simps [simp]:
  "typeOfEntity (with_list e es) = typeOfEntity e" "data (with_list e es) = data e" "isLeaf (with_list e es) = isLeaf e"
  "entityList (with_list e es) = es"
  by (simp_all add: with_list_def)

lemma heights_le: "heights es \<le> m \<longleftrightarrow> (\<forall>p \<in> set es. height p \<le> m)"
  by (induction es) auto

lemma with_list_shrinks:
  assumes "all_types P e" "set es \<subseteq> set (entityList e)"
  shows "all_types P (with_list e es) \<and> height (with_list e es) \<le> height e"
proof -
  have "heights es \<le> heights (entityList e)" using assms(2) heights_le[of "entityList e"] by (auto simp: heights_le[of es])
  then show ?thesis using assms by (auto simp: all_types_eq[of _ "with_list e es"] all_types_eq[of _ e] height_eq list_all_iff)
qed

text \<open>Outcome of a step that may fail with \<open>F\<close> and otherwise keeps the types of the tree in \<open>P\<close> and does not grow it.\<close>

definition shrinks :: "fatal set \<Rightarrow> (string \<Rightarrow> bool) \<Rightarrow> DoxygenEntity \<Rightarrow> ('a \<times> DoxygenEntity \<times> 's) res \<Rightarrow> bool" where
  "shrinks F P e r \<longleftrightarrow> (case r of Inl f \<Rightarrow> f \<in> F | Inr (a, e', s) \<Rightarrow> all_types P e' \<and> height e' \<le> height e)"

lemma shrinks_Inr [simp]: "shrinks F P e (Inr (a, e', s)) \<longleftrightarrow> all_types P e' \<and> height e' \<le> height e"
  by (simp add: shrinks_def)

lemma shrinks_Inl [simp]: "shrinks F P e (Inl f) \<longleftrightarrow> f \<in> F"
  by (simp add: shrinks_def)

lemma shrinks_bind:
  "shrinks F P e1 r \<Longrightarrow> (\<And>a e2 s. all_types P e2 \<Longrightarrow> height e2 \<le> height e1 \<Longrightarrow> shrinks F P e (k (a, e2, s))) \<Longrightarrow> shrinks F P e (res_bind r k)"
  by (cases r) (auto simp: shrinks_def)

locale tree_translator =
  fixes child :: "('a, 's) child" and F :: "fatal set" and P :: "string \<Rightarrow> bool"
  assumes child_shrinks: "all_types P p \<Longrightarrow> (\<And>e s. all_types P e \<Longrightarrow> height e \<le> height p \<Longrightarrow> shrinks F P e (sub e s)) \<Longrightarrow>
    shrinks F P p (child sub p a s)"
begin

lemma loop_shrinks:
  assumes "list_all (all_types P) ps" "\<And>e s. all_types P e \<Longrightarrow> height e \<le> heights ps \<Longrightarrow> shrinks F P e (sub e s)"
  shows "case tree_loop child sub ps a s of Inl f \<Rightarrow> f \<in> F
    | Inr (a', ps', s') \<Rightarrow> list_all (all_types P) ps' \<and> heights ps' \<le> heights ps"
  using assms
proof (induction ps arbitrary: a s)
  case (Cons p ps)
  have c: "shrinks F P p (child sub p a s)" using Cons.prems by (intro child_shrinks) auto
  have IH: "case tree_loop child sub ps a s of Inl f \<Rightarrow> f \<in> F
    | Inr (a', ps', s') \<Rightarrow> list_all (all_types P) ps' \<and> heights ps' \<le> heights ps" for a s
    using Cons by auto
  show ?case
  proof (cases "child sub p a s")
    case (Inr x)
    obtain a1 p1 s1 where x: "x = (a1, p1, s1)" by (cases x)
    then have p1: "all_types P p1" "height p1 \<le> height p" using c Inr by auto
    then have s: "shrinks F P p1 (sub p1 s1)" using Cons.prems(2) by auto
    show ?thesis
    proof (cases "sub p1 s1")
      case I2: (Inr y)
      obtain o2 p2 s2 where y: "y = (o2, p2, s2)" by (cases y)
      then have "all_types P p2" "height p2 \<le> height p" using s I2 p1 by auto
      then show ?thesis using IH[of a1 s2] Inr x I2 y by (auto simp: res_bind_def split: sum.splits)
    qed (use s Inr x in simp)
  qed (use c in simp)
qed simp

lemma translate_shrinks: "all_types P e \<Longrightarrow> height e \<le> n \<Longrightarrow> shrinks F P e (tree_translate child a0 out n e s)"
proof (induction n arbitrary: e s)
  case 0
  then show ?case by (cases e) simp
next
  case (Suc n)
  have "height p \<le> n" if "height p \<le> heights (entityList e)" for p
    using Suc.prems(2) that by (simp add: height_eq)
  then have "case tree_loop child (tree_translate child a0 out n) (entityList e) a0 s of Inl f \<Rightarrow> f \<in> F
    | Inr (a', ps', s') \<Rightarrow> list_all (all_types P) ps' \<and> heights ps' \<le> heights (entityList e)"
    using Suc.prems(1) by (intro loop_shrinks Suc.IH) (auto simp: all_types_eq[of P e])
  then show ?case using Suc.prems(1)
    by (auto simp: shrinks_def height_eq[of e] height_eq[of "with_list e _"] all_types_eq[of P e] all_types_eq[of P "with_list e _"]
      res_bind_def split: sum.splits)
qed

end

section \<open>Indentation\<close>

lemma replace_all_char: "replace_all [c] r s = concat (map (\<lambda>x. if x = c then r else [x]) s)"
  by (induction s) auto

lemma replace_all_line: "c \<notin> set l \<Longrightarrow> replace_all [c] r (l @ s) = l @ replace_all [c] r s"
  by (induction l) auto

text \<open>With an indentation of two characters, the one the callers use, every line of a documentation that ends
  with a line end is indented, and nothing else is added or removed.\<close>

theorem extra_indentation:
  assumes "length ind = 2" "CHR 0x0A \<notin> set ind" "ls \<noteq> []" "\<forall>l \<in> set ls. CHR 0x0A \<notin> set l"
  shows "extraIndentation (concat (map (\<lambda>l. l @ [CHR 0x0A]) ls)) (Some ind) = concat (map (\<lambda>l. ind @ l @ [CHR 0x0A]) ls)"
proof -
  have "ind @ replace_all [CHR 0x0A] (CHR 0x0A # ind) (concat (map (\<lambda>l. l @ [CHR 0x0A]) xs)) = concat (map (\<lambda>l. ind @ l @ [CHR 0x0A]) xs) @ ind"
    if "set xs \<subseteq> set ls" for xs
    using that assms(4) by (induction xs) (auto simp: replace_all_line)
  then have r: "replace_all [CHR 0x0A] (CHR 0x0A # ind) (ind @ concat (map (\<lambda>l. l @ [CHR 0x0A]) ls)) = concat (map (\<lambda>l. ind @ l @ [CHR 0x0A]) ls) @ ind"
    using assms(2) by (simp add: replace_all_line)
  have "concat (map (\<lambda>l. l @ [CHR 0x0A]) ls) \<noteq> [] \<and> last (concat (map (\<lambda>l. l @ [CHR 0x0A]) ls)) = CHR 0x0A"
    using assms(3) by (cases ls rule: rev_cases) simp_all
  then show ?thesis using assms(1) unfolding extraIndentation_def option.case Let_def r by simp
qed

theorem extra_indentation_witness:
  "extraIndentation (''/**'' @ [CHR 0x0A] @ '' */'' @ [CHR 0x0A]) (Some ''  '') = ''  /**'' @ [CHR 0x0A] @ ''   */'' @ [CHR 0x0A]"
  using extra_indentation[of "''  ''" "[''/**'', '' */'']"] by simp

end
