(* ===== verification/Doxy_PyDoc.thy ===== *)
theory Doxy_PyDoc
  imports Doxy_Translator
begin

text \<open>
  The translator of Doxygen comments to Python documentation (\<^verbatim>\<open>Source/Doxygen/pydoc.cxx\<close>). A handler takes the walk
  of the subtree, the entity, the text so far, the argument of the handler table and the state of the converter,
  and returns the new text, the entity as it leaves it, and the new state. A call the C++ library leaves undefined
  (\<^verbatim>\<open>pop_front\<close> of an empty list) is \<open>Undefined\<close>; the comparison of a missing parameter name with a string
  is \<open>NullDeref\<close>.
\<close>

section \<open>State and text helpers\<close>

record PyDocConverter =
  m_indent :: string
  m_tableLineLen :: nat
  m_prevRowIsTH :: bool
  m_url :: string

abbreviation (input) NL :: char where "NL \<equiv> CHR 0x0A"

definition Level :: string where
  "Level = ''    ''"

text \<open>\<^verbatim>\<open>IndentGuard\<close>: what its constructor records of the text, and what its destructor does to text and state.\<close>

definition getFirstLineIndent :: "string \<Rightarrow> string" where
  "getFirstLineIndent output =
     replicate (case find_last_not_of '' '' output of
         None \<Rightarrow> length output
       | Some i \<Rightarrow> if output ! i = NL then length output - (i + 1) else 0) (CHR '' '')"

definition guard_begin :: "PyDocConverter \<Rightarrow> PyDocConverter" where
  "guard_begin st = st\<lparr>m_indent := Level\<rparr>"

definition guard_end :: "string \<times> DoxygenEntity \<times> PyDocConverter \<Rightarrow> (string \<times> DoxygenEntity \<times> PyDocConverter) res" where
  "guard_end r = (case r of (output, e, st) \<Rightarrow>
     let start = length output - length Level in
     Inr (if length output > length Level \<and> drop start output = Level then take start output else output,
          e, st\<lparr>m_indent := []\<rparr>))"

fun indent_loop :: "nat option \<Rightarrow> string \<Rightarrow> nat option" where
  "indent_loop minIndent [] = minIndent"
| "indent_loop minIndent (c # s) =
     (let lineEnd = find_first_of [NL] (c # s) 0;
          firstNonSpace = find_first_not_of '' '' (c # s) 0;
          m = (case firstNonSpace of
                 None \<Rightarrow> minIndent
               | Some f \<Rightarrow> if (case lineEnd of None \<Rightarrow> True | Some e \<Rightarrow> f < e)
                          then (case minIndent of None \<Rightarrow> Some f | Some i \<Rightarrow> Some (if f < i then f else i))
                          else minIndent)
      in case lineEnd of None \<Rightarrow> m | Some e \<Rightarrow> indent_loop m (drop e s))"

definition determineIndent :: "string \<Rightarrow> nat option" where
  \<comment> \<open>\<open>None\<close> is the largest \<^verbatim>\<open>size_t\<close>\<close>
  "determineIndent s = indent_loop None s"

definition trimWhitespace :: "string \<Rightarrow> string" where
  "trimWhitespace s = (case find_last_not_of '' '' s of None \<Rightarrow> [] | Some i \<Rightarrow> take (i + 1) s)"

section \<open>Handlers\<close>

type_synonym py_result = "(string \<times> DoxygenEntity \<times> PyDocConverter) res"
type_synonym py_handler = "PyDocConverter subtree \<Rightarrow> DoxygenEntity \<Rightarrow> string \<Rightarrow> string \<Rightarrow> PyDocConverter \<Rightarrow> py_result"

definition getPyDocType :: "services \<Rightarrow> (string \<rightharpoonup> string) \<Rightarrow> string \<Rightarrow> string" where
  "getPyDocType sv n lname =
     (case (case doctype_lookup sv n lname of Some s \<Rightarrow> Some s | None \<Rightarrow> map_option (SwigType_str sv) (n ''type'')) of
        None \<Rightarrow> []
      | Some s \<Rightarrow> if classLookup sv s then '':py:class:'' @ [CHR 0x60] @ Swig_scopename_last sv s @ [CHR 0x60] else s)"

fun getParamType :: "services \<Rightarrow> (string \<rightharpoonup> string) list \<Rightarrow> string \<Rightarrow> string res" where
  "getParamType sv [] param = Inr []"
| "getParamType sv (p # ps) param =
     (case p ''name'' of
        None \<Rightarrow> Inl NullDeref
      | Some pname \<Rightarrow> if pname \<noteq> param then getParamType sv ps param else Inr (getPyDocType sv p pname))"

definition handleParagraph :: py_handler where
  "handleParagraph sub tag translatedComment arg st =
     res_bind (sub tag st) (\<lambda>(t, tag1, st1). Inr (translatedComment @ t, tag1, st1))"

definition handleTagVerbatim :: "DoxygenEntity \<Rightarrow> string \<Rightarrow> string \<Rightarrow> string" where
  "handleTagVerbatim tag translatedComment arg = translatedComment @ arg @ '' '' @ concat (map data (entityList tag))"

definition strip :: "char list \<Rightarrow> string \<Rightarrow> string" where
  \<comment> \<open>the characters from the first to the last that is not in the list\<close>
  "strip cs s =
     (case (find_first_not_of cs s 0, find_last_not_of cs s) of (Some i, Some j) \<Rightarrow> drop i (take (j + 1) s) | _ \<Rightarrow> [])"

definition handleMath :: py_handler where
  "handleMath sub tag translatedComment arg st =
     (let inlineFormula = (typeOfEntity tag = ''f$'');
          formula = strip [CHR '' '', CHR 0x09, NL] (handleTagVerbatim tag [] arg)
      in if inlineFormula
         then Inr (translatedComment @ '':math:'' @ [CHR 0x60] @ filter (\<lambda>c. c \<noteq> NL) formula @ [CHR 0x60], tag, st)
         else let formulaIndent = getFirstLineIndent translatedComment;
                  st1 = guard_begin st;
                  formulaNL = [NL] @ formulaIndent @ m_indent st1;
                  t = trimWhitespace translatedComment @ [NL] @ formulaIndent @ ''.. math::'' @ [NL] @ formulaNL
              in guard_end (t @ concat (map (\<lambda>c. if c = NL then formulaNL else [c]) formula) @ [NL], tag, st1))"

definition handleCode :: py_handler where
  "handleCode sub tag translatedComment arg st =
     (let firstIndent = getFirstLineIndent translatedComment;
          st1 = guard_begin st;
          codeIndent = firstIndent @ m_indent st1;
          t = trimWhitespace translatedComment @ [NL] @ firstIndent @ ''.. code-block:: c++'' @ [NL, NL];
          code = handleTagVerbatim tag [] arg;
          t1 = foldl (\<lambda>t c. if c = NL then trimWhitespace t @ [NL] @ codeIndent else t @ [c]) (t @ codeIndent) code;
          t2 = trimWhitespace t1
      in guard_end (if last t2 \<noteq> NL then t2 @ [NL] else t2, tag, st1))"

definition handlePlainString :: py_handler where
  "handlePlainString sub tag translatedComment arg st = Inr (translatedComment @ data tag, tag, st)"

definition handleTagMessage :: py_handler where
  "handleTagMessage sub tag translatedComment arg st = handleParagraph sub tag (translatedComment @ arg) [] st"

definition handleTagChar :: py_handler where
  "handleTagChar sub tag translatedComment arg st = Inr (translatedComment @ typeOfEntity tag, tag, st)"

definition handleTagIf :: py_handler where
  "handleTagIf sub tag translatedComment arg st =
     (case entityList tag of
        [] \<Rightarrow> Inr (translatedComment @ arg, tag, st)
      | e # es \<Rightarrow> res_bind (sub (with_list tag es) st) (\<lambda>(t, tag1, st1).
          Inr (translatedComment @ arg @ data e @ '' {'' @ t @ ''}'', tag1, st1)))"

definition handleTagPar :: py_handler where
  "handleTagPar sub tag translatedComment arg st =
     (let t = translatedComment @ ''Title: '' @ (case entityList tag of [] \<Rightarrow> [] | e # _ \<Rightarrow> data e) in
      res_bind (pop_front tag) (\<lambda>tag1. handleParagraph sub tag1 t [] st))"

definition handleTagImage :: py_handler where
  "handleTagImage sub tag translatedComment arg st =
     (case entityList tag of
        _ # e # es \<Rightarrow>
          Inr (translatedComment @ ''Image: '' @ data e @ (case es of [] \<Rightarrow> [] | c # _ \<Rightarrow> ''('' @ data c @ '')''),
               with_list tag es, st)
      | _ \<Rightarrow> Inr (translatedComment, tag, st))"

definition handleTagParam :: "services \<Rightarrow> Node \<Rightarrow> py_handler" where
  "handleTagParam sv currentNode sub tag translatedComment arg st =
     (case entityList tag of
        e # e2 # es \<Rightarrow>
          let firstIndent = getFirstLineIndent translatedComment; paramName = data e in
          res_bind (getParamType sv (parms currentNode) paramName) (\<lambda>paramType.
            let t = (if paramType \<noteq> []
                     then translatedComment @ '':type '' @ paramName @ '': '' @ paramType @ [NL] @ firstIndent
                     else translatedComment) @ '':param '' @ paramName @ '':''
            in res_bind (handleParagraph sub (with_list tag (e2 # es)) t [] (guard_begin st)) guard_end)
      | _ \<Rightarrow> Inr (translatedComment, tag, st))"

definition handleTagReturn :: "services \<Rightarrow> Node \<Rightarrow> py_handler" where
  "handleTagReturn sv currentNode sub tag translatedComment arg st =
     (let pytype = getPyDocType sv (attrs currentNode) [];
          t = (if pytype \<noteq> []
               then translatedComment @ '':rtype: '' @ pytype @ [NL] @ getFirstLineIndent translatedComment
               else translatedComment) @ '':return: ''
      in res_bind (handleParagraph sub tag t [] (guard_begin st)) guard_end)"

definition handleTagException :: py_handler where
  "handleTagException sub tag translatedComment arg st =
     res_bind (handleParagraph sub tag (translatedComment @ '':raises: '') [] (guard_begin st)) guard_end"

definition handleTagRef :: py_handler where
  "handleTagRef sub tag translatedComment arg st =
     (case entityList tag of
        [] \<Rightarrow> Inr (translatedComment, tag, st)
      | anchor # es \<Rightarrow>
          Inr (translatedComment @ [CHR 0x27] @ (case es of [] \<Rightarrow> data anchor | e # _ \<Rightarrow> data e) @ [CHR 0x27], with_list tag es, st))"

definition handleTagWrap :: py_handler where
  "handleTagWrap sub tag translatedComment arg st =
     (if entityList tag = [] then Inr (translatedComment, tag, st)
      else res_bind (sub tag st) (\<lambda>(tagData, tag1, st1).
        Inr (case find_last_not_of [NL, CHR 0x09, CHR '' ''] tagData of
               Some wsPos \<Rightarrow>
                 if wsPos \<noteq> length tagData - 1
                 then translatedComment @ arg @ take (wsPos + 1) tagData @ arg @ drop (wsPos + 1) tagData
                 else translatedComment @ arg @ tagData @ arg
             | None \<Rightarrow> translatedComment @ arg @ tagData @ arg, tag1, st1)))"

definition handleDoxyHtmlTag :: py_handler where
  "handleDoxyHtmlTag sub tag translatedComment arg st =
     Inr (if data tag = ''/'' then translatedComment else translatedComment @ arg @ data tag, tag, st)"

definition handleDoxyHtmlTagNoParam :: py_handler where
  "handleDoxyHtmlTagNoParam sub tag translatedComment arg st =
     Inr (if data tag = ''/'' then translatedComment else translatedComment @ arg, tag, st)"

definition handleDoxyHtmlTag_A :: py_handler where
  "handleDoxyHtmlTag_A sub tag translatedComment arg st =
     (if data tag = ''/'' then Inr (translatedComment @ '' ('' @ m_url st @ '')'', tag, st\<lparr>m_url := []\<rparr>)
      else Inr (translatedComment @ arg, tag,
             st\<lparr>m_url := (case find_first_of ''='' (data tag) 0 of None \<Rightarrow> [] | Some pos \<Rightarrow> drop (pos + 1) (data tag))\<rparr>))"

definition handleDoxyHtmlTag2 :: py_handler where
  "handleDoxyHtmlTag2 sub tag translatedComment arg st = Inr (translatedComment @ arg, tag, st)"

definition rfind :: "char \<Rightarrow> string \<Rightarrow> nat option" where
  "rfind c s = (let n = length (dropWhile (\<lambda>x. x \<noteq> c) (rev s)) in if n = 0 then None else Some (n - 1))"

definition handleDoxyHtmlTag_tr :: py_handler where
  "handleDoxyHtmlTag_tr sub tag translatedComment arg st =
     (let nlPos = rfind NL translatedComment in
      if data tag = ''/''
      then let t = translatedComment @ ''|'' in
           Inr (t, tag,
             case nlPos of
               None \<Rightarrow> st
             | Some p \<Rightarrow> (case find_first_not_of BLANKS t (p + 1) of None \<Rightarrow> st | Some q \<Rightarrow> st\<lparr>m_tableLineLen := length t - q\<rparr>))
      else if m_prevRowIsTH st
      then Inr (translatedComment @ replicate (m_tableLineLen st) (CHR ''-'') @ [NL] @
                (case nlPos of None \<Rightarrow> [] | Some p \<Rightarrow> replicate (length translatedComment - p - 1) (CHR '' '')), tag,
                st\<lparr>m_prevRowIsTH := False\<rparr>)
      else Inr (translatedComment, tag, st))"

definition handleDoxyHtmlTag_th :: py_handler where
  "handleDoxyHtmlTag_th sub tag translatedComment arg st =
     (if data tag = ''/'' then Inr (translatedComment, tag, st)
      else Inr (translatedComment @ ''|'', tag, st\<lparr>m_prevRowIsTH := True\<rparr>))"

definition handleDoxyHtmlTag_td :: py_handler where
  "handleDoxyHtmlTag_td sub tag translatedComment arg st =
     Inr (if data tag = ''/'' then translatedComment else translatedComment @ ''|'', tag, st)"

definition handleHtmlEntity :: py_handler where
  "handleHtmlEntity sub tag translatedComment arg st = Inr (translatedComment @ arg, tag, st)"

definition handleNewLine :: py_handler where
  "handleNewLine sub tag translatedComment arg st = Inr (trimWhitespace translatedComment @ [NL] @ m_indent st, tag, st)"

section \<open>Tables\<close>

datatype tagHandler =
    PyTagWrap | PyTagChar | PyParagraph | PyCode | PyTagException | PyTagMessage | PyTagIf | PyTagImage | PyTagPar
  | PyTagParam | PyTagRef | PyTagReturn | PyPlainString | PyNewLine | PyMath | PyDoxyHtmlTag_A | PyDoxyHtmlTag2
  | PyDoxyHtmlTag | PyDoxyHtmlTagNoParam | PyDoxyHtmlTag_td | PyDoxyHtmlTag_th | PyDoxyHtmlTag_tr | PyHtmlEntity

definition sectionTitles :: "(string \<times> string) list" where
  "sectionTitles = [
     (''author'', ''Author: ''),
     (''authors'', ''Authors: ''),
     (''copyright'', ''Copyright: ''),
     (''deprecated'', ''Deprecated: ''),
     (''example'', ''Example: ''),
     (''note'', ''Notes: ''),
     (''remark'', ''Remarks: ''),
     (''remarks'', ''Remarks: ''),
     (''warning'', ''Warning: ''),
     (''since'', ''Since: ''),
     (''todo'', ''TODO: ''),
     (''version'', ''Version: '')]"

definition tagHandlers :: "(string \<times> tagHandler \<times> string) list" where
  "tagHandlers = [
     (''a'', PyTagWrap, ''*''),
     (''b'', PyTagWrap, ''**''),
     (''c'', PyTagWrap, [CHR 0x60] @ [CHR 0x60]),
     (''cite'', PyTagWrap, [CHR 0x27]),
     (''e'', PyTagWrap, ''*''),
     (''$'', PyTagChar, []),
     (''@'', PyTagChar, []),
     ([CHR 0x5C], PyTagChar, []),
     (''<'', PyTagChar, []),
     (''>'', PyTagChar, []),
     (''&'', PyTagChar, []),
     (''#'', PyTagChar, []),
     (''%'', PyTagChar, []),
     (''~'', PyTagChar, []),
     ([CHR 0x22], PyTagChar, []),
     (''.'', PyTagChar, []),
     (''::'', PyTagChar, []),
     (''attention'', PyParagraph, []),
     (''author'', PyParagraph, []),
     (''authors'', PyParagraph, []),
     (''brief'', PyParagraph, []),
     (''bug'', PyParagraph, []),
     (''code'', PyCode, []),
     (''copyright'', PyParagraph, []),
     (''date'', PyParagraph, []),
     (''deprecated'', PyParagraph, []),
     (''details'', PyParagraph, []),
     (''em'', PyParagraph, '' ''),
     (''example'', PyParagraph, []),
     (''exception'', PyTagException, []),
     (''throw'', PyTagException, []),
     (''throws'', PyTagException, []),
     (''htmlonly'', PyParagraph, []),
     (''invariant'', PyParagraph, []),
     (''latexonly'', PyParagraph, []),
     (''link'', PyParagraph, []),
     (''manonly'', PyParagraph, []),
     (''note'', PyParagraph, []),
     (''p'', PyParagraph, []),
     (''partofdescription'', PyParagraph, []),
     (''rtfonly'', PyParagraph, []),
     (''remark'', PyParagraph, []),
     (''remarks'', PyParagraph, []),
     (''sa'', PyTagMessage, ''See also: ''),
     (''see'', PyTagMessage, ''See also: ''),
     (''since'', PyParagraph, []),
     (''short'', PyParagraph, []),
     (''todo'', PyParagraph, []),
     (''version'', PyParagraph, []),
     (''verbatim'', PyParagraph, []),
     (''warning'', PyParagraph, []),
     (''xmlonly'', PyParagraph, []),
     (''arg'', PyTagMessage, ''* ''),
     (''cond'', PyTagMessage, ''Conditional comment: ''),
     (''else'', PyTagIf, ''Else: ''),
     (''elseif'', PyTagIf, ''Else if: ''),
     (''endcond'', PyTagMessage, ''End of conditional comment.''),
     (''if'', PyTagIf, ''If: ''),
     (''ifnot'', PyTagIf, ''If not: ''),
     (''image'', PyTagImage, []),
     (''li'', PyTagMessage, ''* ''),
     (''overload'', PyTagMessage, ''This is an overloaded member function, provided for convenience.'' @ [CHR 0x0A] @ ''It differs from the above function only in what argument(s) it accepts.''),
     (''par'', PyTagPar, []),
     (''param'', PyTagParam, []),
     (''tparam'', PyTagParam, []),
     (''ref'', PyTagRef, []),
     (''result'', PyTagReturn, []),
     (''return'', PyTagReturn, []),
     (''returns'', PyTagReturn, []),
     (''plainstd::string'', PyPlainString, []),
     (''plainstd::endl'', PyNewLine, []),
     (''n'', PyNewLine, []),
     (''f$'', PyMath, []),
     (''f['', PyMath, []),
     (''f{'', PyMath, []),
     (''<a'', PyDoxyHtmlTag_A, []),
     (''<b'', PyDoxyHtmlTag2, ''**''),
     (''<blockquote'', PyDoxyHtmlTag_A, ''Quote: ''),
     (''<body'', PyDoxyHtmlTag, []),
     (''<br'', PyDoxyHtmlTag, [CHR 0x0A]),
     (''<center'', PyDoxyHtmlTag, []),
     (''<caption'', PyDoxyHtmlTag, []),
     (''<code'', PyDoxyHtmlTag2, [CHR 0x60] @ [CHR 0x60]),
     (''<dl'', PyDoxyHtmlTag, []),
     (''<dd'', PyDoxyHtmlTag, ''    ''),
     (''<dt'', PyDoxyHtmlTag, []),
     (''<dfn'', PyDoxyHtmlTag, []),
     (''<div'', PyDoxyHtmlTag, []),
     (''<em'', PyDoxyHtmlTag2, ''**''),
     (''<form'', PyDoxyHtmlTag, []),
     (''<hr'', PyDoxyHtmlTag, ''--------------------------------------------------------------------'' @ [CHR 0x0A]),
     (''<h1'', PyDoxyHtmlTag, ''# ''),
     (''<h2'', PyDoxyHtmlTag, ''## ''),
     (''<h3'', PyDoxyHtmlTag, ''### ''),
     (''<i'', PyDoxyHtmlTag2, ''*''),
     (''<input'', PyDoxyHtmlTag, []),
     (''<img'', PyDoxyHtmlTag, ''Image:''),
     (''<li'', PyDoxyHtmlTag, ''* ''),
     (''<meta'', PyDoxyHtmlTag, []),
     (''<multicol'', PyDoxyHtmlTag, []),
     (''<ol'', PyDoxyHtmlTag, []),
     (''<p'', PyDoxyHtmlTag, [CHR 0x0A]),
     (''<pre'', PyDoxyHtmlTag, []),
     (''<small'', PyDoxyHtmlTag, []),
     (''<span'', PyDoxyHtmlTag2, [CHR 0x27]),
     (''<strong'', PyDoxyHtmlTag2, ''**''),
     (''<sub'', PyDoxyHtmlTag, '' ''),
     (''<sup'', PyDoxyHtmlTag, '' ''),
     (''<table'', PyDoxyHtmlTagNoParam, []),
     (''<td'', PyDoxyHtmlTag_td, []),
     (''<th'', PyDoxyHtmlTag_th, []),
     (''<tr'', PyDoxyHtmlTag_tr, []),
     (''<tt'', PyDoxyHtmlTag, []),
     (''<kbd'', PyDoxyHtmlTag, []),
     (''<ul'', PyDoxyHtmlTag, []),
     (''<var'', PyDoxyHtmlTag2, ''*''),
     (''&copy'', PyHtmlEntity, ''(C)''),
     (''&trade'', PyHtmlEntity, '' TM''),
     (''&reg'', PyHtmlEntity, ''(R)''),
     (''&lt'', PyHtmlEntity, ''<''),
     (''&gt'', PyHtmlEntity, ''>''),
     (''&amp'', PyHtmlEntity, ''&''),
     (''&apos'', PyHtmlEntity, [CHR 0x27]),
     (''&quot'', PyHtmlEntity, [CHR 0x22]),
     (''&lsquo'', PyHtmlEntity, [CHR 0x60]),
     (''&rsquo'', PyHtmlEntity, [CHR 0x27]),
     (''&ldquo'', PyHtmlEntity, [CHR 0x22]),
     (''&rdquo'', PyHtmlEntity, [CHR 0x22]),
     (''&ndash'', PyHtmlEntity, ''-''),
     (''&mdash'', PyHtmlEntity, ''--''),
     (''&nbsp'', PyHtmlEntity, '' ''),
     (''&times'', PyHtmlEntity, ''x''),
     (''&minus'', PyHtmlEntity, ''-''),
     (''&sdot'', PyHtmlEntity, ''.''),
     (''&sim'', PyHtmlEntity, ''~''),
     (''&le'', PyHtmlEntity, ''<=''),
     (''&ge'', PyHtmlEntity, ''>=''),
     (''&larr'', PyHtmlEntity, ''<--''),
     (''&rarr'', PyHtmlEntity, ''-->'')]"

section \<open>The walk\<close>

definition call_handler :: "services \<Rightarrow> Node \<Rightarrow> tagHandler \<Rightarrow> py_handler" where
  "call_handler sv currentNode h = (case h of
       PyTagWrap \<Rightarrow> handleTagWrap | PyTagChar \<Rightarrow> handleTagChar | PyParagraph \<Rightarrow> handleParagraph | PyCode \<Rightarrow> handleCode
     | PyTagException \<Rightarrow> handleTagException | PyTagMessage \<Rightarrow> handleTagMessage | PyTagIf \<Rightarrow> handleTagIf
     | PyTagImage \<Rightarrow> handleTagImage | PyTagPar \<Rightarrow> handleTagPar | PyTagParam \<Rightarrow> handleTagParam sv currentNode
     | PyTagRef \<Rightarrow> handleTagRef | PyTagReturn \<Rightarrow> handleTagReturn sv currentNode | PyPlainString \<Rightarrow> handlePlainString
     | PyNewLine \<Rightarrow> handleNewLine | PyMath \<Rightarrow> handleMath | PyDoxyHtmlTag_A \<Rightarrow> handleDoxyHtmlTag_A
     | PyDoxyHtmlTag2 \<Rightarrow> handleDoxyHtmlTag2 | PyDoxyHtmlTag \<Rightarrow> handleDoxyHtmlTag
     | PyDoxyHtmlTagNoParam \<Rightarrow> handleDoxyHtmlTagNoParam | PyDoxyHtmlTag_td \<Rightarrow> handleDoxyHtmlTag_td
     | PyDoxyHtmlTag_th \<Rightarrow> handleDoxyHtmlTag_th | PyDoxyHtmlTag_tr \<Rightarrow> handleDoxyHtmlTag_tr | PyHtmlEntity \<Rightarrow> handleHtmlEntity)"

definition translateEntity :: "services \<Rightarrow> Node \<Rightarrow> PyDocConverter subtree \<Rightarrow> DoxygenEntity \<Rightarrow> string \<Rightarrow> PyDocConverter \<Rightarrow> py_result" where
  "translateEntity sv currentNode sub e translatedComment st =
     (case map_of tagHandlers (typeOfEntity e) of
        None \<Rightarrow> Inr (translatedComment, e, st)
      | Some (h, arg) \<Rightarrow> call_handler sv currentNode h sub e translatedComment arg st)"

text \<open>The body of the loop, on the current section and the text; a title is printed when the section changes.\<close>

definition translate_child :: "services \<Rightarrow> Node \<Rightarrow> (string \<times> string, PyDocConverter) child" where
  "translate_child sv currentNode sub p acc st =
     (case acc of (currentSection, translatedComment) \<Rightarrow>
        let (section, t) = (case map_of sectionTitles (typeOfEntity p) of
               None \<Rightarrow> (currentSection, translatedComment)
             | Some title \<Rightarrow> if title \<noteq> currentSection then (title, translatedComment @ title) else (currentSection, translatedComment))
        in res_bind (translateEntity sv currentNode sub p t st) (\<lambda>(t1, p1, st1). Inr ((section, t1), p1, st1)))"

definition translateSubtree :: "services \<Rightarrow> Node \<Rightarrow> DoxygenEntity \<Rightarrow> PyDocConverter \<Rightarrow> py_result" where
  "translateSubtree sv currentNode e st = tree_translate (translate_child sv currentNode) ([], []) snd (height e) e st"

section \<open>Documentation of a node\<close>

definition one_doc :: "services \<Rightarrow> Node \<Rightarrow> string \<Rightarrow> DoxygenParser \<times> PyDocConverter \<Rightarrow> (string \<times> DoxygenParser \<times> PyDocConverter) res" where
  "one_doc sv n documentation sts = (case sts of (ps, st) \<Rightarrow>
     if GetFlag (attrs n) ''feature:doxygen:notranslate''
     then Inr (replace_all ([NL] @ '' *'') [NL] documentation, ps, st)
     else res_bind (createTree documentation (doc_line n) (ps\<lparr>m_node := attrs n\<rparr>)) (\<lambda>(l, ps1).
          res_bind (translateSubtree sv n (entityN ''root'' l) st) (\<lambda>(t, _, st1). Inr (t, ps1, st1))))"

fun overload_docs :: "services \<Rightarrow> Node list \<Rightarrow> DoxygenParser \<times> PyDocConverter \<Rightarrow> (string list \<times> DoxygenParser \<times> PyDocConverter) res" where
  "overload_docs sv [] sts = Inr ([], sts)"
| "overload_docs sv (n # ns) sts =
     (case getDoxygenComment n of
        Some documentation \<Rightarrow>
          if Swig_is_generated_overload n then overload_docs sv ns sts
          else res_bind (one_doc sv n documentation sts) (\<lambda>(oneDoc, sts1).
               res_bind (overload_docs sv ns sts1) (\<lambda>(ds, sts2). Inr (oneDoc # ds, sts2)))
      | None \<Rightarrow> overload_docs sv ns sts)"

definition min_indent :: "string list \<Rightarrow> nat option" where
  "min_indent docs = foldl (\<lambda>m d. case determineIndent d of
       None \<Rightarrow> m | Some i \<Rightarrow> (case m of None \<Rightarrow> Some i | Some j \<Rightarrow> Some (if i < j then i else j))) None docs"

fun decimal :: "nat \<Rightarrow> string" where
  "decimal n = (if n < 10 then [char_of (48 + n)] else decimal (n div 10) @ [char_of (48 + n mod 10)])"

definition concat_docs :: "string list \<Rightarrow> string" where
  "concat_docs docs =
     (let indentStr = (case min_indent docs of None \<Rightarrow> [] | Some i \<Rightarrow> replicate i (CHR '' '')) in
      concat (map (\<lambda>(k, d). (if k \<noteq> 0 then [NL] @ indentStr @ ''|'' @ [NL, NL] else []) @
                    indentStr @ ''*Overload '' @ decimal (k + 1) @ '':*'' @ [NL] @ trimWhitespace d) (enumerate 0 docs)))"

text \<open>\<open>overloads\<close>: for an overloaded node all declarations of its chain from the first one on.\<close>

definition makeDocumentation :: "services \<Rightarrow> Node list option \<Rightarrow> Node \<Rightarrow> DoxygenParser \<times> PyDocConverter \<Rightarrow>
    (string \<times> DoxygenParser \<times> PyDocConverter) res" where
  "makeDocumentation sv overloads n sts =
     map_sum id (\<lambda>(s, sts1). (if s \<noteq> [] \<and> last s = NL then butlast s else s, sts1))
       (case overloads of
          Some ns \<Rightarrow> res_bind (overload_docs sv ns sts) (\<lambda>(docs, sts1).
            Inr (case docs of [] \<Rightarrow> [] | [d] \<Rightarrow> d | _ \<Rightarrow> concat_docs docs, sts1))
        | None \<Rightarrow> (case getDoxygenComment n of None \<Rightarrow> Inr ([], sts) | Some documentation \<Rightarrow> one_doc sv n documentation sts))"

section \<open>The walk ends\<close>

definition named :: "Node \<Rightarrow> bool" where
  "named n \<longleftrightarrow> list_all (\<lambda>p. p ''name'' \<noteq> None) (parms n)"

lemma getParamType_Inl: "getParamType sv ps x = Inl f \<Longrightarrow> f = NullDeref \<and> \<not> list_all (\<lambda>p. p ''name'' \<noteq> None) ps"
  by (induction ps) (auto split: option.splits if_splits)

lemma guard_end_Inr: "guard_end (t, e, st) = Inr (t', e', st') \<Longrightarrow> e' = e \<and> m_indent st' = []"
  by (auto simp: guard_end_def Let_def)

lemma shrinks_guard_end: "all_types P e' \<Longrightarrow> height e' \<le> height e \<Longrightarrow> shrinks F P e (guard_end (t, e', st))"
  by (simp add: guard_end_def Let_def)

lemma handleParagraph_shrinks:
  assumes "\<And>e s. all_types P e \<Longrightarrow> height e \<le> height p \<Longrightarrow> shrinks F P e (sub e s)" "all_types P e" "height e \<le> height p"
  shows "shrinks F P p (handleParagraph sub e t arg st)"
  unfolding handleParagraph_def using assms by (intro shrinks_bind[OF assms(1)]) auto

lemma guarded_shrinks:
  assumes "\<And>e s. all_types P e \<Longrightarrow> height e \<le> height p \<Longrightarrow> shrinks F P e (sub e s)" "all_types P e" "height e \<le> height p"
  shows "shrinks F P p (res_bind (handleParagraph sub e t arg st) guard_end)"
  using handleParagraph_shrinks[OF assms] by (intro shrinks_bind) (auto intro: shrinks_guard_end)

lemma py_handler_shrinks:
  assumes sub: "\<And>e s. all_types P e \<Longrightarrow> height e \<le> height p \<Longrightarrow> shrinks F P e (sub e s)" and p: "all_types P p"
    and U: "h = PyTagPar \<Longrightarrow> Undefined \<in> F" and N: "named n \<or> NullDeref \<in> F"
  shows "shrinks F P p (call_handler sv n h sub p t arg st)"
proof -
  have para: "shrinks F P p (handleParagraph sub e t arg st)" "shrinks F P p (res_bind (handleParagraph sub e t arg st) guard_end)"
    if "all_types P e" "height e \<le> height p" for e t arg st
    using that handleParagraph_shrinks[of P p F sub e] guarded_shrinks[of P p F sub e] sub by blast+
  have tail: "all_types P (with_list p es) \<and> height (with_list p es) \<le> height p" if "set es \<subseteq> set (entityList p)" for es
    using with_list_shrinks[OF p that] .
  have param: "shrinks F P p (handleTagParam sv n sub p t arg st)"
  proof (cases "\<exists>e x xs. entityList p = e # x # xs")
    case True
    then obtain e x xs where l: "entityList p = e # x # xs" by blast
    have "shrinks F P p (res_bind (handleParagraph sub (with_list p (x # xs)) u [] s) guard_end)" for u s
      using tail[of "x # xs"] l by (intro para(2)) auto
    then show ?thesis using N getParamType_Inl[of sv "parms n" "data e"]
      by (cases "getParamType sv (parms n) (data e)") (auto simp: handleTagParam_def l named_def Let_def)
  qed (use p in \<open>auto simp: handleTagParam_def split: list.splits\<close>)
  have par: "shrinks F P p (handleTagPar sub p t arg st)" if "Undefined \<in> F"
    using that tail by (cases "entityList p") (auto simp: handleTagPar_def pop_front_def Let_def intro!: para(1))
  have cond: "shrinks F P p (handleTagIf sub p t arg st)"
  proof (cases "entityList p")
    case (Cons e es)
    then have "all_types P (with_list p es)" "height (with_list p es) \<le> height p" using tail[of es] by auto
    then show ?thesis using Cons by (auto simp: handleTagIf_def intro!: shrinks_bind[OF sub])
  qed (use p in \<open>simp add: handleTagIf_def\<close>)
  have wrap: "shrinks F P p (handleTagWrap sub p t arg st)"
    using p by (auto simp: handleTagWrap_def intro!: shrinks_bind[OF sub])
  have blocks: "shrinks F P p (handleMath sub p t arg st)" "shrinks F P p (handleCode sub p t arg st)"
    using p by (auto simp: handleMath_def handleCode_def Let_def intro: shrinks_guard_end)
  have others: "shrinks F P p (handleTagImage sub p t arg st)" "shrinks F P p (handleTagRef sub p t arg st)"
    using p conjunct1[OF tail] conjunct2[OF tail]
    by (auto simp: handleTagImage_def handleTagRef_def subset_insertI2 intro!: conjunct1[OF tail] conjunct2[OF tail] split: list.splits)
  show ?thesis
    by (cases h) (use p param par cond wrap blocks others para(1,2)[OF p order_refl] U in
      \<open>simp_all add: call_handler_def handleTagMessage_def handleTagChar_def handleTagException_def handleTagReturn_def
        handlePlainString_def handleNewLine_def handleDoxyHtmlTag_A_def handleDoxyHtmlTag2_def handleDoxyHtmlTag_def
        handleDoxyHtmlTagNoParam_def handleDoxyHtmlTag_td_def handleDoxyHtmlTag_th_def handleDoxyHtmlTag_tr_def
        handleHtmlEntity_def Let_def\<close>)
qed

lemma par_handler: "map_of tagHandlers t = Some (PyTagPar, arg) \<Longrightarrow> t = ''par''"
proof -
  assume "map_of tagHandlers t = Some (PyTagPar, arg)"
  moreover have "list_all (\<lambda>(k, h, a). h = PyTagPar \<longrightarrow> k = ''par'') tagHandlers" by code_simp
  ultimately show ?thesis by (auto simp: list_all_iff dest!: map_of_SomeD)
qed

lemma translate_child_shrinks:
  assumes sub: "\<And>e s. all_types P e \<Longrightarrow> height e \<le> height p \<Longrightarrow> shrinks F P e (sub e s)" and p: "all_types P p"
    and U: "P ''par'' \<Longrightarrow> Undefined \<in> F" and N: "named n \<or> NullDeref \<in> F"
  shows "shrinks F P p (translate_child sv n sub p acc st)"
proof -
  have "shrinks F P p (translateEntity sv n sub p t st)" for t
  proof (cases "map_of tagHandlers (typeOfEntity p)")
    case (Some x)
    obtain h arg where x: "x = (h, arg)" by (cases x)
    have "Undefined \<in> F" if "h = PyTagPar"
      using par_handler[of "typeOfEntity p" arg] Some x that p U by (auto simp: all_types_eq[of _ p])
    then show ?thesis using py_handler_shrinks[OF sub p _ N] Some x by (simp add: translateEntity_def)
  qed (use p in \<open>simp add: translateEntity_def\<close>)
  then have "shrinks F P p (res_bind (translateEntity sv n sub p t st) (\<lambda>(t1, p1, st1). Inr ((sec, t1), p1, st1)))" for t sec
    by (rule shrinks_bind) simp
  then show ?thesis by (auto simp: translate_child_def Let_def split: prod.splits option.splits)
qed

interpretation py_walk: tree_translator "translate_child sv n" "{Undefined, NullDeref}" "\<lambda>_. True" for sv n
  by unfold_locales (rule translate_child_shrinks, auto)

interpretation py_safe: tree_translator "translate_child sv n" "{f. f = NullDeref \<and> \<not> named n}" "\<lambda>t. t \<noteq> ''par''" for sv n
  by unfold_locales (rule translate_child_shrinks, auto)

section \<open>Plain comments\<close>

lemma find_last_not_of_append:
  "find_last_not_of cs (s @ [c]) = (if c \<in> set cs then find_last_not_of cs s else Some (length s))"
  by (simp add: find_last_not_of_def Let_def)

lemma find_last_not_of_less: "find_last_not_of cs s = Some i \<Longrightarrow> i < length s"
proof -
  assume a: "find_last_not_of cs s = Some i"
  define m where "m = length (dropWhile (\<lambda>c. c \<in> set cs) (rev s))"
  have "m \<le> length s" using length_dropWhile_le[of "\<lambda>c. c \<in> set cs" "rev s"] by (simp add: m_def)
  moreover have "m \<noteq> 0" "i = m - 1" using a by (simp_all only: find_last_not_of_def Let_def m_def[symmetric] option.simps if_False if_True not_False_eq_True split: if_splits)
  ultimately show ?thesis by linarith
qed

lemma trimWhitespace_snoc: "trimWhitespace (s @ [c]) = (if c = CHR '' '' then trimWhitespace s else s @ [c])"
proof (cases "c = CHR '' ''")
  case True
  have "find_last_not_of '' '' s = Some i \<Longrightarrow> i < length s" for i by (rule find_last_not_of_less)
  then show ?thesis using True by (auto simp: trimWhitespace_def find_last_not_of_append split: option.splits)
qed (simp add: trimWhitespace_def find_last_not_of_append)

lemma trimWhitespace_Nil [simp]: "trimWhitespace [] = []"
  by (simp add: trimWhitespace_def find_last_not_of_def)

text \<open>After a line end only the new line is trimmed.\<close>

lemma trimWhitespace_append: "a = [] \<or> last a = NL \<Longrightarrow> trimWhitespace (a @ s) = a @ trimWhitespace s"
proof (induction s rule: rev_induct)
  case Nil
  then show ?case
  proof
    assume "last a = NL"
    then show ?thesis using trimWhitespace_snoc[of "butlast a" NL] append_butlast_last_id[of a] by (cases "a = []") simp_all
  qed simp
next
  case (snoc c s)
  then show ?case by (simp add: trimWhitespace_snoc flip: append_assoc)
qed

abbreviation (input) py_str :: "string \<Rightarrow> string \<Rightarrow> string" where "py_str a s \<equiv> a @ s"
abbreviation (input) py_nl :: "string \<Rightarrow> string" where "py_nl a \<equiv> trimWhitespace a @ [NL]"

interpretation py_reader: text_reader "\<lambda>a s. a @ s" "\<lambda>a. trimWhitespace a @ [NL]"
  by unfold_locales simp_all

lemma py_handlers_of:
  "map_of tagHandlers ''plainstd::endl'' = Some (PyNewLine, [])" "map_of tagHandlers ''plainstd::string'' = Some (PyPlainString, [])"
  "map_of tagHandlers ''partofdescription'' = Some (PyParagraph, [])"
  "map_of sectionTitles ''plainstd::endl'' = None" "map_of sectionTitles ''plainstd::string'' = None"
  "map_of sectionTitles ''partofdescription'' = None"
  by code_simp+

lemma py_child_plain:
  "m_indent st = [] \<Longrightarrow> plain_entity e \<Longrightarrow>
   translate_child sv n sub e (sec, a) st = Inr ((sec, read_entity py_str py_nl a e), e, st)"
  by (auto simp: plain_entity_def translate_child_def translateEntity_def entity0_def entity1_def py_handlers_of call_handler_def
      handleNewLine_def handlePlainString_def read_entity_def)

lemma py_plain_leaf: "plain_entity e \<Longrightarrow> isLeaf e"
  by (auto simp: plain_entity_def entity0_def entity1_def)

lemma py_loop_plain:
  "m_indent st = [] \<Longrightarrow> list_all plain_entity l \<Longrightarrow>
   tree_loop (translate_child sv n) (tree_translate (translate_child sv n) a0 out (Suc k)) l (sec, a) st =
   Inr ((sec, foldl (read_entity py_str py_nl) a l), l, st)"
  by (induction l arbitrary: a) (simp_all add: py_child_plain py_plain_leaf)

text \<open>A paragraph is translated on its own and appended; the texts before it end with a line end.\<close>

lemma read_entities_append:
  "a = [] \<or> last a = NL \<Longrightarrow> list_all plain_entity l \<Longrightarrow> foldl (read_entity py_str py_nl) (a @ b) l = a @ foldl (read_entity py_str py_nl) b l"
proof (induction l arbitrary: b)
  case (Cons e l)
  have "read_entity py_str py_nl (a @ b) e = a @ read_entity py_str py_nl b e"
    using Cons.prems by (auto simp: plain_entity_def trimWhitespace_append)
  then show ?case using Cons by simp
qed simp

lemma read_para_last:
  assumes "closed_para l"
  shows "last (foldl (read_entity py_str py_nl) a l) = NL"
proof -
  obtain l1 where "l = l1 @ [plain_endl]" using assms by (metis append_butlast_last_id closed_para_def)
  then show ?thesis by simp
qed

lemma para_translates:
  assumes "m_indent st = []" "closed_para l"
  shows "tree_translate (translate_child sv n) ([], []) snd (Suc (Suc k)) (entityN t l) st =
    Inr (foldl (read_entity py_str py_nl) [] l, entityN t l, st)"
  using py_loop_plain[OF assms(1), of l sv n "([], [])" snd k "[]" "[]"] assms(2)
  by (simp add: closed_para_def with_list_def entityN_def del: tree_translate.simps(2)[of _ _ _ "k"])

lemma height_leaf [simp]: "height (entity0 t) = 1" "height (entity1 t s) = 1"
  by (simp_all add: entity0_def entity1_def)

lemma height_para: "closed_para l \<Longrightarrow> 2 \<le> height (entityN t l)"
  by (cases l) (auto simp: closed_para_def entityN_def height_eq[of "hd l"] height_eq le_max_iff_disj)

lemma child_para:
  assumes "m_indent st = []" "closed_para l" "a = [] \<or> last a = NL"
  shows "translate_child sv n (tree_translate (translate_child sv n) ([], []) snd (Suc (Suc k))) (entityN ''partofdescription'' l) (sec, a) st =
    Inr ((sec, foldl (read_entity py_str py_nl) a l), entityN ''partofdescription'' l, st)"
proof -
  have "foldl (read_entity py_str py_nl) a l = a @ foldl (read_entity py_str py_nl) [] l"
    using read_entities_append[OF assms(3), of l "[]"] assms(2) by (simp add: closed_para_def)
  moreover have "typeOfEntity (entityN ''partofdescription'' l) = ''partofdescription''" by (simp add: entityN_def)
  ultimately show ?thesis using para_translates[OF assms(1,2), of sv n k "''partofdescription''"]
    by (simp add: translate_child_def translateEntity_def py_handlers_of call_handler_def handleParagraph_def del: tree_translate.simps)
qed

lemma root_loop:
  "m_indent st = [] \<Longrightarrow> list_all plain_root l \<Longrightarrow> \<forall>x \<in> set l. height x \<le> k \<Longrightarrow> a = [] \<or> last a = NL \<Longrightarrow>
   tree_loop (translate_child sv n) (tree_translate (translate_child sv n) ([], []) snd k) l (sec, a) st =
   Inr ((sec, foldl (read_root py_str py_nl) a l), l, st)"
proof (induction l arbitrary: a)
  case (Cons x l)
  let ?a = "read_root py_str py_nl a x"
  have "translate_child sv n (tree_translate (translate_child sv n) ([], []) snd k) x (sec, a) st = Inr ((sec, ?a), x, st) \<and>
    (\<exists>t. tree_translate (translate_child sv n) ([], []) snd k x st = Inr (t, x, st)) \<and> last ?a = NL"
  proof (cases "x = plain_endl")
    case True
    then obtain j where "k = Suc j" using Cons.prems(3) by (cases k) auto
    then show ?thesis using True py_child_plain[OF Cons.prems(1), of x] py_plain_leaf[of x] by (simp add: plain_entity_def)
  next
    case False
    then obtain ps where x: "x = entityN ''partofdescription'' ps" "closed_para ps" using Cons.prems(2) by (auto simp: plain_root_def)
    obtain j where k: "k = Suc (Suc j)" using height_para[OF x(2), of "''partofdescription''"] Cons.prems(3) x(1)
      by (metis Suc_le_D list.set_intros(1) numeral_2_eq_2 le_trans Suc_le_mono)
    show ?thesis using child_para[OF Cons.prems(1) x(2) Cons.prems(4), of sv n j sec] para_translates[OF Cons.prems(1) x(2), of sv n j "''partofdescription''"]
        read_para_last[OF x(2), of a] unfolding x(1) k by (simp del: tree_translate.simps)
  qed
  then show ?case using Cons by auto
qed simp

lemma translate_plain:
  assumes "m_indent st = []" "list_all plain_root l"
  shows "translateSubtree sv n (entityN ''root'' l) st = Inr (foldl (read_root py_str py_nl) [] l, entityN ''root'' l, st)"
proof -
  have "height (entityN ''root'' l) = Suc (heights l)" "\<forall>x \<in> set l. height x \<le> heights l"
    using heights_le[of l "heights l"] by (auto simp: entityN_def)
  then show ?thesis using root_loop[OF assms, of "heights l" "[]" sv n "[]"]
    by (simp add: translateSubtree_def) (simp add: entityN_def with_list_def)
qed

section \<open>Properties\<close>


abbreviation py_start :: PyDocConverter where
  "py_start \<equiv> \<lparr>m_indent = [], m_tableLineLen = 0, m_prevRowIsTH = False, m_url = []\<rparr>"

abbreviation plain_services :: services where
  "plain_services \<equiv> \<lparr>doctype_lookup = (\<lambda>_ _. None), jstype_lookup = (\<lambda>t. Some t), SwigType_str = (\<lambda>t. t),
     classLookup = (\<lambda>_. False), Swig_scopename_last = (\<lambda>t. t)\<rparr>"

abbreviation doc_node :: "string \<Rightarrow> Node" where
  "doc_node c \<equiv> \<lparr>attrs = [''doxygen'' \<mapsto> c, ''type'' \<mapsto> ''int''], parms = [[''type'' \<mapsto> ''int'']], doc_line = 1,
     sym_overloaded = None, defaultargs = None\<rparr>"


text \<open>C26: From the comment to the documentation string, through tokenizer, parser and translator: a comment
  without command characters comes out line by line without its decoration and its trailing blanks, and without the
  last line end.\<close>

theorem pydoc_plain_text:
  assumes "getDoxygenComment n = Some c" "\<not> GetFlag (attrs n) ''feature:doxygen:notranslate''"
    "\<forall>l \<in> set (comment_lines c). set l \<inter> COMMANDS = {}" "m_indent st = []"
  shows "\<exists>ps'. makeDocumentation sv None n (ps, st) =
    Inr (butlast (concat (map (\<lambda>l. trimWhitespace (line_text l) @ [NL]) (comment_lines c))), ps', st)"
proof -
  obtain l ps' where l: "createTree c (doc_line n) (ps\<lparr>m_node := attrs n\<rparr>) = Inr (l, ps')" "list_all plain_root l"
    "foldl (read_root py_str py_nl) [] l = foldl (\<lambda>a s. py_nl (py_str a s)) [] (map line_text (comment_lines c))"
    using py_reader.createTree_plain[OF assms(3)] by blast
  have f: "foldl (\<lambda>a s. trimWhitespace (a @ s) @ [NL]) a ls = a @ concat (map (\<lambda>l. trimWhitespace l @ [NL]) ls)" if "a = [] \<or> last a = NL" for a ls
    using that by (induction ls arbitrary: a) (simp_all add: trimWhitespace_append)
  define d where "d = concat (map (\<lambda>l. trimWhitespace (line_text l) @ [NL]) (comment_lines c))"
  have "one_doc sv n c (ps, st) = Inr (d, ps', st)"
    using assms(2) l translate_plain[OF assms(4) l(2), of sv n] f[of "[]" "map line_text (comment_lines c)"]
    by (simp add: one_doc_def d_def comp_def)
  moreover have "d = [] \<or> last d = NL"
    by (cases "comment_lines c" rule: rev_cases) (simp_all add: d_def)
  ultimately show ?thesis using assms(1) by (auto simp: makeDocumentation_def d_def[symmetric])
qed

theorem pydoc_plain_text_witness:
  "\<exists>ps'. makeDocumentation plain_services None (doc_node ('' *  Hello, world.  '' @ [NL] @ ''plain'')) (doxy_start, py_start) =
    Inr ('' Hello, world.'' @ [NL] @ ''plain'', ps', py_start)"
proof -
  let ?c = "'' *  Hello, world.  '' @ [NL] @ ''plain''"
  have l: "comment_lines ?c = ['' *  Hello, world.  '', ''plain'']" by (simp add: comment_lines_def split.simps)
  have "trimWhitespace (line_text '' *  Hello, world.  '') = '' Hello, world.''" "trimWhitespace (line_text ''plain'') = ''plain''"
    by code_simp+
  then show ?thesis using pydoc_plain_text[of "doc_node ?c" ?c py_start plain_services doxy_start]
    unfolding l by (simp add: getDoxygenComment_def GetFlag_def)
qed

definition failed :: "'a res \<Rightarrow> fatal \<Rightarrow> bool" where
  "failed r f = (case r of Inl g \<Rightarrow> g = f | Inr _ \<Rightarrow> False)"

lemma failed_iff: "failed r f \<longleftrightarrow> r = Inl f"
  by (auto simp: failed_def split: sum.splits)

text \<open>The walk translates every subtree a second time and drops the text, and the handlers remove the entities
  they use, so the title of a paragraph inside two conditional blocks is removed four times: on this comment
  an element is removed from an empty list. And a parameter without a name makes the lookup of a documented
  parameter's type compare a null pointer with a string.\<close>

theorem pydoc_undefined:
  "makeDocumentation plain_services None (doc_node (''@if A @if B @par T'' @ [NL] @ ''@endif@endif'')) (doxy_start, py_start) =
     Inl Undefined \<and>
   makeDocumentation plain_services None (doc_node ''* @param x the value'') (doxy_start, py_start) = Inl NullDeref"
proof -
  have "failed (makeDocumentation plain_services None (doc_node (''@if A @if B @par T'' @ [NL] @ ''@endif@endif'')) (doxy_start, py_start)) Undefined"
    by code_simp
  moreover have "failed (makeDocumentation plain_services None (doc_node ''* @param x the value'') (doxy_start, py_start)) NullDeref"
    by code_simp
  ultimately show ?thesis by (simp only: failed_iff)
qed

end
