(* ===== verification/Doxy_JavaDoc.thy ===== *)
theory Doxy_JavaDoc
  imports Doxy_Translator Swig_TypeObj
begin

text \<open>
  The translator of Doxygen comments to Javadoc comments (\<^verbatim>\<open>Source/Doxygen/javadoc.cxx\<close>): its handlers, the
  conversion of links, which builds type strings with the functions of \<^verbatim>\<open>typeobj.c\<close>, the move of line ends out of the
  entities, and the decoration of a comment that is not translated. The converter has no state of its own. A
  type without a \<^verbatim>\<open>jstype\<close> typemap is \<open>NullDeref\<close>.
\<close>

section \<open>Links\<close>

fun link_params :: "string \<Rightarrow> string list option" where
  "link_params paramsStr =
     (let param = takeWhile (\<lambda>c. c \<noteq> CHR '','') paramsStr; others = drop (length param + 1) paramsStr in
      if param = [] then None
      else if others = [] then Some [param]
      else map_option (\<lambda>ps. param # ps) (link_params others))"

definition find_last_of :: "char \<Rightarrow> string \<Rightarrow> nat \<Rightarrow> nat option" where
  \<comment> \<open>the last position up to \<open>pos\<close> that holds the character\<close>
  "find_last_of c s pos = (let n = length (dropWhile (\<lambda>x. x \<noteq> c) (rev (take (pos + 1) s))) in if n = 0 then None else Some (n - 1))"

definition type_name :: "string \<Rightarrow> nat \<Rightarrow> string" where
  \<comment> \<open>the name whose last character is at \<open>j\<close>; the length of the substring wraps around when a blank follows it\<close>
  "type_name paramStr j =
     (let typeNameStart = (case find_last_of CHR '' '' paramStr (j + 1) of None \<Rightarrow> 0 | Some k \<Rightarrow> k + 1) in
      if typeNameStart \<le> j + 1 then take (j + 1 - typeNameStart) (drop typeNameStart paramStr) else drop typeNameStart paramStr)"

lemma find_last_of_less: "find_last_of c s pos = Some k \<Longrightarrow> k \<le> pos \<and> k < length s"
proof -
  assume a: "find_last_of c s pos = Some k"
  define m where "m = length (dropWhile (\<lambda>x. x \<noteq> c) (rev (take (pos + 1) s)))"
  have "m \<le> length (take (pos + 1) s)"
    using length_dropWhile_le[of "\<lambda>x. x \<noteq> c" "rev (take (pos + 1) s)"] by (simp only: m_def length_rev)
  moreover have "m \<noteq> 0 \<and> k = m - 1"
    using a by (simp only: find_last_of_def Let_def m_def[symmetric] option.simps if_False if_True not_False_eq_True simp_thms split: if_splits)
  moreover have "length (take (pos + 1) s) \<le> pos + 1" "length (take (pos + 1) s) \<le> length s" by simp_all
  ultimately show ?thesis by linarith
qed

function (sequential) link_type :: "string \<Rightarrow> nat \<Rightarrow> SwigType \<Rightarrow> SwigType option" where
  \<comment> \<open>the loop over the characters before position \<open>n\<close>, backwards\<close>
  "link_type paramStr 0 swigType = Some swigType"
| "link_type paramStr (Suc j) swigType =
     (if paramStr ! j = CHR '']'' then
        (case find_last_of CHR ''['' paramStr j of
           None \<Rightarrow> None
         | Some k \<Rightarrow> link_type paramStr k (SwigType_add_pointer swigType))
      else if paramStr ! j = CHR ''*'' then link_type paramStr j (SwigType_add_pointer swigType)
      else if paramStr ! j = CHR ''&'' then link_type paramStr j (SwigType_add_reference swigType)
      else if isalnum (paramStr ! j) then Some (swigType @ type_name paramStr j)
      else link_type paramStr j swigType)"
  by pat_completeness auto
termination by (relation "measure (\<lambda>(s, n, t). n)") (auto dest: find_last_of_less)

definition param_type :: "string \<Rightarrow> SwigType option" where
  "param_type paramStr =
     link_type paramStr (length paramStr)
       (if strstr paramStr ''const'' \<noteq> None then SwigType_add_qualifier [] ''const'' else [])"

fun convert_params :: "services \<Rightarrow> string list \<Rightarrow> string option res" where
  "convert_params sv [] = Inr (Some [])"
| "convert_params sv (p # ps) =
     (case param_type p of
        None \<Rightarrow> Inr None
      | Some swigType \<Rightarrow>
          (case jstype_lookup sv swigType of
             None \<Rightarrow> Inl NullDeref
           | Some t \<Rightarrow> map_sum id (map_option (\<lambda>r. t @ (if ps \<noteq> [] then '','' else []) @ r)) (convert_params sv ps)))"

definition convertLink :: "services \<Rightarrow> Node \<Rightarrow> string \<Rightarrow> string res" where
  "convertLink sv currentNode linkObject =
     (if GetFlag (attrs currentNode) ''feature:doxygen:nolinktranslate'' then Inr linkObject
      else case (find_first_of ''('' linkObject 0, find_first_of '')'' linkObject 0) of
             (Some lbracePos, Some rbracePos) \<Rightarrow>
               if lbracePos \<ge> rbracePos then Inr []
               else (case link_params (take (rbracePos - lbracePos - 1) (drop (lbracePos + 1) linkObject)) of
                       None \<Rightarrow> Inr []
                     | Some params \<Rightarrow>
                         map_sum id (\<lambda>r. case r of
                             None \<Rightarrow> []
                           | Some t \<Rightarrow> take lbracePos linkObject @ ''('' @ t @ '')'' @ drop (rbracePos + 1) linkObject) (convert_params sv params))
           | _ \<Rightarrow> Inr [])"

section \<open>Handlers\<close>

type_synonym jd_result = "(string \<times> DoxygenEntity \<times> unit) res"
type_synonym jd_handler = "unit subtree \<Rightarrow> DoxygenEntity \<Rightarrow> string \<Rightarrow> string \<Rightarrow> jd_result"

definition formatCommand :: "string \<Rightarrow> string" where
  \<comment> \<open>the code returns the line before any formatting\<close>
  "formatCommand unformattedLine = unformattedLine"

definition paramExists :: "Node \<Rightarrow> string \<Rightarrow> bool" where
  "paramExists currentNode param \<longleftrightarrow>
     GetFlag (attrs currentNode) ''feature:doxygen:nostripparams'' \<or> list_ex (\<lambda>p. p ''name'' = Some param) (parms currentNode)"

definition sub_text :: "unit subtree \<Rightarrow> DoxygenEntity \<Rightarrow> (string \<Rightarrow> string) \<Rightarrow> jd_result" where
  \<comment> \<open>the text of the subtree, put into its place\<close>
  "sub_text sub tag f = res_bind (sub tag ()) (\<lambda>(t, tag1, _). Inr (f t, tag1, ()))"

definition handleTagAnchor :: jd_handler where
  "handleTagAnchor sub tag translatedComment arg =
     sub_text sub tag (\<lambda>t. translatedComment @ ''<a id='' @ [CHR 0x22] @ t @ [CHR 0x22] @ ''></a>'')"

definition handleTagHtml :: jd_handler where
  "handleTagHtml sub tag translatedComment arg =
     (if entityList tag = [] then Inr (translatedComment, tag, ())
      else res_bind (sub tag ()) (\<lambda>(tagData, tag1, _).
        case find_last_not_of [NL, CHR 0x09, CHR '' ''] tagData of
          Some wsPos \<Rightarrow> Inr (translatedComment @ ''<'' @ arg @ ''>'' @ take (wsPos + 1) tagData @ ''</'' @ arg @ ''>'' @ drop (wsPos + 1) tagData,
                          tag1, ())
        | None \<Rightarrow> sub_text sub tag1 (\<lambda>t. translatedComment @ ''<'' @ arg @ ''>'' @ t @ ''</'' @ arg @ ''> '')))"

definition handleDoxyHtmlTag :: jd_handler where
  "handleDoxyHtmlTag sub tag translatedComment arg =
     Inr (if data tag = ''/'' then translatedComment @ ''</'' @ drop 1 arg @ ''>'' else translatedComment @ arg @ data tag @ ''>'', tag, ())"

definition handleHtmlEntity :: jd_handler where
  "handleHtmlEntity sub tag translatedComment arg = Inr (translatedComment @ arg @ '';'', tag, ())"

definition handleNewLine :: jd_handler where
  "handleNewLine sub tag translatedComment arg = Inr (translatedComment @ ''<br>'' @ [NL] @ '' * '', tag, ())"

definition handleTagChar :: jd_handler where
  "handleTagChar sub tag translatedComment arg = Inr (translatedComment @ (if arg \<noteq> [] then arg else typeOfEntity tag), tag, ())"

definition handleTagSame :: jd_handler where
  "handleTagSame sub tag translatedComment arg =
     (let tag1 = (if arg \<noteq> [] then DoxygenEntity arg (data tag) (isLeaf tag) (entityList tag) else tag) in
      sub_text sub tag1 (\<lambda>t. translatedComment @ formatCommand (''@'' @ typeOfEntity tag1 @ '' '' @ t)))"

definition handleParagraph :: jd_handler where
  "handleParagraph sub tag translatedComment arg = sub_text sub tag (\<lambda>t. translatedComment @ formatCommand t)"

definition handlePlainString :: jd_handler where
  "handlePlainString sub tag translatedComment arg = Inr (translatedComment @ data tag, tag, ())"

definition handleTagVerbatim :: jd_handler where
  "handleTagVerbatim sub tag translatedComment arg = Inr (translatedComment @ arg @ '' '' @ concat (map data (entityList tag)), tag, ())"

definition handleTagExtended :: jd_handler where
  "handleTagExtended sub tag translatedComment arg =
     sub_text sub tag (\<lambda>t. translatedComment @ ''{@'' @ arg @ '' '' @ formatCommand t @ ''}'')"

definition handleTagIf :: jd_handler where
  "handleTagIf sub tag translatedComment arg =
     (case entityList tag of
        [] \<Rightarrow> Inr (translatedComment @ arg, tag, ())
      | e # es \<Rightarrow> sub_text sub (with_list tag es) (\<lambda>t. translatedComment @ arg @ data e @ '' {'' @ t @ ''}''))"

definition handleTagMessage :: jd_handler where
  "handleTagMessage sub tag translatedComment arg = handleParagraph sub tag (translatedComment @ formatCommand arg) []"

definition handleTagImage :: jd_handler where
  "handleTagImage sub tag translatedComment arg =
     (case entityList tag of
        e # file # es \<Rightarrow>
          if data e \<noteq> ''html'' then Inr (translatedComment, tag, ())
          else let title = (case es of [] \<Rightarrow> [] | t # _ \<Rightarrow> data t) in
               Inr (translatedComment @ ''<img src='' @ data file @ (if title \<noteq> [] then '' alt='' @ title else []) @ ''/>'', tag, ())
      | _ \<Rightarrow> Inr (translatedComment, tag, ()))"

definition handleTagPar :: jd_handler where
  "handleTagPar sub tag translatedComment arg =
     (case entityList tag of
        [] \<Rightarrow> Inr (translatedComment @ ''<p</p>'', tag, ())
      | e # es \<Rightarrow> sub_text sub (with_list tag es) (\<lambda>t.
          translatedComment @ ''<p alt='' @ [CHR 0x22] @ data e @ [CHR 0x22] @ ''>'' @ formatCommand t @ ''</p>''))"

definition handleTagParam :: "Node \<Rightarrow> jd_handler" where
  "handleTagParam currentNode sub tag translatedComment arg =
     (case entityList tag of
        [] \<Rightarrow> Inr (translatedComment, tag, ())
      | e # es \<Rightarrow>
          if \<not> paramExists currentNode (data e) then Inr (translatedComment, tag, ())
          else handleParagraph sub (with_list tag es) (translatedComment @ ''@param '' @ data e) [])"

definition handleTagRef :: jd_handler where
  "handleTagRef sub tag translatedComment arg =
     (case entityList tag of
        [] \<Rightarrow> Inr (translatedComment, tag, ())
      | anchor # es \<Rightarrow>
          Inr (translatedComment @ ''<a href='' @ [CHR 0x22] @ ''#'' @ data anchor @ [CHR 0x22] @ ''>'' @
               (case es of [] \<Rightarrow> data anchor | e # _ \<Rightarrow> data e) @ ''</a>'', with_list tag es, ()))"

definition handleTagLink :: "services \<Rightarrow> Node \<Rightarrow> jd_handler" where
  "handleTagLink sv currentNode sub tag translatedComment arg =
     (case entityList tag of
        [] \<Rightarrow> Inr (translatedComment, tag, ())
      | e # es \<Rightarrow> res_bind (convertLink sv currentNode (data e)) (\<lambda>link.
          sub_text sub (with_list tag es) (\<lambda>t.
            translatedComment @ ''{@link '' @ (if link = [] then data e else link) @ '' '' @ formatCommand t @ ''}'')))"

definition see_text :: "DoxygenEntity \<Rightarrow> string" where
  "see_text e =
     (if typeOfEntity e = ''plainstd::endl'' then []
      else if typeOfEntity e = ''&amp'' then ''&''
      else if typeOfEntity e = ''&lt'' then ''<''
      else if typeOfEntity e = ''&gt'' then ''>''
      else data e)"

fun find_str :: "string \<Rightarrow> string \<Rightarrow> nat option" where
  "find_str sep [] = None"
| "find_str sep (c # s) = (if take (length sep) (c # s) = sep then Some 0 else map_option Suc (find_str sep s))"

definition handleTagSee :: "services \<Rightarrow> Node \<Rightarrow> jd_handler" where
  "handleTagSee sv currentNode sub tag translatedComment arg =
     (if entityList tag = [] then Inr (translatedComment, tag, ())
      else let methodRef = concat (map see_text (entityList tag));
               ref = (case find_str ''::'' methodRef of
                        None \<Rightarrow> methodRef
                      | Some dblColon \<Rightarrow>
                          if (case find_first_of ''('' methodRef 0 of None \<Rightarrow> True | Some lbrace \<Rightarrow> dblColon < lbrace)
                          then take dblColon methodRef @ ''#'' @ drop (dblColon + 2) methodRef else methodRef)
           in map_sum id (\<lambda>link. (translatedComment @ ''@see '' @ (if link = [] then ref else link), tag, ())) (convertLink sv currentNode ref))"

section \<open>Tables and walk\<close>

datatype tagHandler =
    JdDoxyHtmlTag | JdHtmlEntity | JdNewLine | JdParagraph | JdPlainString | JdTagAnchor | JdTagChar | JdTagExtended
  | JdTagHtml | JdTagIf | JdTagImage | JdTagLink | JdTagMessage | JdTagPar | JdTagParam | JdTagRef | JdTagSame | JdTagSee
  | JdTagVerbatim

definition tagHandlers :: "(string \<times> tagHandler \<times> string) list" where
  "tagHandlers = [
     (''a'', JdTagHtml, ''i''),
     (''arg'', JdTagHtml, ''li''),
     (''b'', JdTagHtml, ''b''),
     (''c'', JdTagHtml, ''code''),
     (''cite'', JdTagHtml, ''i''),
     (''e'', JdTagHtml, ''i''),
     (''em'', JdTagHtml, ''i''),
     (''li'', JdTagHtml, ''li''),
     (''p'', JdTagHtml, ''code''),
     (''$'', JdTagChar, []),
     (''@'', JdTagChar, []),
     ([CHR 0x5C], JdTagChar, []),
     (''<'', JdTagChar, ''&lt;''),
     (''>'', JdTagChar, ''&gt;''),
     (''&'', JdTagChar, ''&amp;''),
     (''#'', JdTagChar, []),
     (''%'', JdTagChar, []),
     (''~'', JdTagChar, []),
     ([CHR 0x22], JdTagChar, ''&quot;''),
     (''.'', JdTagChar, []),
     (''::'', JdTagChar, []),
     (''attention'', JdParagraph, []),
     (''anchor'', JdTagAnchor, []),
     (''brief'', JdParagraph, []),
     (''bug'', JdParagraph, []),
     (''date'', JdParagraph, []),
     (''details'', JdParagraph, []),
     (''htmlonly'', JdParagraph, []),
     (''invariant'', JdParagraph, []),
     (''latexonly'', JdParagraph, []),
     (''manonly'', JdParagraph, []),
     (''partofdescription'', JdParagraph, []),
     (''rtfonly'', JdParagraph, []),
     (''short'', JdParagraph, []),
     (''xmlonly'', JdParagraph, []),
     (''author'', JdTagSame, []),
     (''authors'', JdTagSame, ''author''),
     (''deprecated'', JdTagSame, []),
     (''exception'', JdTagSame, []),
     (''package'', JdTagSame, []),
     (''param'', JdTagParam, []),
     (''tparam'', JdTagParam, []),
     (''ref'', JdTagRef, []),
     (''result'', JdTagSame, ''return''),
     (''return'', JdTagSame, []),
     (''returns'', JdTagSame, ''return''),
     (''since'', JdTagSame, []),
     (''throws'', JdTagSame, []),
     (''throw'', JdTagSame, ''throws''),
     (''version'', JdTagSame, []),
     (''code'', JdTagExtended, ''code''),
     (''cond'', JdTagMessage, ''Conditional comment: ''),
     (''copyright'', JdTagMessage, ''Copyright: ''),
     (''else'', JdTagIf, ''Else: ''),
     (''elseif'', JdTagIf, ''Else if: ''),
     (''endcond'', JdTagMessage, ''End of conditional comment.''),
     (''example'', JdTagSame, '' example''),
     (''if'', JdTagIf, ''If: ''),
     (''ifnot'', JdTagIf, ''If not: ''),
     (''image'', JdTagImage, []),
     (''link'', JdTagLink, []),
     (''see'', JdTagSee, []),
     (''sa'', JdTagSee, []),
     (''note'', JdTagMessage, ''Note: ''),
     (''overload'', JdTagMessage, ''This is an overloaded member function, provided for convenience. It differs from the above function only in what argument(s) it accepts.''),
     (''par'', JdTagPar, []),
     (''remark'', JdTagMessage, ''Remarks: ''),
     (''remarks'', JdTagMessage, ''Remarks: ''),
     (''todo'', JdTagMessage, ''TODO: ''),
     (''verbatim'', JdTagExtended, ''literal''),
     (''f$'', JdTagVerbatim, []),
     (''f['', JdTagVerbatim, []),
     (''f{'', JdTagVerbatim, []),
     (''warning'', JdTagMessage, ''Warning: ''),
     (''plainstd::string'', JdPlainString, []),
     (''plainstd::endl'', JdNewLine, []),
     (''n'', JdNewLine, []),
     (''<a'', JdDoxyHtmlTag, ''<a''),
     (''<b'', JdDoxyHtmlTag, ''<b''),
     (''<blockquote'', JdDoxyHtmlTag, ''<blockquote''),
     (''<body'', JdDoxyHtmlTag, ''<body''),
     (''<br'', JdDoxyHtmlTag, ''<br''),
     (''<center'', JdDoxyHtmlTag, ''<center''),
     (''<caption'', JdDoxyHtmlTag, ''<caption''),
     (''<code'', JdDoxyHtmlTag, ''<code''),
     (''<dd'', JdDoxyHtmlTag, ''<dd''),
     (''<dfn'', JdDoxyHtmlTag, ''<dfn''),
     (''<div'', JdDoxyHtmlTag, ''<div''),
     (''<dl'', JdDoxyHtmlTag, ''<dl''),
     (''<dt'', JdDoxyHtmlTag, ''<dt''),
     (''<em'', JdDoxyHtmlTag, ''<em''),
     (''<form'', JdDoxyHtmlTag, ''<form''),
     (''<hr'', JdDoxyHtmlTag, ''<hr''),
     (''<h1'', JdDoxyHtmlTag, ''<h1''),
     (''<h2'', JdDoxyHtmlTag, ''<h2''),
     (''<h3'', JdDoxyHtmlTag, ''<h3''),
     (''<i'', JdDoxyHtmlTag, ''<i''),
     (''<input'', JdDoxyHtmlTag, ''<input''),
     (''<img'', JdDoxyHtmlTag, ''<img''),
     (''<li'', JdDoxyHtmlTag, ''<li''),
     (''<meta'', JdDoxyHtmlTag, ''<meta''),
     (''<multicol'', JdDoxyHtmlTag, ''<multicol''),
     (''<ol'', JdDoxyHtmlTag, ''<ol''),
     (''<p'', JdDoxyHtmlTag, ''<p''),
     (''<pre'', JdDoxyHtmlTag, ''<pre''),
     (''<small'', JdDoxyHtmlTag, ''<small''),
     (''<span'', JdDoxyHtmlTag, ''<span''),
     (''<strong'', JdDoxyHtmlTag, ''<strong''),
     (''<sub'', JdDoxyHtmlTag, ''<sub''),
     (''<sup'', JdDoxyHtmlTag, ''<sup''),
     (''<table'', JdDoxyHtmlTag, ''<table''),
     (''<td'', JdDoxyHtmlTag, ''<td''),
     (''<th'', JdDoxyHtmlTag, ''<th''),
     (''<tr'', JdDoxyHtmlTag, ''<tr''),
     (''<tt'', JdDoxyHtmlTag, ''<tt''),
     (''<kbd'', JdDoxyHtmlTag, ''<kbd''),
     (''<ul'', JdDoxyHtmlTag, ''<ul''),
     (''<var'', JdDoxyHtmlTag, ''<var''),
     (''&copy'', JdHtmlEntity, ''&copy''),
     (''&trade'', JdHtmlEntity, ''&trade''),
     (''&reg'', JdHtmlEntity, ''&reg''),
     (''&lt'', JdHtmlEntity, ''&lt''),
     (''&gt'', JdHtmlEntity, ''&gt''),
     (''&amp'', JdHtmlEntity, ''&amp''),
     (''&apos'', JdHtmlEntity, ''&apos''),
     (''&quot'', JdHtmlEntity, ''&quot''),
     (''&lsquo'', JdHtmlEntity, ''&lsquo''),
     (''&rsquo'', JdHtmlEntity, ''&rsquo''),
     (''&ldquo'', JdHtmlEntity, ''&ldquo''),
     (''&rdquo'', JdHtmlEntity, ''&rdquo''),
     (''&ndash'', JdHtmlEntity, ''&ndash''),
     (''&mdash'', JdHtmlEntity, ''&mdash''),
     (''&nbsp'', JdHtmlEntity, ''&nbsp''),
     (''&times'', JdHtmlEntity, ''&times''),
     (''&minus'', JdHtmlEntity, ''&minus''),
     (''&sdot'', JdHtmlEntity, ''&sdot''),
     (''&sim'', JdHtmlEntity, ''&sim''),
     (''&le'', JdHtmlEntity, ''&le''),
     (''&ge'', JdHtmlEntity, ''&ge''),
     (''&larr'', JdHtmlEntity, ''&larr''),
     (''&rarr'', JdHtmlEntity, ''&rarr'')]"

definition call_handler :: "services \<Rightarrow> Node \<Rightarrow> tagHandler \<Rightarrow> jd_handler" where
  "call_handler sv currentNode h = (case h of
       JdDoxyHtmlTag \<Rightarrow> handleDoxyHtmlTag | JdHtmlEntity \<Rightarrow> handleHtmlEntity | JdNewLine \<Rightarrow> handleNewLine
     | JdParagraph \<Rightarrow> handleParagraph | JdPlainString \<Rightarrow> handlePlainString | JdTagAnchor \<Rightarrow> handleTagAnchor
     | JdTagChar \<Rightarrow> handleTagChar | JdTagExtended \<Rightarrow> handleTagExtended | JdTagHtml \<Rightarrow> handleTagHtml | JdTagIf \<Rightarrow> handleTagIf
     | JdTagImage \<Rightarrow> handleTagImage | JdTagLink \<Rightarrow> handleTagLink sv currentNode | JdTagMessage \<Rightarrow> handleTagMessage
     | JdTagPar \<Rightarrow> handleTagPar | JdTagParam \<Rightarrow> handleTagParam currentNode | JdTagRef \<Rightarrow> handleTagRef
     | JdTagSame \<Rightarrow> handleTagSame | JdTagSee \<Rightarrow> handleTagSee sv currentNode | JdTagVerbatim \<Rightarrow> handleTagVerbatim)"

definition translateEntity :: "services \<Rightarrow> Node \<Rightarrow> (string, unit) child" where
  "translateEntity sv currentNode sub tag translatedComment st =
     (case map_of tagHandlers (typeOfEntity tag) of
        None \<Rightarrow> Inr (translatedComment, tag, ())
      | Some (h, arg) \<Rightarrow> call_handler sv currentNode h sub tag translatedComment arg)"

definition translateSubtree :: "services \<Rightarrow> Node \<Rightarrow> DoxygenEntity \<Rightarrow> jd_result" where
  "translateSubtree sv currentNode e = tree_translate (translateEntity sv currentNode) [] (\<lambda>t. t) (height e) e ()"

section \<open>Line ends\<close>

definition is_endl :: "DoxygenEntity \<Rightarrow> bool" where
  "is_endl e \<longleftrightarrow> typeOfEntity e = ''plainstd::endl''"

text \<open>Below the root the line ends at the end of an entity are cut off and counted; the parent puts as many behind the
  entity.\<close>

fun shift_endlines :: "DoxygenEntity \<Rightarrow> DoxygenEntity \<times> nat" where
  "shift_endlines (DoxygenEntity t d leaf es) =
     (let es1 = concat (map (\<lambda>p. case shift_endlines p of (p1, n) \<Rightarrow> p1 # replicate n plain_endl) es);
          removedCount = length (takeWhile is_endl (rev es1))
      in (DoxygenEntity t d leaf (take (length es1 - removedCount) es1), removedCount))"

definition shifted :: "DoxygenEntity \<Rightarrow> DoxygenEntity list" where
  "shifted p = (case shift_endlines p of (p1, n) \<Rightarrow> p1 # replicate n plain_endl)"

definition shiftEndlinesUpTree :: "DoxygenEntity \<Rightarrow> DoxygenEntity" where
  "shiftEndlinesUpTree root = with_list root (concat (map shifted (entityList root)))"

definition strip_endlines :: "DoxygenEntity list \<Rightarrow> DoxygenEntity list" where
  "strip_endlines es = rev (dropWhile is_endl (rev (dropWhile is_endl es)))"

section \<open>Comments that are not translated\<close>

abbreviation (input) newlines :: "string \<Rightarrow> nat" where
  "newlines s \<equiv> length (filter (\<lambda>c. c = NL) s)"

definition decorate_line :: "string \<Rightarrow> nat \<Rightarrow> string \<Rightarrow> string \<times> nat option" where
  \<comment> \<open>one turn of the loop at the line end \<open>idx\<close>: the new text and the position from which the next line end is looked for\<close>
  "decorate_line indentStr idx s =
     (case find_first_not_of BLANKS s (idx + 1) of
        None \<Rightarrow> (s, None)
      | Some k \<Rightarrow>
          (if s ! k = CHR ''*'' then s
           else if s ! k \<noteq> NL then take k s @ ''* '' @ drop k s
           else take (idx + 1) s @ indentStr @ ''* '' @ drop k s, Some k))"

text \<open>A turn keeps the line ends after \<open>idx\<close>, so the loop ends: each turn moves to a later one.\<close>

lemma newlines_blanks: "find_first_not_of BLANKS s p = Some k \<Longrightarrow> newlines (drop p s) = newlines (drop k s)"
proof -
  assume a: "find_first_not_of BLANKS s p = Some k"
  have "drop k s = dropWhile (\<lambda>c. c \<in> set BLANKS) (drop p s)" using find_first_not_of_drop(1)[OF a] .
  moreover have "newlines xs = newlines (dropWhile (\<lambda>c. c \<in> set BLANKS) xs)" for xs by (induction xs) auto
  ultimately show ?thesis by simp
qed

lemma decorate_line_newlines:
  assumes "decorate_line ind idx s = (s1, Some k)" "idx < length s" "set ind \<subseteq> {CHR '' ''}"
  shows "idx < k \<and> newlines (drop (idx + 1) s1) = newlines (drop (idx + 1) s)"
proof -
  obtain f: "find_first_not_of BLANKS s (idx + 1) = Some k"
    using assms(1) by (auto simp: decorate_line_def split: option.splits)
  then have k: "idx + 1 \<le> k" "k < length s" using find_first_not_of_Some[OF f] by auto
  have ind: "newlines ind = 0" using assms(3) by (auto simp: filter_empty_conv)
  consider "s1 = s" | "s1 = take k s @ ''* '' @ drop k s" | "s1 = take (idx + 1) s @ ind @ ''* '' @ drop k s"
    using assms(1) f by (auto simp: decorate_line_def split: if_splits)
  then have "newlines (drop (idx + 1) s1) = newlines (drop (idx + 1) s)"
  proof cases
    case 2
    define u where "u = take (k - (idx + 1)) (drop (idx + 1) s)"
    have "drop (idx + 1) s1 = u @ ''* '' @ drop k s" unfolding 2 u_def using k by (simp add: drop_take)
    moreover have "drop (idx + 1) s = u @ drop k s"
      using k append_take_drop_id[of "k - (idx + 1)" "drop (idx + 1) s"] by (simp add: u_def)
    ultimately show ?thesis by simp
  next
    case 3
    have "drop (idx + 1) s1 = ind @ ''* '' @ drop k s" unfolding 3 using assms(2) by simp
    then show ?thesis using newlines_blanks[OF f] ind by simp
  qed simp
  then show ?thesis using k by simp
qed

lemma newlines_next:
  "find_first_of [NL] s k = Some i \<Longrightarrow> idx < k \<Longrightarrow> newlines (drop (i + 1) s) < newlines (drop (idx + 1) s)"
proof -
  assume a: "find_first_of [NL] s k = Some i" "idx < k"
  then have i: "k \<le> i" "i < length s" "s ! i = NL" using find_first_of_Some[of "[NL]" s k i] by auto
  have "drop i s = NL # drop (i + 1) s" using Cons_nth_drop_Suc[OF i(2)] i(3) by simp
  then have "newlines (drop i s) = Suc (newlines (drop (i + 1) s))" by simp
  moreover have "drop i s = drop (i - (idx + 1)) (drop (idx + 1) s)" using i a(2) by simp
  moreover have "newlines (drop m xs) \<le> newlines xs" for m xs
    by (metis append_take_drop_id filter_append le_add2 length_append)
  ultimately show ?thesis by (metis Suc_le_eq)
qed

function (sequential) decorate_lines :: "string \<Rightarrow> nat option \<Rightarrow> string \<Rightarrow> string" where
  \<comment> \<open>the guard only serves the termination proof: \<open>idx\<close> is the position of a line end, and the indentation is blank\<close>
  "decorate_lines ind None s = s"
| "decorate_lines ind (Some idx) s =
     (if idx < length s \<and> set ind \<subseteq> {CHR '' ''} then
        case decorate_line ind idx s of
          (s1, None) \<Rightarrow> s1
        | (s1, Some k) \<Rightarrow> decorate_lines ind (find_first_of [NL] s1 k) s1
      else s)"
  by pat_completeness auto

termination
proof (relation "measure (\<lambda>(ind, i, s). case i of None \<Rightarrow> 0 | Some idx \<Rightarrow> Suc (newlines (drop (idx + 1) s)))", goal_cases)
  case (2 ind idx s s1 y k)
  then have "decorate_line ind idx s = (s1, Some k)" "idx < length s" "set ind \<subseteq> {CHR '' ''}" by auto
  note d = decorate_line_newlines[OF this]
  then show ?case using newlines_next[of s1 k _ idx] by (auto split: option.splits)
qed simp

definition indentAndInsertAsterisks :: "string \<Rightarrow> string" where
  "indentAndInsertAsterisks doc =
     (let singleLineComment = (find_first_of [NL] doc 0 = None);
          indent0 = (case find_first_of [NL] doc 0 of
                       None \<Rightarrow> 0
                     | Some idx \<Rightarrow> (case find_first_not_of BLANKS doc (idx + 1) of None \<Rightarrow> 0 | Some k \<Rightarrow> k - idx));
          indent = (if indent0 = 0 then 1 else indent0);
          indentStr = replicate (indent - 1) (CHR '' '');
          first = indentStr @ ''/**'';
          s = (if indent > 1 then drop 1 first else first) @ doc;
          s1 = decorate_lines indentStr (find_first_of [NL] s 0) s;
          s2 = (case find_last_not_of BLANKS s1 of
                  None \<Rightarrow> s1
                | Some e \<Rightarrow> if s1 ! e \<noteq> NL then (if \<not> singleLineComment then s1 @ [NL] else s1) else take (e + 1) s1)
      in s2 @ indentStr @ ''*/'' @ [NL])"

section \<open>Documentation of a node\<close>

definition makeDocumentation :: "services \<Rightarrow> Node \<Rightarrow> DoxygenParser \<Rightarrow> (string \<times> DoxygenParser) res" where
  "makeDocumentation sv node ps =
     (case getDoxygenComment node of
        None \<Rightarrow> Inr ([], ps)
      | Some documentation \<Rightarrow>
          if GetFlag (attrs node) ''feature:doxygen:notranslate'' then Inr (indentAndInsertAsterisks documentation, ps)
          else res_bind (createTree documentation (doc_line node) (ps\<lparr>m_node := attrs node\<rparr>)) (\<lambda>(entityList, ps1).
               let root = shiftEndlinesUpTree (entityN ''root'' entityList) in
               res_bind (translateSubtree sv node (with_list root (strip_endlines (DoxygenEntity.entityList root)))) (\<lambda>(t, _, _).
                 Inr (''/**'' @ [NL] @ '' * '' @ t @ [NL] @ '' */'' @ [NL], ps1))))"

section \<open>The walk ends\<close>

definition has_jstypes :: "services \<Rightarrow> bool" where
  \<comment> \<open>every type has a \<^verbatim>\<open>jstype\<close> typemap\<close>
  "has_jstypes sv \<longleftrightarrow> (\<forall>t. jstype_lookup sv t \<noteq> None)"

lemma map_sum_id_Inl: "map_sum id f r = Inl e \<longleftrightarrow> r = Inl e"
  by (cases r) auto

lemma convert_params_Inl: "convert_params sv ps = Inl f \<Longrightarrow> f = NullDeref \<and> \<not> has_jstypes sv"
  by (induction ps) (auto simp: map_sum_id_Inl has_jstypes_def split: option.splits)

lemma convertLink_Inl: "convertLink sv n l = Inl f \<Longrightarrow> f = NullDeref \<and> \<not> has_jstypes sv"
  unfolding convertLink_def
  by (auto simp: map_sum_id_Inl split: if_splits option.splits prod.splits dest: convert_params_Inl)

lemma sub_text_shrinks:
  assumes "shrinks F P e (sub e ())" "height e \<le> height p"
  shows "shrinks F P p (sub_text sub e f)"
  unfolding sub_text_def using assms(2) by (intro shrinks_bind[OF assms(1)]) auto

lemma jd_handler_shrinks:
  assumes sub: "\<And>e s. all_types (\<lambda>_. True) e \<Longrightarrow> height e \<le> height p \<Longrightarrow> shrinks F (\<lambda>_. True) e (sub e s)"
    and N: "has_jstypes sv \<or> NullDeref \<in> F"
  shows "shrinks F (\<lambda>_. True) p (call_handler sv n h sub p t arg)"
proof -
  have T: "all_types (\<lambda>_. True) e" for e by (induction e) (simp add: list_all_iff)
  have txts: "shrinks F (\<lambda>_. True) p (sub_text sub e f)" if "height e \<le> height p" for e f
    by (rule sub_text_shrinks[of F _ e sub, OF sub[OF T that] that])
  have tail: "height (with_list p es) \<le> height p" if "set es \<subseteq> set (entityList p)" for es
    using with_list_shrinks[OF T that] by simp
  have html: "shrinks F (\<lambda>_. True) p (handleTagHtml sub p t arg)"
    unfolding handleTagHtml_def using T by (auto intro!: shrinks_bind[OF sub] txts split: option.splits)
  have link: "shrinks F (\<lambda>_. True) p (handleTagLink sv n sub p t arg)"
  proof (cases "entityList p")
    case (Cons e es)
    then show ?thesis using N T tail[of es] convertLink_Inl[of sv n "data e"] txts
      by (cases "convertLink sv n (data e)") (auto simp: handleTagLink_def)
  qed (use T in \<open>simp add: handleTagLink_def\<close>)
  have see: "shrinks F (\<lambda>_. True) p (handleTagSee sv n sub p t arg)"
    using T N convertLink_Inl[of sv n] by (auto simp: handleTagSee_def Let_def shrinks_def map_sum_def split: sum.splits)
  have same: "shrinks F (\<lambda>_. True) p (handleTagSame sub p t arg)"
    unfolding handleTagSame_def Let_def by (rule txts) (simp add: height_eq)
  have lists: "shrinks F (\<lambda>_. True) p (handleTagIf sub p t arg)" "shrinks F (\<lambda>_. True) p (handleTagPar sub p t arg)"
    "shrinks F (\<lambda>_. True) p (handleTagParam n sub p t arg)" "shrinks F (\<lambda>_. True) p (handleTagRef sub p t arg)"
    using T tail txts by (auto simp: handleTagIf_def handleTagPar_def handleTagParam_def handleTagRef_def handleParagraph_def
        subset_insertI split: list.splits)
  have image: "shrinks F (\<lambda>_. True) p (handleTagImage sub p t arg)"
    using T by (auto simp: handleTagImage_def Let_def split: list.splits)
  show ?thesis
    by (cases h) (use T html link see same lists image txts in
      \<open>simp_all add: call_handler_def handleDoxyHtmlTag_def handleHtmlEntity_def handleNewLine_def handleParagraph_def
        handlePlainString_def handleTagAnchor_def handleTagChar_def handleTagExtended_def handleTagMessage_def handleTagVerbatim_def\<close>)
qed

interpretation jd_walk: tree_translator "translateEntity sv n" "{f. f = NullDeref \<and> \<not> has_jstypes sv}" "\<lambda>_. True" for sv n
proof
  fix p :: DoxygenEntity and sub :: "unit subtree" and a :: string and s :: unit
  assume "\<And>e s. all_types (\<lambda>_. True) e \<Longrightarrow> height e \<le> height p \<Longrightarrow> shrinks {f. f = NullDeref \<and> \<not> has_jstypes sv} (\<lambda>_. True) e (sub e s)"
    "all_types (\<lambda>_. True) p"
  then show "shrinks {f. f = NullDeref \<and> \<not> has_jstypes sv} (\<lambda>_. True) p (translateEntity sv n sub p a s)"
    unfolding translateEntity_def by (auto split: option.splits intro!: jd_handler_shrinks)
qed

section \<open>Moving line ends\<close>

fun endl_leaves :: "DoxygenEntity \<Rightarrow> bool" where
  \<comment> \<open>an end of line has no children, as in every tree of the parser\<close>
  "endl_leaves (DoxygenEntity t d leaf es) \<longleftrightarrow> (t = ''plainstd::endl'' \<longrightarrow> es = []) \<and> list_all endl_leaves es"

fun closed :: "DoxygenEntity \<Rightarrow> bool" where
  \<comment> \<open>no entity ends with an end of line\<close>
  "closed (DoxygenEntity t d leaf es) \<longleftrightarrow> (es \<noteq> [] \<longrightarrow> \<not> is_endl (last es)) \<and> list_all closed es"

lemma take_takeWhile_rev:
  "xs = take (length xs - length (takeWhile P (rev xs))) xs @ rev (takeWhile P (rev xs))"
  "take (length xs - length (takeWhile P (rev xs))) xs = rev (dropWhile P (rev xs))"
proof -
  have "xs = rev (dropWhile P (rev xs)) @ rev (takeWhile P (rev xs))"
    by (metis rev_append rev_rev_ident takeWhile_dropWhile_id)
  then show "take (length xs - length (takeWhile P (rev xs))) xs = rev (dropWhile P (rev xs))"
    by (metis append_eq_conv_conj length_append length_rev add_diff_cancel_right')
  then show "xs = take (length xs - length (takeWhile P (rev xs))) xs @ rev (takeWhile P (rev xs))"
    using \<open>xs = rev (dropWhile P (rev xs)) @ rev (takeWhile P (rev xs))\<close> by simp
qed

lemma flats_endls: "list_all (\<lambda>e. is_endl e \<and> endl_leaves e) xs \<Longrightarrow> concat (map flat xs) = replicate (length xs) NL"
proof (induction xs)
  case (Cons x xs)
  then show ?case by (cases x) (simp add: is_endl_def)
qed simp

lemma shift_endlines_eq:
  "shift_endlines (DoxygenEntity t d leaf es) =
    (DoxygenEntity t d leaf (rev (dropWhile is_endl (rev (concat (map shifted es))))), length (takeWhile is_endl (rev (concat (map shifted es)))))"
  by (simp add: Let_def take_takeWhile_rev(2) shifted_def[abs_def])

lemma shift_spec:
  "endl_leaves e \<Longrightarrow> case shift_endlines e of (e', n) \<Rightarrow>
     flat e' @ replicate n NL = flat e \<and> closed e' \<and> endl_leaves e' \<and> typeOfEntity e' = typeOfEntity e"
proof (induction e)
  case (DoxygenEntity t d leaf es)
  define L where "L = concat (map shifted es)"
  have child: "concat (map flat (shifted p)) = flat p \<and> list_all closed (shifted p) \<and> list_all endl_leaves (shifted p)" if "p \<in> set es" for p
    using DoxygenEntity.IH[OF that] DoxygenEntity.prems that
    by (auto simp: shifted_def list_all_iff entity0_def map_replicate_const concat_replicate_single split: prod.splits)
  then have L23: "list_all closed L" "list_all endl_leaves L" unfolding L_def by (auto simp: list_all_iff)
  have "concat (map flat (concat (map shifted xs))) = concat (map flat xs)" if "set xs \<subseteq> set es" for xs
    using that child by (induction xs) auto
  then have L: "concat (map flat L) = concat (map flat es)" "list_all closed L" "list_all endl_leaves L"
    using L23 by (simp_all add: L_def)
  define A B where "A = rev (dropWhile is_endl (rev L))" and "B = rev (takeWhile is_endl (rev L))"
  have AB: "L = A @ B" unfolding A_def B_def by (metis rev_append rev_rev_ident takeWhile_dropWhile_id)
  have "list_all (\<lambda>e. is_endl e \<and> endl_leaves e) B"
    using L(3) unfolding B_def by (auto simp: list_all_iff dest: set_takeWhileD)
  then have "concat (map flat B) = replicate (length B) NL" by (rule flats_endls)
  moreover have "A \<noteq> [] \<longrightarrow> \<not> is_endl (last A)"
    using hd_dropWhile[of is_endl "rev L"] by (auto simp: A_def last_rev)
  moreover have "es = [] \<Longrightarrow> A = []" by (simp add: A_def L_def)
  moreover have "concat (map flat A) @ concat (map flat B) = concat (map flat es)" using L(1) AB by simp
  moreover have "list_all closed A" "list_all endl_leaves A" using L(2,3) AB by simp_all
  moreover have "shift_endlines (DoxygenEntity t d leaf es) = (DoxygenEntity t d leaf A, length B)"
    by (simp only: shift_endlines_eq L_def[symmetric] A_def B_def length_rev)
  ultimately show ?case using DoxygenEntity.prems by simp
qed

section \<open>Plain comments\<close>

definition BR :: string where
  \<comment> \<open>what a line end becomes\<close>
  "BR = ''<br>'' @ [NL] @ '' * ''"

abbreviation (input) jd_entity :: "string \<Rightarrow> DoxygenEntity \<Rightarrow> string" where
  "jd_entity \<equiv> read_entity (\<lambda>a s. a @ s) (\<lambda>a. a @ BR)"

abbreviation (input) jd_root :: "string \<Rightarrow> DoxygenEntity \<Rightarrow> string" where
  "jd_root \<equiv> read_root (\<lambda>a s. a @ s) (\<lambda>a. a @ BR)"

interpretation jd_reader: text_reader "\<lambda>a s. a @ s" "\<lambda>a. a @ BR"
  by unfold_locales simp_all

lemma jd_entities_append: "foldl jd_entity (a @ b) l = a @ foldl jd_entity b l"
proof (induction l arbitrary: b)
  case (Cons e l)
  have "jd_entity (a @ b) e = a @ jd_entity b e" by (simp add: read_entity_def)
  then show ?case using Cons by simp
qed simp

lemma jd_roots_append: "foldl jd_root (a @ b) l = a @ foldl jd_root b l"
  by (induction l arbitrary: b) (simp_all add: read_root_def jd_entities_append)

definition plain_block :: "DoxygenEntity \<Rightarrow> bool" where
  "plain_block x \<longleftrightarrow> x = plain_endl \<or> (\<exists>l. x = entityN ''partofdescription'' l \<and> list_all plain_entity l)"

lemma is_endl_simps [simp]: "is_endl plain_endl" "\<not> is_endl (plain_string s)" "\<not> is_endl (entityN ''partofdescription'' l)"
  by (simp_all add: is_endl_def entity0_def entity1_def entityN_def)

lemma endls: "list_all plain_block l \<or> list_all plain_entity l \<Longrightarrow> list_all is_endl l \<Longrightarrow> l = replicate (length l) plain_endl"
  by (induction l) (auto simp: plain_block_def plain_entity_def)

lemma list_all_takeWhile: "list_all P (takeWhile P xs)"
  by (auto simp: list_all_iff dest: set_takeWhileD)

lemma shifted_plain: "plain_entity p \<Longrightarrow> shifted p = [p]"
  by (auto simp: plain_entity_def shifted_def entity0_def entity1_def)

lemma foldl_endls: "foldl jd_root a (replicate n plain_endl) = foldl jd_entity a (replicate n plain_endl)"
  by (induction n arbitrary: a) simp_all

lemma shifted_root:
  assumes "plain_root x"
  shows "list_all plain_block (shifted x) \<and> foldl jd_root a (shifted x) = jd_root a x"
proof (cases "x = plain_endl")
  case True
  then show ?thesis using shifted_plain[of x] by (simp add: plain_block_def plain_entity_def)
next
  case False
  then obtain l where x: "x = entityN ''partofdescription'' l" and l: "list_all plain_entity l"
    using assms by (auto simp: plain_root_def closed_para_def)
  have c: "concat (map shifted l) = l" using l by (induction l) (auto simp: shifted_plain)
  define A B where "A = rev (dropWhile is_endl (rev l))" and "B = takeWhile is_endl (rev l)"
  have AB: "l = A @ rev B" unfolding A_def B_def by (metis rev_append rev_rev_ident takeWhile_dropWhile_id)
  have "list_all plain_entity A" "list_all plain_entity B" using l unfolding AB by (simp_all add: list_all_iff)
  moreover have "list_all is_endl B" by (simp add: B_def list_all_takeWhile)
  ultimately have B: "B = replicate (length B) plain_endl" and A: "list_all plain_entity A" using endls by auto
  have s: "shifted x = entityN ''partofdescription'' A # replicate (length B) plain_endl"
    by (simp only: shifted_def x entityN_def shift_endlines_eq c prod.case A_def B_def)
  have "rev B = replicate (length B) plain_endl" by (subst B) (simp only: rev_replicate)
  then have "foldl jd_entity a l = foldl jd_entity (foldl jd_entity a A) (replicate (length B) plain_endl)"
    using AB by (metis foldl_append)
  then show ?thesis unfolding s using A by (auto simp: x plain_block_def foldl_endls list_all_iff)
qed

lemma shifted_roots:
  "list_all plain_root l \<Longrightarrow> list_all plain_block (concat (map shifted l)) \<and> foldl jd_root a (concat (map shifted l)) = foldl jd_root a l"
  by (induction l arbitrary: a) (auto simp: shifted_root)

lemma strip_endlines_read:
  assumes "list_all plain_block l"
  shows "\<exists>k m. list_all plain_block (strip_endlines l) \<and>
    foldl jd_root [] l = concat (replicate k BR) @ foldl jd_root [] (strip_endlines l) @ concat (replicate m BR)"
proof -
  define P where "P = takeWhile is_endl l"
  define R where "R = dropWhile is_endl l"
  define S where "S = rev (takeWhile is_endl (rev R))"
  have R: "R = strip_endlines l @ S" unfolding S_def strip_endlines_def R_def[symmetric]
    by (metis rev_append rev_rev_ident takeWhile_dropWhile_id)
  have l: "l = P @ strip_endlines l @ S" using R takeWhile_dropWhile_id[of is_endl l] unfolding P_def R_def by metis
  then have b: "list_all plain_block P" "list_all plain_block S" "list_all plain_block (strip_endlines l)"
    using assms by (metis list_all_append)+
  have "list_all is_endl P" "list_all is_endl S" by (simp_all add: P_def S_def list_all_takeWhile)
  then have e: "P = replicate (length P) plain_endl" "S = replicate (length S) plain_endl" using b endls by blast+
  have f: "foldl jd_root a (replicate n plain_endl) = a @ concat (replicate n BR)" for a n
    by (induction n arbitrary: a) simp_all
  have "foldl jd_root [] l = foldl jd_root (foldl jd_root (foldl jd_root [] P) (strip_endlines l)) S" using l by (metis foldl_append)
  also have "foldl jd_root [] P = concat (replicate (length P) BR) @ []" using f[of "[]" "length P"] e(1) by simp
  also have "foldl jd_root (concat (replicate (length P) BR) @ []) (strip_endlines l) =
      concat (replicate (length P) BR) @ foldl jd_root [] (strip_endlines l)" by (rule jd_roots_append)
  finally show ?thesis using f[of _ "length S"] e(2) b(3) by (metis append_assoc)
qed

lemma jd_handlers_of:
  "map_of tagHandlers ''plainstd::endl'' = Some (JdNewLine, [])" "map_of tagHandlers ''plainstd::string'' = Some (JdPlainString, [])"
  "map_of tagHandlers ''partofdescription'' = Some (JdParagraph, [])"
  by code_simp+

lemma jd_child_plain: "plain_entity e \<Longrightarrow> translateEntity sv n sub e a () = Inr (jd_entity a e, e, ())"
  by (auto simp: plain_entity_def translateEntity_def entity0_def entity1_def jd_handlers_of call_handler_def handleNewLine_def
      handlePlainString_def read_entity_def BR_def)

lemma jd_plain_leaf: "plain_entity e \<Longrightarrow> isLeaf e"
  by (auto simp: plain_entity_def entity0_def entity1_def)

lemma jd_loop_plain:
  "list_all plain_entity l \<Longrightarrow>
   tree_loop (translateEntity sv n) (tree_translate (translateEntity sv n) a0 out (Suc k)) l a () = Inr (foldl jd_entity a l, l, ())"
  by (induction l arbitrary: a) (simp_all add: jd_child_plain jd_plain_leaf)

lemma block_translates:
  assumes "list_all plain_entity l" "height (entityN t l) \<le> k"
  shows "tree_translate (translateEntity sv n) [] (\<lambda>t. t) k (entityN t l) () = Inr (foldl jd_entity [] l, entityN t l, ())"
proof (cases l)
  case Nil
  then show ?thesis using assms(2) by (cases k) (simp_all add: entityN_def with_list_def)
next
  case (Cons e es)
  have "Suc (height e) \<le> k" using assms(2) heights_le[of l "heights l"] Cons by (simp add: entityN_def)
  then obtain j where "k = Suc (Suc j)" using height_eq[of e] by (metis Suc_le_D Suc_le_mono)
  then show ?thesis using jd_loop_plain[OF assms(1), of sv n "[]" "\<lambda>t. t" j "[]"] by (simp add: entityN_def with_list_def)
qed

lemma block_loop:
  "list_all plain_block l \<Longrightarrow> \<forall>x \<in> set l. height x \<le> k \<Longrightarrow>
   tree_loop (translateEntity sv n) (tree_translate (translateEntity sv n) [] (\<lambda>t. t) k) l a () = Inr (foldl jd_root a l, l, ())"
proof (induction l arbitrary: a)
  case (Cons x l)
  let ?sub = "tree_translate (translateEntity sv n) [] (\<lambda>t. t) k"
  have "translateEntity sv n ?sub x a () = Inr (jd_root a x, x, ()) \<and> (\<exists>t. ?sub x () = Inr (t, x, ()))"
  proof (cases "x = plain_endl")
    case True
    then obtain j where "k = Suc j" using Cons.prems(2) by (cases k) (auto simp: entity0_def)
    then show ?thesis using True jd_child_plain[of x] jd_plain_leaf[of x] by (simp add: plain_entity_def)
  next
    case False
    then obtain ps where x: "x = entityN ''partofdescription'' ps" "list_all plain_entity ps" using Cons.prems(1) by (auto simp: plain_block_def)
    have "?sub x () = Inr (foldl jd_entity [] ps, x, ())" using block_translates[OF x(2)] Cons.prems(2) x(1) by simp
    then show ?thesis using jd_entities_append[of a "[]" ps]
      by (simp add: x translateEntity_def entityN_def jd_handlers_of call_handler_def handleParagraph_def sub_text_def formatCommand_def
        read_root_def)
  qed
  then show ?case using Cons by auto
qed simp

section \<open>Properties\<close>

text \<open>C27: The walk over a tree returns a text for every tree, when every type has a \<^verbatim>\<open>jstype\<close> typemap; without
  that the only other end is the use of the missing typemap.\<close>

theorem javadoc_total:
  "(has_jstypes sv \<longrightarrow> (\<exists>r. translateSubtree sv n e = Inr r)) \<and> (\<forall>f. translateSubtree sv n e = Inl f \<longrightarrow> f = NullDeref)"
proof -
  have "all_types (\<lambda>_. True) e" by (induction e) (simp add: list_all_iff)
  then have "shrinks {f. f = NullDeref \<and> \<not> has_jstypes sv} (\<lambda>_. True) e (translateSubtree sv n e)"
    using jd_walk.translate_shrinks[of e "height e" sv n "[]" "\<lambda>t. t" "()"] by (simp add: translateSubtree_def)
  then show ?thesis by (cases "translateSubtree sv n e") (auto simp: shrinks_def)
qed

abbreviation jd_services :: services where
  "jd_services \<equiv> \<lparr>doctype_lookup = (\<lambda>_ _. None), jstype_lookup = (\<lambda>t. Some t), SwigType_str = (\<lambda>t. t),
     classLookup = (\<lambda>_. False), Swig_scopename_last = (\<lambda>t. t)\<rparr>"

abbreviation jd_node :: "string \<Rightarrow> Node" where
  "jd_node c \<equiv> \<lparr>attrs = [''doxygen'' \<mapsto> c], parms = [], doc_line = 1, sym_overloaded = None, defaultargs = None\<rparr>"

theorem javadoc_total_witness:
  "\<exists>r. translateSubtree jd_services (jd_node []) (entityN ''root'' [entityN ''link'' [plain_string ''f(int*)'', plain_endl]]) = Inr r"
  using javadoc_total[of jd_services] by (simp add: has_jstypes_def)

text \<open>C28: Moving the line ends up the tree keeps the text of the tree, and afterwards no entity below the root ends with
  a line end.\<close>

theorem shift_endlines_keeps_text:
  assumes "list_all endl_leaves (entityList root)" "typeOfEntity root = ''root''" "data root = []"
  shows "flat (shiftEndlinesUpTree root) = flat root \<and> list_all closed (entityList (shiftEndlinesUpTree root))"
proof -
  have s: "concat (map flat (shifted p)) = flat p \<and> list_all closed (shifted p)" if "endl_leaves p" for p
    using shift_spec[OF that] by (auto simp: shifted_def list_all_iff entity0_def map_replicate_const concat_replicate_single split: prod.splits)
  have "concat (map flat (concat (map shifted es))) = concat (map flat es) \<and> list_all closed (concat (map shifted es))"
    if "list_all endl_leaves es" for es
    using that s by (induction es) auto
  then show ?thesis using assms by (cases root) (simp add: shiftEndlinesUpTree_def with_list_def)
qed

theorem shift_endlines_keeps_text_witness:
  "let root = entityN ''root'' [entityN ''param'' [plain_string ''x'', plain_endl], plain_string ''y''] in
   flat (shiftEndlinesUpTree root) = ''x'' @ [NL] @ ''y'' \<and> list_all closed (entityList (shiftEndlinesUpTree root))"
  using shift_endlines_keeps_text[of "entityN ''root'' [entityN ''param'' [plain_string ''x'', plain_endl], plain_string ''y'']"]
  by (simp add: entityN_def entity0_def entity1_def)



text \<open>Two defects on concrete inputs. The type of a link parameter is lost when a blank separates it from a pointer
  or reference sign, since the length of the type name wraps around. And after a blank line that is longer than the
  indentation the next line of an untranslated comment gets no asterisk.\<close>

theorem javadoc_link_and_asterisk_defects:
  "convertLink jd_services (jd_node []) ''f(int*,Foo&)'' = Inr ''f(p.int,r.Foo)'' \<and>
   convertLink jd_services (jd_node []) ''f(int *,Foo &)'' = Inr ''f(p.*,r.&)'' \<and>
   indentAndInsertAsterisks (''a'' @ [NL] @ ''  b'' @ [NL] @ '' '' @ [NL] @ ''  c'') =
     '' /**a'' @ [NL] @ ''  * b'' @ [NL] @ ''  * '' @ [NL] @ ''  * c'' @ [NL] @ ''  */'' @ [NL] \<and>
   indentAndInsertAsterisks (''a'' @ [NL] @ ''  b'' @ [NL] @ ''        '' @ [NL] @ ''  c'') =
     '' /**a'' @ [NL] @ ''  * b'' @ [NL] @ ''  * '' @ [NL] @ ''  c'' @ [NL] @ ''  */'' @ [NL]"
  by (intro conjI; code_simp)

end
