(* ===== verification/Spec2Isabelle.thy ===== *)
theory Spec2Isabelle
  imports Swig_Prelude Doh_String Doh_Replace Doh_Replace_Laws Doh_Memory Doh_List Doh_Hash Swig_Tree Swig_WrapFunc Swig_TypeObj Swig_Tokens Swig_Scanner Swig_Scanner_Laws Cpp_Expr Cpp_Eval Doxy_Tokenizer Doxy_Parser Doxy_Translator Doxy_PyDoc Doxy_JavaDoc
begin

text \<open>
  SWIG reads C++ interface files and writes wrapper code for a target language. The program is a
  pipeline: the preprocessor (\<^verbatim>\<open>Source/Preprocessor\<close>) expands the text, the scanner and the parser
  (\<^verbatim>\<open>Source/CParse\<close>, \<^verbatim>\<open>Source/Swig/scanner.c\<close>) build a tree of nodes, the core (\<^verbatim>\<open>Source/Swig\<close>) gives the
  nodes types, symbols and typemaps, \<^verbatim>\<open>Source/Doxygen\<close> translates their comments, and a language module
  (\<^verbatim>\<open>Source/Modules\<close>) walks over the tree and prints. Every stage keeps its data in the objects of
  \<^verbatim>\<open>Source/DOH\<close>: reference counted strings, lists and hash tables. This development models the parts of the
  pipeline that hold its own data structures and algorithms, from the objects upwards.

  \<^bold>\<open>Conventions.\<close> A C function that can stop the process has a result in \<open>fatal + 'a\<close> (\<open>Swig_Prelude\<close>): failed
  assertions, null pointers, accesses outside a block, use of freed objects, loops that do not end and undefined
  arithmetic are values, so that a theorem that says \<open>Inr\<close> says that the code is memory safe. A struct is a record
  with the fields of the source; a \<^verbatim>\<open>char *\<close> is the text from there to its terminator, except in \<open>Doh_String\<close>,
  where it is an offset into the allocated block. Object references are addresses into a store.

  \<^bold>\<open>The theories, in the order of the imports.\<close>
  \<^item> \<open>Swig_Prelude\<close>: outcomes, \<^verbatim>\<open>ctype.h\<close>, \<^verbatim>\<open>string.h\<close>, nesting of parentheses, the lemma collections.
  \<^item> \<open>Doh_String\<close> (\<^verbatim>\<open>DOH/string.c\<close>): the String object over its memory block, one definition per function. The invariant
    \<open>wf_string\<close> and the line counter (\<open>drift\<close>) are kept; every operation is memory safe and computes a list
    operation on the text. The locale \<open>text_object\<close> is the contract its clients use.
  \<^item> \<open>Doh_Replace\<close>, \<open>Doh_Replace_Laws\<close> (the replacement functions of \<^verbatim>\<open>DOH/string.c\<close>): the six matchers, the loops of
    \<^verbatim>\<open>replace_simple\<close> over the memory block in both directions of growth, and what they compute: \<open>splice_at\<close> puts the
    replacement at the occurrences the matcher finds.
  \<^item> \<open>Doh_Memory\<close> (\<^verbatim>\<open>DOH/memory.c\<close>, \<^verbatim>\<open>dohint.h\<close>, \<^verbatim>\<open>base.c\<close>): pools, the free list, the 28-bit reference counts as words.
    \<open>counted Z m W\<close> says that every count equals the number of references in \<open>W\<close>; the locale \<open>ref_store\<close> gives the laws
    of taking and releasing references that lists and hash tables rest on. The counts are words of 28 bits; the
    hypothesis \<open>room\<close> of the theorems bounds the number of references below \<open>2 ^ 28\<close>, where they wrap around.
  \<^item> \<open>Doh_List\<close>, \<open>Doh_Hash\<close> (\<^verbatim>\<open>DOH/list.c\<close>, \<^verbatim>\<open>DOH/hash.c\<close>, the attribute functions of \<^verbatim>\<open>base.c\<close>): both containers over the
    store, with refinement theorems to HOL lists and maps that also say that the counts stay right. The fuel of
    the iteration over a hash table is the number of its items plus one, one turn per item.
  \<^item> \<open>Swig_Tree\<close> (\<^verbatim>\<open>Swig/tree.c\<close>): the five links of the nodes, the functions that change them, and the views that
    save and restore attributes. Trees that a program builds are an inductive set; in each the links agree with lists
    of children. The order in which a hash table lists its keys is a parameter.
  \<^item> \<open>Swig_WrapFunc\<close> (\<^verbatim>\<open>Swig/wrapfunc.c\<close>): wrapper functions with their locals, the pretty printer and the compact
    printer as state machines over the characters.
  \<^item> \<open>Swig_TypeObj\<close> (\<^verbatim>\<open>Swig/typeobj.c\<close>): types as strings of operators; scanning, splitting, constructors and
    destructors, qualifiers, functions, arrays, templates. Elements and their encoding are the abstract type.
  \<^item> \<open>Swig_Tokens\<close>, \<open>Swig_Scanner\<close>, \<open>Swig_Scanner_Laws\<close> (\<^verbatim>\<open>Swig/swigscan.h\<close>, \<^verbatim>\<open>Swig/scanner.c\<close>): the scanner, one definition
    for every state of \<^verbatim>\<open>look\<close>, with escapes, raw strings, skipping, lookahead and the locators. It ends by the measure
    \<open>credit\<close>: the characters that are left and those that may be put back. The locale \<open>bracket_machine\<close> is the
    contract of the two functions that skip text between brackets. The fuel of \<open>read_tokens\<close> is the number of
    characters plus one, since every token but the last takes a character.
  \<^item> \<open>Cpp_Expr\<close>, \<open>Cpp_Eval\<close> (\<^verbatim>\<open>Preprocessor/expr.c\<close>): the shift-reduce evaluator on its stack of 256 slots, first on
    tokens, then on a text, which the scanner reads. Expressions and their printed form are the specification;
    the height of an expression is bounded by the stack.
  \<^item> \<open>Doxy_Tokenizer\<close>, \<open>Doxy_Parser\<close> (\<^verbatim>\<open>Doxygen/doxyparser.cxx\<close>): from a comment to tokens to a tree. The parser is
    total by the number of tokens that are left; the locales \<open>recursive_call\<close> and \<open>safe_call\<close> carry the facts that every
    command handler uses of the recursive call.
  \<^item> \<open>Doxy_Translator\<close>, \<open>Doxy_PyDoc\<close>, \<open>Doxy_JavaDoc\<close> (\<^verbatim>\<open>doxytranslator.cxx\<close>, \<^verbatim>\<open>pydoc.cxx\<close>, \<^verbatim>\<open>javadoc.cxx\<close>): the walk over the
    tree that both translators share (locale \<open>tree_translator\<close>, by the height of the tree), their handlers, and the
    text they write for plain comments (locale \<open>text_reader\<close>). Typemap lookup, C spelling of types and class
    lookup come from other stages and are the parameter \<open>services\<close>.

  \<^bold>\<open>The lemmas.\<close> In each theory the definitions come first, then helper lemmas by operation, then the properties,
  each with a witness at a concrete input. Where the code departs from its intention, the theorem states what the
  code does.

  \<^bold>\<open>Not modelled.\<close> The language modules, the bison-generated parser and its interface to the scanner
  (\<^verbatim>\<open>CParse/cscanner.c\<close>), the macro expander, symbol tables and typemaps, file access and printing of objects for debugging, the compiler cache
  \<^verbatim>\<open>CCache\<close> (process control and file locks), the SWIG library and the examples (no implementation of
  SWIG), and the generated bindings under \<^verbatim>\<open>Source/Modules/ada\<close>.
\<close>

end
